(* ===== verification/Prelude.thy ===== *)
theory Prelude
  imports Main "HOL-Library.Word"
begin

text \<open>
  Shared vocabulary of the development: the C types the sources use, undefined behaviour and
  failed assertions as values of a sum type, C strings in memory, the allocator, and the generic
  list and word lemmas the components need. A C \<open>char\<close> is a HOL \<open>char\<close> (eight bits); a
  buffer is the \<open>string\<close> of all its bytes, so a C string in a buffer ends at the first NUL.
\<close>

section \<open>C types\<close>

type_synonym u32 = "32 word"
type_synonym u64 = "64 word"

abbreviation NUL :: char where "NUL \<equiv> CHR 0x00"
abbreviation CR :: char where "CR \<equiv> CHR 0x0D"
abbreviation LF :: char where "LF \<equiv> CHR 0x0A"

text \<open>The numeric value of a plain C \<open>char\<close>, which is signed on the platforms of the Makefile.\<close>

definition schar :: "char \<Rightarrow> int" where
  "schar c = (let n = (of_char c :: int) in if n < 128 then n else n - 256)"

section \<open>Undefined behaviour and assertions\<close>

text \<open>
  An operation that may leave the domain where C defines its meaning returns \<open>Inl\<close> of the reason,
  and \<open>Inr\<close> of its result otherwise. \<open>OutOfFuel\<close> is not a behaviour of the program: it is the value of
  a bounded loop that has not finished, and the theorems show it does not occur.
\<close>

datatype fault =
    OutOfBounds
  | WildPointer
  | NullDeref
  | UseAfterFree
  | DoubleFree
  | DivByZero
  | ReadOnlyStore
  | AssertFailed
  | OutOfFuel

type_synonym 'a res = "fault + 'a"

fun bind_res :: "'a res \<Rightarrow> ('a \<Rightarrow> 'b res) \<Rightarrow> 'b res" where
  "bind_res (Inl e) f = Inl e"
| "bind_res (Inr x) f = f x"

lemma bind_res_Inr [simp]:
  "(bind_res m f = Inr y) \<longleftrightarrow> (\<exists>x. m = Inr x \<and> f x = Inr y)"
  by (cases m) auto

lemma bind_res_cong [fundef_cong]:
  "m = m' \<Longrightarrow> (\<And>x. m' = Inr x \<Longrightarrow> f x = f' x) \<Longrightarrow> bind_res m f = bind_res m' f'"
  by (cases m') auto

lemma bind_res_assoc: "bind_res (bind_res m f) g = bind_res m (\<lambda>x. bind_res (f x) g)"
  by (cases m) auto

section \<open>C strings\<close>

text \<open>
  \<open>strlen\<close> runs to the first NUL of the object it points into; \<open>None\<close> when there is none and
  the read leaves the object. \<open>cstr\<close> is the string itself.
\<close>

fun strlen :: "string \<Rightarrow> nat option" where
  "strlen [] = None"
| "strlen (c # cs) = (if c = NUL then Some 0 else map_option Suc (strlen cs))"

definition cstr :: "string \<Rightarrow> string" where
  "cstr b = takeWhile (\<lambda>c. c \<noteq> NUL) b"

lemma strlen_append_NUL [simp]: "NUL \<notin> set s \<Longrightarrow> strlen (s @ NUL # b) = Some (length s)"
  by (induction s) auto

lemma cstr_append_NUL [simp]: "NUL \<notin> set s \<Longrightarrow> cstr (s @ NUL # b) = s"
  by (induction s) (auto simp: cstr_def)

lemma strlen_cstr: "strlen b = (if NUL \<in> set b then Some (length (cstr b)) else None)"
  by (induction b) (auto simp: cstr_def)

lemma cstr_NUL_free [simp]: "NUL \<notin> set (cstr b)"
  by (auto simp: cstr_def dest: set_takeWhileD)

section \<open>The allocator\<close>

text \<open>
  \<open>malloc\<close> of a byte buffer is a function from the requested size to the block, whose bytes are
  whatever the allocator left there, or \<open>None\<close> when memory is out.
\<close>

type_synonym allocator = "nat \<Rightarrow> string option"

definition good_alloc :: "allocator \<Rightarrow> bool" where
  "good_alloc al \<longleftrightarrow> (\<forall>n b. al n = Some b \<longrightarrow> length b = n)"

definition realloc :: "allocator \<Rightarrow> string \<Rightarrow> nat \<Rightarrow> string option" where
  "realloc al old n = map_option (\<lambda>b. take n old @ drop (length old) b) (al n)"

text \<open>An allocator that always succeeds and one that never does, for concrete runs.\<close>

definition zero_alloc :: allocator where
  "zero_alloc n = Some (replicate n NUL)"

lemma good_alloc_zero [simp]: "good_alloc zero_alloc"
  by (simp add: good_alloc_def zero_alloc_def)

lemma good_allocD: "good_alloc al \<Longrightarrow> al n = Some b \<Longrightarrow> length b = n"
  by (simp add: good_alloc_def)

lemma realloc_length:
  "good_alloc al \<Longrightarrow> realloc al old n = Some b \<Longrightarrow> length b = n"
  by (auto simp: realloc_def min_def dest: good_allocD)

lemma realloc_keeps:
  "good_alloc al \<Longrightarrow> realloc al old n = Some b \<Longrightarrow> length old \<le> n \<Longrightarrow> take (length old) b = old"
  by (auto simp: realloc_def)

text \<open>Reading one byte of a block.\<close>

definition char_at :: "string \<Rightarrow> nat \<Rightarrow> char res" where
  "char_at b i = (if i < length b then Inr (b ! i) else Inl OutOfBounds)"

lemma char_at_ok [simp]: "i < length b \<Longrightarrow> char_at b i = Inr (b ! i)"
  by (simp add: char_at_def)

text \<open>\<open>memcpy\<close> into a block at an offset; leaving the block is a fault.\<close>

definition write_at :: "string \<Rightarrow> nat \<Rightarrow> string \<Rightarrow> string res" where
  "write_at b p xs =
     (if p + length xs \<le> length b then Inr (take p b @ xs @ drop (p + length xs) b)
      else Inl OutOfBounds)"

lemma write_at_ok: "p + length xs \<le> length b \<Longrightarrow>
    write_at b p xs = Inr (take p b @ xs @ drop (p + length xs) b)"
  by (simp add: write_at_def)

lemma write_at_length: "write_at b p xs = Inr b' \<Longrightarrow> length b' = length b"
  by (auto simp: write_at_def split: if_splits)

section \<open>Decimal numbers\<close>

text \<open>What \<open>printf\<close> writes for \<open>%u\<close>, \<open>%zu\<close> and \<open>%d\<close>.\<close>

definition digit_char :: "nat \<Rightarrow> char" where
  "digit_char d = char_of (48 + d)"

fun dec :: "nat \<Rightarrow> string" where
  "dec n = (if n < 10 then [digit_char n] else dec (n div 10) @ [digit_char (n mod 10)])"

declare dec.simps [simp del]

definition dec_int :: "int \<Rightarrow> string" where
  "dec_int i = (if i < 0 then CHR ''-'' # dec (nat (- i)) else dec (nat i))"

definition digit_val :: "char \<Rightarrow> int" where
  "digit_val c = schar c - 48"

definition is_digit :: "char \<Rightarrow> bool" where
  "is_digit c \<longleftrightarrow> 0 \<le> digit_val c \<and> digit_val c < 10"

lemma of_char_digit: "d < 10 \<Longrightarrow> (of_char (digit_char d) :: nat) = 48 + d"
  by (simp add: digit_char_def)

lemma digit_val_char [simp]: "d < 10 \<Longrightarrow> digit_val (digit_char d) = int d"
proof -
  assume d: "d < 10"
  then have "(of_char (digit_char d) :: int) = 48 + int d"
    by (metis of_char_digit of_nat_add of_nat_numeral of_nat_of_char)
  with d show ?thesis by (simp add: digit_val_def schar_def Let_def)
qed

lemma is_digit_char [simp]: "d < 10 \<Longrightarrow> is_digit (digit_char d)"
  by (simp add: is_digit_def)

lemma not_digit [simp]:
  "\<not> is_digit CR" "\<not> is_digit LF" "\<not> is_digit NUL" "\<not> is_digit CHR ''-''" "\<not> is_digit CHR ''+''"
  by (simp_all add: is_digit_def digit_val_def schar_def)

lemma dec_is_digit: "c \<in> set (dec n) \<Longrightarrow> is_digit c"
proof (induction n rule: dec.induct)
  case (1 n)
  then show ?case by (subst (asm) (2) dec.simps) (auto split: if_splits)
qed

lemma dec_neq_Nil [simp]: "dec n \<noteq> []"
  by (subst dec.simps) simp

lemma hd_dec_digit: "is_digit (hd (dec n))"
  by (rule dec_is_digit [of _ n]) simp

text \<open>Reading the digits back.\<close>

definition undec :: "string \<Rightarrow> int" where
  "undec ds = foldl (\<lambda>v c. v * 10 + digit_val c) 0 ds"

lemma undec_snoc: "undec (ds @ [c]) = undec ds * 10 + digit_val c"
  by (simp add: undec_def)

lemma undec_dec [simp]: "undec (dec n) = int n"
proof (induction n rule: dec.induct)
  case (1 n)
  show ?case
  proof (cases "n < 10")
    case True
    then show ?thesis by (subst dec.simps) (simp add: undec_def)
  next
    case False
    with 1 have "undec (dec (n div 10)) = int (n div 10)" by blast
    moreover have "int (n div 10) * 10 + int (n mod 10) = int n"
      by (metis div_mult_mod_eq of_nat_add of_nat_mult of_nat_numeral)
    ultimately show ?thesis using False by (subst dec.simps) (simp add: undec_snoc)
  qed
qed

section \<open>Generic lemmas\<close>

named_theorems inv_intros \<open>introduction rules for the components' invariants\<close>

lemma nth_concat_split:
  "i < length xss \<Longrightarrow>
     concat (xss[i := ys]) = concat (take i xss) @ ys @ concat (drop (Suc i) xss)"
  by (simp add: upd_conv_take_nth_drop)

lemma concat_split_nth:
  "i < length xss \<Longrightarrow>
     concat xss = concat (take i xss) @ xss ! i @ concat (drop (Suc i) xss)"
  by (metis concat.simps(2) concat_append id_take_nth_drop)

lemma unat_mod_less: "0 < (m :: u32) \<Longrightarrow> unat (a mod m) < unat m"
  by (metis word_gt_0 unat_mod_distrib mod_less_divisor unat_gt_0)

end
