(* ===== verification/Hash.thy ===== *)
theory Hash
  imports Prelude
begin

text \<open>
  \<open>hash.c\<close>: the two string hash functions. The loops accumulate in an \<open>unsigned long\<close> (64 bits)
  and add each \<open>char\<close> sign-extended; the result is cut to the \<open>unsigned int\<close> of the return type.
  A key is the buffer it points into: a key without a terminating NUL has no result.
\<close>

unbundle bit_operations_syntax

section \<open>The code\<close>

fun djb2_loop :: "u64 \<Rightarrow> string \<Rightarrow> u64 option" where
  "djb2_loop h [] = None"
| "djb2_loop h (c # key) =
     (if c = NUL then Some h
      else djb2_loop ((push_bit 5 h + h) + word_of_int (schar c)) key)"

definition djb2Hash :: "string \<Rightarrow> u32 option" where
  "djb2Hash k = map_option ucast (djb2_loop 0 k)"

fun sdbm_loop :: "u64 \<Rightarrow> string \<Rightarrow> u64 option" where
  "sdbm_loop h [] = None"
| "sdbm_loop h (c # key) =
     (if c = NUL then Some h
      else sdbm_loop (word_of_int (schar c) + push_bit 6 h + push_bit 16 h - h) key)"

definition sdbmHash :: "string \<Rightarrow> u32 option" where
  "sdbmHash k = map_option ucast (sdbm_loop 0 k)"

section \<open>What they compute\<close>

text \<open>The reference: a polynomial in the signed characters, evaluated at 33 or 65599 modulo 2^32.\<close>

definition poly_hash :: "u32 \<Rightarrow> string \<Rightarrow> u32" where
  "poly_hash m s = foldl (\<lambda>h c. m * h + word_of_int (schar c)) 0 s"

lemma djb2_step: "push_bit 5 h + h = 33 * (h :: u64)"
  by (simp add: push_bit_eq_mult)

lemma sdbm_step: "x + push_bit 6 h + push_bit 16 h - h = 65599 * h + (x :: u64)"
  by (simp add: push_bit_eq_mult algebra_simps)

lemma take_bit_32_64: "take_bit 32 (take_bit 64 x) = take_bit 32 (x :: int)"
  by simp

lemma ucast_mult_add:
  "(ucast (a * h + word_of_int c :: u64) :: u32) = ucast a * ucast h + word_of_int c"
proof transfer
  fix a h c :: int
  have "take_bit 32 (take_bit 64 a * take_bit 64 h + c)
      = take_bit 32 (take_bit 32 (take_bit 32 (take_bit 64 a) * take_bit 32 (take_bit 64 h))
          + take_bit 32 c)"
    by (simp only: take_bit_add take_bit_mult)
  also have "\<dots> = take_bit 32 (a * h + c)"
    by (simp only: take_bit_32_64 take_bit_add take_bit_mult)
  finally show "take_bit LENGTH(32) (take_bit LENGTH(64) (a * h + c))
      = take_bit LENGTH(32) (take_bit LENGTH(64) a * take_bit LENGTH(64) h + c)"
    by simp
qed

lemma djb2_loop_poly:
  "NUL \<notin> set s \<Longrightarrow>
     map_option ucast (djb2_loop h (s @ NUL # b))
       = Some (foldl (\<lambda>h c. 33 * h + word_of_int (schar c)) (ucast h :: u32) s)"
proof (induction s arbitrary: h)
  case (Cons c s)
  from Cons.prems have "c \<noteq> NUL" by auto
  with Cons show ?case by (simp add: djb2_step ucast_mult_add del: map_option_eq_Some)
qed simp

lemma sdbm_loop_poly:
  "NUL \<notin> set s \<Longrightarrow>
     map_option ucast (sdbm_loop h (s @ NUL # b))
       = Some (foldl (\<lambda>h c. 65599 * h + word_of_int (schar c)) (ucast h :: u32) s)"
proof (induction s arbitrary: h)
  case (Cons c s)
  from Cons.prems have "c \<noteq> NUL" by auto
  with Cons show ?case by (simp add: sdbm_step ucast_mult_add del: map_option_eq_Some)
qed simp

lemma djb2Hash_string: "NUL \<notin> set s \<Longrightarrow> djb2Hash (s @ NUL # b) = Some (poly_hash 33 s)"
  by (simp add: djb2Hash_def poly_hash_def djb2_loop_poly)

lemma sdbmHash_string: "NUL \<notin> set s \<Longrightarrow> sdbmHash (s @ NUL # b) = Some (poly_hash 65599 s)"
  by (simp add: sdbmHash_def poly_hash_def sdbm_loop_poly)

lemma djb2_loop_None: "djb2_loop h s = None \<longleftrightarrow> NUL \<notin> set s"
  by (induction s arbitrary: h) auto

lemma sdbm_loop_None: "sdbm_loop h s = None \<longleftrightarrow> NUL \<notin> set s"
  by (induction s arbitrary: h) auto

section \<open>Properties\<close>

text \<open>On a terminated key both hash functions, although they accumulate in 64 bits, return
  exactly the 32-bit polynomial hash of the bytes before the first NUL (multiplier 33 for
  djb2, 65599 for sdbm, whose shifts amount to 64 + 65536 - 1); the bytes after the terminator
  never matter.\<close>

theorem hash_functions_poly:
  assumes "NUL \<notin> set s"
  shows "djb2Hash (s @ NUL # b) = Some (poly_hash 33 s)
       \<and> sdbmHash (s @ NUL # b) = Some (poly_hash 65599 s)"
  using assms by (simp add: djb2Hash_string sdbmHash_string)

theorem hash_functions_poly_witness:
  "djb2Hash (''ab'' @ NUL # ''zz'') = Some (poly_hash 33 ''ab'')
     \<and> sdbmHash (''ab'' @ NUL # ''zz'') = Some (poly_hash 65599 ''ab'')"
  by (rule hash_functions_poly) simp

end
