(* ===== verification/Key_Table.thy ===== *)
theory Key_Table
  imports Prelude "HOL-Library.Multiset"
begin

text \<open>
  What the chained hash tables of the program share: the entries of an array of chains as a multiset, the
  first entry of a key among entries with one per class of equal keys, and the interface their clients
  rely on.
\<close>

section \<open>Arrays of chains\<close>

lemma mset_concat_update:
  "i < length t \<Longrightarrow> mset (concat (t[i := es])) + mset (t ! i) = mset (concat t) + mset es"
  by (simp add: nth_concat_split concat_split_nth [of i t])

lemma mset_concat_cons:
  "i < length t \<Longrightarrow> mset (concat (t[i := e # t ! i])) = add_mset e (mset (concat t))"
  using mset_concat_update [of i t "e # t ! i"] by simp

lemma short_mset_eq: "mset xs = mset ys \<Longrightarrow> length xs \<le> 1 \<Longrightarrow> xs = ys"
  by (cases xs; cases ys) (auto dest: mset_eq_length)

lemma filter_concat_empty:
  assumes "\<And>j e. j < length t \<Longrightarrow> e \<in> set (t ! j) \<Longrightarrow> \<not> P e"
  shows "filter P (concat t) = []"
proof -
  have "\<not> P e" if "e \<in> set (concat t)" for e
  proof -
    from that obtain j where "j < length t" "e \<in> set (t ! j)"
      by (metis (no_types) UN_E in_set_conv_nth set_concat)
    then show ?thesis by (rule assms)
  qed
  then show ?thesis by (simp add: filter_empty_conv)
qed

lemma filter_concat_single:
  assumes i: "i < length t"
    and only: "\<And>j e. j < length t \<Longrightarrow> e \<in> set (t ! j) \<Longrightarrow> P e \<Longrightarrow> j = i"
  shows "filter P (concat t) = filter P (t ! i)"
proof -
  have "filter P (concat (take i t)) = []"
  proof (rule filter_concat_empty)
    fix j e assume "j < length (take i t)" "e \<in> set (take i t ! j)"
    with only [of j e] i show "\<not> P e" by auto
  qed
  moreover have "filter P (concat (drop (Suc i) t)) = []"
  proof (rule filter_concat_empty)
    fix j e assume "j < length (drop (Suc i) t)" "e \<in> set (drop (Suc i) t ! j)"
    with only [of "Suc i + j" e] i show "\<not> P e" by (auto simp: less_diff_conv add.commute)
  qed
  ultimately show ?thesis by (simp add: concat_split_nth [OF i])
qed

section \<open>The first entry of a key\<close>

definition first_match :: "('k \<Rightarrow> 'k \<Rightarrow> bool) \<Rightarrow> ('e \<Rightarrow> 'k) \<Rightarrow> 'e list \<Rightarrow> 'k \<Rightarrow> 'e option" where
  "first_match eq key es k = (case filter (\<lambda>e. eq k (key e)) es of [] \<Rightarrow> None | e # _ \<Rightarrow> Some e)"

definition one_per_class :: "('k \<Rightarrow> 'k \<Rightarrow> bool) \<Rightarrow> ('e \<Rightarrow> 'k) \<Rightarrow> 'e list \<Rightarrow> bool" where
  "one_per_class eq key es \<longleftrightarrow> (\<forall>e \<in> set es. length (filter (\<lambda>x. eq (key e) (key x)) es) = 1)"

lemma first_match_Nil [simp]: "first_match eq key [] k = None"
  by (simp add: first_match_def)

lemma first_match_Cons [simp]:
  "first_match eq key (e # es) k = (if eq k (key e) then Some e else first_match eq key es k)"
  by (simp add: first_match_def)

lemma first_match_None: "first_match eq key es k = None \<longleftrightarrow> (\<forall>e \<in> set es. \<not> eq k (key e))"
  by (induction es) auto

lemma first_match_Some: "first_match eq key es k = Some e \<Longrightarrow> e \<in> set es \<and> eq k (key e)"
  by (induction es) (auto split: if_splits)

lemma class_eq: "equivp eq \<Longrightarrow> eq k k' \<Longrightarrow> eq k = eq k'"
  by (simp add: equivp_def)

lemma first_match_class: "equivp eq \<Longrightarrow> eq k k' \<Longrightarrow> first_match eq key es k = first_match eq key es k'"
  by (simp add: first_match_def class_eq [of eq k k'])

lemma one_per_class_mset: "mset es = mset es' \<Longrightarrow> one_per_class eq key es = one_per_class eq key es'"
proof -
  assume m: "mset es = mset es'"
  then have "length (filter P es) = length (filter P es')" for P
    by (metis mset_filter size_mset)
  with m show ?thesis by (simp add: one_per_class_def mset_eq_setD [OF m])
qed

lemma one_per_class_filter:
  assumes "equivp eq" "one_per_class eq key es"
  shows "length (filter (\<lambda>e. eq k (key e)) es) \<le> 1"
proof (cases "\<exists>e \<in> set es. eq k (key e)")
  case True
  then obtain e where e: "e \<in> set es" "eq k (key e)" by blast
  then have "filter (\<lambda>x. eq k (key x)) es = filter (\<lambda>x. eq (key e) (key x)) es"
    by (simp add: class_eq [OF assms(1) e(2)])
  with e assms(2) show ?thesis by (simp add: one_per_class_def)
next
  case False
  then have "filter (\<lambda>e. eq k (key e)) es = []" by (simp add: filter_empty_conv)
  then show ?thesis by simp
qed

lemma first_match_mset:
  assumes "equivp eq" "one_per_class eq key es" "mset es = mset es'"
  shows "first_match eq key es = first_match eq key es'"
proof
  fix k
  have "filter (\<lambda>e. eq k (key e)) es = filter (\<lambda>e. eq k (key e)) es'"
    by (rule short_mset_eq) (simp_all add: assms one_per_class_filter [OF assms(1,2), simplified])
  then show "first_match eq key es k = first_match eq key es' k" by (simp add: first_match_def)
qed

lemma one_per_class_Nil [simp]: "one_per_class eq key []"
  by (simp add: one_per_class_def)

lemma one_per_class_Cons:
  assumes "equivp eq"
  shows "one_per_class eq key (e # es) \<longleftrightarrow> one_per_class eq key es \<and> first_match eq key es (key e) = None"
proof -
  have refl: "eq x x" for x using assms by (blast elim: equivpE dest: reflpD)
  have sym: "eq x y \<Longrightarrow> eq y x" for x y using assms by (blast elim: equivpE dest: sympD)
  show ?thesis
  proof
    assume a: "one_per_class eq key (e # es)"
    then have "filter (\<lambda>x. eq (key e) (key x)) es = []" using refl by (auto simp: one_per_class_def)
    then have n: "\<forall>x \<in> set es. \<not> eq (key e) (key x)" by (simp add: filter_empty_conv)
    have "length (filter (\<lambda>x. eq (key y) (key x)) es) = 1" if y: "y \<in> set es" for y
    proof -
      have "\<not> eq (key y) (key e)" using n y sym by blast
      with a y show ?thesis by (auto simp: one_per_class_def)
    qed
    with n show "one_per_class eq key es \<and> first_match eq key es (key e) = None"
      by (simp add: first_match_None one_per_class_def)
  next
    assume a: "one_per_class eq key es \<and> first_match eq key es (key e) = None"
    then have n: "\<forall>x \<in> set es. \<not> eq (key e) (key x)" by (simp add: first_match_None)
    then have "filter (\<lambda>x. eq (key e) (key x)) es = []" by (simp add: filter_empty_conv)
    moreover have "\<not> eq (key y) (key e)" if "y \<in> set es" for y using n that sym by blast
    ultimately show "one_per_class eq key (e # es)" using a refl by (auto simp: one_per_class_def)
  qed
qed

section \<open>The interface of a key table\<close>

text \<open>
  What a client of a table relies on: lookups after an insertion of a fresh key, as long as the
  capacity is not reached, and after a removal, up to the table's own notion of equal keys.
\<close>

locale key_table =
  fixes lookup :: "'t \<Rightarrow> 'k \<Rightarrow> 'v option"
    and put :: "'t \<Rightarrow> 'k \<Rightarrow> 'v \<Rightarrow> 't option"
    and del :: "'t \<Rightarrow> 'k \<Rightarrow> 't \<times> ('v \<times> 'k) option"
    and num :: "'t \<Rightarrow> nat"
    and valid :: "'t \<Rightarrow> bool"
    and same :: "'t \<Rightarrow> 'k \<Rightarrow> 'k \<Rightarrow> bool"
    and cap :: nat
  assumes same_equiv: "valid t \<Longrightarrow> equivp (same t)"
    and lookup_same: "valid t \<Longrightarrow> same t k k' \<Longrightarrow> lookup t k = lookup t k'"
    and put_law: "valid t \<Longrightarrow> lookup t k = None \<Longrightarrow> num t < cap \<Longrightarrow>
      \<exists>t'. put t k v = Some t' \<and> valid t' \<and> same t' = same t \<and> num t' = Suc (num t)
        \<and> (\<forall>k'. lookup t' k' = (if same t k' k then Some v else lookup t k'))"
    and del_law: "valid t \<Longrightarrow> lookup t k = Some v \<Longrightarrow>
      \<exists>t' k0. del t k = (t', Some (v, k0)) \<and> same t k k0 \<and> valid t' \<and> same t' = same t
        \<and> Suc (num t') = num t
        \<and> (\<forall>k'. lookup t' k' = (if same t k' k then None else lookup t k'))"
    and del_miss: "valid t \<Longrightarrow> lookup t k = None \<Longrightarrow> del t k = (t, None)"
begin

lemma same_refl: "valid t \<Longrightarrow> same t k k"
  using same_equiv by (blast elim: equivpE dest: reflpD)

lemma put_hit: "valid t \<Longrightarrow> lookup t k = None \<Longrightarrow> num t < cap \<Longrightarrow>
    put t k v = Some t' \<Longrightarrow> lookup t' k = Some v"
  using put_law [of t k v] same_refl by auto

text \<open>Removing a freshly inserted key gives back the value and the lookups of before.\<close>

lemma put_del:
  assumes "valid t" "lookup t k = None" "num t < cap" "put t k v = Some t1"
  shows "\<exists>t2 k0. del t1 k = (t2, Some (v, k0)) \<and> valid t2 \<and> num t2 = num t \<and> lookup t2 = lookup t"
proof -
  from put_law [OF assms(1-3), of v] assms(4)
  have t1: "valid t1" "same t1 = same t" "num t1 = Suc (num t)"
    "\<And>k'. lookup t1 k' = (if same t k' k then Some v else lookup t k')" by auto
  have "lookup t1 k = Some v" by (simp add: t1 same_refl [OF assms(1)])
  from del_law [OF t1(1) this] obtain t2 k0 where t2: "del t1 k = (t2, Some (v, k0))" "valid t2"
    "Suc (num t2) = num t1" "\<And>k'. lookup t2 k' = (if same t1 k' k then None else lookup t1 k')"
    by blast
  have "lookup t2 k' = lookup t k'" for k'
    using t2(4) t1(2,4) lookup_same [OF assms(1), of k' k] assms(2) by auto
  then have "lookup t2 = lookup t" by (rule ext)
  with t2 t1 show ?thesis by auto
qed

lemma put_others:
  "valid t \<Longrightarrow> lookup t k = None \<Longrightarrow> num t < cap \<Longrightarrow> put t k v = Some t' \<Longrightarrow>
     \<not> same t k' k \<Longrightarrow> lookup t' k' = lookup t k'"
  using put_law [of t k v] by auto

end

section \<open>Tables whose values can be replaced\<close>

text \<open>
  \<open>chg\<close> replaces the value of a key that is present and hands back the old value. A client that looks up,
  stores and deletes gets from every such table the answers of a map, up to the table's notion of equal keys.
\<close>

datatype ('k, 'v) table_op = Op_find 'k | Op_store 'k 'v | Op_delete 'k

fun map_answers :: "('k \<Rightarrow> 'k \<Rightarrow> bool) \<Rightarrow> ('k \<Rightarrow> 'v option) \<Rightarrow> ('k, 'v) table_op list \<Rightarrow> 'v option list" where
  "map_answers eq m [] = []"
| "map_answers eq m (Op_find k # ops) = m k # map_answers eq m ops"
| "map_answers eq m (Op_store k v # ops) = m k # map_answers eq (\<lambda>k'. if eq k' k then Some v else m k') ops"
| "map_answers eq m (Op_delete k # ops) = m k # map_answers eq (\<lambda>k'. if eq k' k then None else m k') ops"

fun table_answers ::
  "('t \<Rightarrow> 'k \<Rightarrow> 'v option) \<Rightarrow> ('t \<Rightarrow> 'k \<Rightarrow> 'v \<Rightarrow> 't option) \<Rightarrow> ('t \<Rightarrow> 'k \<Rightarrow> 't \<times> ('v \<times> 'k) option) \<Rightarrow>
     ('t \<Rightarrow> 'k \<Rightarrow> 'v \<Rightarrow> 't \<times> 'v option) \<Rightarrow> 't \<Rightarrow> ('k, 'v) table_op list \<Rightarrow> 'v option list" where
  "table_answers lookup put del chg t [] = []"
| "table_answers lookup put del chg t (Op_find k # ops) =
     lookup t k # table_answers lookup put del chg t ops"
| "table_answers lookup put del chg t (Op_store k v # ops) =
     (case chg t k v of
        (t1, Some old) \<Rightarrow> Some old # table_answers lookup put del chg t1 ops
      | (t1, None) \<Rightarrow>
          (case put t1 k v of
             None \<Rightarrow> []
           | Some t2 \<Rightarrow> None # table_answers lookup put del chg t2 ops))"
| "table_answers lookup put del chg t (Op_delete k # ops) =
     (case del t k of (t1, r) \<Rightarrow> map_option fst r # table_answers lookup put del chg t1 ops)"

locale changing_table = key_table lookup put del num valid same cap
  for lookup :: "'t \<Rightarrow> 'k \<Rightarrow> 'v option"
    and put :: "'t \<Rightarrow> 'k \<Rightarrow> 'v \<Rightarrow> 't option"
    and del :: "'t \<Rightarrow> 'k \<Rightarrow> 't \<times> ('v \<times> 'k) option"
    and num :: "'t \<Rightarrow> nat"
    and valid :: "'t \<Rightarrow> bool"
    and same :: "'t \<Rightarrow> 'k \<Rightarrow> 'k \<Rightarrow> bool"
    and cap :: nat +
  fixes chg :: "'t \<Rightarrow> 'k \<Rightarrow> 'v \<Rightarrow> 't \<times> 'v option"
  assumes chg_law: "valid t \<Longrightarrow> lookup t k = Some old \<Longrightarrow>
      \<exists>t'. chg t k v = (t', Some old) \<and> valid t' \<and> same t' = same t \<and> num t' = num t
        \<and> (\<forall>k'. lookup t' k' = (if same t k' k then Some v else lookup t k'))"
    and chg_miss: "lookup t k = None \<Longrightarrow> chg t k v = (t, None)"
begin

lemma store_step:
  assumes "valid t" "num t < cap"
  shows "\<exists>t'. table_answers lookup put del chg t (Op_store k v # ops)
        = lookup t k # table_answers lookup put del chg t' ops
    \<and> valid t' \<and> same t' = same t \<and> num t' \<le> Suc (num t)
    \<and> lookup t' = (\<lambda>k'. if same t k' k then Some v else lookup t k')"
proof (cases "lookup t k")
  case None
  with put_law [OF assms(1) None assms(2), of v] chg_miss [OF None, of v]
  obtain t' where "put t k v = Some t'" "chg t k v = (t, None)" "valid t'" "same t' = same t"
    "num t' = Suc (num t)" "\<forall>k'. lookup t' k' = (if same t k' k then Some v else lookup t k')" by blast
  with None show ?thesis by (intro exI [of _ t']) (simp add: fun_eq_iff)
next
  case (Some old)
  with chg_law [OF assms(1) Some, of v]
  obtain t' where "chg t k v = (t', Some old)" "valid t'" "same t' = same t" "num t' = num t"
    "\<forall>k'. lookup t' k' = (if same t k' k then Some v else lookup t k')" by blast
  with Some show ?thesis by (intro exI [of _ t']) (simp add: fun_eq_iff)
qed

lemma delete_step:
  assumes "valid t"
  shows "\<exists>t'. table_answers lookup put del chg t (Op_delete k # ops)
        = lookup t k # table_answers lookup put del chg t' ops
    \<and> valid t' \<and> same t' = same t \<and> num t' \<le> num t
    \<and> lookup t' = (\<lambda>k'. if same t k' k then None else lookup t k')"
proof (cases "lookup t k")
  case None
  have "lookup t = (\<lambda>k'. if same t k' k then None else lookup t k')"
    using lookup_same [OF assms] None by (auto simp: fun_eq_iff)
  with None assms del_miss [OF assms None] show ?thesis by (intro exI [of _ t]) simp
next
  case (Some v)
  from del_law [OF assms Some] obtain t' k0 where "del t k = (t', Some (v, k0))" "valid t'"
    "same t' = same t" "Suc (num t') = num t"
    "\<forall>k'. lookup t' k' = (if same t k' k then None else lookup t k')" by blast
  with Some show ?thesis by (intro exI [of _ t']) (simp add: fun_eq_iff)
qed

text \<open>As long as the capacity is not reached, the answers are those of the map of its lookups.\<close>

lemma answers_refine:
  "valid t \<Longrightarrow> num t + length ops \<le> cap \<Longrightarrow>
     table_answers lookup put del chg t ops = map_answers (same t) (lookup t) ops"
proof (induction ops arbitrary: t)
  case (Cons op ops)
  show ?case
  proof (cases op)
    case (Op_find k)
    with Cons show ?thesis by simp
  next
    case (Op_store k v)
    have "num t < cap" using Cons.prems(2) by simp
    from store_step [OF Cons.prems(1) this, of k v ops] obtain t' where t':
      "table_answers lookup put del chg t (Op_store k v # ops)
        = lookup t k # table_answers lookup put del chg t' ops"
      "valid t'" "same t' = same t" "num t' \<le> Suc (num t)"
      "lookup t' = (\<lambda>k'. if same t k' k then Some v else lookup t k')" by blast
    have "num t' + length ops \<le> cap" using t'(4) Cons.prems(2) by simp
    from Cons.IH [OF t'(2) this] t'(1,3,5) Op_store show ?thesis by simp
  next
    case (Op_delete k)
    from delete_step [OF Cons.prems(1), of k ops] obtain t' where t':
      "table_answers lookup put del chg t (Op_delete k # ops)
        = lookup t k # table_answers lookup put del chg t' ops"
      "valid t'" "same t' = same t" "num t' \<le> num t"
      "lookup t' = (\<lambda>k'. if same t k' k then None else lookup t k')" by blast
    have "num t' + length ops \<le> cap" using t'(4) Cons.prems(2) by simp
    from Cons.IH [OF t'(2) this] t'(1,3,5) Op_delete show ?thesis by simp
  qed
qed simp

end

end
