(* ===== verification/Hashtable.thy ===== *)
theory Hashtable
  imports Key_Table
begin

text \<open>
  \<open>hashtable/hashtable.c\<close> and \<open>hashtable_private.h\<close>: the chained hash table with prime sizes. The
  bucket array is a list of chains; a chain is the list of its entries in \<open>next\<close> order. The hash
  and comparison functions are fields of the table, as in the code, so keys need not be compared by
  equality. Every \<open>malloc\<close> and \<open>realloc\<close> may fail; the caller of the model says which do.
  The abstraction is the multiset of entries and the first matching entry of a key.
\<close>

unbundle bit_operations_syntax

section \<open>The structures\<close>

record ('k, 'v) entry =
  ek :: 'k
  ev :: 'v
  eh :: u32

type_synonym ('k, 'v) chain = "('k, 'v) entry list"

record ('k, 'v) hashtable =
  tablelength :: u32
  table :: "('k, 'v) chain list"
  entrycount :: u32
  loadlimit :: u32
  primeindex :: u32
  hashfn :: "'k \<Rightarrow> u32"
  eqfn :: "'k \<Rightarrow> 'k \<Rightarrow> bool"

text \<open>Outcomes of the allocations an insertion may make.\<close>

record ht_mem =
  malloc_table :: bool
  realloc_table :: bool
  malloc_entry :: bool

definition primes :: "u32 list" where
  "primes =
    [7, 23, 53, 97, 193, 389,
     769, 1543, 3079, 6151,
     12289, 24593, 49157, 98317,
     196613, 393241, 786433, 1572869,
     3145739, 6291469, 12582917, 25165843,
     50331653, 100663319, 201326611, 402653189,
     805306457, 1610612741]"

definition prime_table_length :: u32 where
  "prime_table_length = of_nat (length primes)"

text \<open>
  \<open>max_load_factor\<close> is the \<open>float\<close> 0.65, that is 10905190 / 2^24, and \<open>size * max_load_factor\<close> is
  a product in single precision: \<open>size\<close> is first rounded to 24 significant bits, and so is the
  product, to nearest, ties to even. \<open>ceil\<close> and the conversion are then exact. \<open>rnd24\<close> is the
  rounding, on integers (the binary exponent does not change it).
\<close>

function bitlen :: "int \<Rightarrow> nat" where
  "bitlen n = (if n \<le> 0 then 0 else Suc (bitlen (n div 2)))"
  by pat_completeness auto
termination
  by (relation "measure nat") auto

declare bitlen.simps [simp del]

definition rnd24 :: "int \<Rightarrow> int" where
  "rnd24 n =
     (let e = bitlen n - 24; q = n div 2 ^ e; r = n mod 2 ^ e
      in if e = 0 then n
         else if 2 ^ (e - 1) < r \<or> (r = 2 ^ (e - 1) \<and> odd q) then (q + 1) * 2 ^ e
         else q * 2 ^ e)"

definition max_load_factor :: int where
  "max_load_factor = 10905190"

definition load_limit :: "u32 \<Rightarrow> u32" where
  "load_limit sz =
     (let p = rnd24 (rnd24 (uint sz) * max_load_factor)
      in word_of_int ((p + 2 ^ 24 - 1) div 2 ^ 24))"

section \<open>The operations\<close>

fun find_prime :: "u32 \<Rightarrow> u32 list \<Rightarrow> u32 \<Rightarrow> u32 \<Rightarrow> u32 \<times> u32" where
  "find_prime minsize [] pindex sz = (pindex, sz)"
| "find_prime minsize (p # ps) pindex sz =
     (if minsize < p then (pindex, p) else find_prime minsize ps (pindex + 1) sz)"

definition create_hashtable ::
  "bool \<Rightarrow> bool \<Rightarrow> u32 \<Rightarrow> ('k \<Rightarrow> u32) \<Rightarrow> ('k \<Rightarrow> 'k \<Rightarrow> bool) \<Rightarrow> ('k, 'v) hashtable option" where
  "create_hashtable malloc_h malloc_t minsize hashf eqf =
     (if push_bit 30 1 < minsize then None
      else
        let (pindex, sz) = find_prime minsize primes 0 (primes ! 0)
        in if \<not> malloc_h then None
           else if \<not> malloc_t then None
           else Some \<lparr>tablelength = sz, table = replicate (unat sz) [], entrycount = 0,
                  loadlimit = load_limit sz, primeindex = pindex, hashfn = hashf, eqfn = eqf\<rparr>)"

definition ht_mix :: "u32 \<Rightarrow> u32" where
  "ht_mix i0 =
     (let i1 = i0 + NOT (push_bit 9 i0);
          i2 = i1 XOR (drop_bit 14 i1 OR push_bit 18 i1);
          i3 = i2 + push_bit 4 i2
      in i3 XOR (drop_bit 10 i3 OR push_bit 22 i3))"

definition hash :: "('k, 'v) hashtable \<Rightarrow> 'k \<Rightarrow> u32" where
  "hash h k = ht_mix (hashfn h k)"

definition indexFor :: "u32 \<Rightarrow> u32 \<Rightarrow> u32" where
  "indexFor tlen hashvalue = hashvalue mod tlen"

text \<open>The transfer loop of \<open>hashtable_expand\<close>: every entry, in order, becomes the head of its new
  chain.\<close>

fun transfer_chain ::
  "u32 \<Rightarrow> ('k, 'v) chain \<Rightarrow> ('k, 'v) chain list \<Rightarrow> ('k, 'v) chain list" where
  "transfer_chain newsize [] newtable = newtable"
| "transfer_chain newsize (e # es) newtable =
     (let index = unat (indexFor newsize (eh e))
      in transfer_chain newsize es (newtable[index := e # newtable ! index]))"

fun transfer_table ::
  "u32 \<Rightarrow> ('k, 'v) chain list \<Rightarrow> ('k, 'v) chain list \<Rightarrow> ('k, 'v) chain list" where
  "transfer_table newsize [] newtable = newtable"
| "transfer_table newsize (c # cs) newtable =
     transfer_table newsize cs (transfer_chain newsize c newtable)"

text \<open>
  When the new array cannot be allocated the code tries \<open>realloc\<close>; if that succeeds, it calls
  \<open>memset(newtable[h->tablelength], ..)\<close>, whose first argument is the uninitialised pointer stored
  just past the old entries and not the address of that slot.
\<close>

definition hashtable_expand ::
  "ht_mem \<Rightarrow> ('k, 'v) hashtable \<Rightarrow> (('k, 'v) hashtable \<times> int) res" where
  "hashtable_expand mem h =
     (if primeindex h = prime_table_length - 1 then Inr (h, 0)
      else if length primes \<le> unat (primeindex h + 1) then Inl OutOfBounds
      else
        let pindex = primeindex h + 1;
            newsize = primes ! unat pindex
        in if malloc_table mem then
             Inr (h\<lparr>primeindex := pindex,
                    table := transfer_table newsize (table h) (replicate (unat newsize) []),
                    tablelength := newsize,
                    loadlimit := load_limit newsize\<rparr>, -1)
           else if \<not> realloc_table mem then Inr (h, 0)
           else Inl WildPointer)"

definition hashtable_count :: "('k, 'v) hashtable \<Rightarrow> u32" where
  "hashtable_count h = entrycount h"

definition insert_entry ::
  "ht_mem \<Rightarrow> ('k, 'v) hashtable \<Rightarrow> 'k \<Rightarrow> 'v \<Rightarrow> ('k, 'v) hashtable \<times> int" where
  "insert_entry mem h k v =
     (if \<not> malloc_entry mem then (h\<lparr>entrycount := entrycount h - 1\<rparr>, 0)
      else
        let hv = hash h k;
            index = unat (indexFor (tablelength h) hv);
            e = \<lparr>ek = k, ev = v, eh = hv\<rparr>
        in (h\<lparr>table := (table h)[index := e # table h ! index]\<rparr>, -1))"

definition hashtable_insert ::
  "ht_mem \<Rightarrow> ('k, 'v) hashtable \<Rightarrow> 'k \<Rightarrow> 'v \<Rightarrow> (('k, 'v) hashtable \<times> int) res" where
  "hashtable_insert mem h k v =
     (let h1 = h\<lparr>entrycount := entrycount h + 1\<rparr>
      in bind_res
           (if loadlimit h1 < entrycount h1 then hashtable_expand mem h1 else Inr (h1, 0))
           (\<lambda>(h2, _). Inr (insert_entry mem h2 k v)))"

fun search_chain :: "u32 \<Rightarrow> ('k \<Rightarrow> 'k \<Rightarrow> bool) \<Rightarrow> 'k \<Rightarrow> ('k, 'v) chain \<Rightarrow> 'v option" where
  "search_chain hashvalue eq k [] = None"
| "search_chain hashvalue eq k (e # es) =
     (if hashvalue = eh e \<and> eq k (ek e) then Some (ev e) else search_chain hashvalue eq k es)"

definition hashtable_search :: "('k, 'v) hashtable \<Rightarrow> 'k \<Rightarrow> 'v option" where
  "hashtable_search h k =
     (let hashvalue = hash h k;
          index = unat (indexFor (tablelength h) hashvalue)
      in search_chain hashvalue (eqfn h) k (table h ! index))"

text \<open>Unlinks the first matching entry; the result carries that entry.\<close>

fun remove_chain ::
  "u32 \<Rightarrow> ('k \<Rightarrow> 'k \<Rightarrow> bool) \<Rightarrow> 'k \<Rightarrow> ('k, 'v) chain \<Rightarrow> (('k, 'v) entry \<times> ('k, 'v) chain) option"
where
  "remove_chain hashvalue eq k [] = None"
| "remove_chain hashvalue eq k (e # es) =
     (if hashvalue = eh e \<and> eq k (ek e) then Some (e, es)
      else map_option (\<lambda>(x, es'). (x, e # es')) (remove_chain hashvalue eq k es))"

text \<open>\<open>hashtable_remove\<close> returns the value and frees the stored key, which is the second component
  of the result; \<open>None\<close> is the NULL of a missing key.\<close>

definition hashtable_remove ::
  "('k, 'v) hashtable \<Rightarrow> 'k \<Rightarrow> ('k, 'v) hashtable \<times> ('v \<times> 'k) option" where
  "hashtable_remove h k =
     (let hashvalue = hash h k;
          index = unat (indexFor (tablelength h) hashvalue)
      in case remove_chain hashvalue (eqfn h) k (table h ! index) of
           None \<Rightarrow> (h, None)
         | Some (e, es) \<Rightarrow>
             (h\<lparr>table := (table h)[index := es], entrycount := entrycount h - 1\<rparr>,
              Some (ev e, ek e)))"

text \<open>\<open>hashtable_destroy\<close> as the sequence of its calls to \<open>free\<close>.\<close>

datatype ('k, 'v) freed = FreeKey 'k | FreeValue 'v | FreeEntry | FreeTable | FreeStruct

fun destroy_chain :: "bool \<Rightarrow> ('k, 'v) chain \<Rightarrow> ('k, 'v) freed list" where
  "destroy_chain free_values [] = []"
| "destroy_chain free_values (e # es) =
     (if free_values then [FreeKey (ek e), FreeValue (ev e), FreeEntry]
      else [FreeKey (ek e), FreeEntry]) @ destroy_chain free_values es"

definition hashtable_destroy :: "('k, 'v) hashtable \<Rightarrow> bool \<Rightarrow> ('k, 'v) freed list" where
  "hashtable_destroy h free_values =
     concat (map (destroy_chain free_values) (table h)) @ [FreeTable, FreeStruct]"

section \<open>Invariant and abstraction\<close>

definition ht_entries :: "('k, 'v) hashtable \<Rightarrow> ('k, 'v) entry list" where
  "ht_entries h = concat (table h)"

text \<open>Every entry sits in the chain its stored hash selects.\<close>

definition placed :: "u32 \<Rightarrow> ('k, 'v) chain list \<Rightarrow> bool" where
  "placed tlen t \<longleftrightarrow>
     (\<forall>i < length t. \<forall>e \<in> set (t ! i). unat (indexFor tlen (eh e)) = i)"

definition hashed :: "('k \<Rightarrow> u32) \<Rightarrow> ('k, 'v) entry list \<Rightarrow> bool" where
  "hashed hf es \<longleftrightarrow> (\<forall>e \<in> set es. eh e = ht_mix (hf (ek e)))"

text \<open>What searching relies on, whatever the sizes of the array are.\<close>

definition arranged :: "('k, 'v) hashtable \<Rightarrow> bool" where
  "arranged h \<longleftrightarrow>
     length (table h) = unat (tablelength h)
   \<and> 0 < tablelength h
   \<and> placed (tablelength h) (table h)
   \<and> hashed (hashfn h) (ht_entries h)"

definition ht_shape :: "('k, 'v) hashtable \<Rightarrow> bool" where
  "ht_shape h \<longleftrightarrow>
     length (table h) = unat (tablelength h)
   \<and> unat (primeindex h) < length primes
   \<and> tablelength h = primes ! unat (primeindex h)
   \<and> loadlimit h = load_limit (tablelength h)
   \<and> placed (tablelength h) (table h)
   \<and> hashed (hashfn h) (ht_entries h)"

definition ht_inv :: "('k, 'v) hashtable \<Rightarrow> bool" where
  "ht_inv h \<longleftrightarrow> ht_shape h \<and> unat (entrycount h) = length (ht_entries h)"

text \<open>What the caller owes the table: an equivalence that the hash function respects.\<close>

definition key_contract :: "('k \<Rightarrow> u32) \<Rightarrow> ('k \<Rightarrow> 'k \<Rightarrow> bool) \<Rightarrow> bool" where
  "key_contract hf eq \<longleftrightarrow> equivp eq \<and> (\<forall>a b. eq a b \<longrightarrow> hf a = hf b)"

text \<open>No two entries with equal keys (the header asks the caller not to insert duplicates).\<close>

definition unique_keys :: "('k \<Rightarrow> 'k \<Rightarrow> bool) \<Rightarrow> ('k, 'v) entry list \<Rightarrow> bool" where
  "unique_keys eq es \<longleftrightarrow>
     (\<forall>e \<in> set es. length (filter (\<lambda>x. eq (ek e) (ek x)) es) = 1)"

definition ht_ok :: "('k, 'v) hashtable \<Rightarrow> bool" where
  "ht_ok h \<longleftrightarrow> ht_inv h \<and> unique_keys (eqfn h) (ht_entries h)"

definition assoc :: "('k \<Rightarrow> 'k \<Rightarrow> bool) \<Rightarrow> ('k, 'v) entry list \<Rightarrow> 'k \<Rightarrow> 'v option" where
  "assoc eq es k = (case filter (\<lambda>e. eq k (ek e)) es of [] \<Rightarrow> None | e # _ \<Rightarrow> Some (ev e))"

lemma key_contractD:
  assumes "key_contract hf eq"
  shows "eq a a" "eq a b \<Longrightarrow> eq b a" "eq a b \<Longrightarrow> eq b c \<Longrightarrow> eq a c" "eq a b \<Longrightarrow> hf a = hf b"
  using assms by (auto simp: key_contract_def elim: equivpE dest: reflpD sympD transpD)

lemma key_class:
  "key_contract hf eq \<Longrightarrow> eq a b \<Longrightarrow> eq a c = eq b c"
  by (meson key_contractD)

subsection \<open>Prime sizes\<close>

lemma primes_facts:
  "length primes = 28"
  "prime_table_length = 28"
  "\<forall>p \<in> set primes. 0 < p \<and> 0 < load_limit p \<and> load_limit p < p"
  by (simp add: primes_def, simp add: prime_table_length_def primes_def, code_simp)

lemma primes_increasing: "sorted_wrt (<) primes"
  by (simp add: primes_def)

lemma prime_pos: "i < length primes \<Longrightarrow> 0 < primes ! i"
  using primes_facts(3) by (meson nth_mem)

lemma find_prime_found:
  assumes "\<exists>p \<in> set ps. m < p" and "find_prime m ps i s = (j, p)"
  shows "\<exists>n < length ps. j = i + of_nat n \<and> p = ps ! n \<and> m < p"
  using assms
proof (induction ps arbitrary: i)
  case (Cons q qs)
  show ?case
  proof (cases "m < q")
    case True
    with Cons.prems show ?thesis by (intro exI [of _ 0]) simp
  next
    case False
    with Cons.prems have "\<exists>p \<in> set qs. m < p" "find_prime m qs (i + 1) s = (j, p)" by auto
    from Cons.IH [OF this] obtain n
      where "n < length qs" "j = i + 1 + of_nat n" "p = qs ! n" "m < p" by blast
    then show ?thesis by (intro exI [of _ "Suc n"]) (simp add: algebra_simps)
  qed
qed simp

lemma ht_shapeD:
  assumes "ht_shape h"
  shows "length (table h) = unat (tablelength h)"
    and "unat (primeindex h) < length primes"
    and "tablelength h = primes ! unat (primeindex h)"
    and "loadlimit h = load_limit (tablelength h)"
    and "placed (tablelength h) (table h)"
    and "hashed (hashfn h) (ht_entries h)"
  using assms unfolding ht_shape_def by blast+

lemma ht_invD: "ht_inv h \<Longrightarrow> ht_shape h" "ht_inv h \<Longrightarrow> unat (entrycount h) = length (ht_entries h)"
  by (simp_all add: ht_inv_def)

lemma tablelength_pos: "ht_shape h \<Longrightarrow> 0 < tablelength h"
  by (simp add: ht_shape_def prime_pos)

lemma arrangedD:
  assumes "arranged h"
  shows "length (table h) = unat (tablelength h)"
    and "0 < tablelength h"
    and "placed (tablelength h) (table h)"
    and "hashed (hashfn h) (ht_entries h)"
  using assms unfolding arranged_def by blast+

lemma ht_shape_arranged:
  "ht_shape h \<longleftrightarrow> arranged h \<and> unat (primeindex h) < length primes
     \<and> tablelength h = primes ! unat (primeindex h) \<and> loadlimit h = load_limit (tablelength h)"
  by (auto simp: ht_shape_def arranged_def prime_pos)

lemma ht_shape_arrangedD: "ht_shape h \<Longrightarrow> arranged h"
  by (simp add: ht_shape_arranged)

lemma arranged_entrycount [simp]: "arranged (h\<lparr>entrycount := n\<rparr>) = arranged h"
  by (simp add: arranged_def ht_entries_def)

subsection \<open>Placement and the transfer loop\<close>

lemma placedD: "placed tlen t \<Longrightarrow> i < length t \<Longrightarrow> e \<in> set (t ! i) \<Longrightarrow> unat (indexFor tlen (eh e)) = i"
  by (simp add: placed_def)

lemma placed_cons:
  "placed tlen t \<Longrightarrow> placed tlen (t[unat (indexFor tlen (eh e)) := e # t ! unat (indexFor tlen (eh e))])"
  by (cases "unat (indexFor tlen (eh e)) < length t")
     (auto simp: placed_def nth_list_update list_update_beyond)

lemma placed_shrink:
  "placed tlen t \<Longrightarrow> i < length t \<Longrightarrow> set es \<subseteq> set (t ! i) \<Longrightarrow> placed tlen (t[i := es])"
  by (auto simp: placed_def nth_list_update)

lemma placed_replicate: "placed tlen (replicate n [])"
  by (simp add: placed_def)

lemma indexFor_less: "0 < tlen \<Longrightarrow> unat (indexFor tlen x) < unat tlen"
  by (simp add: indexFor_def unat_mod_less)

lemma transfer_chain_ok:
  assumes "0 < newsize" "length nt = unat newsize" "placed newsize nt"
  shows "length (transfer_chain newsize es nt) = unat newsize
    \<and> placed newsize (transfer_chain newsize es nt)
    \<and> mset (concat (transfer_chain newsize es nt)) = mset es + mset (concat nt)"
  using assms
proof (induction es arbitrary: nt)
  case (Cons e es)
  let ?i = "unat (indexFor newsize (eh e))"
  from Cons.prems have i: "?i < length nt" by (simp add: indexFor_less)
  from Cons.prems have "placed newsize (nt[?i := e # nt ! ?i])" by (simp add: placed_cons)
  with Cons.IH [of "nt[?i := e # nt ! ?i]"] Cons.prems i show ?case
    by (simp add: Let_def mset_concat_cons)
qed simp

lemma transfer_table_ok:
  assumes "0 < newsize" "length nt = unat newsize" "placed newsize nt"
  shows "length (transfer_table newsize t nt) = unat newsize
    \<and> placed newsize (transfer_table newsize t nt)
    \<and> mset (concat (transfer_table newsize t nt)) = mset (concat t) + mset (concat nt)"
  using assms
proof (induction t arbitrary: nt)
  case (Cons c t)
  from transfer_chain_ok [OF Cons.prems, of c] Cons.IH [of "transfer_chain newsize c nt"] Cons.prems
  show ?case by simp
qed simp

lemma hashed_mset: "mset es = mset es' \<Longrightarrow> hashed hf es = hashed hf es'"
  by (metis hashed_def mset_eq_setD)

subsection \<open>Lookup against the abstraction\<close>

lemma unique_keys_mset: "mset es = mset es' \<Longrightarrow> unique_keys eq es = unique_keys eq es'"
proof -
  assume m: "mset es = mset es'"
  then have "length (filter P es) = length (filter P es')" for P
    by (metis mset_filter size_mset)
  with m show ?thesis by (simp add: unique_keys_def mset_eq_setD [OF m])
qed

lemma unique_keys_filter:
  assumes "key_contract hf eq" "unique_keys eq es"
  shows "length (filter (\<lambda>e. eq k (ek e)) es) \<le> 1"
proof (cases "\<exists>e \<in> set es. eq k (ek e)")
  case True
  then obtain e where e: "e \<in> set es" "eq k (ek e)" by blast
  then have "filter (\<lambda>x. eq k (ek x)) es = filter (\<lambda>x. eq (ek e) (ek x)) es"
    by (simp add: key_class [OF assms(1) e(2)])
  with e assms(2) show ?thesis by (simp add: unique_keys_def)
next
  case False
  then have "filter (\<lambda>e. eq k (ek e)) es = []" by (simp add: filter_empty_conv)
  then show ?thesis by simp
qed

lemma assoc_mset:
  assumes "key_contract hf eq" "unique_keys eq es" "mset es = mset es'"
  shows "assoc eq es k = assoc eq es' k"
proof -
  have "filter (\<lambda>e. eq k (ek e)) es = filter (\<lambda>e. eq k (ek e)) es'"
    by (rule short_mset_eq) (simp_all add: assms unique_keys_filter [OF assms(1,2), simplified])
  then show ?thesis by (simp add: assoc_def)
qed

lemma assoc_Cons:
  "assoc eq (e # es) k = (if eq k (ek e) then Some (ev e) else assoc eq es k)"
  by (simp add: assoc_def)

lemma assoc_Nil [simp]: "assoc eq [] k = None"
  by (simp add: assoc_def)

lemma search_chain_assoc:
  assumes "\<And>e. e \<in> set c \<Longrightarrow> eq k (ek e) \<Longrightarrow> eh e = hv"
  shows "search_chain hv eq k c = assoc eq c k"
  using assms
proof (induction c)
  case (Cons e c)
  have "search_chain hv eq k c = assoc eq c k"
    by (rule Cons.IH) (rule Cons.prems, simp_all)
  moreover have "eq k (ek e) \<Longrightarrow> hv = eh e"
    by (rule Cons.prems [symmetric]) simp_all
  ultimately show ?case by (simp add: assoc_Cons)
qed simp

lemma in_bucket_entries: "i < length (table h) \<Longrightarrow> e \<in> set (table h ! i) \<Longrightarrow> e \<in> set (ht_entries h)"
  by (auto simp: ht_entries_def intro: nth_mem)

lemma arranged_search:
  assumes kc: "key_contract (hashfn h) (eqfn h)" and inv: "arranged h"
  shows "hashtable_search h k = assoc (eqfn h) (ht_entries h) k"
proof -
  let ?hv = "hash h k" and ?i = "unat (indexFor (tablelength h) (hash h k))"
  note len = arrangedD(1) [OF inv] and pl = arrangedD(3) [OF inv] and hs = arrangedD(4) [OF inv]
  have i: "?i < length (table h)"
    using len indexFor_less [OF arrangedD(2) [OF inv]] by simp
  have hv: "eh e = ?hv" if "e \<in> set (ht_entries h)" "eqfn h k (ek e)" for e
    using that hs key_contractD(4) [OF kc] by (simp add: hashed_def hash_def)
  have "filter (\<lambda>e. eqfn h k (ek e)) (concat (table h))
      = filter (\<lambda>e. eqfn h k (ek e)) (table h ! ?i)"
    using i
  proof (rule filter_concat_single)
    fix j e assume "j < length (table h)" "e \<in> set (table h ! j)" "eqfn h k (ek e)"
    then show "j = ?i" using placedD [OF pl] hv in_bucket_entries by metis
  qed
  moreover have "search_chain ?hv (eqfn h) k (table h ! ?i) = assoc (eqfn h) (table h ! ?i) k"
    by (rule search_chain_assoc) (use hv in_bucket_entries [OF i] in blast)
  ultimately show ?thesis
    by (simp add: hashtable_search_def Let_def assoc_def ht_entries_def)
qed

lemma search_assoc:
  "key_contract (hashfn h) (eqfn h) \<Longrightarrow> ht_shape h \<Longrightarrow>
     hashtable_search h k = assoc (eqfn h) (ht_entries h) k"
  by (rule arranged_search [OF _ ht_shape_arrangedD])

subsection \<open>Insertion, removal, destruction\<close>

lemma unat_Suc_small: "unat (w :: u32) < n \<Longrightarrow> n < 2 ^ 32 \<Longrightarrow> unat (w + 1) = Suc (unat w)"
  by (simp add: unat_word_ariths)

lemma primeindex_27: "(w :: u32) = 27 \<longleftrightarrow> unat w = 27"
  by (simp add: word_unat_eq_iff)

text \<open>Everything an expansion keeps: the entries up to order, the shape and the other fields.\<close>

definition expands :: "('k, 'v) hashtable \<Rightarrow> ('k, 'v) hashtable \<Rightarrow> bool" where
  "expands h h' \<longleftrightarrow> ht_shape h' \<and> mset (ht_entries h') = mset (ht_entries h)
     \<and> hashfn h' = hashfn h \<and> eqfn h' = eqfn h \<and> entrycount h' = entrycount h"

lemma expand_moves:
  assumes sh: "ht_shape h" and idx: "primeindex h \<noteq> 27" and mem: "malloc_table mem"
  shows "\<exists>h'. hashtable_expand mem h = Inr (h', -1) \<and> expands h h'
    \<and> primeindex h' = primeindex h + 1 \<and> unat (primeindex h') = Suc (unat (primeindex h))"
proof -
  note i = ht_shapeD [OF sh]
  let ?p = "primeindex h + 1"
  from idx i(2) have up: "unat ?p = Suc (unat (primeindex h))" and lt: "unat ?p < length primes"
    by (simp_all add: primes_facts primeindex_27 unat_Suc_small [of _ 28])
  let ?n = "primes ! unat ?p"
  let ?t = "transfer_table ?n (table h) (replicate (unat ?n) [])"
  have "0 < ?n" using prime_pos [OF lt] .
  then have t: "length ?t = unat ?n" "placed ?n ?t" "mset (concat ?t) = mset (concat (table h))"
    using transfer_table_ok [of ?n "replicate (unat ?n) []" "table h"]
    by (simp_all add: placed_replicate)
  let ?h = "h\<lparr>primeindex := ?p, table := ?t, tablelength := ?n, loadlimit := load_limit ?n\<rparr>"
  have "hashtable_expand mem h = Inr (?h, -1)"
    using idx lt mem by (simp add: hashtable_expand_def primes_facts Let_def)
  moreover have "hashed (hashfn h) (ht_entries ?h)"
    using i(6) hashed_mset [of "ht_entries ?h" "ht_entries h"] t(3) by (simp add: ht_entries_def)
  ultimately show ?thesis
    using lt t up by (auto simp: expands_def ht_shape_def ht_entries_def)
qed

lemma expand_stays:
  assumes sh: "ht_shape h" and "primeindex h = 27 \<or> (\<not> malloc_table mem \<and> \<not> realloc_table mem)"
  shows "hashtable_expand mem h = Inr (h, 0)"
  using assms ht_shapeD(2) [OF sh]
  by (auto simp: hashtable_expand_def primes_facts primeindex_27 unat_Suc_small [of _ 28])

lemma expand_ok:
  assumes sh: "ht_shape h" and mem: "malloc_table mem \<or> \<not> realloc_table mem"
  shows "\<exists>h' r. hashtable_expand mem h = Inr (h', r) \<and> expands h h'"
proof (cases "primeindex h \<noteq> 27 \<and> malloc_table mem")
  case True
  with expand_moves [OF sh] show ?thesis by blast
next
  case False
  with mem expand_stays [OF sh] have "hashtable_expand mem h = Inr (h, 0)" by blast
  with sh show ?thesis by (simp add: expands_def)
qed

lemma ht_shape_entrycount [simp]: "ht_shape (h\<lparr>entrycount := n\<rparr>) = ht_shape h"
  by (simp add: ht_shape_def ht_entries_def)

lemma ht_entries_entrycount [simp]: "ht_entries (h\<lparr>entrycount := n\<rparr>) = ht_entries h"
  by (simp add: ht_entries_def)

lemma arranged_insert:
  assumes ar: "arranged h" and "malloc_entry mem"
  shows "\<exists>h'. insert_entry mem h k v = (h', -1) \<and> arranged h'
    \<and> mset (ht_entries h') = add_mset \<lparr>ek = k, ev = v, eh = hash h k\<rparr> (mset (ht_entries h))
    \<and> hashfn h' = hashfn h \<and> eqfn h' = eqfn h \<and> entrycount h' = entrycount h
    \<and> tablelength h' = tablelength h \<and> loadlimit h' = loadlimit h \<and> primeindex h' = primeindex h"
proof -
  note i = arrangedD [OF ar]
  let ?e = "\<lparr>ek = k, ev = v, eh = hash h k\<rparr>"
  let ?i = "unat (indexFor (tablelength h) (hash h k))"
  let ?h = "h\<lparr>table := (table h)[?i := ?e # table h ! ?i]\<rparr>"
  have lt: "?i < length (table h)"
    using i(1) indexFor_less [OF i(2)] by simp
  have ms: "mset (ht_entries ?h) = add_mset ?e (mset (ht_entries h))"
    by (simp add: ht_entries_def mset_concat_cons [OF lt])
  have "hashed (hashfn h) (ht_entries ?h)"
    using i(4) mset_eq_setD [of "ht_entries ?h" "?e # ht_entries h"] ms
    by (simp add: hashed_def hash_def)
  moreover have "placed (tablelength h) (table ?h)"
    using placed_cons [OF i(3), of ?e] by simp
  ultimately have "arranged ?h"
    using i by (simp add: arranged_def)
  with ms show ?thesis
    using assms(2) by (simp add: insert_entry_def Let_def)
qed

lemma insert_entry_ok:
  assumes "ht_shape h" and "malloc_entry mem"
  shows "\<exists>h'. insert_entry mem h k v = (h', -1) \<and> ht_shape h'
    \<and> mset (ht_entries h') = add_mset \<lparr>ek = k, ev = v, eh = hash h k\<rparr> (mset (ht_entries h))
    \<and> hashfn h' = hashfn h \<and> eqfn h' = eqfn h \<and> entrycount h' = entrycount h"
  using arranged_insert [of h mem k v] assms by (auto simp: ht_shape_arranged)

text \<open>
  An insertion whose table array and entry can be allocated: it succeeds and adds one entry.
\<close>

lemma insert_ok:
  assumes inv: "ht_inv h" and mem: "malloc_table mem \<or> \<not> realloc_table mem" "malloc_entry mem"
    and room: "length (ht_entries h) < 2 ^ 32 - 1"
  shows "\<exists>h'. hashtable_insert mem h k v = Inr (h', -1) \<and> ht_inv h'
    \<and> mset (ht_entries h') = add_mset \<lparr>ek = k, ev = v, eh = hash h k\<rparr> (mset (ht_entries h))
    \<and> hashfn h' = hashfn h \<and> eqfn h' = eqfn h"
proof -
  let ?h1 = "h\<lparr>entrycount := entrycount h + 1\<rparr>"
  note sh = ht_invD(1) [OF inv]
  have "\<exists>h2 r. (if loadlimit ?h1 < entrycount ?h1 then hashtable_expand mem ?h1 else Inr (?h1, 0))
      = Inr (h2, r) \<and> expands ?h1 h2"
    using expand_ok [of ?h1 mem] sh mem(1) by (auto simp: expands_def)
  then obtain h2 r where h2: "(if loadlimit ?h1 < entrycount ?h1 then hashtable_expand mem ?h1
      else Inr (?h1, 0)) = Inr (h2, r)" "expands ?h1 h2" by blast
  obtain h3 where h3: "insert_entry mem h2 k v = (h3, -1)" "ht_shape h3"
      "mset (ht_entries h3) = add_mset \<lparr>ek = k, ev = v, eh = hash h2 k\<rparr> (mset (ht_entries h2))"
      "hashfn h3 = hashfn h2" "eqfn h3 = eqfn h2" "entrycount h3 = entrycount h2"
    using insert_entry_ok [of h2 mem k v] h2(2) mem(2) by (auto simp: expands_def)
  have "length (ht_entries h3) = Suc (length (ht_entries h))"
    using h3(3) h2(2) by (metis expands_def ht_entries_entrycount size_add_mset size_mset)
  moreover have "unat (entrycount h3) = Suc (length (ht_entries h))"
    using h3(6) h2(2) ht_invD(2) [OF inv] room
    by (simp add: expands_def unat_word_ariths)
  ultimately have "ht_inv h3" using h3(2) by (simp add: ht_inv_def)
  moreover have "hashtable_insert mem h k v = Inr (h3, -1)"
    using h2(1) h3(1) by (simp add: hashtable_insert_def Let_def)
  ultimately show ?thesis
    using h2(2) h3 by (auto simp: expands_def hash_def)
qed

lemma remove_chain_Some:
  "remove_chain hv eq k c = Some (e, c') \<Longrightarrow>
     mset c = add_mset e (mset c') \<and> hv = eh e \<and> eq k (ek e) \<and> set c' \<subseteq> set c"
  by (induction c arbitrary: c') (auto split: if_splits)

lemma remove_chain_None:
  "remove_chain hv eq k c = None \<longleftrightarrow> (\<forall>e \<in> set c. \<not> (hv = eh e \<and> eq k (ek e)))"
  by (induction c) auto

lemma search_chain_None:
  "search_chain hv eq k c = None \<longleftrightarrow> (\<forall>e \<in> set c. \<not> (hv = eh e \<and> eq k (ek e)))"
  by (induction c) auto

lemma remove_miss:
  "hashtable_search h k = None \<Longrightarrow> hashtable_remove h k = (h, None)"
  by (simp add: hashtable_search_def hashtable_remove_def Let_def search_chain_None
        remove_chain_None [THEN iffD2])

lemma arranged_remove:
  assumes ar: "arranged h" and hit: "hashtable_search h k = Some v"
  shows "\<exists>h' e. hashtable_remove h k = (h', Some (ev e, ek e)) \<and> arranged h'
    \<and> mset (ht_entries h) = add_mset e (mset (ht_entries h')) \<and> eqfn h k (ek e)
    \<and> hashfn h' = hashfn h \<and> eqfn h' = eqfn h \<and> entrycount h' = entrycount h - 1
    \<and> tablelength h' = tablelength h \<and> loadlimit h' = loadlimit h \<and> primeindex h' = primeindex h"
proof -
  note i = arrangedD [OF ar]
  let ?i = "unat (indexFor (tablelength h) (hash h k))"
  have lt: "?i < length (table h)"
    using i(1) indexFor_less [OF i(2)] by simp
  from hit obtain e c where rc: "remove_chain (hash h k) (eqfn h) k (table h ! ?i) = Some (e, c)"
    by (cases "remove_chain (hash h k) (eqfn h) k (table h ! ?i)")
       (auto simp: hashtable_search_def Let_def remove_chain_None search_chain_None [THEN iffD2])
  note e = remove_chain_Some [OF rc]
  let ?h = "h\<lparr>table := (table h)[?i := c], entrycount := entrycount h - 1\<rparr>"
  from e have sub: "set c \<subseteq> set (table h ! ?i)" by blast
  from e have "mset (table h ! ?i) = add_mset e (mset c)" ..
  then have ms: "mset (ht_entries h) = add_mset e (mset (ht_entries ?h))"
    using mset_concat_update [OF lt, of c] by (simp add: ht_entries_def)
  have "hashed (hashfn h) (ht_entries ?h)"
    using i(4) mset_eq_setD [of "ht_entries h" "e # ht_entries ?h"] ms
    by (simp add: hashed_def)
  moreover have "placed (tablelength h) (table ?h)"
    using placed_shrink [OF i(3) lt, of c] sub by simp
  ultimately have "arranged ?h"
    using i by (simp add: arranged_def)
  moreover have "hashtable_remove h k = (?h, Some (ev e, ek e))"
    using rc by (simp add: hashtable_remove_def Let_def)
  ultimately show ?thesis using ms e by (intro exI [of _ ?h] exI [of _ e]) simp
qed

text \<open>The count of a table that has lost an entry.\<close>

lemma count_removed:
  assumes "unat (n :: u32) = length (ht_entries h)"
    and "mset (ht_entries h) = add_mset e (mset (ht_entries h'))"
  shows "unat (n - 1) = length (ht_entries h')"
proof -
  have "length (ht_entries h) = Suc (length (ht_entries h'))"
    using assms(2) by (metis size_add_mset size_mset)
  then show ?thesis using assms(1) unat_minus_one [of n] by force
qed

lemma remove_hit:
  assumes inv: "ht_inv h" and hit: "hashtable_search h k = Some v"
  shows "\<exists>h' e. hashtable_remove h k = (h', Some (ev e, ek e)) \<and> ht_inv h'
    \<and> mset (ht_entries h) = add_mset e (mset (ht_entries h')) \<and> eqfn h k (ek e)
    \<and> hashfn h' = hashfn h \<and> eqfn h' = eqfn h"
  using arranged_remove [OF _ hit] inv count_removed [OF ht_invD(2) [OF inv]]
  by (auto simp: ht_inv_def ht_shape_arranged)

subsection \<open>Lookup laws\<close>

lemma assoc_None: "assoc eq es k = None \<longleftrightarrow> (\<forall>e \<in> set es. \<not> eq k (ek e))"
  by (induction es) (auto simp: assoc_Cons)

lemma unique_keys_Cons:
  assumes kc: "key_contract hf eq"
  shows "unique_keys eq (e # es) \<longleftrightarrow> unique_keys eq es \<and> assoc eq es (ek e) = None"
proof -
  note r = key_contractD(1) [OF kc] and s = key_contractD(2) [OF kc]
  have s': "eq a b = eq b a" for a b using s by blast
  show ?thesis
  proof
    assume u: "unique_keys eq (e # es)"
    then have "filter (\<lambda>x. eq (ek e) (ek x)) es = []"
      by (simp add: unique_keys_def r)
    then have n: "assoc eq es (ek e) = None" by (simp add: assoc_def)
    then have "\<forall>x \<in> set es. \<not> eq (ek x) (ek e)" by (simp add: assoc_None s')
    with u have "unique_keys eq es" by (auto simp: unique_keys_def)
    with n show "unique_keys eq es \<and> assoc eq es (ek e) = None" by simp
  next
    assume u: "unique_keys eq es \<and> assoc eq es (ek e) = None"
    then have "\<forall>x \<in> set es. \<not> eq (ek e) (ek x)" "\<forall>x \<in> set es. \<not> eq (ek x) (ek e)"
      by (simp_all add: assoc_None s')
    with u show "unique_keys eq (e # es)"
      by (auto simp: unique_keys_def r filter_empty_conv)
  qed
qed

lemma ht_okD:
  "ht_ok h \<Longrightarrow> ht_inv h" "ht_ok h \<Longrightarrow> ht_shape h" "ht_ok h \<Longrightarrow> unique_keys (eqfn h) (ht_entries h)"
  by (simp_all add: ht_ok_def ht_inv_def)

text \<open>How the lookups of a table follow from its entries, whatever the sizes and the strategy of growth.\<close>

lemma lookups_kept:
  assumes kc: "key_contract (hashfn h) (eqfn h)" and ar: "arranged h" "arranged h'"
    and u: "unique_keys (eqfn h) (ht_entries h)" and ms: "mset (ht_entries h') = mset (ht_entries h)"
    and fns: "hashfn h' = hashfn h" "eqfn h' = eqfn h"
  shows "unique_keys (eqfn h') (ht_entries h')" "hashtable_search h' k = hashtable_search h k"
proof -
  show "unique_keys (eqfn h') (ht_entries h')" using u unique_keys_mset [OF ms] fns by simp
  show "hashtable_search h' k = hashtable_search h k"
    using arranged_search [OF kc ar(1)] arranged_search [OF _ ar(2)] kc fns
      assoc_mset [OF kc u ms [symmetric], of k] by simp
qed

lemma lookups_added:
  assumes kc: "key_contract (hashfn h) (eqfn h)" and ar: "arranged h" "arranged h'"
    and u: "unique_keys (eqfn h) (ht_entries h)" and fresh: "hashtable_search h (ek e) = None"
    and ms: "mset (ht_entries h') = add_mset e (mset (ht_entries h))"
    and fns: "hashfn h' = hashfn h" "eqfn h' = eqfn h"
  shows "unique_keys (eqfn h') (ht_entries h')"
    "hashtable_search h' k = (if eqfn h k (ek e) then Some (ev e) else hashtable_search h k)"
proof -
  have ms': "mset (e # ht_entries h) = mset (ht_entries h')" using ms by simp
  have u': "unique_keys (eqfn h) (e # ht_entries h)"
    using fresh arranged_search [OF kc ar(1)] u by (simp add: unique_keys_Cons [OF kc])
  then show "unique_keys (eqfn h') (ht_entries h')" using unique_keys_mset [OF ms'] fns by simp
  show "hashtable_search h' k = (if eqfn h k (ek e) then Some (ev e) else hashtable_search h k)"
    using arranged_search [OF kc ar(1)] arranged_search [OF _ ar(2)] kc fns
      assoc_mset [OF kc u' ms', of k] by (simp add: assoc_Cons split: if_splits)
qed

lemma lookups_removed:
  assumes kc: "key_contract (hashfn h) (eqfn h)" and ar: "arranged h" "arranged h'"
    and u: "unique_keys (eqfn h) (ht_entries h)" and hit: "hashtable_search h k = Some v"
    and ms: "mset (ht_entries h) = add_mset e (mset (ht_entries h'))" and e: "eqfn h k (ek e)"
    and fns: "hashfn h' = hashfn h" "eqfn h' = eqfn h"
  shows "unique_keys (eqfn h') (ht_entries h')" "ev e = v"
    "hashtable_search h' k' = (if eqfn h k' k then None else hashtable_search h k')"
proof -
  have ms': "mset (ht_entries h) = mset (e # ht_entries h')" using ms by simp
  have "unique_keys (eqfn h) (e # ht_entries h')" using u unique_keys_mset [OF ms'] by simp
  then have u': "unique_keys (eqfn h) (ht_entries h')" "assoc (eqfn h) (ht_entries h') (ek e) = None"
    by (simp_all add: unique_keys_Cons [OF kc])
  then show "unique_keys (eqfn h') (ht_entries h')" using fns by simp
  have s: "hashtable_search h k' = assoc (eqfn h) (e # ht_entries h') k'" for k'
    using arranged_search [OF kc ar(1)] assoc_mset [OF kc u ms'] by simp
  have s': "hashtable_search h' k' = assoc (eqfn h) (ht_entries h') k'" for k'
    using arranged_search [OF _ ar(2)] kc fns by simp
  show "ev e = v" using hit s [of k] e by (simp add: assoc_Cons)
  have "eqfn h k' k = eqfn h k' (ek e)" for k'
    using e key_contractD(2,3) [OF kc] by blast
  then show "hashtable_search h' k' = (if eqfn h k' k then None else hashtable_search h k')"
    using s [of k'] s' [of k'] u'(2) key_class [OF kc, of k' "ek e"]
    by (auto simp: assoc_Cons assoc_None)
qed

lemma ht_ok_arranged: "ht_ok h \<Longrightarrow> arranged h"
  by (rule ht_shape_arrangedD) (rule ht_okD(2))

lemma insert_search:
  assumes kc: "key_contract (hashfn h) (eqfn h)" and ok: "ht_ok h"
    and fresh: "hashtable_search h k = None"
    and mem: "malloc_table mem \<or> \<not> realloc_table mem" "malloc_entry mem"
    and room: "length (ht_entries h) < 2 ^ 32 - 1"
  shows "\<exists>h'. hashtable_insert mem h k v = Inr (h', -1) \<and> ht_ok h'
    \<and> hashfn h' = hashfn h \<and> eqfn h' = eqfn h
    \<and> unat (hashtable_count h') = Suc (unat (hashtable_count h))
    \<and> (\<forall>k'. hashtable_search h' k' = (if eqfn h k' k then Some v else hashtable_search h k'))"
proof -
  let ?e = "\<lparr>ek = k, ev = v, eh = hash h k\<rparr>"
  obtain h' where h': "hashtable_insert mem h k v = Inr (h', -1)" "ht_inv h'"
      "mset (ht_entries h') = add_mset ?e (mset (ht_entries h))" "hashfn h' = hashfn h" "eqfn h' = eqfn h"
    using insert_ok [OF ht_okD(1) [OF ok] mem room] by blast
  note l = lookups_added [OF kc ht_ok_arranged [OF ok] ht_shape_arrangedD [OF ht_invD(1) [OF h'(2)]]
      ht_okD(3) [OF ok] _ h'(3-5)]
  have "unat (hashtable_count h') = Suc (unat (hashtable_count h))"
    using ht_invD(2) [OF h'(2)] ht_invD(2) [OF ht_okD(1) [OF ok]] arg_cong [OF h'(3), of size]
    by (simp add: hashtable_count_def)
  then show ?thesis using h' l fresh by (auto simp: ht_ok_def)
qed

lemma remove_search:
  assumes kc: "key_contract (hashfn h) (eqfn h)" and ok: "ht_ok h"
    and hit: "hashtable_search h k = Some v"
  shows "\<exists>h' k0. hashtable_remove h k = (h', Some (v, k0)) \<and> eqfn h k k0 \<and> ht_ok h'
    \<and> hashfn h' = hashfn h \<and> eqfn h' = eqfn h
    \<and> Suc (unat (hashtable_count h')) = unat (hashtable_count h)
    \<and> (\<forall>k'. hashtable_search h' k' = (if eqfn h k' k then None else hashtable_search h k'))"
proof -
  obtain h' e where h': "hashtable_remove h k = (h', Some (ev e, ek e))" "ht_inv h'"
      "mset (ht_entries h) = add_mset e (mset (ht_entries h'))" "eqfn h k (ek e)"
      "hashfn h' = hashfn h" "eqfn h' = eqfn h"
    using remove_hit [OF ht_okD(1) [OF ok] hit] by blast
  note l = lookups_removed [OF kc ht_ok_arranged [OF ok]
      ht_shape_arrangedD [OF ht_invD(1) [OF h'(2)]] ht_okD(3) [OF ok] hit h'(3-6)]
  have "Suc (unat (hashtable_count h')) = unat (hashtable_count h)"
    using ht_invD(2) [OF h'(2)] ht_invD(2) [OF ht_okD(1) [OF ok]] arg_cong [OF h'(3), of size]
    by (simp add: hashtable_count_def)
  then show ?thesis using h' l by (auto simp: ht_ok_def)
qed

subsection \<open>Creation, load and destruction\<close>

lemma create_ok:
  assumes "create_hashtable mh mt minsize hf eq = Some h"
  shows "ht_ok h \<and> minsize < tablelength h \<and> hashtable_count h = 0 \<and> ht_entries h = []
    \<and> hashfn h = hf \<and> eqfn h = eq \<and> (\<forall>k. hashtable_search h k = None)"
proof -
  obtain i s where fp: "find_prime minsize primes 0 (primes ! 0) = (i, s)" by fastforce
  from assms have small: "minsize \<le> 2 ^ 30"
    by (simp add: create_hashtable_def not_less split: if_splits)
  moreover have "(2 :: u32) ^ 30 < 1610612741" by simp
  ultimately have "\<exists>p \<in> set primes. minsize < p"
    by (intro bexI [of _ 1610612741]) (auto simp: primes_def word_le_nat_alt word_less_nat_alt)
  then obtain n where n: "n < length primes" "i = of_nat n" "s = primes ! n" "minsize < s"
    using find_prime_found [OF _ fp] by auto
  then have i: "unat i = n" by (simp add: primes_facts unat_of_nat)
  from assms fp have h: "h = \<lparr>tablelength = s, table = replicate (unat s) [], entrycount = 0,
      loadlimit = load_limit s, primeindex = i, hashfn = hf, eqfn = eq\<rparr>"
    by (simp add: create_hashtable_def split: if_splits)
  have e: "ht_entries h = []" by (simp add: h ht_entries_def concat_eq_Nil_conv)
  have lt: "unat (indexFor s x) < unat s" for x
    using n by (intro indexFor_less) (simp add: prime_pos)
  have "ht_shape h"
    using n i e by (simp add: ht_shape_def h placed_replicate hashed_def ht_entries_def)
  then show ?thesis
    using n e lt by (simp add: ht_ok_def ht_inv_def h unique_keys_def hashtable_count_def
        hashtable_search_def Let_def)
qed

lemma create_total:
  "(create_hashtable mh mt minsize hf eq = None) \<longleftrightarrow> (2 ^ 30 < minsize \<or> \<not> mh \<or> \<not> mt)"
  by (auto simp: create_hashtable_def split: prod.splits)

text \<open>While memory lasts and larger primes are left, the load stays below the limit.\<close>

definition within_load :: "('k, 'v) hashtable \<Rightarrow> bool" where
  "within_load h \<longleftrightarrow> entrycount h \<le> loadlimit h \<or> primeindex h = 27"

lemma load_limits_increasing: "sorted_wrt (<) (map load_limit primes)"
  by code_simp

lemma load_limit_step:
  assumes "i < 27"
  shows "load_limit (primes ! i) < load_limit (primes ! Suc i)"
  using sorted_wrt_nth_less [OF load_limits_increasing, of i "Suc i"] assms
  by (simp add: primes_facts)

lemma insert_within_load:
  assumes inv: "ht_inv h" and mem: "malloc_table mem" "malloc_entry mem"
    and load: "within_load h"
    and room: "length (ht_entries h) < 2 ^ 32 - 1"
    and ins: "hashtable_insert mem h k v = Inr (h', r)"
  shows "within_load h'"
proof -
  let ?h1 = "h\<lparr>entrycount := entrycount h + 1\<rparr>"
  have sh: "ht_shape ?h1" using ht_invD(1) [OF inv] by simp
  note i = ht_shapeD [OF sh]
  have up: "unat (entrycount h + 1) = Suc (unat (entrycount h))"
    using ht_invD(2) [OF inv] room by (simp add: unat_word_ariths)
  have keep: "entrycount h3 = entrycount h2 \<and> loadlimit h3 = loadlimit h2
      \<and> primeindex h3 = primeindex h2" if "insert_entry mem h2 k v = (h3, r)" for h2 h3
    using that mem by (auto simp: insert_entry_def Let_def)
  show ?thesis
  proof (cases "loadlimit h < entrycount h + 1")
    case False
    with ins have "insert_entry mem ?h1 k v = (h', r)"
      by (simp add: hashtable_insert_def Let_def)
    from keep [OF this] False show ?thesis by (simp add: within_load_def not_less)
  next
    case True
    show ?thesis
    proof (cases "primeindex h = 27")
      case last: True
      with expand_stays [OF sh, of mem] have "hashtable_expand mem ?h1 = Inr (?h1, 0)" by simp
      with ins True have "insert_entry mem ?h1 k v = (h', r)"
        by (simp add: hashtable_insert_def Let_def)
      from keep [OF this] last show ?thesis by (simp add: within_load_def)
    next
      case more: False
      with expand_moves [OF sh _ mem(1)] obtain h2 where h2:
        "hashtable_expand mem ?h1 = Inr (h2, -1)" "expands ?h1 h2"
        "unat (primeindex h2) = Suc (unat (primeindex h))" by auto
      with ins True have "insert_entry mem h2 k v = (h', r)"
        by (simp add: hashtable_insert_def Let_def)
      note k = keep [OF this]
      have s2: "ht_shape h2" and e2: "entrycount h2 = entrycount h + 1"
        using h2(2) by (simp_all add: expands_def)
      have "unat (primeindex h) < 27"
        using i(2) more by (simp add: primes_facts primeindex_27)
      then have "load_limit (primes ! unat (primeindex h)) < load_limit (primes ! unat (primeindex h2))"
        using load_limit_step h2(3) by simp
      then have "loadlimit h < loadlimit h2"
        using i(3,4) ht_shapeD(3,4) [OF s2] by simp
      moreover have "entrycount h \<le> loadlimit h" using load more by (simp add: within_load_def)
      ultimately have "entrycount h + 1 \<le> loadlimit h2"
        using up by (simp add: word_le_nat_alt word_less_nat_alt)
      with k e2 show ?thesis by (simp add: within_load_def)
    qed
  qed
qed

definition freed_keys :: "('k, 'v) freed list \<Rightarrow> 'k list" where
  "freed_keys fs = concat (map (\<lambda>f. case f of FreeKey k \<Rightarrow> [k] | _ \<Rightarrow> []) fs)"

definition freed_values :: "('k, 'v) freed list \<Rightarrow> 'v list" where
  "freed_values fs = concat (map (\<lambda>f. case f of FreeValue v \<Rightarrow> [v] | _ \<Rightarrow> []) fs)"

lemma freed_append [simp]:
  "freed_keys (fs @ gs) = freed_keys fs @ freed_keys gs"
  "freed_values (fs @ gs) = freed_values fs @ freed_values gs"
  by (simp_all add: freed_keys_def freed_values_def)

lemma freed_simps [simp]:
  "freed_keys [] = []" "freed_values [] = []"
  "freed_keys (FreeKey k # fs) = k # freed_keys fs" "freed_values (FreeKey k # fs) = freed_values fs"
  "freed_keys (FreeValue v # fs) = freed_keys fs" "freed_values (FreeValue v # fs) = v # freed_values fs"
  "freed_keys (FreeEntry # fs) = freed_keys fs" "freed_values (FreeEntry # fs) = freed_values fs"
  "freed_keys (FreeTable # fs) = freed_keys fs" "freed_values (FreeTable # fs) = freed_values fs"
  "freed_keys (FreeStruct # fs) = freed_keys fs" "freed_values (FreeStruct # fs) = freed_values fs"
  by (simp_all add: freed_keys_def freed_values_def)

lemma destroy_chain_frees [simp]:
  "freed_keys (destroy_chain fv c) = map ek c"
  "freed_values (destroy_chain fv c) = (if fv then map ev c else [])"
  by (induction c) simp_all

lemma destroy_table_frees:
  "freed_keys (concat (map (destroy_chain fv) t)) = map ek (concat t)"
  "freed_values (concat (map (destroy_chain fv) t)) = (if fv then map ev (concat t) else [])"
  by (induction t) simp_all

lemma destroy_frees:
  "freed_keys (hashtable_destroy h fv) = map ek (ht_entries h)"
  "freed_values (hashtable_destroy h fv) = (if fv then map ev (ht_entries h) else [])"
  by (simp_all add: hashtable_destroy_def ht_entries_def destroy_table_frees)

definition all_mem :: ht_mem where
  "all_mem = \<lparr>malloc_table = True, realloc_table = True, malloc_entry = True\<rparr>"

definition ht_put :: "('k, 'v) hashtable \<Rightarrow> 'k \<Rightarrow> 'v \<Rightarrow> ('k, 'v) hashtable option" where
  "ht_put h k v =
     (case hashtable_insert all_mem h k v of
        Inr (h', r) \<Rightarrow> if r = 0 then None else Some h'
      | Inl _ \<Rightarrow> None)"

definition ht_num :: "('k, 'v) hashtable \<Rightarrow> nat" where
  "ht_num h = unat (hashtable_count h)"

definition ht_valid :: "('k, 'v) hashtable \<Rightarrow> bool" where
  "ht_valid h \<longleftrightarrow> key_contract (hashfn h) (eqfn h) \<and> ht_ok h"

lemma ht_num_entries: "ht_ok h \<Longrightarrow> ht_num h = length (ht_entries h)"
  by (simp add: ht_num_def hashtable_count_def ht_ok_def ht_inv_def)

lemma search_same:
  assumes "ht_valid h" "eqfn h k k'"
  shows "hashtable_search h k = hashtable_search h k'"
proof -
  have kc: "key_contract (hashfn h) (eqfn h)" and sh: "ht_shape h"
    using assms(1) by (simp_all add: ht_valid_def ht_okD)
  show ?thesis
    by (simp add: search_assoc [OF kc sh] assoc_def key_class [OF kc assms(2)])
qed

lemma ht_put_law:
  assumes "ht_valid h" "hashtable_search h k = None" "ht_num h < 2 ^ 32 - 1"
  shows "\<exists>h'. ht_put h k v = Some h' \<and> hashtable_insert all_mem h k v = Inr (h', -1)
    \<and> ht_valid h' \<and> hashfn h' = hashfn h \<and> eqfn h' = eqfn h \<and> ht_num h' = Suc (ht_num h)
    \<and> (\<forall>k'. hashtable_search h' k' = (if eqfn h k' k then Some v else hashtable_search h k'))"
proof -
  from assms(1) have kc: "key_contract (hashfn h) (eqfn h)" and ok: "ht_ok h"
    by (simp_all add: ht_valid_def)
  have "length (ht_entries h) < 2 ^ 32 - 1" using assms(3) ht_num_entries [OF ok] by simp
  from insert_search [OF kc ok assms(2) _ _ this, of all_mem v]
  obtain h' where "hashtable_insert all_mem h k v = Inr (h', -1)" "ht_ok h'"
    "hashfn h' = hashfn h" "eqfn h' = eqfn h"
    "unat (hashtable_count h') = Suc (unat (hashtable_count h))"
    "\<forall>k'. hashtable_search h' k' = (if eqfn h k' k then Some v else hashtable_search h k')"
    by (auto simp: all_mem_def)
  with kc show ?thesis by (auto simp: ht_put_def ht_valid_def ht_num_def)
qed

interpretation ht: key_table hashtable_search ht_put hashtable_remove ht_num ht_valid eqfn "2 ^ 32 - 1"
proof unfold_locales
  fix h :: "('k, 'v) hashtable" and k
  assume v: "ht_valid h"
  then show "equivp (eqfn h)" by (simp add: ht_valid_def key_contract_def)
  fix k'
  assume "eqfn h k k'"
  with v show "hashtable_search h k = hashtable_search h k'" by (rule search_same)
next
  fix h :: "('k, 'v) hashtable" and k v
  assume "ht_valid h" "hashtable_search h k = None" "ht_num h < 2 ^ 32 - 1"
  from ht_put_law [OF this] show "\<exists>t'. ht_put h k v = Some t' \<and> ht_valid t' \<and> eqfn t' = eqfn h
      \<and> ht_num t' = Suc (ht_num h)
      \<and> (\<forall>k'. hashtable_search t' k' = (if eqfn h k' k then Some v else hashtable_search h k'))"
    by blast
next
  fix h :: "('k, 'v) hashtable" and k v
  assume v: "ht_valid h" and hit: "hashtable_search h k = Some v"
  from remove_search [OF _ _ hit] v show "\<exists>t' k0. hashtable_remove h k = (t', Some (v, k0))
      \<and> eqfn h k k0 \<and> ht_valid t' \<and> eqfn t' = eqfn h \<and> Suc (ht_num t') = ht_num h
      \<and> (\<forall>k'. hashtable_search t' k' = (if eqfn h k' k then None else hashtable_search h k'))"
    by (auto simp: ht_valid_def ht_num_def)
next
  fix h :: "('k, 'v) hashtable" and k
  assume "hashtable_search h k = None"
  then show "hashtable_remove h k = (h, None)" by (rule remove_miss)
qed

section \<open>Properties\<close>

text \<open>A concrete table for the witnesses: numbers as keys, hashed to themselves.\<close>

definition demo_table :: "(nat, string) hashtable" where
  "demo_table = the (create_hashtable True True 10 of_nat (=))"

lemma demo_create: "create_hashtable True True 10 of_nat (=) = Some demo_table"
  unfolding demo_table_def by (rule option.collapse [symmetric]) (simp add: create_total)

lemma demo_valid: "ht_valid demo_table" "hashtable_search demo_table k = None"
    "ht_num demo_table = 0" "eqfn demo_table = (=)" "ht_entries demo_table = []"
    "within_load demo_table"
  using create_ok [OF demo_create] create_ok [OF demo_create, THEN conjunct1, THEN ht_okD(1)]
  by (auto simp: ht_valid_def ht_num_def key_contract_def identity_equivp within_load_def
      hashtable_count_def)


text \<open>A table is created exactly when the requested size is at most 2^30 and both allocations
  succeed; it is then valid and empty, answers every search with NULL, and has more buckets than
  requested.\<close>

theorem create_hashtable_spec:
  "(create_hashtable mh mt minsize hf eq = None \<longleftrightarrow> 2 ^ 30 < minsize \<or> \<not> mh \<or> \<not> mt)
   \<and> (\<forall>h. create_hashtable mh mt minsize hf eq = Some h \<longrightarrow>
        ht_ok h \<and> minsize < tablelength h \<and> hashtable_count h = 0
        \<and> hashfn h = hf \<and> eqfn h = eq \<and> (\<forall>k. hashtable_search h k = None))"
  using create_total [of mh mt minsize hf eq] create_ok [of mh mt minsize hf eq] by blast

theorem create_hashtable_spec_witness:
  "ht_ok demo_table \<and> 10 < tablelength demo_table \<and> hashtable_search demo_table 5 = None"
  using create_hashtable_spec [of True True 10 "of_nat :: nat \<Rightarrow> u32" "(=)"] demo_create by blast

text \<open>C11: inserting a key that is not in a valid table (distinct keys, an equivalence that the hash
  respects) succeeds when memory does, whether or not the table grows: the table stays valid, the
  count goes up by one, the key maps to the value and every other lookup is as before.\<close>

theorem insert_lookup:
  assumes "ht_valid h" and "hashtable_search h k = None" and "ht_num h < 2 ^ 32 - 1"
  shows "\<exists>h'. hashtable_insert all_mem h k v = Inr (h', -1) \<and> ht_valid h'
    \<and> ht_num h' = Suc (ht_num h)
    \<and> (\<forall>k'. hashtable_search h' k' = (if eqfn h k' k then Some v else hashtable_search h k'))"
  using ht_put_law [OF assms, of v] by blast

theorem insert_lookup_witness:
  "\<exists>h'. hashtable_insert all_mem demo_table 3 ''x'' = Inr (h', -1) \<and> ht_valid h'
     \<and> ht_num h' = 1 \<and> hashtable_search h' 3 = Some ''x'' \<and> hashtable_search h' 4 = None"
  using insert_lookup [of demo_table 3 "''x''"] by (auto simp: demo_valid)

text \<open>C12: removing a key that is present returns its value and frees exactly the stored key object,
  keeps the table valid, and afterwards only that key is gone; removing an absent key changes
  nothing and returns NULL.\<close>

theorem remove_lookup:
  assumes "ht_valid h"
  shows "case hashtable_search h k of
      None \<Rightarrow> hashtable_remove h k = (h, None)
    | Some v \<Rightarrow> (\<exists>h' k0. hashtable_remove h k = (h', Some (v, k0)) \<and> eqfn h k k0
        \<and> ht_valid h' \<and> Suc (ht_num h') = ht_num h
        \<and> (\<forall>k'. hashtable_search h' k' = (if eqfn h k' k then None else hashtable_search h k')))"
  using ht.del_law [OF assms, of k] ht.del_miss [OF assms, of k] by (cases "hashtable_search h k") auto

theorem remove_lookup_witness:
  "\<exists>h1 h2. hashtable_insert all_mem demo_table 3 ''x'' = Inr (h1, -1)
     \<and> (\<exists>k0. hashtable_remove h1 3 = (h2, Some (''x'', k0)) \<and> ht_num h2 = 0)
     \<and> hashtable_remove demo_table 3 = (demo_table, None)"
proof -
  obtain h1 where h1: "hashtable_insert all_mem demo_table 3 ''x'' = Inr (h1, -1)" "ht_valid h1"
      "ht_num h1 = 1" "hashtable_search h1 3 = Some ''x''"
    using ht_put_law [of demo_table 3 "''x''"] by (auto simp: demo_valid)
  from remove_lookup [OF h1(2), of 3] remove_lookup [of demo_table 3] h1 show ?thesis
    by (auto simp: demo_valid)
qed

text \<open>C13: growing the table changes its size, never its contents: in a valid table an expansion, on
  success and on plain memory exhaustion alike, keeps every lookup and the count; it moves to the
  next prime exactly when one is left and the new array can be allocated.\<close>

theorem expand_keeps_lookups:
  assumes "ht_valid h" and "malloc_table mem \<or> \<not> realloc_table mem"
  shows "\<exists>h' r. hashtable_expand mem h = Inr (h', r) \<and> ht_valid h' \<and> ht_num h' = ht_num h
    \<and> (\<forall>k. hashtable_search h' k = hashtable_search h k)
    \<and> (primeindex h' = (if primeindex h \<noteq> 27 \<and> malloc_table mem then primeindex h + 1
                         else primeindex h))"
proof -
  from assms(1) have kc: "key_contract (hashfn h) (eqfn h)" and ok: "ht_ok h"
    by (simp_all add: ht_valid_def)
  have "\<exists>h' r. hashtable_expand mem h = Inr (h', r) \<and> expands h h' \<and>
      (primeindex h' = (if primeindex h \<noteq> 27 \<and> malloc_table mem then primeindex h + 1
                         else primeindex h))"
  proof (cases "primeindex h \<noteq> 27 \<and> malloc_table mem")
    case True
    then show ?thesis using expand_moves [OF ht_okD(2) [OF ok], of mem] by auto
  next
    case False
    then show ?thesis
      using expand_stays [OF ht_okD(2) [OF ok], of mem] assms(2) ht_okD(2) [OF ok]
      by (auto simp: expands_def)
  qed
  then obtain h' r where e: "hashtable_expand mem h = Inr (h', r)" "expands h h'"
      "primeindex h' = (if primeindex h \<noteq> 27 \<and> malloc_table mem then primeindex h + 1
                         else primeindex h)" by blast
  from e(2) have ms: "mset (ht_entries h') = mset (ht_entries h)" by (simp add: expands_def)
  have ar: "arranged h'" "hashfn h' = hashfn h" "eqfn h' = eqfn h"
    using e(2) by (simp_all add: expands_def ht_shape_arranged)
  note l = lookups_kept [OF kc ht_ok_arranged [OF ok] ar(1) ht_okD(3) [OF ok] ms ar(2-3)]
  have "ht_ok h'"
    using e(2) ok l(1) mset_eq_length [OF ms] by (simp add: expands_def ht_ok_def ht_inv_def)
  then show ?thesis
    using e kc l(2) by (auto simp: expands_def ht_valid_def ht_num_def hashtable_count_def)
qed

theorem expand_keeps_lookups_witness:
  "\<exists>h' r. hashtable_expand all_mem demo_table = Inr (h', r) \<and> ht_valid h' \<and> ht_num h' = 0"
  using expand_keeps_lookups [of demo_table all_mem] by (auto simp: demo_valid all_mem_def)

text \<open>As long as arrays and entries can be allocated and a larger prime is left, an insertion
  leaves at most \<open>loadlimit\<close> entries in the table, the limit being the single-precision product of
  the size and 0.65 rounded up.\<close>

theorem insert_load_bound:
  assumes "ht_inv h" and "malloc_table mem" and "malloc_entry mem" and "within_load h"
    and "length (ht_entries h) < 2 ^ 32 - 1"
    and "hashtable_insert mem h k v = Inr (h', r)"
  shows "within_load h'"
  using assms by (rule insert_within_load)

theorem insert_load_bound_witness:
  "\<exists>h'. hashtable_insert all_mem demo_table 3 ''x'' = Inr (h', -1) \<and> within_load h'"
proof -
  obtain h1 where h1: "hashtable_insert all_mem demo_table 3 ''x'' = Inr (h1, -1)"
    using ht_put_law [of demo_table 3 "''x''"] by (auto simp: demo_valid)
  have inv: "ht_inv demo_table"
    using demo_valid(1) by (simp add: ht_valid_def ht_ok_def)
  show ?thesis
    using insert_load_bound [OF inv _ _ demo_valid(6) _ h1] h1 by (simp add: all_mem_def demo_valid)
qed

text \<open>Running out of memory for the entry is reported with 0 and leaves every lookup and the
  count as they were (the table itself may have grown).\<close>

theorem insert_out_of_memory:
  assumes ok: "ht_valid h" and mem: "malloc_table mem \<or> \<not> realloc_table mem" "\<not> malloc_entry mem"
  shows "\<exists>h'. hashtable_insert mem h k v = Inr (h', 0) \<and> ht_num h' = ht_num h
    \<and> (\<forall>k'. hashtable_search h' k' = hashtable_search h k')"
proof -
  let ?h1 = "h\<lparr>entrycount := entrycount h + 1\<rparr>"
  from ok have kc: "key_contract (hashfn h) (eqfn h)" and o: "ht_ok h"
    by (simp_all add: ht_valid_def)
  have "\<exists>h2 r. (if loadlimit ?h1 < entrycount ?h1 then hashtable_expand mem ?h1 else Inr (?h1, 0))
      = Inr (h2, r) \<and> expands ?h1 h2"
    using expand_ok [of ?h1 mem] ht_okD(2) [OF o] mem(1) by (auto simp: expands_def)
  then obtain h2 r where h2: "(if loadlimit ?h1 < entrycount ?h1 then hashtable_expand mem ?h1
      else Inr (?h1, 0)) = Inr (h2, r)" "expands ?h1 h2" by blast
  let ?h = "h2\<lparr>entrycount := entrycount h2 - 1\<rparr>"
  have ins: "hashtable_insert mem h k v = Inr (?h, 0)"
    using h2(1) mem(2) by (simp add: hashtable_insert_def insert_entry_def Let_def)
  from h2(2) have h: "arranged ?h" "mset (ht_entries ?h) = mset (ht_entries h)"
      "hashfn ?h = hashfn h" "eqfn ?h = eqfn h"
    by (simp_all add: expands_def ht_shape_arranged)
  note l = lookups_kept(2) [OF kc ht_ok_arranged [OF o] h(1) ht_okD(3) [OF o] h(2-4)]
  have "ht_num ?h = ht_num h"
    using h2(2) by (simp add: expands_def ht_num_def hashtable_count_def)
  then show ?thesis using ins l by blast
qed

theorem insert_out_of_memory_witness:
  "\<exists>h'. hashtable_insert (all_mem\<lparr>malloc_entry := False\<rparr>) demo_table 3 ''x'' = Inr (h', 0)
     \<and> ht_num h' = 0 \<and> hashtable_search h' 3 = None"
  using insert_out_of_memory [of demo_table "all_mem\<lparr>malloc_entry := False\<rparr>" 3 "''x''"]
  by (auto simp: demo_valid all_mem_def)

text \<open>Destroying a table frees every key exactly once and, on request, every value exactly once,
  in bucket order, and nothing else of the client's.\<close>

theorem destroy_frees_each_once:
  "freed_keys (hashtable_destroy h fv) = map ek (ht_entries h)
   \<and> freed_values (hashtable_destroy h fv) = (if fv then map ev (ht_entries h) else [])"
  by (simp add: destroy_frees)

text \<open>A defect of the second allocation strategy of \<open>hashtable_expand\<close>: whenever the array has to
  grow, \<open>malloc\<close> fails and \<open>realloc\<close> succeeds, the code hands an uninitialised pointer to
  \<open>memset\<close>, so the insertion that triggers it is undefined.\<close>

theorem expand_plan_b_undefined:
  assumes "ht_inv h" and "primeindex h \<noteq> 27" and "\<not> malloc_table mem" and "realloc_table mem"
    and "loadlimit h < entrycount h + 1"
  shows "hashtable_insert mem h k v = Inl WildPointer"
proof -
  have "unat (primeindex h + 1) < length primes"
    using ht_shapeD(2) [OF ht_invD(1) [OF assms(1)]] assms(2)
    by (simp add: primes_facts primeindex_27 unat_Suc_small [of _ 28])
  with assms show ?thesis
    by (simp add: hashtable_insert_def hashtable_expand_def primes_facts Let_def)
qed


text \<open>Seven buckets and five keys, all hashed to 0: one more entry exceeds the limit of five.\<close>

definition full_table :: "(nat, string) hashtable" where
  "full_table =
     \<lparr>tablelength = 7,
      table = (replicate 7 [])[unat (indexFor 7 (ht_mix 0)) :=
                 map (\<lambda>k. \<lparr>ek = k, ev = ''v'', eh = ht_mix 0\<rparr>) [1, 2, 3, 4, 5]],
      entrycount = 5, loadlimit = 5, primeindex = 0, hashfn = (\<lambda>_. 0), eqfn = (=)\<rparr>"

lemma full_table_inv: "ht_inv full_table"
  by code_simp

theorem expand_plan_b_undefined_witness:
  "hashtable_insert \<lparr>malloc_table = False, realloc_table = True, malloc_entry = True\<rparr>
     full_table 6 ''w'' = Inl WildPointer"
  by (rule expand_plan_b_undefined [OF full_table_inv]) (simp_all add: full_table_def)

end
