(* ===== verification/Hashtable_Itr.thy ===== *)
theory Hashtable_Itr
  imports Hashtable
begin

text \<open>
  \<open>hashtable/hashtable_itr.c\<close>: the one-way iterator. The \<open>e\<close> pointer is the rest of the chain that
  starts at the current entry (empty for NULL), and the \<open>parent\<close> pointer is the position of the
  preceding entry in the chain of bucket \<open>index\<close> (\<open>None\<close> for NULL); the table pointer \<open>h\<close> is passed
  as an argument and returned where it changes.
\<close>

section \<open>The code\<close>

record ('k, 'v) hashtable_itr =
  itr_e :: "('k, 'v) chain"
  itr_parent :: "nat option"
  itr_index :: nat

text \<open>The first non-empty bucket at or after \<open>i\<close>.\<close>

function next_bucket :: "('k, 'v) chain list \<Rightarrow> nat \<Rightarrow> nat \<Rightarrow> nat option" where
  "next_bucket t tlen i =
     (if i < tlen then (if t ! i \<noteq> [] then Some i else next_bucket t tlen (Suc i)) else None)"
  by pat_completeness auto
termination
  by (relation "measure (\<lambda>(t, tlen, i). tlen - i)") auto

declare next_bucket.simps [simp del]

definition hashtable_iterator :: "bool \<Rightarrow> ('k, 'v) hashtable \<Rightarrow> ('k, 'v) hashtable_itr option" where
  "hashtable_iterator malloc_itr h =
     (if \<not> malloc_itr then None
      else
        let itr = \<lparr>itr_e = [], itr_parent = None, itr_index = unat (tablelength h)\<rparr>
        in if entrycount h = 0 then Some itr
           else case next_bucket (table h) (unat (tablelength h)) 0 of
                  Some i \<Rightarrow> Some (itr\<lparr>itr_e := table h ! i, itr_index := i\<rparr>)
                | None \<Rightarrow> Some itr)"

definition hashtable_iterator_key :: "('k, 'v) hashtable_itr \<Rightarrow> 'k res" where
  "hashtable_iterator_key i = (case itr_e i of [] \<Rightarrow> Inl NullDeref | e # _ \<Rightarrow> Inr (ek e))"

definition hashtable_iterator_value :: "('k, 'v) hashtable_itr \<Rightarrow> 'v res" where
  "hashtable_iterator_value i = (case itr_e i of [] \<Rightarrow> Inl NullDeref | e # _ \<Rightarrow> Inr (ev e))"

text \<open>The position of the current entry in its chain.\<close>

definition itr_pos :: "('k, 'v) hashtable_itr \<Rightarrow> nat" where
  "itr_pos itr = (case itr_parent itr of None \<Rightarrow> 0 | Some p \<Rightarrow> Suc p)"

definition hashtable_iterator_advance ::
  "('k, 'v) hashtable \<Rightarrow> ('k, 'v) hashtable_itr \<Rightarrow> ('k, 'v) hashtable_itr \<times> int" where
  "hashtable_iterator_advance h itr =
     (case itr_e itr of
        [] \<Rightarrow> (itr, 0)
      | _ # nxt \<Rightarrow>
          if nxt \<noteq> [] then (itr\<lparr>itr_parent := Some (itr_pos itr), itr_e := nxt\<rparr>, -1)
          else
            let tlen = unat (tablelength h);
                j = Suc (itr_index itr);
                itr1 = itr\<lparr>itr_parent := None, itr_index := j\<rparr>
            in if tlen \<le> j then (itr1\<lparr>itr_e := []\<rparr>, 0)
               else case next_bucket (table h) tlen j of
                      None \<Rightarrow> (itr1\<lparr>itr_index := tlen, itr_e := []\<rparr>, 0)
                    | Some j' \<Rightarrow> (itr1\<lparr>itr_index := j', itr_e := table h ! j'\<rparr>, -1))"

text \<open>
  Unlink the current entry, free its key, advance, and put the parent right again when the advance
  left it pointing at the removed entry. The result is the table, the iterator, the return value
  and the freed key.
\<close>

definition hashtable_iterator_remove ::
  "('k, 'v) hashtable \<Rightarrow> ('k, 'v) hashtable_itr \<Rightarrow>
     (('k, 'v) hashtable \<times> ('k, 'v) hashtable_itr \<times> int \<times> 'k) res" where
  "hashtable_iterator_remove h itr =
     (case itr_e itr of
        [] \<Rightarrow> Inl NullDeref
      | e # nxt \<Rightarrow>
          let i = itr_index itr;
              c = table h ! i;
              c' = (case itr_parent itr of None \<Rightarrow> nxt | Some p \<Rightarrow> take (Suc p) c @ nxt);
              h' = h\<lparr>table := (table h)[i := c'], entrycount := entrycount h - 1\<rparr>;
              remember_e = Some (itr_pos itr);
              remember_parent = itr_parent itr;
              (itr1, ret) = hashtable_iterator_advance h' itr;
              itr2 = (if itr_parent itr1 = remember_e
                      then itr1\<lparr>itr_parent := remember_parent\<rparr> else itr1)
          in if i < length (table h) then Inr (h', itr2, ret, ek e) else Inl OutOfBounds)"

fun iterator_search_chain ::
  "u32 \<Rightarrow> ('k \<Rightarrow> 'k \<Rightarrow> bool) \<Rightarrow> 'k \<Rightarrow> ('k, 'v) chain \<Rightarrow> nat option \<Rightarrow>
     (('k, 'v) chain \<times> nat option) option" where
  "iterator_search_chain hashvalue eq k [] parent = None"
| "iterator_search_chain hashvalue eq k (e # es) parent =
     (if hashvalue = eh e \<and> eq k (ek e) then Some (e # es, parent)
      else iterator_search_chain hashvalue eq k es
             (Some (case parent of None \<Rightarrow> 0 | Some p \<Rightarrow> Suc p)))"

definition hashtable_iterator_search ::
  "('k, 'v) hashtable_itr \<Rightarrow> ('k, 'v) hashtable \<Rightarrow> 'k \<Rightarrow> ('k, 'v) hashtable_itr \<times> int" where
  "hashtable_iterator_search itr h k =
     (let hashvalue = hash h k;
          index = unat (indexFor (tablelength h) hashvalue)
      in case iterator_search_chain hashvalue (eqfn h) k (table h ! index) None of
           Some (e, parent) \<Rightarrow>
             (itr\<lparr>itr_index := index, itr_e := e, itr_parent := parent\<rparr>, -1)
         | None \<Rightarrow> (itr, 0))"

section \<open>Where an iterator stands\<close>

text \<open>
  A position splits the entries of the table, in bucket order, into those before the iterator and
  those from it on; a finished iterator has nothing left.
\<close>

definition itr_ok :: "('k, 'v) hashtable \<Rightarrow> ('k, 'v) hashtable_itr \<Rightarrow> bool" where
  "itr_ok h itr \<longleftrightarrow> itr_e itr = [] \<or>
     (itr_index itr < length (table h)
      \<and> itr_pos itr \<le> length (table h ! itr_index itr)
      \<and> drop (itr_pos itr) (table h ! itr_index itr) = itr_e itr)"

definition remaining :: "('k, 'v) hashtable \<Rightarrow> ('k, 'v) hashtable_itr \<Rightarrow> ('k, 'v) entry list" where
  "remaining h itr =
     (if itr_e itr = [] then [] else itr_e itr @ concat (drop (Suc (itr_index itr)) (table h)))"

definition visited :: "('k, 'v) hashtable \<Rightarrow> ('k, 'v) hashtable_itr \<Rightarrow> ('k, 'v) entry list" where
  "visited h itr =
     (if itr_e itr = [] then ht_entries h
      else concat (take (itr_index itr) (table h)) @ take (itr_pos itr) (table h ! itr_index itr))"

lemma visited_remaining: "itr_ok h itr \<Longrightarrow> visited h itr @ remaining h itr = ht_entries h"
  by (auto simp: itr_ok_def visited_def remaining_def ht_entries_def concat_split_nth)
     (metis append_assoc append_take_drop_id concat_split_nth)

lemma remaining_Nil: "remaining h itr = [] \<longleftrightarrow> itr_e itr = []"
  by (simp add: remaining_def)

lemma next_bucket_Some:
  "next_bucket t n i = Some j \<Longrightarrow> n = length t \<Longrightarrow>
     i \<le> j \<and> j < n \<and> t ! j \<noteq> [] \<and> concat (drop i t) = concat (drop j t)"
proof (induction t n i rule: next_bucket.induct)
  case (1 t n i)
  show ?case
  proof (cases "i < n \<and> t ! i = []")
    case True
    from "1.prems"(1) True have "next_bucket t n (Suc i) = Some j"
      by (subst (asm) next_bucket.simps) simp
    with 1 True have "Suc i \<le> j \<and> j < n \<and> t ! j \<noteq> [] \<and> concat (drop (Suc i) t) = concat (drop j t)"
      by blast
    moreover have "concat (drop i t) = concat (drop (Suc i) t)"
      using True 1(3) by (simp add: Cons_nth_drop_Suc [of i t, symmetric])
    ultimately show ?thesis by simp
  next
    case False
    from "1.prems"(1) False have "i < n \<and> j = i \<and> t ! i \<noteq> []"
      by (subst (asm) next_bucket.simps) (auto split: if_splits)
    then show ?thesis by simp
  qed
qed

lemma next_bucket_None:
  "next_bucket t n i = None \<Longrightarrow> n = length t \<Longrightarrow> concat (drop i t) = []"
proof (induction t n i rule: next_bucket.induct)
  case (1 t n i)
  show ?case
  proof (cases "i < n")
    case True
    from "1.prems"(1) True have e: "t ! i = [] \<and> next_bucket t n (Suc i) = None"
      by (subst (asm) next_bucket.simps) (auto split: if_splits)
    with "1.IH" "1.prems"(2) True have "concat (drop (Suc i) t) = []" by simp
    with e True "1.prems" show ?thesis by (simp add: Cons_nth_drop_Suc [of i t, symmetric])
  next
    case False
    with "1.prems" show ?thesis by simp
  qed
qed

lemma iterator_start:
  assumes "ht_inv h"
  shows "\<exists>itr. hashtable_iterator True h = Some itr \<and> itr_ok h itr \<and> remaining h itr = ht_entries h"
proof (cases "entrycount h = 0")
  case True
  with ht_invD(2) [OF assms] have "ht_entries h = []" by simp
  with True show ?thesis by (simp add: hashtable_iterator_def itr_ok_def remaining_def Let_def)
next
  case False
  then have ne: "ht_entries h \<noteq> []" using ht_invD(2) [OF assms] unat_eq_zero [of "entrycount h"] by auto
  have len: "unat (tablelength h) = length (table h)"
    using ht_shapeD(1) [OF ht_invD(1) [OF assms]] by simp
  show ?thesis
  proof (cases "next_bucket (table h) (unat (tablelength h)) 0")
    case None
    from next_bucket_None [OF this len] ne show ?thesis by (simp add: ht_entries_def)
  next
    case (Some j)
    note s = next_bucket_Some [OF Some len]
    let ?i = "\<lparr>itr_e = table h ! j, itr_parent = None, itr_index = j\<rparr>"
    have "hashtable_iterator True h = Some ?i"
      using False Some by (simp add: hashtable_iterator_def Let_def)
    moreover have "itr_ok h ?i" using s len by (simp add: itr_ok_def itr_pos_def)
    moreover have "remaining h ?i = ht_entries h"
      using s len by (simp add: remaining_def ht_entries_def Cons_nth_drop_Suc [symmetric])
    ultimately show ?thesis by blast
  qed
qed

lemma advance_ok:
  assumes len: "length (table h) = unat (tablelength h)" and ok: "itr_ok h itr"
    and adv: "hashtable_iterator_advance h itr = (itr', r)"
  shows "itr_ok h itr' \<and> remaining h itr' = tl (remaining h itr)
    \<and> (r \<noteq> 0 \<longleftrightarrow> remaining h itr' \<noteq> [])"
proof (cases "itr_e itr")
  case Nil
  with adv show ?thesis by (simp add: hashtable_iterator_advance_def itr_ok_def remaining_def)
next
  case (Cons e nxt)
  let ?i = "itr_index itr"
  from ok Cons have i: "?i < length (table h)" and p: "itr_pos itr \<le> length (table h ! ?i)"
    and d: "drop (itr_pos itr) (table h ! ?i) = e # nxt" by (simp_all add: itr_ok_def)
  show ?thesis
  proof (cases "nxt = []")
    case False
    with adv Cons have itr': "itr' = itr\<lparr>itr_parent := Some (itr_pos itr), itr_e := nxt\<rparr>" "r = -1"
      by (simp_all add: hashtable_iterator_advance_def)
    have "drop (Suc (itr_pos itr)) (table h ! ?i) = nxt"
      using d by (metis drop_Suc list.sel(3) tl_drop)
    moreover have "Suc (itr_pos itr) \<le> length (table h ! ?i)"
      using d p by (metis drop_all list.discI not_less_eq_eq)
    ultimately show ?thesis
      using itr' i Cons False by (simp add: itr_ok_def remaining_def itr_pos_def)
  next
    case last: True
    let ?n = "unat (tablelength h)"
    show ?thesis
    proof (cases "next_bucket (table h) ?n (Suc ?i)")
      case None
      with adv Cons last have "itr_e itr' = []" "r = 0"
        by (auto simp: hashtable_iterator_advance_def Let_def split: if_splits)
      with next_bucket_None [OF None] len Cons last show ?thesis
        by (simp add: itr_ok_def remaining_def)
    next
      case (Some j)
      note s = next_bucket_Some [OF Some len [symmetric]]
      with adv Cons last Some have itr': "itr' = itr\<lparr>itr_parent := None, itr_index := j,
          itr_e := table h ! j\<rparr>" "r = -1"
        by (auto simp: hashtable_iterator_advance_def Let_def split: if_splits)
      show ?thesis
        using s len Cons last
        by (simp add: itr' itr_ok_def remaining_def itr_pos_def Cons_nth_drop_Suc [of j "table h", symmetric])
    qed
  qed
qed

text \<open>Where the iterator stands after the table lost its current entry.\<close>

lemma remove_moves:
  fixes h :: "('k, 'v) hashtable"
  assumes len: "length (table h) = unat (tablelength h)" and ok: "itr_ok h itr"
    and e: "itr_e itr = e # nxt"
    and h': "h' = h\<lparr>table := (table h)[itr_index itr := take (itr_pos itr) (table h ! itr_index itr) @ nxt],
               entrycount := entrycount h - 1\<rparr>"
    and adv: "hashtable_iterator_advance h' itr = (itr1, r)"
    and itr2: "itr2 = (if itr_parent itr1 = Some (itr_pos itr)
                       then itr1\<lparr>itr_parent := itr_parent itr\<rparr> else itr1)"
  shows "itr_ok h' itr2 \<and> remaining h' itr2 = tl (remaining h itr)
    \<and> (r \<noteq> 0 \<longleftrightarrow> remaining h' itr2 \<noteq> [])"
proof -
  let ?i = "itr_index itr"
  from ok e have i: "?i < length (table h)" and p: "itr_pos itr \<le> length (table h ! ?i)"
    and d: "drop (itr_pos itr) (table h ! ?i) = e # nxt" by (simp_all add: itr_ok_def)
  have tl: "tablelength h' = tablelength h" "length (table h') = length (table h)"
    "drop (Suc ?i) (table h') = drop (Suc ?i) (table h)" by (simp_all add: h')
  have rem: "tl (remaining h itr) = nxt @ concat (drop (Suc ?i) (table h'))"
    by (simp add: remaining_def e tl)
  show ?thesis
  proof (cases "nxt = []")
    case False
    with adv e have itr1: "itr1 = itr\<lparr>itr_parent := Some (itr_pos itr), itr_e := nxt\<rparr>" "r = -1"
      by (simp_all add: hashtable_iterator_advance_def)
    then have "itr2 = itr\<lparr>itr_e := nxt\<rparr>" by (simp add: itr2)
    moreover have "drop (itr_pos itr) (table h' ! ?i) = nxt" "itr_pos itr \<le> length (table h' ! ?i)"
      using i p by (simp_all add: h')
    ultimately show ?thesis
      using i itr1 False rem by (simp add: itr_ok_def remaining_def itr_pos_def tl(2))
  next
    case last: True
    let ?n = "unat (tablelength h)"
    show ?thesis
    proof (cases "next_bucket (table h') ?n (Suc ?i)")
      case None
      with adv e last have "itr_e itr1 = []" "r = 0"
        by (auto simp: hashtable_iterator_advance_def Let_def tl(1) split: if_splits)
      with next_bucket_None [OF None] len last rem show ?thesis
        by (simp add: itr2 itr_ok_def remaining_def tl(2))
    next
      case (Some j)
      from len tl(2) have "?n = length (table h')" by simp
      note s = next_bucket_Some [OF Some this]
      with adv e last Some have itr1: "itr1 = itr\<lparr>itr_parent := None, itr_index := j,
          itr_e := table h' ! j\<rparr>" "r = -1"
        by (auto simp: hashtable_iterator_advance_def Let_def tl(1) split: if_splits)
      then have "itr2 = itr1" by (simp add: itr2)
      then show ?thesis
        using s rem len last tl(2)
        by (simp add: itr1 itr_ok_def remaining_def itr_pos_def
            Cons_nth_drop_Suc [of j "table h'", symmetric])
    qed
  qed
qed

lemma iterator_remove_ok:
  fixes h :: "('k, 'v) hashtable"
  assumes inv: "ht_inv h" and ok: "itr_ok h itr" and e: "itr_e itr = e # nxt"
  shows "\<exists>h' itr' r. hashtable_iterator_remove h itr = Inr (h', itr', r, ek e)
    \<and> ht_inv h' \<and> itr_ok h' itr'
    \<and> remaining h' itr' = tl (remaining h itr)
    \<and> ht_entries h' = visited h itr @ tl (remaining h itr)
    \<and> (r \<noteq> 0 \<longleftrightarrow> remaining h' itr' \<noteq> [])
    \<and> hashfn h' = hashfn h \<and> eqfn h' = eqfn h"
proof -
  note sh = ht_invD(1) [OF inv]
  note f = ht_shapeD [OF sh]
  let ?i = "itr_index itr"
  let ?c = "take (itr_pos itr) (table h ! ?i) @ nxt"
  let ?h = "h\<lparr>table := (table h)[?i := ?c], entrycount := entrycount h - 1\<rparr>"
  from ok e have i: "?i < length (table h)" and d: "drop (itr_pos itr) (table h ! ?i) = e # nxt"
    by (simp_all add: itr_ok_def)
  have chain: "table h ! ?i = take (itr_pos itr) (table h ! ?i) @ e # nxt"
    by (metis d append_take_drop_id)
  have ents: "ht_entries ?h = visited h itr @ tl (remaining h itr)"
    using i by (simp add: ht_entries_def nth_concat_split visited_def remaining_def e)
  have old: "ht_entries h = visited h itr @ e # tl (remaining h itr)"
    using visited_remaining [OF ok] by (simp add: remaining_def e)
  have "set ?c \<subseteq> set (table h ! ?i)" by (subst (2) chain) auto
  then have pl: "placed (tablelength h) (table ?h)" using placed_shrink [OF f(5) i] by simp
  have hs: "hashed (hashfn h) (ht_entries ?h)"
    using f(6) unfolding ents old by (simp add: hashed_def)
  have "ht_shape ?h" using f pl hs by (simp add: ht_shape_def)
  moreover have "unat (entrycount ?h) = length (ht_entries ?h)"
    using ht_invD(2) [OF inv] unat_minus_one [of "entrycount h"] unfolding ents old by force
  ultimately have inv': "ht_inv ?h" by (simp add: ht_inv_def)
  obtain itr1 r where adv: "hashtable_iterator_advance ?h itr = (itr1, r)" by fastforce
  define itr2 where "itr2 = (if itr_parent itr1 = Some (itr_pos itr)
      then itr1\<lparr>itr_parent := itr_parent itr\<rparr> else itr1)"
  note mv = remove_moves [OF f(1) ok e refl adv itr2_def]
  have "(case itr_parent itr of None \<Rightarrow> nxt | Some p \<Rightarrow> take (Suc p) (table h ! ?i) @ nxt) = ?c"
    by (simp add: itr_pos_def split: option.splits)
  then have "hashtable_iterator_remove h itr = Inr (?h, itr2, r, ek e)"
    using i adv by (simp add: hashtable_iterator_remove_def e Let_def itr2_def)
  with inv' ents mv show ?thesis by auto
qed

lemma iterator_search_chain_spec:
  "iterator_search_chain hv eq k c (if n = 0 then None else Some (n - 1)) = Some (es, par) \<Longrightarrow>
     \<exists>m \<le> length c. es = drop m c \<and> par = (if n + m = 0 then None else Some (n + m - 1))
       \<and> es \<noteq> [] \<and> search_chain hv eq k c = Some (ev (hd es))
       \<and> hv = eh (hd es) \<and> eq k (ek (hd es))"
proof (induction c arbitrary: n)
  case (Cons e c)
  show ?case
  proof (cases "hv = eh e \<and> eq k (ek e)")
    case True
    with Cons.prems show ?thesis by (intro exI [of _ 0]) auto
  next
    case False
    with Cons.prems have "iterator_search_chain hv eq k c (Some n) = Some (es, par)"
      by (cases n) auto
    with Cons.IH [of "Suc n"] obtain m where "m \<le> length c" "es = drop m c"
      "par = (if Suc n + m = 0 then None else Some (Suc n + m - 1))" "es \<noteq> []"
      "search_chain hv eq k c = Some (ev (hd es))" "hv = eh (hd es)" "eq k (ek (hd es))" by auto
    with False show ?thesis by (intro exI [of _ "Suc m"]) auto
  qed
qed simp

lemma iterator_search_chain_None:
  "iterator_search_chain hv eq k c par = None \<longleftrightarrow> search_chain hv eq k c = None"
  by (induction c arbitrary: par) auto

section \<open>Iterating\<close>

fun advance_n ::
  "nat \<Rightarrow> ('k, 'v) hashtable \<Rightarrow> ('k, 'v) hashtable_itr \<Rightarrow> ('k, 'v) hashtable_itr" where
  "advance_n 0 h itr = itr"
| "advance_n (Suc n) h itr = advance_n n h (fst (hashtable_iterator_advance h itr))"

lemma advance_n_ok:
  assumes "length (table h) = unat (tablelength h)" "itr_ok h itr"
  shows "itr_ok h (advance_n n h itr) \<and> remaining h (advance_n n h itr) = drop n (remaining h itr)"
  using assms
proof (induction n arbitrary: itr)
  case (Suc n)
  obtain itr' r where adv: "hashtable_iterator_advance h itr = (itr', r)" by fastforce
  from advance_ok [OF Suc.prems adv] Suc.IH [OF Suc.prems(1), of itr'] show ?case
    by (simp add: adv drop_Suc)
qed simp

lemma iterator_value_ok:
  "remaining h itr = e # es \<Longrightarrow> hashtable_iterator_value itr = Inr (ev e)
     \<and> hashtable_iterator_key itr = Inr (ek e)"
  by (auto simp: remaining_def hashtable_iterator_value_def hashtable_iterator_key_def
      split: if_splits list.splits)

section \<open>Properties\<close>

text \<open>An iterator created on a table and advanced n times stands at the n-th entry in bucket
  order and yields its key and value; advanced past the last entry it points nowhere, and reading
  through it would dereference NULL.\<close>

theorem iterator_reaches_nth:
  assumes "ht_inv h"
  shows "\<exists>itr. hashtable_iterator True h = Some itr \<and>
    (if n < length (ht_entries h)
     then hashtable_iterator_key (advance_n n h itr) = Inr (ek (ht_entries h ! n))
        \<and> hashtable_iterator_value (advance_n n h itr) = Inr (ev (ht_entries h ! n))
     else hashtable_iterator_value (advance_n n h itr) = Inl NullDeref)"
proof -
  obtain itr where itr: "hashtable_iterator True h = Some itr" "itr_ok h itr"
    "remaining h itr = ht_entries h" using iterator_start [OF assms] by blast
  from advance_n_ok [OF ht_shapeD(1) [OF ht_invD(1) [OF assms]] itr(2), of n] itr(3)
  have rem: "remaining h (advance_n n h itr) = drop n (ht_entries h)" by simp
  show ?thesis
  proof (cases "n < length (ht_entries h)")
    case True
    with rem have "remaining h (advance_n n h itr) = ht_entries h ! n # drop (Suc n) (ht_entries h)"
      by (simp add: Cons_nth_drop_Suc)
    from iterator_value_ok [OF this] itr(1) True show ?thesis by auto
  next
    case False
    with rem have "itr_e (advance_n n h itr) = []" using remaining_Nil by fastforce
    with itr(1) False show ?thesis by (auto simp: hashtable_iterator_value_def)
  qed
qed

theorem iterator_reaches_nth_witness:
  "\<exists>itr. hashtable_iterator True full_table = Some itr
     \<and> hashtable_iterator_key (advance_n 2 full_table itr) = Inr 3
     \<and> hashtable_iterator_value (advance_n 2 full_table itr) = Inr ''v''"
proof -
  have "length (ht_entries full_table) = 5" "ek (ht_entries full_table ! 2) = 3"
    "ev (ht_entries full_table ! 2) = ''v''" by code_simp+
  then show ?thesis using iterator_reaches_nth [OF full_table_inv, of 2] by auto
qed

text \<open>The return value of \<open>hashtable_iterator_advance\<close> tells exactly whether an entry is left,
  and advancing drops exactly the current entry from what is left to visit.\<close>

theorem iterator_advance_result:
  assumes "ht_inv h" and "itr_ok h itr" and "hashtable_iterator_advance h itr = (itr', r)"
  shows "itr_ok h itr' \<and> remaining h itr' = tl (remaining h itr)
    \<and> (r \<noteq> 0 \<longleftrightarrow> remaining h itr' \<noteq> [])"
  using advance_ok [OF ht_shapeD(1) [OF ht_invD(1) [OF assms(1)]] assms(2,3)] .

theorem iterator_advance_result_witness:
  "\<exists>itr itr'. hashtable_iterator True full_table = Some itr
     \<and> hashtable_iterator_advance full_table itr = (itr', -1)
     \<and> length (remaining full_table itr') = 4"
proof -
  obtain itr where itr: "hashtable_iterator True full_table = Some itr" "itr_ok full_table itr"
    "remaining full_table itr = ht_entries full_table"
    using iterator_start [OF full_table_inv] by blast
  obtain itr' r where adv: "hashtable_iterator_advance full_table itr = (itr', r)" by fastforce
  have "length (ht_entries full_table) = 5" by code_simp
  with iterator_advance_result [OF full_table_inv itr(2) adv] itr(3)
  have l: "length (remaining full_table itr') = 4" "r \<noteq> 0 \<longleftrightarrow> remaining full_table itr' \<noteq> []"
    by simp_all
  have "r = 0 \<or> r = -1"
    using adv by (auto simp: hashtable_iterator_advance_def Let_def split: list.splits if_splits option.splits)
  with itr(1) adv l show ?thesis by (cases "remaining full_table itr'") auto
qed

text \<open>C33: removing at the iterator deletes exactly the current entry, frees exactly its key, keeps
  the table and the iterator consistent, leaves the iterator at the following entry and reports
  whether there is one.\<close>

theorem iterator_remove_current:
  assumes "ht_inv h" and "itr_ok h itr" and "itr_e itr = e # nxt"
  shows "\<exists>h' itr' r. hashtable_iterator_remove h itr = Inr (h', itr', r, ek e)
    \<and> ht_inv h' \<and> itr_ok h' itr'
    \<and> ht_entries h = visited h itr @ e # tl (remaining h itr)
    \<and> ht_entries h' = visited h itr @ tl (remaining h itr)
    \<and> remaining h' itr' = tl (remaining h itr)
    \<and> (r \<noteq> 0 \<longleftrightarrow> remaining h' itr' \<noteq> [])"
proof -
  have "ht_entries h = visited h itr @ e # tl (remaining h itr)"
    using visited_remaining [OF assms(2)] assms(3) by (simp add: remaining_def)
  with iterator_remove_ok [OF assms] show ?thesis by auto
qed

theorem iterator_remove_current_witness:
  "\<exists>itr h' itr' r. hashtable_iterator True full_table = Some itr
     \<and> hashtable_iterator_remove full_table itr = Inr (h', itr', r, 1)
     \<and> map ek (ht_entries h') = [2, 3, 4, 5]"
proof -
  obtain itr where itr: "hashtable_iterator True full_table = Some itr" "itr_ok full_table itr"
    "remaining full_table itr = ht_entries full_table"
    using iterator_start [OF full_table_inv] by blast
  have ents: "map ek (ht_entries full_table) = [1, 2, 3, 4, 5]" by code_simp
  then obtain e nxt where e: "itr_e itr = e # nxt"
    using itr(3) remaining_Nil [of full_table itr] by (cases "itr_e itr") auto
  have rem: "remaining full_table itr = e # tl (remaining full_table itr)"
    by (simp add: remaining_def e)
  have v: "visited full_table itr = []" using visited_remaining [OF itr(2)] itr(3) by simp
  have "ek e = 1" "map ek (tl (remaining full_table itr)) = [2, 3, 4, 5]"
    using ents itr(3) rem by (metis list.inject list.simps(9))+
  with iterator_remove_current [OF full_table_inv itr(2) e] itr(1) v show ?thesis by fastforce
qed

text \<open>An iterator search finds a key exactly when a search does, places the iterator on the
  entry whose value the search returns, and otherwise leaves the iterator alone.\<close>

theorem iterator_search_agrees:
  assumes "ht_inv h" and "hashtable_iterator_search itr h k = (itr', r)"
  shows "case hashtable_search h k of
      None \<Rightarrow> itr' = itr \<and> r = 0
    | Some v \<Rightarrow> r = -1 \<and> itr_ok h itr' \<and> hashtable_iterator_value itr' = Inr v
        \<and> (\<exists>k0. hashtable_iterator_key itr' = Inr k0 \<and> eqfn h k k0)"
proof -
  let ?i = "unat (indexFor (tablelength h) (hash h k))"
  note sh = ht_invD(1) [OF assms(1)]
  have i: "?i < length (table h)"
    using ht_shapeD(1) [OF sh] indexFor_less [OF tablelength_pos [OF sh]] by simp
  show ?thesis
  proof (cases "iterator_search_chain (hash h k) (eqfn h) k (table h ! ?i) None")
    case None
    with assms(2) iterator_search_chain_None [of "hash h k" "eqfn h" k "table h ! ?i" None]
    show ?thesis by (simp add: hashtable_iterator_search_def hashtable_search_def Let_def)
  next
    case (Some a)
    then obtain es par where sp: "iterator_search_chain (hash h k) (eqfn h) k (table h ! ?i) None
        = Some (es, par)" by (cases a) auto
    with iterator_search_chain_spec [of "hash h k" "eqfn h" k "table h ! ?i" 0 es par]
    obtain m where m: "m \<le> length (table h ! ?i)" "es = drop m (table h ! ?i)"
      "par = (if m = 0 then None else Some (m - 1))" "es \<noteq> []"
      "search_chain (hash h k) (eqfn h) k (table h ! ?i) = Some (ev (hd es))"
      "eqfn h k (ek (hd es))" by auto
    from sp assms(2) have itr': "itr' = itr\<lparr>itr_index := ?i, itr_e := es, itr_parent := par\<rparr>" "r = -1"
      by (simp_all add: hashtable_iterator_search_def Let_def)
    have "itr_pos itr' = m" using m(3) by (simp add: itr' itr_pos_def)
    then have "itr_ok h itr'" using i m(1,2) by (simp add: itr_ok_def itr')
    moreover have "hashtable_search h k = Some (ev (hd es))"
      using m(5) by (simp add: hashtable_search_def Let_def)
    ultimately show ?thesis
      using m(4,6) itr' by (cases es) (auto simp: hashtable_iterator_value_def hashtable_iterator_key_def)
  qed
qed

theorem iterator_search_agrees_witness:
  "\<exists>itr'. hashtable_iterator_search \<lparr>itr_e = [], itr_parent = None, itr_index = 0\<rparr> full_table 4
       = (itr', -1) \<and> hashtable_iterator_value itr' = Inr ''v''"
proof -
  obtain itr' r where s: "hashtable_iterator_search \<lparr>itr_e = [], itr_parent = None, itr_index = 0\<rparr>
      full_table 4 = (itr', r)" by fastforce
  have "hashtable_search full_table 4 = Some ''v''" by code_simp
  with iterator_search_agrees [OF full_table_inv s] s show ?thesis by simp
qed

end
