(* ===== verification/Hashtable_Utility.thy ===== *)
theory Hashtable_Utility
  imports Hashtable
begin

text \<open>
  \<open>hashtable/hashtable_utility.c\<close>: replacing the value of a key. The old value is freed; the second
  component of the result is the return value of the code and the third the freed value.
\<close>

section \<open>The operation\<close>

fun change_chain ::
  "u32 \<Rightarrow> ('k \<Rightarrow> 'k \<Rightarrow> bool) \<Rightarrow> 'k \<Rightarrow> 'v \<Rightarrow> ('k, 'v) chain \<Rightarrow> ('v \<times> ('k, 'v) chain) option"
where
  "change_chain hashvalue eq k v [] = None"
| "change_chain hashvalue eq k v (e # es) =
     (if hashvalue = eh e \<and> eq k (ek e) then Some (ev e, e\<lparr>ev := v\<rparr> # es)
      else map_option (\<lambda>(old, es'). (old, e # es')) (change_chain hashvalue eq k v es))"

definition hashtable_change ::
  "('k, 'v) hashtable \<Rightarrow> 'k \<Rightarrow> 'v \<Rightarrow> ('k, 'v) hashtable \<times> int \<times> 'v option" where
  "hashtable_change h k v =
     (let hashvalue = hash h k;
          index = unat (indexFor (tablelength h) hashvalue)
      in case change_chain hashvalue (eqfn h) k v (table h ! index) of
           None \<Rightarrow> (h, 0, None)
         | Some (old, es) \<Rightarrow> (h\<lparr>table := (table h)[index := es]\<rparr>, -1, Some old))"

section \<open>The entries after a change\<close>

lemma change_chain_None:
  "change_chain hv eq k v c = None \<longleftrightarrow> search_chain hv eq k c = None"
  by (induction c) auto

lemma change_chain_Some:
  "change_chain hv eq k v c = Some (old, c') \<Longrightarrow>
     \<exists>e M. mset c = add_mset e M \<and> mset c' = add_mset (e\<lparr>ev := v\<rparr>) M \<and> old = ev e \<and> eq k (ek e)"
proof (induction c arbitrary: c')
  case (Cons x c)
  show ?case
  proof (cases "hv = eh x \<and> eq k (ek x)")
    case True
    with Cons.prems have "old = ev x" "c' = x\<lparr>ev := v\<rparr> # c" by auto
    with True show ?thesis by (intro exI [of _ x] exI [of _ "mset c"]) simp
  next
    case False
    with Cons.prems obtain c'' where c: "change_chain hv eq k v c = Some (old, c'')" "c' = x # c''"
      by (auto split: if_splits)
    from Cons.IH [OF c(1)] obtain e M where
      "mset c = add_mset e M" "mset c'' = add_mset (e\<lparr>ev := v\<rparr>) M" "old = ev e" "eq k (ek e)" by blast
    then show ?thesis
      by (intro exI [of _ e] exI [of _ "add_mset x M"]) (simp add: c(2))
  qed
qed simp

lemma change_chain_hashes:
  "change_chain hv eq k v c = Some (old, c') \<Longrightarrow> e \<in> set c' \<Longrightarrow> \<exists>e' \<in> set c. eh e = eh e' \<and> ek e = ek e'"
  by (induction c arbitrary: c') (auto split: if_splits)

lemma placed_update:
  assumes "placed tlen t" "i < length t" "\<And>e. e \<in> set c \<Longrightarrow> \<exists>e' \<in> set (t ! i). eh e = eh e'"
  shows "placed tlen (t[i := c])"
  using assms by (fastforce simp: placed_def nth_list_update)

lemma arranged_change:
  assumes ar: "arranged h" and hit: "hashtable_search h k = Some old0"
  shows "\<exists>h' e M. hashtable_change h k v = (h', -1, Some (ev e)) \<and> arranged h'
    \<and> mset (ht_entries h) = add_mset e M \<and> mset (ht_entries h') = add_mset (e\<lparr>ev := v\<rparr>) M
    \<and> eqfn h k (ek e) \<and> hashfn h' = hashfn h \<and> eqfn h' = eqfn h \<and> entrycount h' = entrycount h
    \<and> tablelength h' = tablelength h \<and> loadlimit h' = loadlimit h \<and> primeindex h' = primeindex h"
proof -
  note i = arrangedD [OF ar]
  let ?i = "unat (indexFor (tablelength h) (hash h k))"
  have lt: "?i < length (table h)"
    using i(1) indexFor_less [OF i(2)] by simp
  from hit have "change_chain (hash h k) (eqfn h) k v (table h ! ?i) \<noteq> None"
    by (simp add: hashtable_search_def Let_def change_chain_None)
  then obtain old c where c: "change_chain (hash h k) (eqfn h) k v (table h ! ?i) = Some (old, c)"
    by auto
  from change_chain_Some [OF c] obtain e M where e: "mset (table h ! ?i) = add_mset e M"
    "mset c = add_mset (e\<lparr>ev := v\<rparr>) M" "old = ev e" "eqfn h k (ek e)" by blast
  let ?h = "h\<lparr>table := (table h)[?i := c]\<rparr>"
  have "e \<in> set (table h ! ?i)"
    using e(1) by (metis set_mset_mset union_single_eq_member)
  then have "e \<in># mset (ht_entries h)"
    using in_bucket_entries [OF lt] by simp
  then obtain N where m: "mset (ht_entries h) = add_mset e N" by (rule mset_add)
  have "add_mset e (mset (ht_entries ?h)) = add_mset e (add_mset (e\<lparr>ev := v\<rparr>) N)"
    using mset_concat_update [OF lt, of c] e(1,2) m
    by (simp add: ht_entries_def add_mset_commute)
  then have ms: "mset (ht_entries ?h) = add_mset (e\<lparr>ev := v\<rparr>) N" by simp
  have "placed (tablelength h) (table ?h)"
    using placed_update [OF i(3) lt, of c] change_chain_hashes [OF c] by auto
  moreover have "hashed (hashfn h) (ht_entries ?h)"
  proof -
    have "eh x = ht_mix (hashfn h (ek x))" if "x \<in># mset (ht_entries ?h)" for x
    proof (cases "x = e\<lparr>ev := v\<rparr>")
      case True
      have "e \<in> set (ht_entries h)" using m by (metis set_mset_mset union_single_eq_member)
      with True i(4) show ?thesis by (simp add: hashed_def)
    next
      case False
      then have "x \<in># mset (ht_entries h)" using that unfolding ms m by simp
      then show ?thesis using i(4) by (simp add: hashed_def)
    qed
    then show ?thesis by (simp add: hashed_def)
  qed
  ultimately have "arranged ?h" using i by (simp add: arranged_def)
  moreover have "hashtable_change h k v = (?h, -1, Some (ev e))"
    using c e(3) by (simp add: hashtable_change_def Let_def)
  ultimately show ?thesis using m ms e(4) by (intro exI [of _ ?h] exI [of _ e] exI [of _ N]) simp
qed

lemma lookups_changed:
  assumes kc: "key_contract (hashfn h) (eqfn h)" and ar: "arranged h" "arranged h'"
    and u: "unique_keys (eqfn h) (ht_entries h)"
    and ms: "mset (ht_entries h) = add_mset e M" "mset (ht_entries h') = add_mset (e\<lparr>ev := v\<rparr>) M"
    and e: "eqfn h k (ek e)"
    and fns: "hashfn h' = hashfn h" "eqfn h' = eqfn h"
  shows "unique_keys (eqfn h') (ht_entries h')" "hashtable_search h k = Some (ev e)"
    "hashtable_search h' k' = (if eqfn h k' k then Some v else hashtable_search h k')"
proof -
  obtain es where es: "mset es = M" using ex_mset by blast
  have m: "mset (ht_entries h) = mset (e # es)" "mset (e\<lparr>ev := v\<rparr> # es) = mset (ht_entries h')"
    using ms es by simp_all
  have ue: "unique_keys (eqfn h) (e # es)" using u unique_keys_mset [OF m(1)] by simp
  then have ue': "unique_keys (eqfn h) (e\<lparr>ev := v\<rparr> # es)" by (simp add: unique_keys_Cons [OF kc])
  then show "unique_keys (eqfn h') (ht_entries h')" using unique_keys_mset [OF m(2)] fns by simp
  have s: "hashtable_search h k' = assoc (eqfn h) (e # es) k'" for k'
    using arranged_search [OF kc ar(1)] assoc_mset [OF kc u m(1)] by simp
  have s': "hashtable_search h' k' = assoc (eqfn h) (e\<lparr>ev := v\<rparr> # es) k'" for k'
    using arranged_search [OF _ ar(2)] kc fns assoc_mset [OF kc ue' m(2)] by simp
  show "hashtable_search h k = Some (ev e)" using s [of k] e by (simp add: assoc_Cons)
  have "eqfn h k' k = eqfn h k' (ek e)"
    using e key_contractD(2,3) [OF kc] by blast
  then show "hashtable_search h' k' = (if eqfn h k' k then Some v else hashtable_search h k')"
    by (simp add: s s' assoc_Cons)
qed

lemma change_miss: "hashtable_search h k = None \<Longrightarrow> hashtable_change h k v = (h, 0, None)"
  by (simp add: hashtable_search_def hashtable_change_def Let_def change_chain_None [THEN iffD2])

definition ht_change :: "('k, 'v) hashtable \<Rightarrow> 'k \<Rightarrow> 'v \<Rightarrow> ('k, 'v) hashtable \<times> 'v option" where
  "ht_change h k v = (case hashtable_change h k v of (h', r, old) \<Rightarrow> (h', old))"

lemma ht_change_law:
  assumes "ht_valid h" "hashtable_search h k = Some old"
  shows "\<exists>h'. hashtable_change h k v = (h', -1, Some old) \<and> ht_valid h'
    \<and> hashfn h' = hashfn h \<and> eqfn h' = eqfn h \<and> ht_num h' = ht_num h
    \<and> (\<forall>k'. hashtable_search h' k' = (if eqfn h k' k then Some v else hashtable_search h k'))"
proof -
  from assms(1) have kc: "key_contract (hashfn h) (eqfn h)" and ok: "ht_ok h"
    by (simp_all add: ht_valid_def)
  from arranged_change [OF ht_ok_arranged [OF ok] assms(2), of v] obtain h' e M where
    c: "hashtable_change h k v = (h', -1, Some (ev e))" "arranged h'"
      "mset (ht_entries h) = add_mset e M" "mset (ht_entries h') = add_mset (e\<lparr>ev := v\<rparr>) M"
      "eqfn h k (ek e)" "hashfn h' = hashfn h" "eqfn h' = eqfn h" "entrycount h' = entrycount h"
      "tablelength h' = tablelength h" "loadlimit h' = loadlimit h" "primeindex h' = primeindex h"
    by blast
  note l = lookups_changed [OF kc ht_ok_arranged [OF ok] c(2) ht_okD(3) [OF ok] c(3-7)]
  have "length (ht_entries h') = length (ht_entries h)"
    using arg_cong [OF c(3), of size] arg_cong [OF c(4), of size] by simp
  then have "ht_ok h'"
    using ok c l(1) by (simp add: ht_ok_def ht_inv_def ht_shape_arranged)
  then show ?thesis
    using c kc l(2,3) assms(2) by (auto simp: ht_valid_def ht_num_def hashtable_count_def)
qed

interpretation htc: changing_table hashtable_search ht_put hashtable_remove ht_num ht_valid eqfn
    "2 ^ 32 - 1" ht_change
proof unfold_locales
  fix h :: "('k, 'v) hashtable" and k v old
  assume "ht_valid h" "hashtable_search h k = Some old"
  from ht_change_law [OF this, of v] show "\<exists>t'. ht_change h k v = (t', Some old) \<and> ht_valid t'
      \<and> eqfn t' = eqfn h \<and> ht_num t' = ht_num h
      \<and> (\<forall>k'. hashtable_search t' k' = (if eqfn h k' k then Some v else hashtable_search h k'))"
    by (auto simp: ht_change_def)
next
  fix h :: "('k, 'v) hashtable" and k v
  assume "hashtable_search h k = None"
  then show "ht_change h k v = (h, None)" by (simp add: ht_change_def change_miss)
qed

section \<open>Properties\<close>

text \<open>Changing the value of a key that a valid table holds frees the old value, once, and stores the
  new one: the table stays valid, its count and every other lookup are as before. For a key that is not
  there nothing changes and 0 is returned.\<close>

theorem change_lookup:
  assumes "ht_valid h"
  shows "case hashtable_search h k of
      None \<Rightarrow> hashtable_change h k v = (h, 0, None)
    | Some old \<Rightarrow> (\<exists>h'. hashtable_change h k v = (h', -1, Some old) \<and> ht_valid h' \<and> ht_num h' = ht_num h
        \<and> (\<forall>k'. hashtable_search h' k' = (if eqfn h k' k then Some v else hashtable_search h k')))"
  using ht_change_law [OF assms, of k _ v] change_miss [of h k v]
  by (cases "hashtable_search h k") auto

theorem change_lookup_witness:
  "\<exists>h1 h2. hashtable_insert all_mem demo_table 3 ''x'' = Inr (h1, -1)
     \<and> hashtable_change h1 3 ''y'' = (h2, -1, Some ''x'') \<and> hashtable_search h2 3 = Some ''y''
     \<and> ht_num h2 = 1 \<and> hashtable_change h1 4 ''y'' = (h1, 0, None)"
proof -
  obtain h1 where h1: "hashtable_insert all_mem demo_table 3 ''x'' = Inr (h1, -1)" "ht_valid h1"
      "ht_num h1 = 1" "hashtable_search h1 3 = Some ''x''" "hashtable_search h1 4 = None" "eqfn h1 = (=)"
    using ht_put_law [of demo_table 3 "''x''"] by (auto simp: demo_valid)
  from change_lookup [OF h1(2), of 3 "''y''"] change_lookup [OF h1(2), of 4 "''y''"] h1
  show ?thesis by auto
qed

end
