(* ===== verification/Hashtable_Powers.thy ===== *)
theory Hashtable_Powers
  imports Hashtable_Utility
begin

text \<open>
  \<open>hashtable/hashtable_powers.c\<close>: the same table with sizes that are powers of two. It shares the
  structures of \<open>hashtable_private.h\<close>; \<open>primeindex\<close> is never set. Growing has two strategies: a new array,
  into which all entries are moved, and, when that cannot be allocated, the old one made longer with
  \<open>realloc\<close>, in which every chain is split in place.
\<close>

unbundle bit_operations_syntax

section \<open>The operations\<close>

partial_function (option) size_loop :: "u32 \<Rightarrow> u32 \<Rightarrow> u32 option" where
  "size_loop minsize sz = (if sz < minsize then size_loop minsize (push_bit 1 sz) else Some sz)"

declare size_loop.simps [code]

text \<open>The outer \<open>None\<close> is a loop that does not end, the inner one the NULL of the code. \<open>junk\<close> is what
  \<open>malloc\<close> leaves in \<open>primeindex\<close>.\<close>

definition create_hashtable_pow ::
  "bool \<Rightarrow> bool \<Rightarrow> u32 \<Rightarrow> u32 \<Rightarrow> ('k \<Rightarrow> u32) \<Rightarrow> ('k \<Rightarrow> 'k \<Rightarrow> bool) \<Rightarrow>
     ('k, 'v) hashtable option option" where
  "create_hashtable_pow malloc_h malloc_t junk minsize hashf eqf =
     (if push_bit 31 1 < minsize then Some None
      else case size_loop minsize 1 of
        None \<Rightarrow> None
      | Some sz \<Rightarrow>
          Some (if \<not> malloc_h then None
                else if \<not> malloc_t then None
                else Some \<lparr>tablelength = sz, table = replicate (unat sz) [], entrycount = 0,
                       loadlimit = load_limit sz, primeindex = junk, hashfn = hashf, eqfn = eqf\<rparr>))"

definition hash_pow :: "('k, 'v) hashtable \<Rightarrow> 'k \<Rightarrow> u32" where
  "hash_pow h k =
     (let i0 = hashfn h k;
          i1 = i0 + NOT (push_bit 9 i0);
          i2 = i1 XOR (drop_bit 14 i1 OR push_bit 18 i1);
          i3 = i2 + push_bit 4 i2
      in i3 XOR (drop_bit 10 i3 OR push_bit 22 i3))"

text \<open>
  Splitting the chain of bucket \<open>i\<close> in place: \<open>kept\<close> is the part in front of \<open>pE\<close>, the rest starts at
  \<open>e\<close>. An entry of another bucket is unlinked and becomes the head of its new chain.
\<close>

fun split_chain ::
  "u32 \<Rightarrow> nat \<Rightarrow> ('k, 'v) chain \<Rightarrow> ('k, 'v) chain \<Rightarrow> ('k, 'v) chain list \<Rightarrow> ('k, 'v) chain list" where
  "split_chain newsize i kept [] newtable = newtable"
| "split_chain newsize i kept (e # es) newtable =
     (let index = unat (indexFor newsize (eh e))
      in if index = i then split_chain newsize i (kept @ [e]) es newtable
         else let newtable1 = newtable[i := kept @ es]
              in split_chain newsize i kept es (newtable1[index := e # newtable1 ! index]))"

definition split_bucket ::
  "u32 \<Rightarrow> nat \<Rightarrow> ('k, 'v) chain list \<Rightarrow> ('k, 'v) chain list" where
  "split_bucket newsize i newtable = split_chain newsize i [] (newtable ! i) newtable"

definition split_table ::
  "u32 \<Rightarrow> nat \<Rightarrow> ('k, 'v) chain list \<Rightarrow> ('k, 'v) chain list" where
  "split_table newsize oldlength newtable = fold (split_bucket newsize) [0..<oldlength] newtable"

definition hashtable_expand_pow ::
  "ht_mem \<Rightarrow> ('k, 'v) hashtable \<Rightarrow> ('k, 'v) hashtable \<times> int" where
  "hashtable_expand_pow mem h =
     (let newsize = push_bit 1 (tablelength h)
      in if newsize = 0 then (h, 0)
         else if malloc_table mem then
           (h\<lparr>table := transfer_table newsize (table h) (replicate (unat newsize) []),
              tablelength := newsize, loadlimit := load_limit newsize\<rparr>, -1)
         else if \<not> realloc_table mem then (h, 0)
         else
           let newtable = table h @ replicate (unat newsize - unat (tablelength h)) []
           in (h\<lparr>table := split_table newsize (unat (tablelength h)) newtable,
                 tablelength := newsize, loadlimit := load_limit newsize\<rparr>, -1))"

definition hashtable_count_pow :: "('k, 'v) hashtable \<Rightarrow> u32" where
  "hashtable_count_pow h = entrycount h"

definition hashtable_insert_pow ::
  "ht_mem \<Rightarrow> ('k, 'v) hashtable \<Rightarrow> 'k \<Rightarrow> 'v \<Rightarrow> ('k, 'v) hashtable \<times> int" where
  "hashtable_insert_pow mem h0 k v =
     (let h1 = h0\<lparr>entrycount := entrycount h0 + 1\<rparr>;
          h = (if loadlimit h1 < entrycount h1 then fst (hashtable_expand_pow mem h1) else h1)
      in if \<not> malloc_entry mem then (h\<lparr>entrycount := entrycount h - 1\<rparr>, 0)
         else
           let hv = hash_pow h k;
               index = unat (indexFor (tablelength h) hv);
               e = \<lparr>ek = k, ev = v, eh = hv\<rparr>
           in (h\<lparr>table := (table h)[index := e # table h ! index]\<rparr>, -1))"

definition hashtable_search_pow :: "('k, 'v) hashtable \<Rightarrow> 'k \<Rightarrow> 'v option" where
  "hashtable_search_pow h k =
     (let hashvalue = hash_pow h k;
          index = unat (indexFor (tablelength h) hashvalue)
      in search_chain hashvalue (eqfn h) k (table h ! index))"

text \<open>Unlike the search, this loop compares keys only and not the stored hashes.\<close>

fun remove_chain_pow ::
  "('k \<Rightarrow> 'k \<Rightarrow> bool) \<Rightarrow> 'k \<Rightarrow> ('k, 'v) chain \<Rightarrow> (('k, 'v) entry \<times> ('k, 'v) chain) option" where
  "remove_chain_pow eq k [] = None"
| "remove_chain_pow eq k (e # es) =
     (if eq k (ek e) then Some (e, es)
      else map_option (\<lambda>(x, es'). (x, e # es')) (remove_chain_pow eq k es))"

definition hashtable_remove_pow ::
  "('k, 'v) hashtable \<Rightarrow> 'k \<Rightarrow> ('k, 'v) hashtable \<times> ('v \<times> 'k) option" where
  "hashtable_remove_pow h k =
     (let index = unat (indexFor (tablelength h) (hash_pow h k))
      in case remove_chain_pow (eqfn h) k (table h ! index) of
           None \<Rightarrow> (h, None)
         | Some (e, es) \<Rightarrow>
             (h\<lparr>table := (table h)[index := es], entrycount := entrycount h - 1\<rparr>,
              Some (ev e, ek e)))"

fun destroy_chain_pow :: "bool \<Rightarrow> ('k, 'v) chain \<Rightarrow> ('k, 'v) freed list" where
  "destroy_chain_pow free_values [] = []"
| "destroy_chain_pow free_values (e # es) =
     (if free_values then [FreeKey (ek e), FreeValue (ev e), FreeEntry]
      else [FreeKey (ek e), FreeEntry]) @ destroy_chain_pow free_values es"

definition hashtable_destroy_pow :: "('k, 'v) hashtable \<Rightarrow> bool \<Rightarrow> ('k, 'v) freed list" where
  "hashtable_destroy_pow h free_values =
     concat (map (destroy_chain_pow free_values) (table h)) @ [FreeTable, FreeStruct]"

section \<open>What both tables share\<close>

lemma hash_pow_eq: "hash_pow h k = hash h k"
  unfolding hash_pow_def hash_def ht_mix_def by (simp only: Let_def)

lemma search_pow_eq: "hashtable_search_pow h k = hashtable_search h k"
  by (simp add: hashtable_search_pow_def hashtable_search_def hash_pow_eq)

lemma insert_pow_eq:
  "hashtable_insert_pow mem h k v =
     (let h1 = h\<lparr>entrycount := entrycount h + 1\<rparr>
      in insert_entry mem
           (if loadlimit h1 < entrycount h1 then fst (hashtable_expand_pow mem h1) else h1) k v)"
  by (simp add: hashtable_insert_pow_def insert_entry_def Let_def hash_pow_eq)

lemma remove_chain_pow_eq:
  assumes "\<And>e. e \<in> set c \<Longrightarrow> eq k (ek e) \<Longrightarrow> eh e = hv"
  shows "remove_chain_pow eq k c = remove_chain hv eq k c"
  using assms
proof (induction c)
  case (Cons e c)
  have "remove_chain_pow eq k c = remove_chain hv eq k c"
    by (rule Cons.IH) (rule Cons.prems, simp_all)
  moreover have "eq k (ek e) \<Longrightarrow> hv = eh e"
    by (rule Cons.prems [symmetric]) simp_all
  ultimately show ?case by auto
qed simp

lemma remove_pow_eq:
  assumes kc: "key_contract (hashfn h) (eqfn h)" and ar: "arranged h"
  shows "hashtable_remove_pow h k = hashtable_remove h k"
proof -
  let ?i = "unat (indexFor (tablelength h) (hash h k))"
  have i: "?i < length (table h)"
    using arrangedD(1) [OF ar] indexFor_less [OF arrangedD(2) [OF ar]] by simp
  have "remove_chain_pow (eqfn h) k (table h ! ?i) = remove_chain (hash h k) (eqfn h) k (table h ! ?i)"
  proof (rule remove_chain_pow_eq)
    fix e assume "e \<in> set (table h ! ?i)" "eqfn h k (ek e)"
    with arrangedD(4) [OF ar] in_bucket_entries [OF i] key_contractD(4) [OF kc]
    show "eh e = hash h k" by (simp add: hashed_def hash_def)
  qed
  then show ?thesis
    by (simp add: hashtable_remove_pow_def hashtable_remove_def Let_def hash_pow_eq)
qed

lemma destroy_pow_eq: "hashtable_destroy_pow h fv = hashtable_destroy h fv"
proof -
  have "destroy_chain_pow fv c = destroy_chain fv c" for c :: "('a, 'b) chain"
    by (induction c) simp_all
  then have "destroy_chain_pow fv = (destroy_chain fv :: ('a, 'b) chain \<Rightarrow> ('a, 'b) freed list)" by (rule ext)
  then show ?thesis by (simp add: hashtable_destroy_pow_def hashtable_destroy_def)
qed

section \<open>Sizes\<close>

definition pow_size :: "u32 \<Rightarrow> bool" where
  "pow_size n \<longleftrightarrow> n \<in> set (map (\<lambda>k. 2 ^ k) [0..<32])"

lemma unat_power32:
  assumes "k < 32"
  shows "unat (2 ^ k :: u32) = 2 ^ k"
proof -
  have "(2 :: nat) ^ k < 2 ^ 32" using assms by (intro power_strict_increasing) auto
  moreover have "unat (word_of_nat (2 ^ k) :: u32) = 2 ^ k mod 2 ^ 32" by (subst unat_of_nat) simp
  ultimately show ?thesis by simp
qed

lemma pow_sizeE:
  assumes "pow_size n"
  obtains k where "k < 32" "n = 2 ^ k" "unat n = 2 ^ k"
proof -
  from assms obtain k where "k < 32" "n = 2 ^ k" by (auto simp: pow_size_def)
  moreover from this have "unat n = 2 ^ k" by (simp add: unat_power32)
  ultimately show ?thesis by (rule that)
qed

lemma pow_sizeI: "k < 32 \<Longrightarrow> pow_size (2 ^ k)"
  by (auto simp: pow_size_def)

lemma double_size:
  assumes "pow_size n"
  shows "push_bit 1 n = 0 \<longleftrightarrow> n = 2 ^ 31"
    and "push_bit 1 n \<noteq> 0 \<Longrightarrow> pow_size (push_bit 1 n) \<and> unat (push_bit 1 n) = 2 * unat n"
proof -
  from assms obtain k where k: "k < 32" "n = 2 ^ k" "unat n = 2 ^ k" by (rule pow_sizeE)
  have p: "push_bit 1 n = 2 ^ Suc k" by (simp add: k push_bit_eq_mult)
  show z: "push_bit 1 n = 0 \<longleftrightarrow> n = 2 ^ 31"
  proof (cases "k = 31")
    case True
    then show ?thesis by (simp add: p k(2))
  next
    case False
    then have "unat (push_bit 1 n) = 2 ^ Suc k" unfolding p using k(1) by (intro unat_power32) simp
    moreover have "unat n \<noteq> 2 ^ 31" using False k(3) by (simp only: power_inject_exp not_False_eq_True)
    ultimately show ?thesis by (auto simp: unat_power32)
  qed
  assume nz: "push_bit 1 n \<noteq> 0"
  then have "k \<noteq> 31" using z k(2) by blast
  with k(1) have "Suc k < 32" by simp
  from unat_power32 [OF this] pow_sizeI [OF this]
  show "pow_size (push_bit 1 n) \<and> unat (push_bit 1 n) = 2 * unat n"
    unfolding p by (simp add: k(3))
qed

lemma size_loop_ends:
  assumes "minsize \<le> 2 ^ 31" "j < 32"
  shows "\<exists>sz. size_loop minsize (2 ^ j) = Some sz \<and> pow_size sz \<and> minsize \<le> sz"
  using assms(2)
proof (induction "31 - j" arbitrary: j)
  case 0
  then have "j = 31" by simp
  with assms(1) show ?case
    by (subst size_loop.simps) (auto simp: not_less intro: pow_sizeI [of 31, simplified])
next
  case (Suc n)
  then have "n = 31 - Suc j" "Suc j < 32" by linarith+
  from Suc.hyps(1) [OF this] have "\<exists>sz. size_loop minsize (2 ^ Suc j) = Some sz \<and> pow_size sz \<and> minsize \<le> sz" .
  moreover have "push_bit 1 (2 ^ j :: u32) = 2 ^ Suc j" by (simp only: push_bit_eq_mult power_Suc mult.commute power_one_right)
  ultimately show ?case
    using pow_sizeI [OF Suc.prems] by (subst size_loop.simps) (auto simp: not_less simp del: power_Suc)
qed

lemma size_loop_result:
  assumes "size_loop m s = Some r"
  shows "\<not> r < m \<and> (\<exists>j. r = push_bit j s)"
proof (rule size_loop.raw_induct [OF _ assms])
  fix loop minsize sz r
  assume ih: "\<And>m s r. loop m s = Some r \<Longrightarrow> \<not> r < m \<and> (\<exists>j. r = push_bit j s)"
    and r: "(if sz < minsize then loop minsize (push_bit 1 sz) else Some sz) = Some r"
  show "\<not> r < minsize \<and> (\<exists>j. r = push_bit j sz)"
  proof (cases "sz < minsize")
    case True
    with ih [of minsize "push_bit 1 sz" r] r obtain j
      where "\<not> r < minsize" "r = push_bit j (push_bit 1 sz)" by auto
    then have "r = push_bit (j + 1) sz" by (simp only: push_bit_push_bit)
    with \<open>\<not> r < minsize\<close> show ?thesis by blast
  next
    case False
    with r have "\<not> r < minsize" "r = push_bit 0 sz" by simp_all
    then show ?thesis by blast
  qed
qed

text \<open>The check in front of the loop is exactly what it needs: beyond \<open>2 ^ 31\<close> it would not end.\<close>

lemma size_loop_total: "size_loop minsize 1 = None \<longleftrightarrow> 2 ^ 31 < minsize"
proof
  assume "2 ^ 31 < minsize"
  show "size_loop minsize 1 = None"
  proof (rule ccontr)
    assume "size_loop minsize 1 \<noteq> None"
    then obtain r j where "minsize \<le> r" and r: "r = push_bit j 1"
      using size_loop_result [of minsize 1] by (auto simp: not_less)
    with \<open>2 ^ 31 < minsize\<close> have l: "2 ^ 31 < r" by simp
    have "r = 2 ^ j" using r by (simp add: push_bit_eq_mult)
    show False
    proof (cases "j < 32")
      case True
      then have "(2 :: nat) ^ j \<le> 2 ^ 31" by (intro power_increasing) auto
      with True l show False by (simp add: \<open>r = 2 ^ j\<close> word_less_nat_alt unat_power32)
    next
      case False
      then obtain i where "j = 32 + i" by (metis le_Suc_ex not_less)
      moreover have "(2 :: u32) ^ 32 = 0" by simp
      ultimately have "r = 0" unfolding \<open>r = 2 ^ j\<close> by (simp only: power_add mult_zero_left)
      with l show False by simp
    qed
  qed
next
  assume "size_loop minsize 1 = None"
  then show "2 ^ 31 < minsize" using size_loop_ends [of minsize 0] by (fastforce simp: not_less)
qed

section \<open>Splitting in place\<close>

lemma split_chain_ok:
  assumes "0 < newsize" "length t = unat newsize" "i < length t" "t ! i = kept @ es"
    "\<forall>e \<in> set kept. unat (indexFor newsize (eh e)) = i"
  shows "length (split_chain newsize i kept es t) = length t
    \<and> mset (concat (split_chain newsize i kept es t)) = mset (concat t)
    \<and> (\<forall>j < length t. set (split_chain newsize i kept es t ! j) =
          (if j = i then set kept else set (t ! j)) \<union> {e \<in> set es. unat (indexFor newsize (eh e)) = j})"
  using assms
proof (induction es arbitrary: kept t)
  case (Cons e es)
  let ?x = "unat (indexFor newsize (eh e))"
  have x: "?x < length t" using Cons.prems(1,2) by (simp add: indexFor_less)
  show ?case
  proof (cases "?x = i")
    case True
    with Cons.IH [of t "kept @ [e]"] Cons.prems show ?thesis by (auto simp: Let_def)
  next
    case False
    let ?t1 = "t[i := kept @ es]"
    let ?t2 = "?t1[?x := e # ?t1 ! ?x]"
    have "add_mset e (mset (concat ?t1)) = mset (concat t)"
      using mset_concat_update [OF Cons.prems(3), of "kept @ es"] Cons.prems(4) by simp
    then have m: "mset (concat ?t2) = mset (concat t)"
      using mset_concat_cons [of ?x ?t1 e] x by simp
    have t2: "?t2 ! j = (if j = i then kept @ es else if j = ?x then e # t ! j else t ! j)"
      if "j < length t" for j
      using that False by (auto simp: nth_list_update)
    have "?t2 ! i = kept @ es" using t2 [OF Cons.prems(3)] by simp
    from Cons.IH [OF Cons.prems(1) _ _ this Cons.prems(5)] Cons.prems(2,3)
    have "length (split_chain newsize i kept es ?t2) = length t"
      "mset (concat (split_chain newsize i kept es ?t2)) = mset (concat t)"
      "\<forall>j < length t. set (split_chain newsize i kept es ?t2 ! j) =
          (if j = i then set kept else set (?t2 ! j)) \<union> {e \<in> set es. unat (indexFor newsize (eh e)) = j}"
      using m by simp_all
    moreover have "split_chain newsize i kept (e # es) t = split_chain newsize i kept es ?t2"
      using False by (simp add: Let_def)
    ultimately show ?thesis using False t2 by auto
  qed
qed auto

text \<open>After \<open>m\<close> buckets: those and the new ones are arranged by the new size, the others by the old one.\<close>

definition half_split :: "u32 \<Rightarrow> u32 \<Rightarrow> nat \<Rightarrow> ('k, 'v) chain list \<Rightarrow> bool" where
  "half_split n newsize m t \<longleftrightarrow> length t = unat newsize \<and> (\<forall>j < length t. \<forall>e \<in> set (t ! j).
     if m \<le> j \<and> j < unat n then unat (indexFor n (eh e)) = j else unat (indexFor newsize (eh e)) = j)"

lemma index_halves:
  assumes "unat newsize = 2 * unat n"
  shows "unat (indexFor newsize x) mod unat n = unat (indexFor n x)"
  unfolding indexFor_def unat_mod_distrib assms by (rule mod_mod_cancel) simp

lemma split_bucket_ok:
  assumes n: "0 < n" "unat newsize = 2 * unat n" and m: "m < unat n" and t: "half_split n newsize m t"
  shows "half_split n newsize (Suc m) (split_bucket newsize m t)
    \<and> mset (concat (split_bucket newsize m t)) = mset (concat t)"
proof -
  have new: "0 < newsize" using n by (simp add: word_less_nat_alt)
  have len: "length t = unat newsize" using t by (simp add: half_split_def)
  have mt: "m < length t" using m n(2) len by simp
  let ?t = "split_bucket newsize m t"
  from split_chain_ok [OF new len mt, of "[]" "t ! m"]
  have s: "length ?t = length t" "mset (concat ?t) = mset (concat t)"
    "\<And>j. j < length t \<Longrightarrow> set (?t ! j) = (if j = m then {} else set (t ! j))
        \<union> {e \<in> set (t ! m). unat (indexFor newsize (eh e)) = j}"
    by (simp_all add: split_bucket_def)
  have "half_split n newsize (Suc m) ?t"
    unfolding half_split_def
  proof (intro conjI allI impI ballI)
    show "length ?t = unat newsize" using s(1) len by simp
    fix j e
    assume j: "j < length ?t" and e: "e \<in> set (?t ! j)"
    have old: "unat (indexFor n (eh e)) = m" if "e \<in> set (t ! m)"
      using t that m mt by (simp add: half_split_def)
    show "if Suc m \<le> j \<and> j < unat n then unat (indexFor n (eh e)) = j
      else unat (indexFor newsize (eh e)) = j"
    proof (cases "e \<in> set (t ! m) \<and> unat (indexFor newsize (eh e)) = j")
      case True
      then have "j mod unat n = m" using index_halves [OF n(2), of "eh e"] old by simp
      then have "\<not> (Suc m \<le> j \<and> j < unat n)" by auto
      with True show ?thesis by auto
    next
      case False
      with e s(3) [of j] s(1) j have "j \<noteq> m" "e \<in> set (t ! j)" by (auto split: if_splits)
      moreover have "if m \<le> j \<and> j < unat n then unat (indexFor n (eh e)) = j
          else unat (indexFor newsize (eh e)) = j"
        using t calculation(2) j s(1) by (simp add: half_split_def)
      ultimately show ?thesis by (auto split: if_splits)
    qed
  qed
  with s(2) show ?thesis by simp
qed

lemma split_table_ok:
  assumes n: "0 < n" "unat newsize = 2 * unat n"
    and t: "length t = unat n" "placed n t"
  shows "length (split_table newsize (unat n) (t @ replicate (unat newsize - unat n) [])) = unat newsize
    \<and> placed newsize (split_table newsize (unat n) (t @ replicate (unat newsize - unat n) []))
    \<and> mset (concat (split_table newsize (unat n) (t @ replicate (unat newsize - unat n) []))) = mset (concat t)"
proof -
  let ?t = "t @ replicate (unat newsize - unat n) []"
  have h0: "half_split n newsize 0 ?t"
    using n(2) t by (auto simp: half_split_def placed_def nth_append)
  have m0: "mset (concat ?t) = mset (concat t)"
    by (simp add: concat_eq_Nil_conv)
  have "half_split n newsize m (split_table newsize m ?t)
      \<and> mset (concat (split_table newsize m ?t)) = mset (concat t)" if "m \<le> unat n" for m
    using that
  proof (induction m)
    case 0
    show ?case using h0 m0 by (simp add: split_table_def)
  next
    case (Suc m)
    have "split_table newsize (Suc m) ?t = split_bucket newsize m (split_table newsize m ?t)"
      by (simp add: split_table_def)
    with Suc split_bucket_ok [OF n, of m "split_table newsize m ?t"] show ?case by simp
  qed
  from this [of "unat n"] show ?thesis
    by (auto simp: half_split_def placed_def)
qed

section \<open>Validity and the laws of the operations\<close>

definition pow_shape :: "('k, 'v) hashtable \<Rightarrow> bool" where
  "pow_shape h \<longleftrightarrow> arranged h \<and> pow_size (tablelength h) \<and> loadlimit h = load_limit (tablelength h)"

definition pow_valid :: "('k, 'v) hashtable \<Rightarrow> bool" where
  "pow_valid h \<longleftrightarrow> key_contract (hashfn h) (eqfn h) \<and> pow_shape h
     \<and> unat (entrycount h) = length (ht_entries h) \<and> unique_keys (eqfn h) (ht_entries h)"

lemma pow_shape_entrycount [simp]: "pow_shape (h\<lparr>entrycount := n\<rparr>) = pow_shape h"
  by (simp add: pow_shape_def)

lemma expand_pow_ok:
  assumes sh: "pow_shape h" and e: "hashtable_expand_pow mem h = (h', r)"
  shows "pow_shape h' \<and> mset (ht_entries h') = mset (ht_entries h)
    \<and> hashfn h' = hashfn h \<and> eqfn h' = eqfn h \<and> entrycount h' = entrycount h
    \<and> (if tablelength h = 2 ^ 31 \<or> \<not> malloc_table mem \<and> \<not> realloc_table mem then h' = h \<and> r = 0
       else tablelength h' = 2 * tablelength h \<and> r = -1)"
proof -
  let ?n = "tablelength h" and ?m = "push_bit 1 (tablelength h)"
  from sh have ar: "arranged h" and sz: "pow_size ?n" by (simp_all add: pow_shape_def)
  note i = arrangedD [OF ar] and d = double_size [OF sz]
  show ?thesis
  proof (cases "?n = 2 ^ 31 \<or> \<not> malloc_table mem \<and> \<not> realloc_table mem")
    case True
    with e d(1) have "h' = h" "r = 0" by (auto simp: hashtable_expand_pow_def Let_def)
    with True sh show ?thesis by simp
  next
    case False
    with d(1) have nz: "?m \<noteq> 0" by blast
    with d(2) have m: "pow_size ?m" "unat ?m = 2 * unat ?n" by blast+
    have "0 < ?m" using nz by (simp add: word_greater_zero_iff)
    let ?t = "if malloc_table mem then transfer_table ?m (table h) (replicate (unat ?m) [])
      else split_table ?m (unat ?n) (table h @ replicate (unat ?m - unat ?n) [])"
    have t: "length ?t = unat ?m" "placed ?m ?t" "mset (concat ?t) = mset (concat (table h))"
      using transfer_table_ok [OF \<open>0 < ?m\<close>, of "replicate (unat ?m) []" "table h"]
        split_table_ok [OF i(2) m(2) i(1,3)] by (auto simp: placed_replicate)
    have h': "h' = h\<lparr>table := ?t, tablelength := ?m, loadlimit := load_limit ?m\<rparr>" "r = -1"
      using e False nz by (auto simp: hashtable_expand_pow_def Let_def split: if_splits)
    have "hashed (hashfn h) (ht_entries h')"
      using i(4) hashed_mset [of "ht_entries h'" "ht_entries h"] t(3) by (simp add: ht_entries_def h')
    moreover have "?m = 2 * ?n" by (simp add: push_bit_eq_mult mult.commute)
    ultimately show ?thesis
      using False t m \<open>0 < ?m\<close> unfolding pow_shape_def arranged_def
      by (auto simp: ht_entries_def h')
  qed
qed

lemma pow_validD:
  assumes "pow_valid h"
  shows "key_contract (hashfn h) (eqfn h)" "pow_shape h" "arranged h"
    "unat (entrycount h) = length (ht_entries h)" "unique_keys (eqfn h) (ht_entries h)"
  using assms by (simp_all add: pow_valid_def pow_shape_def)

text \<open>An insertion, when the entry can be allocated, whatever the allocations for growing do.\<close>

lemma insert_pow_ok:
  assumes v: "pow_valid h" and fresh: "hashtable_search_pow h k = None" and mem: "malloc_entry mem"
    and room: "length (ht_entries h) < 2 ^ 32 - 1"
  shows "\<exists>h'. hashtable_insert_pow mem h k v = (h', -1) \<and> pow_valid h'
    \<and> hashfn h' = hashfn h \<and> eqfn h' = eqfn h \<and> ht_num h' = Suc (ht_num h)
    \<and> (\<forall>k'. hashtable_search_pow h' k' = (if eqfn h k' k then Some v else hashtable_search_pow h k'))"
proof -
  note d = pow_validD [OF v]
  let ?h1 = "h\<lparr>entrycount := entrycount h + 1\<rparr>"
  obtain h2 where h2: "h2 = (if loadlimit ?h1 < entrycount ?h1 then fst (hashtable_expand_pow mem ?h1) else ?h1)"
    by blast
  have p: "pow_shape h2 \<and> mset (ht_entries h2) = mset (ht_entries h) \<and> hashfn h2 = hashfn h
      \<and> eqfn h2 = eqfn h \<and> entrycount h2 = entrycount h + 1"
    using expand_pow_ok [of ?h1 mem "fst (hashtable_expand_pow mem ?h1)" "snd (hashtable_expand_pow mem ?h1)"]
      d(2) by (simp add: h2)
  let ?e = "\<lparr>ek = k, ev = v, eh = hash h2 k\<rparr>"
  have ar: "arranged h2" using p by (simp add: pow_shape_def)
  from arranged_insert [OF ar mem, of k v] obtain h3 where h3:
    "insert_entry mem h2 k v = (h3, -1)" "arranged h3"
    "mset (ht_entries h3) = add_mset ?e (mset (ht_entries h2))"
    "hashfn h3 = hashfn h2" "eqfn h3 = eqfn h2" "entrycount h3 = entrycount h2"
    "tablelength h3 = tablelength h2" "loadlimit h3 = loadlimit h2" by blast
  have "hashtable_insert_pow mem h k v = (h3, -1)"
    using h3(1) by (simp add: insert_pow_eq Let_def h2)
  moreover
  have ms: "mset (ht_entries h3) = add_mset ?e (mset (ht_entries h))" using h3(3) p by simp
  have fns: "hashfn h3 = hashfn h" "eqfn h3 = eqfn h" using h3 p by simp_all
  note l = lookups_added [OF d(1,3) h3(2) d(5) _ ms fns]
  have n: "unat (entrycount h3) = Suc (unat (entrycount h))"
    using h3(6) p d(4) room by (simp add: unat_word_ariths)
  have "length (ht_entries h3) = Suc (length (ht_entries h))"
    using arg_cong [OF ms, of size] by simp
  then have "pow_valid h3"
    using l(1) fresh h3 p d n by (simp add: pow_valid_def pow_shape_def search_pow_eq)
  ultimately show ?thesis
    using fns l(2) fresh n by (auto simp: search_pow_eq ht_num_def hashtable_count_def)
qed

lemma remove_pow_ok:
  assumes v: "pow_valid h" and hit: "hashtable_search_pow h k = Some v"
  shows "\<exists>h' k0. hashtable_remove_pow h k = (h', Some (v, k0)) \<and> eqfn h k k0 \<and> pow_valid h'
    \<and> hashfn h' = hashfn h \<and> eqfn h' = eqfn h \<and> Suc (ht_num h') = ht_num h
    \<and> (\<forall>k'. hashtable_search_pow h' k' = (if eqfn h k' k then None else hashtable_search_pow h k'))"
proof -
  note d = pow_validD [OF v]
  from hit have hit': "hashtable_search h k = Some v" by (simp add: search_pow_eq)
  from arranged_remove [OF d(3) hit'] obtain h' e where h':
    "hashtable_remove h k = (h', Some (ev e, ek e))" "arranged h'"
    "mset (ht_entries h) = add_mset e (mset (ht_entries h'))" "eqfn h k (ek e)"
    "hashfn h' = hashfn h" "eqfn h' = eqfn h" "entrycount h' = entrycount h - 1"
    "tablelength h' = tablelength h" "loadlimit h' = loadlimit h" by blast
  note l = lookups_removed [OF d(1,3) h'(2) d(5) hit' h'(3-6)]
  have n: "unat (entrycount h') = length (ht_entries h')"
    using count_removed [OF d(4) h'(3)] h'(7) by simp
  have "Suc (ht_num h') = ht_num h"
    using n d(4) arg_cong [OF h'(3), of size] by (simp add: ht_num_def hashtable_count_def)
  moreover have "pow_valid h'"
    using l(1) n h' d by (simp add: pow_valid_def pow_shape_def)
  ultimately show ?thesis
    using h' l remove_pow_eq [OF d(1,3), of k] by (auto simp: search_pow_eq)
qed

lemma remove_pow_miss:
  assumes "pow_valid h" "hashtable_search_pow h k = None"
  shows "hashtable_remove_pow h k = (h, None)"
  using remove_miss [of h k] remove_pow_eq [OF pow_validD(1,3) [OF assms(1)]] assms(2)
  by (simp add: search_pow_eq)

lemma change_pow_ok:
  assumes v: "pow_valid h" and hit: "hashtable_search_pow h k = Some old"
  shows "\<exists>h'. hashtable_change h k v = (h', -1, Some old) \<and> pow_valid h'
    \<and> hashfn h' = hashfn h \<and> eqfn h' = eqfn h \<and> ht_num h' = ht_num h
    \<and> (\<forall>k'. hashtable_search_pow h' k' = (if eqfn h k' k then Some v else hashtable_search_pow h k'))"
proof -
  note d = pow_validD [OF v]
  from hit have hit': "hashtable_search h k = Some old" by (simp add: search_pow_eq)
  from arranged_change [OF d(3) hit', of v] obtain h' e M where
    c: "hashtable_change h k v = (h', -1, Some (ev e))" "arranged h'"
      "mset (ht_entries h) = add_mset e M" "mset (ht_entries h') = add_mset (e\<lparr>ev := v\<rparr>) M"
      "eqfn h k (ek e)" "hashfn h' = hashfn h" "eqfn h' = eqfn h" "entrycount h' = entrycount h"
      "tablelength h' = tablelength h" "loadlimit h' = loadlimit h" by blast
  note l = lookups_changed [OF d(1,3) c(2) d(5) c(3-7)]
  have "length (ht_entries h') = length (ht_entries h)"
    using arg_cong [OF c(3), of size] arg_cong [OF c(4), of size] by simp
  then have "pow_valid h'"
    using l(1) c d by (simp add: pow_valid_def pow_shape_def)
  then show ?thesis
    using c l(2,3) hit' by (auto simp: search_pow_eq ht_num_def hashtable_count_def)
qed

section \<open>Creation\<close>

lemma create_pow_ok:
  assumes c: "create_hashtable_pow mh mt junk minsize hf eq = Some (Some h)" and kc: "key_contract hf eq"
  shows "pow_valid h \<and> minsize \<le> tablelength h \<and> ht_num h = 0 \<and> hashfn h = hf \<and> eqfn h = eq
    \<and> (\<forall>k. hashtable_search_pow h k = None)"
proof -
  have "push_bit 31 1 = (2 ^ 31 :: u32)" by simp
  with c have small: "minsize \<le> 2 ^ 31" by (auto simp: create_hashtable_pow_def not_less split: if_splits)
  then obtain sz where sz: "size_loop minsize 1 = Some sz" "pow_size sz" "minsize \<le> sz"
    using size_loop_ends [of minsize 0] by auto
  with c small have h: "h = \<lparr>tablelength = sz, table = replicate (unat sz) [], entrycount = 0,
      loadlimit = load_limit sz, primeindex = junk, hashfn = hf, eqfn = eq\<rparr>"
    by (auto simp: create_hashtable_pow_def split: if_splits)
  have e: "ht_entries h = []" by (simp add: h ht_entries_def concat_eq_Nil_conv)
  from sz(2) obtain k where "unat sz = 2 ^ k" by (rule pow_sizeE)
  then have "0 < sz" by (simp add: word_less_nat_alt)
  with e have ar: "arranged h" by (simp add: arranged_def h placed_replicate hashed_def)
  have "hashtable_search_pow h k = None" for k
    using arranged_search [OF _ ar] kc e by (simp add: search_pow_eq h)
  with ar e sz kc show ?thesis
    by (simp add: pow_valid_def pow_shape_def h unique_keys_def ht_num_def hashtable_count_def)
qed

lemma create_pow_result:
  "\<exists>r. create_hashtable_pow mh mt junk minsize hf eq = Some r
     \<and> (r = None \<longleftrightarrow> 2 ^ 31 < minsize \<or> \<not> mh \<or> \<not> mt)"
proof (cases "2 ^ 31 < minsize")
  case True
  then show ?thesis by (simp add: create_hashtable_pow_def)
next
  case False
  then obtain sz where "size_loop minsize 1 = Some sz"
    using size_loop_ends [of minsize 0] by (auto simp: not_less)
  with False show ?thesis by (simp add: create_hashtable_pow_def)
qed

section \<open>The interface\<close>

definition pow_put :: "('k, 'v) hashtable \<Rightarrow> 'k \<Rightarrow> 'v \<Rightarrow> ('k, 'v) hashtable option" where
  "pow_put h k v = (case hashtable_insert_pow all_mem h k v of (h', r) \<Rightarrow> if r = 0 then None else Some h')"

lemma pow_num_entries: "pow_valid h \<Longrightarrow> ht_num h = length (ht_entries h)"
  by (simp add: pow_valid_def ht_num_def hashtable_count_def)

interpretation hp: changing_table hashtable_search_pow pow_put hashtable_remove_pow ht_num pow_valid eqfn
    "2 ^ 32 - 1" ht_change
proof unfold_locales
  fix h :: "('k, 'v) hashtable" and k
  assume v: "pow_valid h"
  then show "equivp (eqfn h)" by (simp add: pow_valid_def key_contract_def)
  fix k'
  assume e: "eqfn h k k'"
  show "hashtable_search_pow h k = hashtable_search_pow h k'"
    by (simp add: search_pow_eq arranged_search [OF pow_validD(1,3) [OF v]] assoc_def
        key_class [OF pow_validD(1) [OF v] e])
next
  fix h :: "('k, 'v) hashtable" and k v
  assume v: "pow_valid h" "hashtable_search_pow h k = None" "ht_num h < 2 ^ 32 - 1"
  have "length (ht_entries h) < 2 ^ 32 - 1" using v(3) pow_num_entries [OF v(1)] by simp
  from insert_pow_ok [OF v(1,2) _ this, of all_mem v] show "\<exists>t'. pow_put h k v = Some t' \<and> pow_valid t'
      \<and> eqfn t' = eqfn h \<and> ht_num t' = Suc (ht_num h)
      \<and> (\<forall>k'. hashtable_search_pow t' k' = (if eqfn h k' k then Some v else hashtable_search_pow h k'))"
    by (auto simp: pow_put_def all_mem_def)
next
  fix h :: "('k, 'v) hashtable" and k v
  assume "pow_valid h" "hashtable_search_pow h k = Some v"
  from remove_pow_ok [OF this] show "\<exists>t' k0. hashtable_remove_pow h k = (t', Some (v, k0))
      \<and> eqfn h k k0 \<and> pow_valid t' \<and> eqfn t' = eqfn h \<and> Suc (ht_num t') = ht_num h
      \<and> (\<forall>k'. hashtable_search_pow t' k' = (if eqfn h k' k then None else hashtable_search_pow h k'))"
    by blast
next
  fix h :: "('k, 'v) hashtable" and k
  assume "pow_valid h" "hashtable_search_pow h k = None"
  then show "hashtable_remove_pow h k = (h, None)" by (rule remove_pow_miss)
next
  fix h :: "('k, 'v) hashtable" and k v old
  assume "pow_valid h" "hashtable_search_pow h k = Some old"
  from change_pow_ok [OF this, of v] show "\<exists>t'. ht_change h k v = (t', Some old) \<and> pow_valid t'
      \<and> eqfn t' = eqfn h \<and> ht_num t' = ht_num h
      \<and> (\<forall>k'. hashtable_search_pow t' k' = (if eqfn h k' k then Some v else hashtable_search_pow h k'))"
    by (auto simp: ht_change_def)
next
  fix h :: "('k, 'v) hashtable" and k v
  assume "hashtable_search_pow h k = None"
  then show "ht_change h k v = (h, None)" by (simp add: ht_change_def change_miss search_pow_eq)
qed

section \<open>Properties\<close>

text \<open>C23: the search for the size ends exactly for the sizes the check in front of it lets through, so
  \<open>create_hashtable\<close> returns for every size: NULL if it exceeds \<open>2 ^ 31\<close> or memory is short, else an empty
  valid table with at least as many buckets as asked for.\<close>

theorem create_pow_terminates:
  "(size_loop minsize 1 = None \<longleftrightarrow> 2 ^ 31 < minsize)
   \<and> (\<exists>r. create_hashtable_pow mh mt junk minsize hf eq = Some r
        \<and> (r = None \<longleftrightarrow> 2 ^ 31 < minsize \<or> \<not> mh \<or> \<not> mt)
        \<and> (\<forall>h. r = Some h \<and> key_contract hf eq \<longrightarrow> pow_valid h \<and> minsize \<le> tablelength h
             \<and> ht_num h = 0 \<and> (\<forall>k. hashtable_search_pow h k = None)))"
  using size_loop_total [of minsize] create_pow_result [of mh mt junk minsize hf eq]
    create_pow_ok [of mh mt junk minsize hf eq] by blast

text \<open>A table of numbers for the witnesses.\<close>

definition demo_pow :: "(nat, string) hashtable" where
  "demo_pow = the (the (create_hashtable_pow True True 0 10 of_nat (=)))"

lemma demo_contract: "key_contract (of_nat :: nat \<Rightarrow> u32) (=)"
  by (simp add: key_contract_def identity_equivp)

lemma demo_pow_create: "create_hashtable_pow True True 0 10 of_nat (=) = Some (Some demo_pow)"
proof -
  obtain r :: "(nat, string) hashtable option"
    where "create_hashtable_pow True True 0 10 (of_nat :: nat \<Rightarrow> u32) (=) = Some r"
    "r = None \<longleftrightarrow> (2 ^ 31 :: u32) < 10"
    using create_pow_result [of True True 0 10 "of_nat :: nat \<Rightarrow> u32" "(=)"] by auto
  then show ?thesis by (cases r) (simp_all add: demo_pow_def)
qed

lemma demo_pow_facts: "pow_valid demo_pow" "hashtable_search_pow demo_pow k = None" "ht_num demo_pow = 0"
    "eqfn demo_pow = (=)" "10 \<le> tablelength demo_pow"
  using create_pow_ok [OF demo_pow_create demo_contract] by auto

theorem create_pow_terminates_witness:
  "\<exists>h :: (nat, string) hashtable. create_hashtable_pow True True 0 10 of_nat (=) = Some (Some h)
     \<and> pow_valid h \<and> 10 \<le> tablelength h"
proof -
  obtain r :: "(nat, string) hashtable option" where
    r: "create_hashtable_pow True True 0 10 of_nat (=) = Some r" "r = None \<longleftrightarrow> (2 ^ 31 :: u32) < 10"
      "\<forall>h. r = Some h \<and> key_contract (of_nat :: nat \<Rightarrow> u32) (=) \<longrightarrow> pow_valid h \<and> 10 \<le> tablelength h"
    using create_pow_terminates [of 10 True True 0 "of_nat :: nat \<Rightarrow> u32" "(=)"] by fastforce
  then show ?thesis using demo_contract by (cases r) auto
qed

text \<open>C22: inserting a new key into a valid table, with any outcome of the three allocations: the table
  stays valid and no other lookup changes. The key is found afterwards and the count is one higher exactly
  if the entry could be allocated; growing may copy all entries, split the old chains in place or fail.\<close>

theorem insert_pow_any_memory:
  assumes v: "pow_valid h" and fresh: "hashtable_search_pow h k = None" and room: "ht_num h < 2 ^ 32 - 1"
  shows "\<exists>h'. hashtable_insert_pow mem h k v = (h', if malloc_entry mem then -1 else 0) \<and> pow_valid h'
    \<and> ht_num h' = (if malloc_entry mem then Suc (ht_num h) else ht_num h)
    \<and> (\<forall>k'. hashtable_search_pow h' k'
          = (if malloc_entry mem \<and> eqfn h k' k then Some v else hashtable_search_pow h k'))"
proof (cases "malloc_entry mem")
  case True
  have "length (ht_entries h) < 2 ^ 32 - 1" using room pow_num_entries [OF v] by simp
  from insert_pow_ok [OF v fresh True this, of v] True show ?thesis by auto
next
  case False
  let ?h1 = "h\<lparr>entrycount := entrycount h + 1\<rparr>"
  define h2 where "h2 = (if loadlimit ?h1 < entrycount ?h1 then fst (hashtable_expand_pow mem ?h1) else ?h1)"
  have p: "pow_shape h2 \<and> mset (ht_entries h2) = mset (ht_entries h) \<and> hashfn h2 = hashfn h
      \<and> eqfn h2 = eqfn h \<and> entrycount h2 = entrycount h + 1"
    using expand_pow_ok [of ?h1 mem "fst (hashtable_expand_pow mem ?h1)" "snd (hashtable_expand_pow mem ?h1)"]
      pow_validD(2) [OF v] by (simp add: h2_def)
  let ?h = "h2\<lparr>entrycount := entrycount h2 - 1\<rparr>"
  have "hashtable_insert_pow mem h k v = (?h, 0)"
    using False by (simp add: insert_pow_eq insert_entry_def Let_def h2_def)
  moreover have h: "arranged ?h" "mset (ht_entries ?h) = mset (ht_entries h)" "hashfn ?h = hashfn h"
      "eqfn ?h = eqfn h"
    using p by (simp_all add: pow_shape_def)
  note l = lookups_kept [OF pow_validD(1,3) [OF v] h(1) pow_validD(5) [OF v] h(2-4)]
  moreover have "pow_valid ?h"
    using l(1) p pow_validD [OF v] mset_eq_length [OF h(2)] by (simp add: pow_valid_def)
  moreover have "ht_num ?h = ht_num h" using p by (simp add: ht_num_def hashtable_count_def)
  ultimately show ?thesis using False by (auto simp: search_pow_eq)
qed

theorem insert_pow_any_memory_witness:
  "\<exists>h'. hashtable_insert_pow \<lparr>malloc_table = False, realloc_table = True, malloc_entry = True\<rparr>
       demo_pow 3 ''x'' = (h', -1) \<and> pow_valid h' \<and> hashtable_search_pow h' 3 = Some ''x''"
  using insert_pow_any_memory [of demo_pow 3 "\<lparr>malloc_table = False, realloc_table = True, malloc_entry = True\<rparr>"
      "''x''"] by (auto simp: demo_pow_facts)

text \<open>Growing, with either strategy, doubles the size and keeps the table valid and every lookup; it is
  refused exactly at \<open>2 ^ 31\<close> buckets or when neither allocation succeeds.\<close>

theorem expand_pow_keeps_lookups:
  assumes v: "pow_valid h" and e: "hashtable_expand_pow mem h = (h', r)"
  shows "pow_valid h' \<and> ht_num h' = ht_num h
    \<and> (\<forall>k. hashtable_search_pow h' k = hashtable_search_pow h k)
    \<and> tablelength h' = (if tablelength h = 2 ^ 31 \<or> \<not> malloc_table mem \<and> \<not> realloc_table mem
        then tablelength h else 2 * tablelength h)"
proof -
  note d = pow_validD [OF v] and p = expand_pow_ok [OF pow_validD(2) [OF v] e]
  from p have h: "arranged h'" "mset (ht_entries h') = mset (ht_entries h)" "hashfn h' = hashfn h"
    "eqfn h' = eqfn h" by (simp_all add: pow_shape_def)
  note l = lookups_kept [OF d(1,3) h(1) d(5) h(2-4)]
  show ?thesis
    using p l d mset_eq_length [OF h(2)]
    by (auto simp: pow_valid_def search_pow_eq ht_num_def hashtable_count_def)
qed

text \<open>C21: the two hash tables cannot be told apart by a client that looks up, stores and deletes, whatever
  sizes they were created with and however they grow: both give the answers of a map from keys to values,
  up to the comparison of keys.\<close>

theorem tables_agree:
  assumes "key_contract hf eq"
    and "create_hashtable True True n hf eq = Some h"
    and "create_hashtable_pow True True junk m hf eq = Some (Some p)"
    and "length ops < 2 ^ 32"
  shows "table_answers hashtable_search ht_put hashtable_remove ht_change h ops
      = map_answers eq (\<lambda>k. None) ops
    \<and> table_answers hashtable_search_pow pow_put hashtable_remove_pow ht_change p ops
      = map_answers eq (\<lambda>k. None) ops"
proof
  have h: "ht_valid h" "ht_num h = 0" "eqfn h = eq" "hashtable_search h = (\<lambda>k. None)"
    using create_ok [OF assms(2)] assms(1) by (auto simp: ht_valid_def ht_num_def)
  then show "table_answers hashtable_search ht_put hashtable_remove ht_change h ops
      = map_answers eq (\<lambda>k. None) ops"
    using htc.answers_refine [OF h(1), of ops] assms(4) by simp
next
  have p: "pow_valid p" "ht_num p = 0" "eqfn p = eq" "hashtable_search_pow p = (\<lambda>k. None)"
    using create_pow_ok [OF assms(3,1)] by auto
  then show "table_answers hashtable_search_pow pow_put hashtable_remove_pow ht_change p ops
      = map_answers eq (\<lambda>k. None) ops"
    using hp.answers_refine [OF p(1), of ops] assms(4) by simp
qed

theorem tables_agree_witness:
  "table_answers hashtable_search_pow pow_put hashtable_remove_pow ht_change demo_pow
     [Op_store 3 ''x'', Op_store 3 ''y'', Op_delete 3, Op_find 3] = [None, Some ''x'', Some ''y'', None]
   \<and> table_answers hashtable_search ht_put hashtable_remove ht_change demo_table
     [Op_store 3 ''x'', Op_store 3 ''y'', Op_delete 3, Op_find 3] = [None, Some ''x'', Some ''y'', None]"
  using tables_agree [OF demo_contract demo_create demo_pow_create,
      of "[Op_store 3 ''x'', Op_store 3 ''y'', Op_delete 3, Op_find 3]"] by simp

end
