(* ===== verification/Sds.thy ===== *)
theory Sds
  imports Prelude "HOL-Library.Sublist"
begin

text \<open>
  \<open>hiredis/sds.c\<close>: dynamic strings with a length and a free count in front of the bytes. The model
  keeps the whole byte array (\<open>len + free + 1\<close> bytes), so every \<open>memcpy\<close>, \<open>memmove\<close> and
  terminating store is checked against the allocation. Lengths are natural numbers: the \<open>int\<close>
  fields of \<open>struct sdshdr\<close> hold them while the allocation stays below 2 GB. The result \<open>None\<close> is
  the NULL of a failed allocation.
\<close>

section \<open>The structure\<close>

record sds =
  sds_len :: nat
  sds_free :: nat
  sds_buf :: string

definition sdslen :: "sds \<Rightarrow> nat" where
  "sdslen s = sds_len s"

definition sdsavail :: "sds \<Rightarrow> nat" where
  "sdsavail s = sds_free s"

text \<open>The bytes of the string, and the invariant of the header.\<close>

definition sds_str :: "sds \<Rightarrow> string" where
  "sds_str s = take (sds_len s) (sds_buf s)"

definition sds_inv :: "sds \<Rightarrow> bool" where
  "sds_inv s \<longleftrightarrow> length (sds_buf s) = sds_len s + sds_free s + 1 \<and> sds_buf s ! sds_len s = NUL"

section \<open>Creation\<close>

definition read_from :: "string \<Rightarrow> nat \<Rightarrow> string res" where
  "read_from t n = (if n \<le> length t then Inr (take n t) else Inl OutOfBounds)"

definition sdsnewlen :: "allocator \<Rightarrow> string option \<Rightarrow> nat \<Rightarrow> sds option res" where
  "sdsnewlen al init initlen =
     (case al (initlen + 1) of
        None \<Rightarrow> Inr None
      | Some b0 \<Rightarrow>
          bind_res
            (if initlen = 0 then Inr b0
             else case init of
                    Some t \<Rightarrow> bind_res (read_from t initlen) (write_at b0 0)
                  | None \<Rightarrow> write_at b0 0 (replicate initlen NUL))
            (\<lambda>b1. bind_res (write_at b1 initlen [NUL])
            (\<lambda>b2. Inr (Some \<lparr>sds_len = initlen, sds_free = 0, sds_buf = b2\<rparr>))))"

definition sdsempty :: "allocator \<Rightarrow> sds option res" where
  "sdsempty al = sdsnewlen al (Some [NUL]) 0"

definition sdsnew :: "allocator \<Rightarrow> string option \<Rightarrow> sds option res" where
  "sdsnew al init =
     (case init of
        None \<Rightarrow> sdsnewlen al None 0
      | Some t \<Rightarrow> (case strlen t of None \<Rightarrow> Inl OutOfBounds | Some n \<Rightarrow> sdsnewlen al init n))"

definition sdsdup :: "allocator \<Rightarrow> sds \<Rightarrow> sds option res" where
  "sdsdup al s = sdsnewlen al (Some (sds_buf s)) (sdslen s)"

definition sdsupdatelen :: "sds \<Rightarrow> sds res" where
  "sdsupdatelen s =
     (case strlen (sds_buf s) of
        None \<Rightarrow> Inl OutOfBounds
      | Some reallen \<Rightarrow>
          Inr (s\<lparr>sds_free := sds_free s + sds_len s - reallen, sds_len := reallen\<rparr>))"

section \<open>Growing and appending\<close>

definition sdsMakeRoomFor :: "allocator \<Rightarrow> sds \<Rightarrow> nat \<Rightarrow> sds option" where
  "sdsMakeRoomFor al s addlen =
     (if addlen \<le> sdsavail s then Some s
      else
        let newlen = (sdslen s + addlen) * 2
        in case realloc al (sds_buf s) (newlen + 1) of
             None \<Rightarrow> None
           | Some b \<Rightarrow> Some (s\<lparr>sds_free := newlen - sdslen s, sds_buf := b\<rparr>))"

definition sdsgrowzero :: "allocator \<Rightarrow> sds \<Rightarrow> nat \<Rightarrow> sds option res" where
  "sdsgrowzero al s len =
     (let curlen = sds_len s
      in if len \<le> curlen then Inr (Some s)
         else case sdsMakeRoomFor al s (len - curlen) of
                None \<Rightarrow> Inr None
              | Some s1 \<Rightarrow>
                  bind_res (write_at (sds_buf s1) curlen (replicate (len - curlen + 1) NUL))
                  (\<lambda>b. let totlen = sds_len s1 + sds_free s1
                       in Inr (Some (s1\<lparr>sds_buf := b, sds_len := len, sds_free := totlen - len\<rparr>))))"

definition sdscatlen :: "allocator \<Rightarrow> sds \<Rightarrow> string \<Rightarrow> nat \<Rightarrow> sds option res" where
  "sdscatlen al s t len =
     (let curlen = sdslen s
      in case sdsMakeRoomFor al s len of
           None \<Rightarrow> Inr None
         | Some s1 \<Rightarrow>
             bind_res (read_from t len)
             (\<lambda>x. bind_res (write_at (sds_buf s1) curlen x)
             (\<lambda>b1. bind_res (write_at b1 (curlen + len) [NUL])
             (\<lambda>b2. Inr (Some (s1\<lparr>sds_buf := b2, sds_len := curlen + len,
                       sds_free := sds_free s1 - len\<rparr>))))))"

definition sdscat :: "allocator \<Rightarrow> sds \<Rightarrow> string \<Rightarrow> sds option res" where
  "sdscat al s t =
     (case strlen t of None \<Rightarrow> Inl OutOfBounds | Some n \<Rightarrow> sdscatlen al s t n)"

definition sdscpylen :: "allocator \<Rightarrow> sds \<Rightarrow> string \<Rightarrow> nat \<Rightarrow> sds option res" where
  "sdscpylen al s t len =
     (let totlen0 = sds_free s + sds_len s
      in case (if totlen0 < len then sdsMakeRoomFor al s (len - sds_len s) else Some s) of
           None \<Rightarrow> Inr None
         | Some s1 \<Rightarrow>
             let totlen = sds_free s1 + sds_len s1
             in bind_res (read_from t len)
                (\<lambda>x. bind_res (write_at (sds_buf s1) 0 x)
                (\<lambda>b1. bind_res (write_at b1 len [NUL])
                (\<lambda>b2. Inr (Some (s1\<lparr>sds_buf := b2, sds_len := len, sds_free := totlen - len\<rparr>))))))"

definition sdscpy :: "allocator \<Rightarrow> sds \<Rightarrow> string \<Rightarrow> sds option res" where
  "sdscpy al s t =
     (case strlen t of None \<Rightarrow> Inl OutOfBounds | Some n \<Rightarrow> sdscpylen al s t n)"

text \<open>
  \<open>sdscatvprintf\<close> formats into a buffer of 16, 32, .. bytes until the last but one byte stays NUL.
  The text \<open>vsnprintf\<close> would produce without a limit is the argument \<open>out\<close>; a call writes at most
  \<open>buflen - 1\<close> bytes of it and a NUL.
\<close>

function vprintf_buf :: "allocator \<Rightarrow> string \<Rightarrow> nat \<Rightarrow> string option" where
  "vprintf_buf al out buflen =
     (case al buflen of
        None \<Rightarrow> None
      | Some _ \<Rightarrow>
          if 2 \<le> buflen \<and> buflen - 1 \<le> length out \<and> out ! (buflen - 2) \<noteq> NUL
          then vprintf_buf al out (buflen * 2)
          else Some (take (buflen - 1) out @ [NUL]))"
  by pat_completeness auto
termination
  by (relation "measure (\<lambda>(al, out, buflen). length out + 2 - buflen)") auto

declare vprintf_buf.simps [simp del]

definition sdscatvprintf :: "allocator \<Rightarrow> sds \<Rightarrow> string \<Rightarrow> sds option res" where
  "sdscatvprintf al s out =
     (case vprintf_buf al out 16 of None \<Rightarrow> Inr None | Some buf \<Rightarrow> sdscat al s buf)"

section \<open>Trimming and slicing\<close>

text \<open>\<open>strchr(cset, c)\<close> also finds the terminating NUL of \<open>cset\<close>, so a NUL byte is trimmed.\<close>

definition strchr_in :: "string \<Rightarrow> char \<Rightarrow> bool" where
  "strchr_in cset c \<longleftrightarrow> c = NUL \<or> c \<in> set (cstr cset)"

function trim_start :: "string \<Rightarrow> string \<Rightarrow> int \<Rightarrow> int \<Rightarrow> int" where
  "trim_start b cset sp en =
     (if sp \<le> en \<and> strchr_in cset (b ! nat sp) then trim_start b cset (sp + 1) en else sp)"
  by pat_completeness auto
termination
  by (relation "measure (\<lambda>(b, cset, sp, en). nat (en + 1 - sp))") auto

function trim_end :: "string \<Rightarrow> string \<Rightarrow> int \<Rightarrow> int" where
  "trim_end b cset ep =
     (if 0 < ep \<and> strchr_in cset (b ! nat ep) then trim_end b cset (ep - 1) else ep)"
  by pat_completeness auto
termination
  by (relation "measure (\<lambda>(b, cset, ep). nat ep)") auto

declare trim_start.simps [simp del] trim_end.simps [simp del]

definition sdstrim :: "sds \<Rightarrow> string \<Rightarrow> sds res" where
  "sdstrim s cset =
     (let b = sds_buf s;
          en = int (sdslen s) - 1;
          sp = trim_start b cset 0 en;
          ep = trim_end b cset en;
          len = (if ep < sp then 0 else nat (ep - sp + 1))
      in bind_res
           (if sp = 0 then Inr b
            else bind_res (read_from (drop (nat sp) b) len) (write_at b 0))
         (\<lambda>b1. bind_res (write_at b1 len [NUL])
         (\<lambda>b2. Inr (s\<lparr>sds_buf := b2, sds_free := sds_free s + (sds_len s - len), sds_len := len\<rparr>))))"

definition sdsrange :: "sds \<Rightarrow> int \<Rightarrow> int \<Rightarrow> sds res" where
  "sdsrange s start0 end0 =
     (let len = int (sdslen s)
      in if len = 0 then Inr s
         else
           let start1 = (if start0 < 0 then max 0 (len + start0) else start0);
               end1 = (if end0 < 0 then max 0 (len + end0) else end0);
               newlen1 = (if end1 < start1 then 0 else end1 - start1 + 1);
               (start, newlen) =
                 (if newlen1 \<noteq> 0 then
                    if len \<le> start1 then (start1, 0)
                    else if len \<le> end1 then
                      (start1, if len - 1 < start1 then 0 else len - 1 - start1 + 1)
                    else (start1, newlen1)
                  else (0, newlen1))
           in bind_res
                (if start \<noteq> 0 \<and> newlen \<noteq> 0
                 then bind_res (read_from (drop (nat start) (sds_buf s)) (nat newlen))
                        (write_at (sds_buf s) 0)
                 else Inr (sds_buf s))
              (\<lambda>b1. bind_res (write_at b1 (nat newlen) [NUL])
              (\<lambda>b2. Inr (s\<lparr>sds_buf := b2, sds_free := sds_free s + (sds_len s - nat newlen),
                        sds_len := nat newlen\<rparr>))))"

section \<open>What every operation keeps\<close>

text \<open>The result of a string operation: memory may be out, but never a fault; a string that comes
  back satisfies the invariant and holds the given bytes.\<close>

fun holds :: "sds option res \<Rightarrow> string \<Rightarrow> bool" where
  "holds (Inl f) str = False"
| "holds (Inr None) str = True"
| "holds (Inr (Some s)) str = (sds_inv s \<and> sds_str s = str)"

lemma sds_invD:
  "sds_inv s \<Longrightarrow> length (sds_buf s) = sds_len s + sds_free s + 1"
  "sds_inv s \<Longrightarrow> sds_buf s ! sds_len s = NUL"
  by (simp_all add: sds_inv_def)

lemma sds_str_length: "sds_inv s \<Longrightarrow> length (sds_str s) = sds_len s"
  by (simp add: sds_str_def sds_inv_def)

lemma sds_buf_split: "sds_inv s \<Longrightarrow> sds_buf s = sds_str s @ NUL # drop (Suc (sds_len s)) (sds_buf s)"
  by (simp add: sds_str_def sds_inv_def)
     (metis append_take_drop_id Cons_nth_drop_Suc less_add_Suc1)

lemma sdsI:
  assumes "b = x @ NUL # r" "n = length x" "f = length r"
  shows "sds_inv \<lparr>sds_len = n, sds_free = f, sds_buf = b\<rparr>
       \<and> sds_str \<lparr>sds_len = n, sds_free = f, sds_buf = b\<rparr> = x"
  using assms by (simp add: sds_inv_def sds_str_def)

lemma sdsI':
  assumes "sds_buf s = x @ NUL # r" "sds_len s = length x" "sds_free s = length r"
  shows "sds_inv s \<and> sds_str s = x"
  using assms by (simp add: sds_inv_def sds_str_def)

text \<open>Writing \<open>x\<close> at the end of \<open>p\<close> and then a NUL behind it.\<close>

lemma write_append:
  assumes "length b = m" "length p + length x < m" "take (length p) b = p"
  shows "\<exists>b1 r. write_at b (length p) x = Inr b1 \<and> length b1 = m
    \<and> write_at b1 (length p + length x) [NUL] = Inr (p @ x @ NUL # r)
    \<and> length r = m - (length p + length x + 1)"
proof -
  let ?b1 = "take (length p) b @ x @ drop (length p + length x) b"
  let ?r = "drop (length p + length x + 1) b"
  have 1: "write_at b (length p) x = Inr ?b1" using assms by (simp add: write_at_def)
  have l: "length ?b1 = m" using assms by simp
  have "take (length p + length x) ?b1 = p @ x" using assms by simp
  moreover have "drop (length p + length x + 1) ?b1 = ?r"
    using assms by simp
  ultimately have "write_at ?b1 (length p + length x) [NUL] = Inr (p @ x @ NUL # ?r)"
    using assms l by (simp add: write_at_def)
  with 1 l assms show ?thesis by (intro exI [of _ ?b1] exI [of _ ?r]) auto
qed

lemma newlen_holds:
  assumes al: "good_alloc al" and t: "n \<le> length t"
  shows "holds (sdsnewlen al (Some t) n) (take n t)
    \<and> (sdsnewlen al (Some t) n = Inr None \<longleftrightarrow> al (n + 1) = None)"
proof (cases "al (n + 1)")
  case None
  then show ?thesis by (simp add: sdsnewlen_def)
next
  case (Some b)
  then have lb: "length b = n + 1" using al by (simp add: good_allocD)
  obtain b1 r where w: "write_at b 0 (take n t) = Inr b1"
    "write_at b1 n [NUL] = Inr (take n t @ NUL # r)" "length r = 0"
    using write_append [OF lb, of "[]" "take n t"] t by (auto simp: min_absorb2)
  have c: "(if n = 0 then Inr b else bind_res (read_from t n) (write_at b 0)) = Inr b1"
    using w(1) t by (auto simp: read_from_def write_at_def)
  have "sdsnewlen al (Some t) n = Inr (Some \<lparr>sds_len = n, sds_free = 0, sds_buf = take n t @ NUL # r\<rparr>)"
    unfolding sdsnewlen_def Some option.case c by (simp add: w(2))
  with Some w(3) t show ?thesis
    by (simp add: sdsI [of _ "take n t" r] min_absorb2)
qed

lemma newlen_zero_holds:
  assumes al: "good_alloc al"
  shows "holds (sdsnewlen al None n) (replicate n NUL)"
proof (cases "al (n + 1)")
  case None
  then show ?thesis by (simp add: sdsnewlen_def)
next
  case (Some b)
  then have lb: "length b = n + 1" using al by (simp add: good_allocD)
  obtain b1 r where w: "write_at b 0 (replicate n NUL) = Inr b1"
    "write_at b1 n [NUL] = Inr (replicate n NUL @ NUL # r)" "length r = 0"
    using write_append [OF lb, of "[]" "replicate n NUL"] by auto
  have c: "(if n = 0 then Inr b else write_at b 0 (replicate n NUL)) = Inr b1"
    using w(1) by (auto simp: write_at_def)
  have "sdsnewlen al None n
      = Inr (Some \<lparr>sds_len = n, sds_free = 0, sds_buf = replicate n NUL @ NUL # r\<rparr>)"
    unfolding sdsnewlen_def Some option.case c by (simp add: w(2))
  with w(3) show ?thesis by (simp add: sdsI [of _ "replicate n NUL" r])
qed

lemma empty_holds: "good_alloc al \<Longrightarrow> holds (sdsempty al) []"
  using newlen_holds [of al 0 "[NUL]"] by (simp add: sdsempty_def)

lemma new_holds: "good_alloc al \<Longrightarrow> NUL \<in> set t \<Longrightarrow> holds (sdsnew al (Some t)) (cstr t)"
  using newlen_holds [of al "length (cstr t)" t]
  by (simp add: sdsnew_def strlen_cstr cstr_def length_takeWhile_le takeWhile_eq_take [symmetric])

lemma dup_holds: "good_alloc al \<Longrightarrow> sds_inv s \<Longrightarrow> holds (sdsdup al s) (sds_str s)"
  using newlen_holds [of al "sds_len s" "sds_buf s"]
  by (simp add: sdsdup_def sdslen_def sds_str_def sds_inv_def)

lemma makeroom_ok:
  assumes al: "good_alloc al" and inv: "sds_inv s" and r: "sdsMakeRoomFor al s n = Some s'"
  shows "sds_inv s' \<and> sds_str s' = sds_str s \<and> sds_len s' = sds_len s \<and> n \<le> sds_free s'
    \<and> take (sds_len s) (sds_buf s') = sds_str s"
proof (cases "n \<le> sds_free s")
  case True
  with r inv show ?thesis by (auto simp: sdsMakeRoomFor_def sdsavail_def sds_str_def)
next
  case False
  let ?n = "(sds_len s + n) * 2"
  from False r obtain b where b: "realloc al (sds_buf s) (?n + 1) = Some b"
    "s' = s\<lparr>sds_free := ?n - sds_len s, sds_buf := b\<rparr>"
    by (auto simp: sdsMakeRoomFor_def sdsavail_def sdslen_def Let_def split: option.splits)
  have lb: "length b = ?n + 1" using realloc_length [OF al b(1)] .
  have "take (sds_len s + 1) b = take (sds_len s + 1) (sds_buf s)"
    using b(1) False sds_invD(1) [OF inv]
    by (auto simp: realloc_def take_map min_def)
  then have "take (sds_len s) b = sds_str s" "b ! sds_len s = NUL"
    using sds_invD(2) [OF inv]
    by (metis add_diff_cancel_right' le_add1 min_absorb1 sds_str_def take_take)
       (metis Suc_eq_plus1 \<open>take (sds_len s + 1) b = take (sds_len s + 1) (sds_buf s)\<close> inv lessI
          nth_take sds_inv_def)
  then show ?thesis
    using lb b(2) False by (auto simp: sds_inv_def sds_str_def)
qed

lemma catlen_holds:
  assumes al: "good_alloc al" and inv: "sds_inv s" and t: "n \<le> length t"
  shows "holds (sdscatlen al s t n) (sds_str s @ take n t)
    \<and> (sdscatlen al s t n = Inr None \<longleftrightarrow> sdsMakeRoomFor al s n = None)"
proof (cases "sdsMakeRoomFor al s n")
  case None
  then show ?thesis by (simp add: sdscatlen_def Let_def)
next
  case (Some s1)
  note m = makeroom_ok [OF al inv Some]
  have len: "length (sds_str s) = sds_len s" using inv by (rule sds_str_length)
  obtain b1 r where w: "write_at (sds_buf s1) (sds_len s) (take n t) = Inr b1"
    "write_at b1 (sds_len s + n) [NUL] = Inr (sds_str s @ take n t @ NUL # r)"
    "length r = sds_free s1 - n"
    using write_append [of "sds_buf s1" "length (sds_buf s1)" "sds_str s" "take n t"] m len t
      sds_invD(1) [of s1] by (auto simp: min_absorb2)
  have "sds_inv (s1\<lparr>sds_buf := (sds_str s @ take n t) @ NUL # r, sds_len := sds_len s + n,
        sds_free := sds_free s1 - n\<rparr>)
      \<and> sds_str (s1\<lparr>sds_buf := (sds_str s @ take n t) @ NUL # r, sds_len := sds_len s + n,
        sds_free := sds_free s1 - n\<rparr>) = sds_str s @ take n t"
    by (rule sdsI') (use w(3) len t in \<open>auto simp: min_absorb2\<close>)
  with Some w t show ?thesis by (simp add: sdscatlen_def sdslen_def read_from_def Let_def)
qed

lemma cat_holds:
  "good_alloc al \<Longrightarrow> sds_inv s \<Longrightarrow> NUL \<in> set t \<Longrightarrow> holds (sdscat al s t) (sds_str s @ cstr t)"
  using catlen_holds [of al s "length (cstr t)" t]
  by (simp add: sdscat_def strlen_cstr cstr_def length_takeWhile_le takeWhile_eq_take [symmetric])

lemma growzero_holds:
  assumes al: "good_alloc al" and inv: "sds_inv s"
  shows "holds (sdsgrowzero al s n) (sds_str s @ replicate (n - sds_len s) NUL)"
proof (cases "n \<le> sds_len s")
  case True
  with inv show ?thesis by (simp add: sdsgrowzero_def)
next
  case False
  show ?thesis
  proof (cases "sdsMakeRoomFor al s (n - sds_len s)")
    case None
    with False show ?thesis by (simp add: sdsgrowzero_def)
  next
    case (Some s1)
    note m = makeroom_ok [OF al inv Some]
    have len: "length (sds_str s) = sds_len s" using inv by (rule sds_str_length)
    let ?r = "drop (Suc n) (sds_buf s1)"
    have l1: "length (sds_buf s1) = sds_len s + sds_free s1 + 1" using m sds_invD(1) by metis
    have n: "n \<le> sds_len s + sds_free s1" using m False by linarith
    have w: "write_at (sds_buf s1) (sds_len s) (replicate (n - sds_len s + 1) NUL)
        = Inr ((sds_str s @ replicate (n - sds_len s) NUL) @ NUL # ?r)"
      using l1 m False n by (simp add: write_at_def replicate_append_same [symmetric])
    have "sds_inv (s1\<lparr>sds_buf := (sds_str s @ replicate (n - sds_len s) NUL) @ NUL # ?r,
          sds_len := n, sds_free := sds_len s1 + sds_free s1 - n\<rparr>)
        \<and> sds_str (s1\<lparr>sds_buf := (sds_str s @ replicate (n - sds_len s) NUL) @ NUL # ?r,
          sds_len := n, sds_free := sds_len s1 + sds_free s1 - n\<rparr>)
          = sds_str s @ replicate (n - sds_len s) NUL"
      by (rule sdsI') (use len l1 m False n in auto)
    with Some w False show ?thesis by (simp add: sdsgrowzero_def Let_def)
  qed
qed

lemma cpylen_holds:
  assumes al: "good_alloc al" and inv: "sds_inv s" and t: "n \<le> length t"
  shows "holds (sdscpylen al s t n) (take n t)"
proof -
  let ?m = "if sds_free s + sds_len s < n then sdsMakeRoomFor al s (n - sds_len s) else Some s"
  show ?thesis
  proof (cases ?m)
    case None
    then show ?thesis by (simp add: sdscpylen_def Let_def)
  next
    case (Some s1)
    have s1: "sds_inv s1 \<and> n \<le> sds_len s1 + sds_free s1"
    proof (cases "sds_free s + sds_len s < n")
      case True
      with Some makeroom_ok [OF al inv, of "n - sds_len s" s1] show ?thesis by auto
    next
      case False
      with Some inv show ?thesis by auto
    qed
    obtain b1 r where w: "write_at (sds_buf s1) 0 (take n t) = Inr b1"
      "write_at b1 n [NUL] = Inr (take n t @ NUL # r)"
      "length r = sds_len s1 + sds_free s1 - n"
      using write_append [of "sds_buf s1" "length (sds_buf s1)" "[]" "take n t"] s1 t
        sds_invD(1) [of s1] by (auto simp: min_absorb2)
    have "sds_inv (s1\<lparr>sds_buf := take n t @ NUL # r, sds_len := n,
          sds_free := sds_free s1 + sds_len s1 - n\<rparr>)
        \<and> sds_str (s1\<lparr>sds_buf := take n t @ NUL # r, sds_len := n,
          sds_free := sds_free s1 + sds_len s1 - n\<rparr>) = take n t"
      by (rule sdsI') (use w(3) t in \<open>auto simp: min_absorb2\<close>)
    with Some w t show ?thesis by (simp add: sdscpylen_def read_from_def Let_def)
  qed
qed

lemma cpy_holds:
  "good_alloc al \<Longrightarrow> sds_inv s \<Longrightarrow> NUL \<in> set t \<Longrightarrow> holds (sdscpy al s t) (cstr t)"
  using cpylen_holds [of al s "length (cstr t)" t]
  by (simp add: sdscpy_def strlen_cstr cstr_def length_takeWhile_le takeWhile_eq_take [symmetric])

text \<open>The formatting loop ends with the whole text, cut at a NUL byte if the text has one.\<close>

lemma vprintf_buf_out:
  "NUL \<notin> set out \<Longrightarrow> 2 \<le> n \<Longrightarrow> vprintf_buf al out n = Some b \<Longrightarrow> b = out @ [NUL]"
proof (induction al out n rule: vprintf_buf.induct)
  case (1 al out n)
  show ?case
  proof (cases "n - 1 \<le> length out")
    case True
    then have "out ! (n - 2) \<in> set out" using "1.prems"(2) by (intro nth_mem) linarith
    then have "out ! (n - 2) \<noteq> NUL" using "1.prems"(1) by metis
    with True "1.prems" obtain c where "al n = Some c" "vprintf_buf al out (n * 2) = Some b"
      by (subst (asm) vprintf_buf.simps) (auto split: option.splits)
    with 1 True \<open>out ! (n - 2) \<noteq> NUL\<close> show ?thesis by simp
  next
    case False
    with "1.prems" show ?thesis
      by (subst (asm) vprintf_buf.simps) (auto split: option.splits)
  qed
qed

lemma catvprintf_holds:
  assumes "good_alloc al" "sds_inv s" "NUL \<notin> set out"
  shows "holds (sdscatvprintf al s out) (sds_str s @ out)"
proof (cases "vprintf_buf al out 16")
  case None
  then show ?thesis by (simp add: sdscatvprintf_def)
next
  case (Some b)
  from vprintf_buf_out [OF assms(3) _ Some] have "b = out @ [NUL]" by simp
  with cat_holds [OF assms(1,2), of b] Some assms(3) show ?thesis
    by (simp add: sdscatvprintf_def)
qed

subsection \<open>Slices\<close>

text \<open>Keeping \<open>n\<close> bytes from \<open>p\<close> on, moved to the front.\<close>

lemma slice_ok:
  assumes inv: "sds_inv s" and le: "p + n \<le> sds_len s"
  shows "\<exists>b1 r. (if p \<noteq> 0 \<and> n \<noteq> 0
        then bind_res (read_from (drop p (sds_buf s)) n) (write_at (sds_buf s) 0)
        else Inr (sds_buf s)) = Inr b1
      \<and> (if p = 0 then Inr (sds_buf s)
         else bind_res (read_from (drop p (sds_buf s)) n) (write_at (sds_buf s) 0)) = Inr b1
      \<and> write_at b1 n [NUL] = Inr (take n (drop p (sds_str s)) @ NUL # r)
      \<and> length r = sds_free s + (sds_len s - n)"
proof -
  note l = sds_invD(1) [OF inv]
  let ?x = "take n (drop p (sds_buf s))"
  have x: "?x = take n (drop p (sds_str s))"
    using le by (simp add: sds_str_def drop_take min_def)
  have lx: "length ?x = n" using l le by simp
  let ?b1 = "if p \<noteq> 0 \<and> n \<noteq> 0 then ?x @ drop n (sds_buf s) else sds_buf s"
  have rw: "bind_res (read_from (drop p (sds_buf s)) n) (write_at (sds_buf s) 0)
      = Inr (?x @ drop n (sds_buf s))"
    using l le lx by (simp add: read_from_def write_at_def)
  have t: "take n ?b1 = ?x" using lx by auto
  have lb: "length ?b1 = sds_len s + sds_free s + 1" using l lx le by auto
  have "write_at ?b1 n [NUL] = Inr (?x @ NUL # drop (Suc n) ?b1)"
    using lb le t by (simp add: write_at_def del: if_split)
  moreover have "length (drop (Suc n) ?b1) = sds_free s + (sds_len s - n)"
    using lb le by (simp add: length_drop del: if_split)
  ultimately show ?thesis
    unfolding x [symmetric] using rw by (intro exI [of _ ?b1] exI [of _ "drop (Suc n) ?b1"]) auto
qed

text \<open>The slice a pair of inclusive bounds selects, negative ones counting from the end.\<close>

definition range_spec :: "string \<Rightarrow> int \<Rightarrow> int \<Rightarrow> string" where
  "range_spec str start en =
     (let n = int (length str);
          a = (if start < 0 then max 0 (n + start) else start);
          z = min (n - 1) (if en < 0 then max 0 (n + en) else en)
      in take (nat (z - a + 1)) (drop (nat a) str))"

lemma range_ok:
  assumes inv: "sds_inv s"
  shows "\<exists>s'. sdsrange s start en = Inr s' \<and> sds_inv s' \<and> sds_str s' = range_spec (sds_str s) start en
    \<and> sds_len s' + sds_free s' = sds_len s + sds_free s"
proof (cases "sds_len s = 0")
  case True
  then show ?thesis
    using inv by (simp add: sdsrange_def sdslen_def range_spec_def sds_str_def Let_def)
next
  case False
  let ?n = "int (sds_len s)"
  define a where "a = (if start < 0 then max 0 (?n + start) else start)"
  define z0 where "z0 = (if en < 0 then max 0 (?n + en) else en)"
  define z where "z = min (?n - 1) z0"
  define n1 where "n1 = (if z0 < a then 0 else z0 - a + 1)"
  define p where "p = (if n1 \<noteq> 0 then a else 0)"
  define m where "m = nat (z - a + 1)"
  have a0: "0 \<le> a" and z0: "0 \<le> z0" by (auto simp: a_def z0_def)
  have pm: "(if n1 \<noteq> 0 then
        if ?n \<le> a then (a, 0)
        else if ?n \<le> z0 then (a, if ?n - 1 < a then 0 else ?n - 1 - a + 1) else (a, n1)
      else (0, n1)) = (p, int m)"
    using a0 z0 False by (auto simp: p_def m_def z_def n1_def)
  have range: "sdsrange s start en =
      (case (p, int m) of (start, newlen) \<Rightarrow>
         bind_res (if start \<noteq> 0 \<and> newlen \<noteq> 0
                   then bind_res (read_from (drop (nat start) (sds_buf s)) (nat newlen)) (write_at (sds_buf s) 0)
                   else Inr (sds_buf s))
              (\<lambda>b1. bind_res (write_at b1 (nat newlen) [NUL])
              (\<lambda>b2. Inr (s\<lparr>sds_buf := b2, sds_free := sds_free s + (sds_len s - nat newlen),
                        sds_len := nat newlen\<rparr>))))"
    unfolding pm [symmetric] using False
    by (simp add: sdsrange_def sdslen_def Let_def a_def z0_def n1_def)
  let ?q = "if m = 0 then 0 else nat p"
  have le: "?q + m \<le> sds_len s"
    using a0 z0 by (auto simp: p_def m_def z_def n1_def)
  have pz: "(p \<noteq> 0 \<and> int m \<noteq> 0) = (?q \<noteq> 0 \<and> m \<noteq> 0)"
    using a0 by (auto simp: p_def)
  from slice_ok [OF inv le] obtain b1 r where b1:
    "(if ?q \<noteq> 0 \<and> m \<noteq> 0 then bind_res (read_from (drop ?q (sds_buf s)) m) (write_at (sds_buf s) 0)
      else Inr (sds_buf s)) = Inr b1"
    "write_at b1 m [NUL] = Inr (take m (drop ?q (sds_str s)) @ NUL # r)"
    "length r = sds_free s + (sds_len s - m)" by blast
  have c: "(if p \<noteq> 0 \<and> int m \<noteq> 0
      then bind_res (read_from (drop (nat p) (sds_buf s)) m) (write_at (sds_buf s) 0)
      else Inr (sds_buf s)) = Inr b1"
    unfolding pz b1(1) [symmetric] by simp
  let ?s = "s\<lparr>sds_buf := take m (drop ?q (sds_str s)) @ NUL # r,
      sds_free := sds_free s + (sds_len s - m), sds_len := m\<rparr>"
  have "sdsrange s start en = Inr ?s"
    unfolding range prod.case nat_int c by (simp add: b1(2))
  moreover have lm: "length (take m (drop ?q (sds_str s))) = m"
    using le by (simp add: sds_str_length [OF inv])
  then have "sds_inv ?s \<and> sds_str ?s = take m (drop ?q (sds_str s))"
    by (intro sdsI') (use b1(3) in auto)
  moreover have "take m (drop ?q (sds_str s)) = range_spec (sds_str s) start en"
    using a0 by (auto simp: range_spec_def sds_str_length [OF inv] Let_def m_def p_def n1_def
        z_def a_def [symmetric] z0_def [symmetric])
  ultimately show ?thesis using le by auto
qed

text \<open>The only slice the reader takes: everything from a position on.\<close>

lemma range_drop:
  assumes "sds_inv s" "p \<le> sds_len s"
  shows "\<exists>s'. sdsrange s (int p) (-1) = Inr s' \<and> sds_inv s' \<and> sds_str s' = drop p (sds_str s)
    \<and> sds_len s' = sds_len s - p"
proof -
  have "range_spec (sds_str s) (int p) (-1) = drop p (sds_str s)"
    using assms by (auto simp: range_spec_def Let_def sds_str_length nat_diff_distrib)
  with range_ok [OF assms(1), of "int p" "-1"] sds_str_length assms show ?thesis
    by (metis length_drop)
qed

section \<open>Case, comparison, splitting, numbers\<close>

text \<open>\<open>tolower\<close> and \<open>toupper\<close> in the C locale.\<close>

definition c_tolower :: "char \<Rightarrow> char" where
  "c_tolower c = (if 65 \<le> schar c \<and> schar c \<le> 90 then char_of (nat (schar c + 32)) else c)"

definition c_toupper :: "char \<Rightarrow> char" where
  "c_toupper c = (if 97 \<le> schar c \<and> schar c \<le> 122 then char_of (nat (schar c - 32)) else c)"

definition sdstolower :: "sds \<Rightarrow> sds" where
  "sdstolower s = s\<lparr>sds_buf := map c_tolower (take (sds_len s) (sds_buf s)) @ drop (sds_len s) (sds_buf s)\<rparr>"

definition sdstoupper :: "sds \<Rightarrow> sds" where
  "sdstoupper s = s\<lparr>sds_buf := map c_toupper (take (sds_len s) (sds_buf s)) @ drop (sds_len s) (sds_buf s)\<rparr>"

text \<open>\<open>memcmp\<close> compares unsigned bytes; only the sign of its result is defined.\<close>

fun memcmp :: "string \<Rightarrow> string \<Rightarrow> nat \<Rightarrow> int" where
  "memcmp (a # as) (b # bs) (Suc n) =
     (if a = b then memcmp as bs n
      else if (of_char a :: nat) < of_char b then -1 else 1)"
| "memcmp _ _ _ = 0"

definition sdscmp :: "sds \<Rightarrow> sds \<Rightarrow> int" where
  "sdscmp s1 s2 =
     (let l1 = sdslen s1; l2 = sdslen s2;
          minlen = (if l1 < l2 then l1 else l2);
          cmp = memcmp (sds_buf s1) (sds_buf s2) minlen
      in if cmp = 0 then int l1 - int l2 else cmp)"

definition cat_bind :: "'a option res \<Rightarrow> ('a \<Rightarrow> 'b option res) \<Rightarrow> 'b option res" where
  "cat_bind m f = bind_res m (\<lambda>r. case r of None \<Rightarrow> Inr None | Some x \<Rightarrow> f x)"

lemma cat_bind_simps [simp]:
  "cat_bind (Inl e) f = Inl e" "cat_bind (Inr None) f = Inr None" "cat_bind (Inr (Some x)) f = f x"
  by (simp_all add: cat_bind_def)

lemma cat_bind_cong [fundef_cong]:
  "m = m' \<Longrightarrow> (\<And>x. m' = Inr (Some x) \<Longrightarrow> f x = f' x) \<Longrightarrow> cat_bind m f = cat_bind m' f'"
  by (cases m') (auto simp: cat_bind_def split: option.splits)

text \<open>
  \<open>sdssplitlen\<close>: \<open>tok n\<close> says whether an array of \<open>n\<close> token pointers can be allocated. The result
  \<open>Inr None\<close> is NULL. The loop carries \<open>j\<close>, \<open>start\<close>, the number of slots and the tokens so far; a
  token stored behind the last slot is a fault. (The guard \<open>0 < seplen\<close> repeats the early return.)
\<close>

definition store_token :: "nat \<Rightarrow> sds list \<Rightarrow> sds option res \<Rightarrow> sds list option res" where
  "store_token slots tokens r =
     cat_bind r (\<lambda>t. if length tokens < slots then Inr (Some (tokens @ [t])) else Inl OutOfBounds)"

function split_loop ::
  "allocator \<Rightarrow> (nat \<Rightarrow> bool) \<Rightarrow> string \<Rightarrow> nat \<Rightarrow> string \<Rightarrow> nat \<Rightarrow> nat \<Rightarrow> nat \<Rightarrow> nat \<Rightarrow> sds list \<Rightarrow>
     (nat \<times> nat \<times> sds list) option res" where
  "split_loop al tok s len sep seplen j start slots tokens =
     (if int j < int len - (int seplen - 1) \<and> 0 < seplen then
        let slots1 = (if slots < length tokens + 2 then slots * 2 else slots)
        in if slots < length tokens + 2 \<and> \<not> tok slots1 then Inr None
           else bind_res (read_from (drop j s) seplen)
             (\<lambda>x. bind_res (read_from sep seplen)
             (\<lambda>y. if (seplen = 1 \<and> hd x = hd y) \<or> x = y then
                     cat_bind (store_token slots1 tokens (sdsnewlen al (Some (drop start s)) (j - start)))
                       (\<lambda>tokens1. split_loop al tok s len sep seplen (j + seplen) (j + seplen) slots1
                              tokens1)
                   else split_loop al tok s len sep seplen (j + 1) start slots1 tokens))
      else Inr (Some (start, slots, tokens)))"
  by pat_completeness auto
termination
  by (relation "measure (\<lambda>(al, tok, s, len, sep, seplen, j, start, slots, tokens). len - j)") auto

declare split_loop.simps [simp del]

definition sdssplitlen ::
  "allocator \<Rightarrow> (nat \<Rightarrow> bool) \<Rightarrow> string \<Rightarrow> int \<Rightarrow> string \<Rightarrow> int \<Rightarrow> sds list option res" where
  "sdssplitlen al tok s len sep seplen =
     (if seplen < 1 \<or> len < 0 \<or> \<not> tok 5 then Inr None
      else if len = 0 then Inr (Some [])
      else
        cat_bind (split_loop al tok s (nat len) sep (nat seplen) 0 0 5 [])
          (\<lambda>(start, slots, tokens).
             store_token slots tokens (sdsnewlen al (Some (drop start s)) (nat len - start))))"

text \<open>\<open>sdsfromlonglong\<close>: the digits go into a buffer of 32 bytes from its end.\<close>

function digits_loop :: "u64 \<Rightarrow> string \<Rightarrow> string" where
  "digits_loop v acc =
     (let acc1 = char_of (48 + unat (v mod 10)) # acc
      in if v div 10 \<noteq> 0 then digits_loop (v div 10) acc1 else acc1)"
  by pat_completeness auto
termination
proof (relation "measure (\<lambda>(v, acc). unat v)", simp_all)
  fix v :: u64
  assume "v div 10 \<noteq> 0"
  then have "v \<noteq> 0" by auto
  then have "0 < unat v" by (simp add: unat_gt_0)
  then show "unat (v div 10) < unat v" by (simp add: unat_div_distrib)
qed

declare digits_loop.simps [simp del]

definition sdsfromlonglong :: "allocator \<Rightarrow> u64 \<Rightarrow> sds option res" where
  "sdsfromlonglong al value =
     (let v = (if sint value < 0 then - value else value);
          ds = digits_loop v [];
          p = (if sint value < 0 then CHR ''-'' # ds else ds)
      in if 32 < length p then Inl OutOfBounds else sdsnewlen al (Some p) (length p))"

section \<open>Quoting and parsing arguments\<close>

definition isprint :: "char \<Rightarrow> bool" where
  "isprint c \<longleftrightarrow> 32 \<le> schar c \<and> schar c \<le> 126"

definition isspace :: "char \<Rightarrow> bool" where
  "isspace c \<longleftrightarrow> c = CHR '' '' \<or> (9 \<le> schar c \<and> schar c \<le> 13)"

definition hex_digit :: "nat \<Rightarrow> char" where
  "hex_digit n = (if n < 10 then char_of (48 + n) else char_of (87 + n))"

definition hex2 :: "char \<Rightarrow> string" where
  "hex2 c = (let n = of_char c in [hex_digit (n div 16), hex_digit (n mod 16)])"

definition catrepr_char :: "allocator \<Rightarrow> sds \<Rightarrow> char \<Rightarrow> sds option res" where
  "catrepr_char al s c =
     (if c = CHR 0x5C \<or> c = CHR 0x22 then sdscatvprintf al s [CHR 0x5C, c]
      else if c = LF then sdscatlen al s [CHR 0x5C, CHR ''n''] 2
      else if c = CR then sdscatlen al s [CHR 0x5C, CHR ''r''] 2
      else if c = CHR 0x09 then sdscatlen al s [CHR 0x5C, CHR ''t''] 2
      else if c = CHR 0x07 then sdscatlen al s [CHR 0x5C, CHR ''a''] 2
      else if c = CHR 0x08 then sdscatlen al s [CHR 0x5C, CHR ''b''] 2
      else if isprint c then sdscatvprintf al s [c]
      else sdscatvprintf al s ([CHR 0x5C, CHR ''x''] @ hex2 c))"

fun catrepr_loop :: "allocator \<Rightarrow> sds \<Rightarrow> string \<Rightarrow> nat \<Rightarrow> sds option res" where
  "catrepr_loop al s p 0 = Inr (Some s)"
| "catrepr_loop al s [] (Suc n) = Inl OutOfBounds"
| "catrepr_loop al s (c # p) (Suc n) =
     cat_bind (catrepr_char al s c) (\<lambda>s1. catrepr_loop al s1 p n)"

definition sdscatrepr :: "allocator \<Rightarrow> sds \<Rightarrow> string \<Rightarrow> nat \<Rightarrow> sds option res" where
  "sdscatrepr al s p len =
     cat_bind (sdscatlen al s [CHR 0x22] 1)
       (\<lambda>s1. cat_bind (catrepr_loop al s1 p len)
       (\<lambda>s2. sdscatlen al s2 [CHR 0x22] 1))"

text \<open>
  \<open>sdssplitargs\<close>: the line pointer is the rest of the line from it on; \<open>Inr None\<close> is the jump to
  \<open>err\<close>. The inner loop reads one token and returns the rest of the line and the token.
\<close>

definition unescape :: "char \<Rightarrow> char" where
  "unescape c =
     (if c = CHR ''n'' then LF else if c = CHR ''r'' then CR else if c = CHR ''t'' then CHR 0x09
      else if c = CHR ''b'' then CHR 0x08 else if c = CHR ''a'' then CHR 0x07 else c)"

function token_loop :: "allocator \<Rightarrow> string \<Rightarrow> bool \<Rightarrow> sds \<Rightarrow> (string \<times> sds) option res" where
  "token_loop al [] inq current = Inl OutOfBounds"
| "token_loop al (c # p) inq current =
     (if inq then
        if c = CHR 0x5C \<and> p = [] then Inl OutOfBounds
        else if c = CHR 0x5C \<and> hd p \<noteq> NUL then
          cat_bind (sdscatlen al current [unescape (hd p)] 1)
            (\<lambda>s1. token_loop al (tl p) inq s1)
        else if c = CHR 0x22 then
          if p = [] then Inl OutOfBounds
          else if hd p \<noteq> NUL \<and> \<not> isspace (hd p) then Inr None
          else Inr (Some (p, current))
        else if c = NUL then Inr None
        else cat_bind (sdscatlen al current [c] 1) (\<lambda>s1. token_loop al p inq s1)
      else if c = CHR '' '' \<or> c = LF \<or> c = CR \<or> c = CHR 0x09 then Inr (Some (p, current))
      else if c = NUL then Inr (Some (c # p, current))
      else if c = CHR 0x22 then token_loop al p True current
      else cat_bind (sdscatlen al current [c] 1) (\<lambda>s1. token_loop al p inq s1))"
  by pat_completeness auto
termination
  by (relation "measure (\<lambda>(al, p, inq, current). length p)") auto

fun skip_blanks :: "string \<Rightarrow> string" where
  "skip_blanks [] = []"
| "skip_blanks (c # p) = (if c \<noteq> NUL \<and> isspace c then skip_blanks p else c # p)"

lemma skip_blanks_length: "length (skip_blanks p) \<le> length p"
  by (induction p) auto

lemma token_loop_shorter:
  "token_loop al p inq current = Inr (Some (p', t)) \<Longrightarrow> length p' \<le> length p \<and>
     (hd p \<noteq> NUL \<longrightarrow> length p' < length p)"
proof (induction al p inq current rule: token_loop.induct)
  case (2 al c p inq current)
  show ?case
  proof (cases "inq \<and> c = CHR 0x5C \<and> p \<noteq> [] \<and> hd p \<noteq> NUL")
    case True
    with "2.prems" obtain s1 where s1: "sdscatlen al current [unescape (hd p)] 1 = Inr (Some s1)"
      "token_loop al (tl p) inq s1 = Inr (Some (p', t))"
      by (auto simp: cat_bind_def split: option.splits)
    with "2.IH"(1) True have "length p' \<le> length (tl p)" by auto
    moreover have "length (tl p) < length p" using True by (cases p) auto
    ultimately show ?thesis by auto
  next
    case False
    with 2 show ?thesis
      by (auto simp: cat_bind_def split: if_splits option.splits)
  qed
qed simp

lemma next_arg_shorter:
  assumes "skip_blanks line = c # p" "c \<noteq> NUL"
    "token_loop al (c # p) False current = Inr (Some (p', t))"
  shows "length p' < length line"
  using token_loop_shorter [OF assms(3)] skip_blanks_length [of line] assms(1,2) by simp

text \<open>
  The outer loop. \<open>vec n\<close> says whether the vector can be grown to \<open>n\<close> pointers. Success is the list
  of arguments (for no argument at all the C code returns a NULL vector and \<open>*argc = 0\<close>); \<open>Inr None\<close>
  is the exit at \<open>err\<close>, which frees the arguments, returns NULL and leaves \<open>*argc\<close> at -1.
\<close>

function splitargs_loop ::
  "allocator \<Rightarrow> (nat \<Rightarrow> bool) \<Rightarrow> string \<Rightarrow> sds list \<Rightarrow> sds list option res" where
  "splitargs_loop al vec line vector =
     (case skip_blanks line of
        [] \<Rightarrow> Inl OutOfBounds
      | c # p \<Rightarrow>
          if c = NUL then Inr (Some vector)
          else cat_bind (sdsempty al)
            (\<lambda>current. cat_bind (token_loop al (c # p) False current)
            (\<lambda>tk. if vec (length vector + 1)
                 then splitargs_loop al vec (fst tk) (vector @ [snd tk]) else Inr None)))"
  by pat_completeness auto
termination
  by (relation "measure (\<lambda>(al, vec, line, vector). length line)") (auto dest: next_arg_shorter)

declare splitargs_loop.simps [simp del]

definition sdssplitargs :: "allocator \<Rightarrow> (nat \<Rightarrow> bool) \<Rightarrow> string \<Rightarrow> sds list option res" where
  "sdssplitargs al vec line = splitargs_loop al vec line []"

section \<open>What the second half computes\<close>

text \<open>Trimming removes the characters of the set, and NUL bytes, at both ends.\<close>

definition strip :: "string \<Rightarrow> string \<Rightarrow> string" where
  "strip cset str =
     rev (dropWhile (strchr_in cset) (rev (dropWhile (strchr_in cset) str)))"

lemma trim_start_eq:
  "trim_start b cset (int k) (int n - 1)
     = int k + int (length (takeWhile (strchr_in cset) (drop k (take n b))))"
  if "n \<le> length b"
proof (induction "n - k" arbitrary: k)
  case 0
  then show ?case by (subst trim_start.simps) auto
next
  case (Suc m)
  then have kn: "k < n" by simp
  have d: "drop k (take n b) = b ! k # drop (Suc k) (take n b)"
    using kn that by (simp add: Cons_nth_drop_Suc [symmetric])
  have IH: "trim_start b cset (int (Suc k)) (int n - 1)
     = int (Suc k) + int (length (takeWhile (strchr_in cset) (drop (Suc k) (take n b))))"
    using Suc by (intro Suc.hyps(1)) simp
  show ?case
    using kn IH by (subst trim_start.simps) (simp add: d ac_simps)
qed

lemma trim_end_eq:
  "n < length b \<Longrightarrow> trim_end b cset (int n)
     = max 0 (int n - int (length (takeWhile (strchr_in cset) (rev (take (Suc n) b)))))"
proof (induction n)
  case 0
  then show ?case by (subst trim_end.simps) auto
next
  case (Suc n)
  then have IH: "trim_end b cset (int n)
     = max 0 (int n - int (length (takeWhile (strchr_in cset) (rev (take (Suc n) b)))))" by simp
  have t: "rev (take (Suc (Suc n)) b) = b ! Suc n # rev (take (Suc n) b)"
    using Suc.prems by (simp add: take_Suc_conv_app_nth)
  show ?case
    using IH by (subst trim_end.simps) (simp add: t nat_add_distrib)
qed

lemma strip_all: "\<forall>c \<in> set str. strchr_in cset c \<Longrightarrow> strip cset str = []"
  by (simp add: strip_def dropWhile_eq_Nil_conv [THEN iffD2])

lemma strip_some:
  assumes "\<exists>c \<in> set str. \<not> strchr_in cset c"
  defines "i \<equiv> length (takeWhile (strchr_in cset) str)"
    and "j \<equiv> length (takeWhile (strchr_in cset) (rev str))"
  shows "i + j < length str \<and> strip cset str = take (length str - i - j) (drop i str)"
proof -
  let ?P = "strchr_in cset"
  let ?d = "dropWhile ?P str"
  have d: "?d = drop i str" by (simp add: i_def dropWhile_eq_drop)
  have str: "str = takeWhile ?P str @ ?d" by simp
  have ne: "\<exists>c \<in> set ?d. \<not> ?P c"
    using assms(1) by (metis UnE set_append set_takeWhileD str)
  have "takeWhile ?P (rev str) = takeWhile ?P (rev ?d @ rev (takeWhile ?P str))"
    by (metis rev_append str)
  also have "\<dots> = takeWhile ?P (rev ?d)"
    using ne by (auto intro!: takeWhile_append1)
  finally have j: "j = length (takeWhile ?P (rev ?d))" by (simp add: j_def)
  have "j \<noteq> length (rev ?d)"
    using ne unfolding j by (metis set_rev set_takeWhileD takeWhile_eq_take take_all_iff order_refl)
  then have jl: "j < length ?d" 
    using length_takeWhile_le [of ?P "rev ?d"] j by simp
  have "strip cset str = take (length ?d - j) ?d"
    by (simp add: strip_def dropWhile_eq_drop [of _ "rev ?d"] j [symmetric] rev_drop)
  with jl show ?thesis by (auto simp: d)
qed

lemma trim_ok:
  assumes inv: "sds_inv s"
  shows "\<exists>s'. sdstrim s cset = Inr s' \<and> sds_inv s' \<and> sds_str s' = strip cset (sds_str s)"
proof -
  let ?b = "sds_buf s" and ?n = "sds_len s" and ?str = "sds_str s" and ?P = "strchr_in cset"
  note l = sds_invD(1) [OF inv]
  define sp where "sp = length (takeWhile ?P ?str)"
  define j where "j = length (takeWhile ?P (rev ?str))"
  define ep where "ep = trim_end ?b cset (int ?n - 1)"
  have sp: "trim_start ?b cset 0 (int ?n - 1) = int sp"
    using trim_start_eq [of ?n ?b cset 0] l by (simp add: sp_def sds_str_def)
  have lstr: "length ?str = ?n" using inv by (rule sds_str_length)
  define len where "len = (if ep < int sp then 0 else nat (ep - int sp + 1))"
  have "sp + len \<le> ?n \<and> take len (drop sp ?str) = strip cset ?str"
  proof (cases "\<exists>c \<in> set ?str. \<not> ?P c")
    case True
    note ss = strip_some [OF True, folded sp_def j_def]
    have n0: "0 < ?n" using ss lstr by simp
    have ep: "ep = max 0 (int ?n - 1 - int j)"
      using trim_end_eq [of "?n - 1" ?b cset] l n0
      by (simp add: ep_def j_def sds_str_def of_nat_diff)
    have "len = ?n - sp - j" using ep ss lstr by (auto simp: len_def)
    with ss lstr show ?thesis by auto
  next
    case False
    have "takeWhile ?P ?str = ?str" using False by (intro takeWhile_eq_all_conv [THEN iffD2]) auto
    then have spn: "sp = ?n" using lstr by (metis sp_def)
    have "ep < int ?n"
    proof (cases ?n)
      case 0
      then show ?thesis by (simp add: ep_def trim_end.simps)
    next
      case (Suc m)
      then show ?thesis
        using trim_end_eq [of m ?b cset] l by (simp add: ep_def spn)
    qed
    then have "len = 0" by (auto simp: len_def spn)
    with False spn show ?thesis by (simp add: strip_all)
  qed
  then have le: "sp + len \<le> ?n" and sl: "take len (drop sp ?str) = strip cset ?str" by auto
  obtain b1 r where b1:
    "(if sp = 0 then Inr ?b else bind_res (read_from (drop sp ?b) len) (write_at ?b 0)) = Inr b1"
    "write_at b1 len [NUL] = Inr (strip cset ?str @ NUL # r)"
    "length r = sds_free s + (?n - len)"
    using slice_ok [OF inv le] unfolding sl by blast
  have sp0: "(int sp = 0) = (sp = 0)" by simp
  let ?s = "s\<lparr>sds_buf := strip cset ?str @ NUL # r, sds_free := sds_free s + (?n - len), sds_len := len\<rparr>"
  have "sdstrim s cset = Inr ?s"
    unfolding sdstrim_def sdslen_def Let_def sp ep_def [symmetric] len_def [symmetric] sp0 nat_int b1(1)
    by (simp add: b1(2))
  moreover have "sds_inv ?s \<and> sds_str ?s = strip cset ?str"
    by (intro sdsI') (use b1(3) le lstr in \<open>auto simp: sl [symmetric]\<close>)
  ultimately show ?thesis by blast
qed

subsection \<open>Comparison\<close>

definition byte_less :: "(char \<times> char) set" where
  "byte_less = {(a, b). (of_char a :: nat) < of_char b}"

lemma memcmp_append:
  defines "r x y u v \<equiv> memcmp (x @ u) (y @ v) (min (length x) (length y))"
  shows "(r x y u v < 0 \<or> r x y u v = 0 \<and> length x < length y) = ((x, y) \<in> lexord byte_less)
    \<and> (r x y u v = 0 \<and> length x = length y) = (x = y)"
  unfolding r_def
proof (induction x y rule: list_induct2')
  case (4 a x b y)
  have "a = b \<or> (of_char a :: nat) < of_char b \<or> (of_char b :: nat) < of_char a"
    using linorder_neq_iff of_char_eq_iff by metis
  with 4 show ?case by (auto simp: byte_less_def)
qed auto

lemma sdscmp_sign:
  assumes "sds_inv s" "sds_inv t"
  shows "(sdscmp s t < 0) = ((sds_str s, sds_str t) \<in> lexord byte_less)
    \<and> (sdscmp s t = 0) = (sds_str s = sds_str t)"
proof -
  have m: "min (sds_len s) (sds_len t) = (if sds_len s < sds_len t then sds_len s else sds_len t)"
    by auto
  show ?thesis
    using memcmp_append [of "sds_str s" "NUL # drop (Suc (sds_len s)) (sds_buf s)"
        "sds_str t" "NUL # drop (Suc (sds_len t)) (sds_buf t)"] assms
    unfolding sds_buf_split [OF assms(1), symmetric] sds_buf_split [OF assms(2), symmetric]
    by (auto simp: sdscmp_def sdslen_def sds_str_length Let_def m split: if_splits)
qed

subsection \<open>Splitting\<close>

lemma length_1_hd: "length x = 1 \<Longrightarrow> length y = 1 \<Longrightarrow> hd x = hd y \<Longrightarrow> x = y"
  by (cases x; cases y) auto

definition no_match :: "string \<Rightarrow> string \<Rightarrow> nat \<Rightarrow> nat \<Rightarrow> bool" where
  "no_match s sep a b \<longleftrightarrow> (\<forall>p. a \<le> p \<and> p < b \<longrightarrow> take (length sep) (drop p s) \<noteq> sep)"

lemma no_match_sublist:
  assumes n: "no_match s sep a c" and c: "b + 1 \<le> c + length sep" and le: "b \<le> length s"
    and ne: "sep \<noteq> []"
  shows "\<not> sublist sep (take (b - a) (drop a s))"
proof
  assume "sublist sep (take (b - a) (drop a s))"
  then obtain p q where e: "take (b - a) (drop a s) = p @ sep @ q" by (auto simp: sublist_def)
  have l: "length p + length sep \<le> b - a" using arg_cong [OF e, of length] by simp
  have l2: "length sep \<le> b - (a + length p)" using l by linarith
  have "take (length sep) (drop (length p) (take (b - a) (drop a s))) = sep" by (simp add: e)
  then have "take (length sep) (drop (a + length p) s) = sep"
    using l2 by (simp add: drop_take min_absorb1 min_absorb2 ac_simps)
  moreover have "a + length p < c" using l c ne by (cases sep) auto
  ultimately show False using n by (auto simp: no_match_def)
qed

definition tokens_ok :: "string \<Rightarrow> sds list \<Rightarrow> bool" where
  "tokens_ok sep ts \<longleftrightarrow> (\<forall>t \<in> set ts. sds_inv t \<and> \<not> sublist sep (sds_str t))"

definition joined :: "string \<Rightarrow> sds list \<Rightarrow> string" where
  "joined sep ts = concat (map (\<lambda>t. sds_str t @ sep) ts)"

definition loop_result :: "string \<Rightarrow> nat \<Rightarrow> string \<Rightarrow> nat \<times> nat \<times> sds list \<Rightarrow> bool" where
  "loop_result s len sep = (\<lambda>(start, slots, ts).
     start \<le> len \<and> length ts < slots \<and> joined sep ts = take start s \<and> tokens_ok sep ts \<and>
     no_match s sep start (len + 1 - length sep))"

lemma store_token_holds:
  assumes "holds r x" "length ts < slots" "\<not> sublist sep x" "tokens_ok sep ts"
  shows "store_token slots ts r = Inr None \<or>
    (\<exists>t. store_token slots ts r = Inr (Some (ts @ [t])) \<and> sds_str t = x \<and> tokens_ok sep (ts @ [t]))"
  using assms by (cases "(r, x)" rule: holds.cases) (auto simp: store_token_def tokens_ok_def)

lemma split_loop_ok:
  assumes al: "good_alloc al" and len: "len \<le> length s" and ne: "sep \<noteq> []"
  shows "start \<le> j \<Longrightarrow> j \<le> len \<Longrightarrow> length ts < slots \<Longrightarrow> joined sep ts = take start s
    \<Longrightarrow> tokens_ok sep ts \<Longrightarrow> no_match s sep start j
    \<Longrightarrow> case split_loop al tok s len sep (length sep) j start slots ts of
          Inl f \<Rightarrow> False | Inr None \<Rightarrow> True | Inr (Some r) \<Rightarrow> loop_result s len sep r"
proof (induction "len - j" arbitrary: j start slots ts rule: less_induct)
  case less
  let ?k = "length sep"
  show ?case
  proof (cases "j + ?k \<le> len")
    case False
    then have "no_match s sep start (len + 1 - ?k)" using less.prems by (auto simp: no_match_def)
    with False less.prems show ?thesis
      by (subst split_loop.simps) (auto simp: loop_result_def)
  next
    case True
    then have g: "int j < int len - (int ?k - 1)" and k: "0 < ?k" using ne by auto
    define slots1 where "slots1 = (if slots < length ts + 2 then slots * 2 else slots)"
    have s1: "length ts + 1 < slots1" using less.prems(3) by (auto simp: slots1_def)
    let ?x = "take ?k (drop j s)"
    have rd: "read_from (drop j s) ?k = Inr ?x" "read_from sep ?k = Inr sep"
      using True len by (simp_all add: read_from_def)
    have lx: "length ?x = ?k" using True len by simp
    have t: "((?k = 1 \<and> hd ?x = hd sep) \<or> ?x = sep) = (?x = sep)"
      using lx by (auto simp: length_1_hd)
    have step: "split_loop al tok s len sep ?k j start slots ts =
      (if slots < length ts + 2 \<and> \<not> tok slots1 then Inr None
       else if ?x = sep then
          cat_bind (store_token slots1 ts (sdsnewlen al (Some (drop start s)) (j - start)))
            (\<lambda>ts1. split_loop al tok s len sep ?k (j + ?k) (j + ?k) slots1 ts1)
       else split_loop al tok s len sep ?k (j + 1) start slots1 ts)"
      unfolding split_loop.simps [of al tok s len sep ?k j start slots ts] Let_def
        slots1_def [symmetric] rd bind_res.simps t
      using g k by simp
    show ?thesis
    proof (cases "?x = sep")
      case False
      have m: "len - (j + 1) < len - j" "j + 1 \<le> len" using True k by linarith+
      have "no_match s sep start (j + 1)"
        using less.prems(6) False by (auto simp: no_match_def less_Suc_eq)
      with less.prems True s1 k False show ?thesis
        unfolding step using less.hyps [OF m(1) _ m(2), of start ts slots1]
        by (auto split: sum.splits option.splits)
    next
      case x: True
      have nl: "holds (sdsnewlen al (Some (drop start s)) (j - start)) (take (j - start) (drop start s))"
        using newlen_holds [OF al, of "j - start" "drop start s"] True len by simp
      have ns: "\<not> sublist sep (take (j - start) (drop start s))"
        using no_match_sublist [OF less.prems(6), of j] k True len ne by simp
      consider "store_token slots1 ts (sdsnewlen al (Some (drop start s)) (j - start)) = Inr None"
        | u where "store_token slots1 ts (sdsnewlen al (Some (drop start s)) (j - start))
              = Inr (Some (ts @ [u]))"
            "sds_str u = take (j - start) (drop start s)" "tokens_ok sep (ts @ [u])"
        using store_token_holds [OF nl _ ns less.prems(5), of slots1] s1 by auto
      then show ?thesis
      proof cases
        case 1
        then show ?thesis unfolding step by (auto simp: x)
      next
        case 2
        have "joined sep (ts @ [u]) = take (j + ?k) s"
        proof -
          have "joined sep (ts @ [u]) = take start s @ take (j - start) (drop start s) @ ?x"
            using less.prems(4) 2(2) by (simp add: joined_def x)
          also have "\<dots> = take (j + ?k) s"
            using less.prems(1) by (simp flip: append_assoc take_add)
          finally show ?thesis .
        qed
        moreover have "len - (j + ?k) < len - j" using True k by linarith
        moreover have "no_match s sep (j + ?k) (j + ?k)" by (auto simp: no_match_def)
        ultimately show ?thesis
          unfolding step using less.hyps [of "j + ?k" "j + ?k" "ts @ [u]" slots1] True s1 2
          by (auto simp: x split: sum.splits option.splits)
      qed
    qed
  qed
qed

fun join :: "string \<Rightarrow> string list \<Rightarrow> string" where
  "join sep [] = []"
| "join sep [x] = x"
| "join sep (x # xs) = x @ sep @ join sep xs"

lemma join_snoc: "join sep (xs @ [y]) = concat (map (\<lambda>x. x @ sep) xs) @ y"
  by (induction sep xs rule: join.induct) auto

lemma split_ok:
  assumes al: "good_alloc al" and len: "len \<le> length s" and ne: "sep \<noteq> []"
  shows "case sdssplitlen al tok s (int len) sep (int (length sep)) of
      Inl f \<Rightarrow> False | Inr None \<Rightarrow> True
    | Inr (Some ts) \<Rightarrow> join sep (map sds_str ts) = take len s \<and> tokens_ok sep ts"
proof (cases "len = 0 \<or> \<not> tok 5")
  case True
  with ne show ?thesis by (cases sep) (auto simp: sdssplitlen_def tokens_ok_def)
next
  case False
  let ?l = "split_loop al tok s len sep (length sep) 0 0 5 []"
  have d: "sdssplitlen al tok s (int len) sep (int (length sep)) =
      cat_bind ?l (\<lambda>(start, slots, tokens).
             store_token slots tokens (sdsnewlen al (Some (drop start s)) (len - start)))"
    using False ne by (auto simp: sdssplitlen_def Suc_le_eq)
  have r: "case ?l of Inl f \<Rightarrow> False | Inr None \<Rightarrow> True | Inr (Some r) \<Rightarrow> loop_result s len sep r"
    using split_loop_ok [OF al len ne, of 0 0 "[]" 5 tok]
    by (simp add: joined_def tokens_ok_def no_match_def)
  consider "?l = Inr None" | start slots ts where "?l = Inr (Some (start, slots, ts))"
      "loop_result s len sep (start, slots, ts)"
    using r by (auto split: sum.splits option.splits)
  then show ?thesis
  proof cases
    case 1
    then show ?thesis by (simp add: d)
  next
    case 2
    let ?x = "take (len - start) (drop start s)"
    have l: "start \<le> len" "length ts < slots" "joined sep ts = take start s" "tokens_ok sep ts"
      "no_match s sep start (len + 1 - length sep)"
      using 2(2) by (auto simp: loop_result_def)
    have nl: "holds (sdsnewlen al (Some (drop start s)) (len - start)) ?x"
      using newlen_holds [OF al, of "len - start" "drop start s"] len by simp
    have ns: "\<not> sublist sep ?x"
      using no_match_sublist [OF l(5), of len] len ne by simp
    have j: "joined sep ts @ ?x = take len s" using l(1,3) by (simp flip: take_add)
    from store_token_holds [OF nl l(2) ns l(4)] show ?thesis
      unfolding d 2(1) using j by (auto simp: join_snoc joined_def comp_def)
  qed
qed

subsection \<open>Numbers\<close>

lemma digits_loop_dec: "digits_loop v acc = dec (unat v) @ acc"
proof (induction v acc rule: digits_loop.induct)
  case (1 v acc)
  have d: "unat (v div 10) = unat v div 10" "unat (v mod 10) = unat v mod 10"
    by (simp_all add: unat_div_distrib unat_mod_distrib)
  have c: "char_of (48 + d) = digit_char d" for d :: nat
    by (simp add: digit_char_def)
  have z: "v div 10 = 0 \<longleftrightarrow> unat v < 10"
    using d(1) by (metis div_eq_0_iff unat_eq_zero zero_neq_numeral)
  show ?case
  proof (cases "v div 10 = 0")
    case True
    then have "unat v < 10" using z by simp
    then show ?thesis
      using True by (subst digits_loop.simps, subst dec.simps) (simp add: d c Let_def)
  next
    case False
    then have "\<not> unat v < 10" using z by simp
    then show ?thesis
      using False 1 [OF refl] by (subst digits_loop.simps, subst dec.simps) (simp add: d c Let_def)
  qed
qed

lemma dec_length: "n < 10 ^ k \<Longrightarrow> 0 < k \<Longrightarrow> length (dec n) \<le> k"
proof (induction n arbitrary: k rule: dec.induct)
  case (1 n)
  show ?case
  proof (cases "n < 10")
    case True
    with 1 show ?thesis by (subst dec.simps) simp
  next
    case False
    with "1.prems" obtain m where k: "k = Suc m" "0 < m" by (cases k; cases "k - 1") auto
    with 1 False have "length (dec (n div 10)) \<le> m" by (intro "1.IH") auto
    then show ?thesis using False k by (subst dec.simps) simp
  qed
qed

lemma sint_neg_unat:
  fixes v :: u64
  assumes "sint v < 0"
  shows "int (unat (- v)) = - sint v"
proof -
  have "int (unat (- v)) = uint (- v)" by simp
  also have "\<dots> = (- uint v) mod 2 ^ 64" by (simp add: uint_word_ariths)
  also have "\<dots> = (- (sint v mod 2 ^ 64)) mod 2 ^ 64" by (simp add: uint_sint take_bit_eq_mod)
  also have "\<dots> = (- sint v) mod 2 ^ 64" by (rule mod_minus_eq)
  also have "\<dots> = - sint v"
    using assms sint_greater_eq [of v] by (intro mod_pos_pos_trivial) auto
  finally show ?thesis .
qed

lemma sint_pos_unat:
  fixes v :: u64
  assumes "0 \<le> sint v"
  shows "int (unat v) = sint v"
proof -
  have "int (unat v) = sint v mod 2 ^ 64" by (simp add: uint_sint take_bit_eq_mod)
  also have "\<dots> = sint v"
    using assms sint_lt [of v] by (intro mod_pos_pos_trivial) auto
  finally show ?thesis .
qed

lemma fromlonglong_holds:
  assumes al: "good_alloc al"
  shows "holds (sdsfromlonglong al v) (dec_int (sint v))"
proof -
  have len: "length (dec (unat w)) \<le> 20" for w :: u64
    using dec_length [of "unat w" 20] unsigned_less [of w, where 'a = nat] by simp
  have "holds (sdsnewlen al (Some (dec_int (sint v))) (length (dec_int (sint v)))) (dec_int (sint v))"
    using newlen_holds [OF al, of "length (dec_int (sint v))" "dec_int (sint v)"] by simp
  moreover have "sdsfromlonglong al v = sdsnewlen al (Some (dec_int (sint v))) (length (dec_int (sint v)))"
  proof (cases "sint v < 0")
    case True
    then have "dec (unat (- v)) = dec (nat (- sint v))"
      using sint_neg_unat by (metis nat_int)
    with True len [of "- v"] show ?thesis
      by (auto simp: sdsfromlonglong_def digits_loop_dec dec_int_def Let_def)
  next
    case False
    then have "dec (unat v) = dec (nat (sint v))"
      using sint_pos_unat by (metis nat_int not_less)
    with False len [of v] show ?thesis
      by (auto simp: sdsfromlonglong_def digits_loop_dec dec_int_def Let_def)
  qed
  ultimately show ?thesis by simp
qed

subsection \<open>Quoting\<close>

definition repr1 :: "char \<Rightarrow> string" where
  "repr1 c =
     (if c = CHR 0x5C \<or> c = CHR 0x22 then [CHR 0x5C, c]
      else if c = LF then [CHR 0x5C, CHR ''n'']
      else if c = CR then [CHR 0x5C, CHR ''r'']
      else if c = CHR 0x09 then [CHR 0x5C, CHR ''t'']
      else if c = CHR 0x07 then [CHR 0x5C, CHR ''a'']
      else if c = CHR 0x08 then [CHR 0x5C, CHR ''b'']
      else if isprint c then [c]
      else [CHR 0x5C, CHR ''x''] @ hex2 c)"

definition repr :: "string \<Rightarrow> string" where
  "repr p = [CHR 0x22] @ concat (map repr1 p) @ [CHR 0x22]"

lemma hex_digit_NUL: "n < 16 \<Longrightarrow> hex_digit n \<noteq> NUL"
proof -
  assume n: "n < 16"
  have "(of_char (hex_digit n) :: nat) \<noteq> 0" using n by (auto simp: hex_digit_def)
  then show ?thesis by auto
qed

lemma hex2_NUL: "NUL \<notin> set (hex2 c)"
proof -
  have "(of_char c :: nat) < 256" by simp
  then have "(of_char c :: nat) div 16 < 16" by linarith
  then show ?thesis using hex_digit_NUL [symmetric]
    by (simp add: hex2_def Let_def hex_digit_NUL [symmetric, THEN not_sym])
qed

lemma catlen2_holds:
  "good_alloc al \<Longrightarrow> sds_inv s \<Longrightarrow> holds (sdscatlen al s [a, b] 2) (sds_str s @ [a, b])"
  using catlen_holds [of al s 2 "[a, b]"] by simp

lemma catlen1_holds:
  "good_alloc al \<Longrightarrow> sds_inv s \<Longrightarrow> holds (sdscatlen al s [a] 1) (sds_str s @ [a])"
  using catlen_holds [of al s 1 "[a]"] by simp

lemma repr1_holds:
  assumes "good_alloc al" "sds_inv s"
  shows "holds (catrepr_char al s c) (sds_str s @ repr1 c)"
proof -
  note two = catlen2_holds [OF assms] and f = catvprintf_holds [OF assms]
  consider "c = CHR 0x5C" | "c = CHR 0x22" | "c = LF" | "c = CR" | "c = CHR 0x09" | "c = CHR 0x07"
    | "c = CHR 0x08"
    | "c \<notin> {CHR 0x5C, CHR 0x22, LF, CR, CHR 0x09, CHR 0x07, CHR 0x08}" "isprint c"
    | "c \<notin> {CHR 0x5C, CHR 0x22, LF, CR, CHR 0x09, CHR 0x07, CHR 0x08}" "\<not> isprint c"
    by blast
  then show ?thesis
  proof cases
    case 8
    then have "NUL \<notin> set [c]" by (auto simp: isprint_def schar_def)
    from f [OF this] 8 show ?thesis by (simp add: catrepr_char_def repr1_def)
  next
    case 9
    have "NUL \<notin> set ([CHR 0x5C, CHR ''x''] @ hex2 c)" using hex2_NUL by simp
    from f [OF this] 9 show ?thesis by (simp add: catrepr_char_def repr1_def)
  qed (simp_all add: catrepr_char_def repr1_def two f)
qed

lemma holds_cat_bind:
  assumes "holds m x"
    and "\<And>s. m = Inr (Some s) \<Longrightarrow> sds_inv s \<Longrightarrow> sds_str s = x \<Longrightarrow> holds (f s) y"
  shows "holds (cat_bind m f) y"
  using assms by (cases "(m, x)" rule: holds.cases) auto

lemma repr_loop_holds:
  "good_alloc al \<Longrightarrow> sds_inv s \<Longrightarrow> n \<le> length p \<Longrightarrow>
    holds (catrepr_loop al s p n) (sds_str s @ concat (map repr1 (take n p)))"
proof (induction al s p n rule: catrepr_loop.induct)
  case (3 al s c p n)
  show ?case
    unfolding catrepr_loop.simps
    by (rule holds_cat_bind [OF repr1_holds]) (use 3 in auto)
qed auto

lemma catrepr_holds:
  assumes "good_alloc al" "sds_inv s" "n \<le> length p"
  shows "holds (sdscatrepr al s p n) (sds_str s @ repr (take n p))"
  unfolding sdscatrepr_def
proof (rule holds_cat_bind [OF catlen1_holds [OF assms(1,2)]], rule holds_cat_bind)
  fix s1 assume s1: "sds_inv s1" "sds_str s1 = sds_str s @ [CHR 0x22]"
  show "holds (catrepr_loop al s1 p n) (sds_str s @ [CHR 0x22] @ concat (map repr1 (take n p)))"
    using repr_loop_holds [OF assms(1) s1(1) assms(3)] s1(2) by simp
next
  fix s2 assume "sds_inv s2" "sds_str s2 = sds_str s @ [CHR 0x22] @ concat (map repr1 (take n p))"
  with catlen1_holds [OF assms(1), of s2 "CHR 0x22"]
  show "holds (sdscatlen al s2 [CHR 0x22] 1) (sds_str s @ repr (take n p))"
    by (simp add: repr_def)
qed

text \<open>Reading a quoted argument back.\<close>

definition repr_safe :: "char \<Rightarrow> bool" where
  "repr_safe c \<longleftrightarrow> isprint c \<or> c \<in> {LF, CR, CHR 0x09, CHR 0x07, CHR 0x08}"

lemma not_safe_NUL: "\<not> repr_safe NUL"
  by (simp add: repr_safe_def isprint_def schar_def)

definition token_result :: "(string \<times> sds) option res \<Rightarrow> string \<Rightarrow> string \<Rightarrow> bool" where
  "token_result r rest str \<longleftrightarrow> r = Inr None \<or>
     (\<exists>t. r = Inr (Some (rest, t)) \<and> sds_inv t \<and> sds_str t = str)"

lemma token_cat:
  assumes "good_alloc al" "sds_inv s"
    and "\<And>s1. sds_inv s1 \<Longrightarrow> sds_str s1 = sds_str s @ [a] \<Longrightarrow> token_result (f s1) rest str"
  shows "token_result (cat_bind (sdscatlen al s [a] 1) f) rest str"
proof -
  note h = catlen1_holds [OF assms(1,2), of a]
  then show ?thesis
  proof (cases "sdscatlen al s [a] 1")
    case (Inr r)
    with h assms(3) show ?thesis by (cases r) (auto simp: token_result_def)
  qed auto
qed

lemma token_loop_repr1:
  assumes "repr_safe c"
  shows "token_loop al (repr1 c @ r) True s = cat_bind (sdscatlen al s [c] 1) (token_loop al r True)"
proof -
  from assms consider "c = CHR 0x5C" | "c = CHR 0x22" | "c = LF" | "c = CR" | "c = CHR 0x09"
    | "c = CHR 0x07" | "c = CHR 0x08"
    | "c \<notin> {CHR 0x5C, CHR 0x22, LF, CR, CHR 0x09, CHR 0x07, CHR 0x08, NUL}" "isprint c"
    using not_safe_NUL by (auto simp: repr_safe_def)
  then show ?thesis
    by cases (simp_all add: repr1_def unescape_def)
qed

lemma token_loop_quoted:
  "good_alloc al \<Longrightarrow> sds_inv s \<Longrightarrow> \<forall>c \<in> set p. repr_safe c \<Longrightarrow>
    token_result (token_loop al (concat (map repr1 p) @ [CHR 0x22, NUL]) True s) [NUL] (sds_str s @ p)"
proof (induction p arbitrary: s)
  case Nil
  then show ?case by (simp add: token_result_def)
next
  case (Cons c p)
  have "token_result (cat_bind (sdscatlen al s [c] 1)
      (token_loop al (concat (map repr1 p) @ [CHR 0x22, NUL]) True)) [NUL] (sds_str s @ c # p)"
    by (rule token_cat [OF Cons.prems(1,2)]) (use Cons in force)
  with Cons.prems(3) show ?case by (simp add: token_loop_repr1)
qed

lemma splitargs_repr:
  assumes al: "good_alloc al" and p: "\<forall>c \<in> set p. repr_safe c"
  shows "sdssplitargs al vec (repr p @ [NUL]) = Inr None \<or>
    (\<exists>t. sdssplitargs al vec (repr p @ [NUL]) = Inr (Some [t]) \<and> sds_inv t \<and> sds_str t = p)"
proof -
  let ?q = "concat (map repr1 p) @ [CHR 0x22, NUL]"
  have line: "repr p @ [NUL] = CHR 0x22 # ?q" by (simp add: repr_def)
  have sp: "\<not> isspace CHR 0x22" by (simp add: isspace_def schar_def)
  have skip: "skip_blanks (CHR 0x22 # ?q) = CHR 0x22 # ?q" "skip_blanks [NUL] = [NUL]"
    by (simp_all add: isspace_def schar_def)
  consider "sdsempty al = Inr None" | s where "sdsempty al = Inr (Some s)" "sds_inv s" "sds_str s = []"
    using empty_holds [OF al] by (cases "sdsempty al") (auto elim: holds.elims)
  then show ?thesis
  proof cases
    case 1
    then show ?thesis
      unfolding sdssplitargs_def line by (subst splitargs_loop.simps) (simp add: sp)
  next
    case 2
    have tl: "token_loop al (CHR 0x22 # ?q) False s = token_loop al ?q True s" by simp
    have "token_result (token_loop al ?q True s) [NUL] p"
      using token_loop_quoted [OF al 2(2) p] 2(3) by simp
    moreover have "sdssplitargs al vec (repr p @ [NUL]) =
        cat_bind (token_loop al ?q True s)
          (\<lambda>tk. if vec 1 then splitargs_loop al vec (fst tk) [snd tk] else Inr None)"
      unfolding sdssplitargs_def line
      by (subst splitargs_loop.simps) (simp add: sp skip 2(1) tl del: token_loop.simps cong: if_cong)
    moreover have "splitargs_loop al vec [NUL] [t] = Inr (Some [t])" for t
      by (subst splitargs_loop.simps) (simp add: skip)
    ultimately show ?thesis by (fastforce simp: token_result_def)
  qed
qed

subsection \<open>Case and length updates\<close>

lemma case_map_ok:
  assumes "sds_inv s"
  shows "sds_inv (sdstolower s) \<and> sds_str (sdstolower s) = map c_tolower (sds_str s)"
    "sds_inv (sdstoupper s) \<and> sds_str (sdstoupper s) = map c_toupper (sds_str s)"
  using assms by (auto simp: sds_inv_def sds_str_def sdstolower_def sdstoupper_def nth_append)

lemma cstr_before_NUL: "cstr (x @ NUL # r) = cstr x"
  by (induction x) (auto simp: cstr_def)

lemma updatelen_ok:
  assumes inv: "sds_inv s"
  shows "\<exists>s'. sdsupdatelen s = Inr s' \<and> sds_inv s' \<and> sds_str s' = cstr (sds_str s)"
proof -
  let ?b = "sds_buf s" and ?n = "length (cstr (sds_buf s))"
  have b: "?b = sds_str s @ NUL # drop (Suc (sds_len s)) ?b" using inv by (rule sds_buf_split)
  have N: "NUL \<in> set ?b" by (subst b) simp
  have c: "cstr ?b = cstr (sds_str s)" by (subst b) (rule cstr_before_NUL)
  have n: "?n \<le> sds_len s"
    unfolding c using length_takeWhile_le [of "\<lambda>c. c \<noteq> NUL" "sds_str s"] sds_str_length [OF inv]
    by (simp add: cstr_def)
  then have "?n < length ?b" using sds_invD(1) [OF inv] by simp
  then have z: "?b ! ?n = NUL" using nth_length_takeWhile [of "\<lambda>c. c \<noteq> NUL" ?b] by (simp add: cstr_def)
  have t: "take ?n ?b = cstr ?b" by (simp add: cstr_def takeWhile_eq_take [symmetric])
  let ?s = "s\<lparr>sds_free := sds_free s + sds_len s - ?n, sds_len := ?n\<rparr>"
  have "sdsupdatelen s = Inr ?s" using N by (simp add: sdsupdatelen_def strlen_cstr)
  moreover have "sds_inv ?s" using n z sds_invD(1) [OF inv] by (simp add: sds_inv_def)
  moreover have "sds_str ?s = cstr (sds_str s)" using t c by (simp add: sds_str_def)
  ultimately show ?thesis by blast
qed

section \<open>Properties\<close>

definition demo_sds :: "string \<Rightarrow> sds" where
  "demo_sds x = \<lparr>sds_len = length x, sds_free = 0, sds_buf = x @ [NUL]\<rparr>"

lemma demo_sds [simp]: "sds_inv (demo_sds x)" "sds_str (demo_sds x) = x"
  by (simp_all add: sds_inv_def sds_str_def demo_sds_def)



text \<open>\<open>sdsrange\<close> keeps exactly the bytes between two inclusive bounds (negative ones count from
  the end, bounds outside are clipped) and gives the rest back to the free count.\<close>

theorem sdsrange_slice:
  assumes "sds_inv s"
  shows "\<exists>s'. sdsrange s start en = Inr s' \<and> sds_inv s' \<and> sds_str s' = range_spec (sds_str s) start en
    \<and> sds_len s' + sds_free s' = sds_len s + sds_free s"
  using assms by (rule range_ok)

theorem sdsrange_slice_witness:
  "\<exists>s'. sdsrange (demo_sds ''hello'') 1 (-2) = Inr s' \<and> sds_str s' = ''ell''"
proof -
  have r: "range_spec ''hello'' 1 (-2) = ''ell''" by code_simp
  show ?thesis using sdsrange_slice [of "demo_sds ''hello''" 1 "-2"] by (auto simp: r)
qed

text \<open>\<open>sdstrim\<close> removes from both ends the characters of the set (and NUL bytes, because
  \<open>strchr\<close> finds the terminator of the set), all of the string when nothing else is in it.\<close>

theorem sdstrim_strips:
  assumes "sds_inv s"
  shows "\<exists>s'. sdstrim s cset = Inr s' \<and> sds_inv s' \<and> sds_str s' = strip cset (sds_str s)"
  using assms by (rule trim_ok)

theorem sdstrim_strips_witness:
  "\<exists>s'. sdstrim (demo_sds ''xxciaoyyy'') (''xy'' @ [NUL]) = Inr s' \<and> sds_str s' = ''ciao''"
proof -
  have r: "strip (''xy'' @ [NUL]) ''xxciaoyyy'' = ''ciao''" by code_simp
  show ?thesis
    using sdstrim_strips [of "demo_sds ''xxciaoyyy''" "''xy'' @ [NUL]"]
    by (auto simp: r [unfolded append_Cons append_Nil])
qed

text \<open>C32: \<open>sdssplitlen\<close> never reads or writes outside its arguments and its token array; the tokens it
  returns give the input back when joined with the separator, and none contains the separator.\<close>

theorem sdssplitlen_join:
  assumes "good_alloc al" "len \<le> length s" "sep \<noteq> []"
  shows "case sdssplitlen al tok s (int len) sep (int (length sep)) of
      Inl f \<Rightarrow> False | Inr None \<Rightarrow> True
    | Inr (Some ts) \<Rightarrow> join sep (map sds_str ts) = take len s \<and> tokens_ok sep ts"
  using assms by (rule split_ok)

theorem sdssplitlen_join_witness:
  "\<exists>ts. sdssplitlen zero_alloc (\<lambda>_. True) ''foo_-_bar'' 9 ''_-_'' 3 = Inr (Some ts)
     \<and> length ts = 2 \<and> join ''_-_'' (map sds_str ts) = ''foo_-_bar'' \<and> tokens_ok ''_-_'' ts"
proof -
  have "map_option (\<lambda>ts. length ts)
      (projr (sdssplitlen zero_alloc (\<lambda>_. True) ''foo_-_bar'' 9 ''_-_'' 3)) = Some 2" by code_simp
  then show ?thesis
    using sdssplitlen_join [of zero_alloc 9 "''foo_-_bar''" "''_-_''" "\<lambda>_. True"]
    by (auto split: sum.splits option.splits)
qed

text \<open>\<open>sdsfromlonglong\<close> writes the decimal representation of the 64-bit value, the most negative
  one included (with the two's complement negation the compilers produce), inside its 32 bytes.\<close>

theorem sdsfromlonglong_decimal:
  assumes "good_alloc al"
  shows "holds (sdsfromlonglong al v) (dec_int (sint v))"
  using assms by (rule fromlonglong_holds)

theorem sdsfromlonglong_decimal_witness:
  "holds (sdsfromlonglong zero_alloc (-42)) ''-42''"
proof -
  have "dec_int (sint (-42 :: u64)) = ''-42''" by code_simp
  then show ?thesis using sdsfromlonglong_decimal [of zero_alloc "-42"] by simp
qed

text \<open>\<open>sdscmp\<close> is the lexicographic order on unsigned bytes, a proper prefix first, and zero
  exactly for equal strings.\<close>

theorem sdscmp_order:
  assumes "sds_inv s" "sds_inv t"
  shows "(sdscmp s t < 0) = ((sds_str s, sds_str t) \<in> lexord byte_less)
    \<and> (sdscmp s t = 0) = (sds_str s = sds_str t)"
  using assms by (rule sdscmp_sign)

theorem sdscmp_order_witness:
  "sdscmp (demo_sds ''foo'') (demo_sds ''foobar'') < 0 \<and> (''foo'', ''foobar'') \<in> lexord byte_less"
proof -
  have "sdscmp (demo_sds ''foo'') (demo_sds ''foobar'') < 0" by code_simp
  then show ?thesis using sdscmp_order [of "demo_sds ''foo''" "demo_sds ''foobar''"] by simp
qed



text \<open>The comment above \<open>sdssplitargs\<close> promises that it parses what \<open>sdscatrepr\<close> writes, with
  \<open>"\\xff"\<close> as its example. It does not: the byte 1 is quoted as \<open>\\x01\<close> and read back as the three
  characters \<open>x01\<close>.\<close>

theorem repr_hex_not_read_back:
  "sdscatrepr zero_alloc (demo_sds []) [CHR 0x01] 1
     = Inr (Some \<lparr>sds_len = 6, sds_free = 4, sds_buf = [CHR 0x22, CHR 0x5C] @ ''x01'' @ [CHR 0x22] @ replicate 5 NUL\<rparr>)
   \<and> map_option (map sds_str) (projr (sdssplitargs zero_alloc (\<lambda>_. True)
       ([CHR 0x22, CHR 0x5C] @ ''x01'' @ [CHR 0x22, NUL]))) = Some [''x01'']"
  by (intro conjI; code_simp)

end
