(* ===== verification/Reader.thy ===== *)
theory Reader
  imports Sds
begin

text \<open>
  The protocol reader of \<open>hiredis/hiredis.c\<close>: replies, the task stack that builds nested replies, the
  item parsers, and the reader's feed and get-reply operations with the default object functions.
\<close>

section \<open>Replies and tasks\<close>

definition REDIS_REPLY_STRING :: int where "REDIS_REPLY_STRING = 1"
definition REDIS_REPLY_ARRAY :: int where "REDIS_REPLY_ARRAY = 2"
definition REDIS_REPLY_INTEGER :: int where "REDIS_REPLY_INTEGER = 3"
definition REDIS_REPLY_NIL :: int where "REDIS_REPLY_NIL = 4"
definition REDIS_REPLY_STATUS :: int where "REDIS_REPLY_STATUS = 5"
definition REDIS_REPLY_ERROR :: int where "REDIS_REPLY_ERROR = 6"

lemmas reply_types = REDIS_REPLY_STRING_def REDIS_REPLY_ARRAY_def REDIS_REPLY_INTEGER_def
  REDIS_REPLY_NIL_def REDIS_REPLY_STATUS_def REDIS_REPLY_ERROR_def

definition REDIS_ERR_PROTOCOL :: nat where "REDIS_ERR_PROTOCOL = 4"
definition REDIS_ERR_OOM :: nat where "REDIS_ERR_OOM = 5"
definition REDIS_READER_MAX_BUF :: nat where "REDIS_READER_MAX_BUF = 1024 * 16"

text \<open>
  \<open>redisReply\<close>: a string, status or error with its type and bytes; an array with its \<open>elements\<close>
  field and its element vector (\<open>[]\<close> is the NULL vector, \<open>None\<close> a NULL element); an integer; nil.
\<close>

datatype reply =
    RString int string
  | RArray u64 "reply option list"
  | RInteger u64
  | RNil

text \<open>
  \<open>redisReadTask\<close>. An object pointer is the path of the object in the reply under construction (the
  indexes to follow from the root). The \<open>parent\<close> pointer of the task at index \<open>i > 0\<close> of the stack
  is always the task at \<open>i - 1\<close>, and NULL at index 0, so it is not stored.
\<close>

record task =
  t_type :: int
  t_elements :: int
  t_idx :: int
  t_obj :: "nat list option"

text \<open>The fields \<open>rstack\<close>, \<open>ridx\<close> and \<open>reply\<close> of \<open>redisReader\<close>.\<close>

record tasks =
  rstack :: "task list"
  ridx :: int
  root :: "reply option"

definition get_task :: "tasks \<Rightarrow> int \<Rightarrow> task res" where
  "get_task ts i =
     (if 0 \<le> i \<and> i < int (length (rstack ts)) then Inr (rstack ts ! nat i) else Inl OutOfBounds)"

definition set_task :: "tasks \<Rightarrow> int \<Rightarrow> task \<Rightarrow> tasks res" where
  "set_task ts i t =
     (if 0 \<le> i \<and> i < int (length (rstack ts)) then Inr (ts\<lparr>rstack := (rstack ts)[nat i := t]\<rparr>)
      else Inl OutOfBounds)"

section \<open>Creating objects\<close>

text \<open>\<open>parent->element[idx] = r\<close> for the array at a path below the root.\<close>

fun store_at :: "reply \<Rightarrow> nat list \<Rightarrow> int \<Rightarrow> reply \<Rightarrow> reply res" where
  "store_at (RArray n xs) [] i r =
     (if xs = [] then Inl NullDeref
      else if 0 \<le> i \<and> i < int (length xs) then Inr (RArray n (xs[nat i := Some r]))
      else Inl OutOfBounds)"
| "store_at (RArray n xs) (j # p) i r =
     (if j < length xs then
        (case xs ! j of
           None \<Rightarrow> Inl NullDeref
         | Some x \<Rightarrow> bind_res (store_at x p i r) (\<lambda>x'. Inr (RArray n (xs[j := Some x']))))
      else Inl OutOfBounds)"
| "store_at _ [] i r = Inl AssertFailed"
| "store_at _ (j # p) i r = Inl WildPointer"

text \<open>The tail all creation functions share: link the new object into the parent, if there is one.\<close>

definition link :: "tasks \<Rightarrow> reply \<Rightarrow> (reply \<times> tasks) option res" where
  "link ts r =
     bind_res (get_task ts (ridx ts))
     (\<lambda>cur. if ridx ts = 0 then Inr (Some (r, ts))
            else bind_res (get_task ts (ridx ts - 1))
            (\<lambda>par. case (t_obj par, root ts) of
                 (Some p, Some rt) \<Rightarrow>
                   bind_res (store_at rt p (t_idx cur) r)
                     (\<lambda>rt'. Inr (Some (r, ts\<lparr>root := Some rt'\<rparr>)))
               | _ \<Rightarrow> Inl NullDeref))"

text \<open>
  \<open>mem\<close> says whether the allocations of this call succeed; \<open>None\<close> is the NULL result.
\<close>

definition createStringObject :: "bool \<Rightarrow> tasks \<Rightarrow> string \<Rightarrow> nat \<Rightarrow> (reply \<times> tasks) option res" where
  "createStringObject mem ts str len =
     bind_res (get_task ts (ridx ts))
     (\<lambda>cur. if \<not> mem then Inr None
            else if t_type cur \<notin> {REDIS_REPLY_ERROR, REDIS_REPLY_STATUS, REDIS_REPLY_STRING}
            then Inl AssertFailed
            else bind_res (read_from str len) (\<lambda>buf. link ts (RString (t_type cur) buf)))"

definition createArrayObject :: "bool \<Rightarrow> tasks \<Rightarrow> int \<Rightarrow> (reply \<times> tasks) option res" where
  "createArrayObject mem ts elements =
     (if \<not> mem then Inr None
      else link ts (RArray (word_of_int elements) (if 0 < elements then replicate (nat elements) None else [])))"

definition createIntegerObject :: "bool \<Rightarrow> tasks \<Rightarrow> u64 \<Rightarrow> (reply \<times> tasks) option res" where
  "createIntegerObject mem ts v = (if \<not> mem then Inr None else link ts (RInteger v))"

definition createNilObject :: "bool \<Rightarrow> tasks \<Rightarrow> (reply \<times> tasks) option res" where
  "createNilObject mem ts = (if \<not> mem then Inr None else link ts RNil)"

text \<open>What \<open>freeReplyObject\<close> passes to \<open>free\<close>: the number of reply structures, and of strings and
  vectors. NULL dereferences the argument at once.\<close>

fun freeReplyObject :: "reply \<Rightarrow> nat \<times> nat" where
  "freeReplyObject (RString ty s) = (1, 1)"
| "freeReplyObject (RInteger v) = (1, 0)"
| "freeReplyObject RNil = (1, 0)"
| "freeReplyObject (RArray n xs) =
     (let fs = map (\<lambda>x. case x of None \<Rightarrow> (0, 0) | Some r \<Rightarrow> freeReplyObject r) xs
      in (1 + sum_list (map fst fs), (if xs = [] then 0 else 1) + sum_list (map snd fs)))"

definition free_reply :: "reply option \<Rightarrow> (nat \<times> nat) res" where
  "free_reply r = (case r of None \<Rightarrow> Inl NullDeref | Some x \<Rightarrow> Inr (freeReplyObject x))"

section \<open>The task stack\<close>

function moveToNextTask :: "tasks \<Rightarrow> tasks res" where
  "moveToNextTask ts =
     (if ridx ts < 0 then Inr ts
      else if ridx ts = 0 then Inr (ts\<lparr>ridx := -1\<rparr>)
      else
        bind_res (get_task ts (ridx ts))
        (\<lambda>cur. bind_res (get_task ts (ridx ts - 1))
        (\<lambda>prv. if t_type prv \<noteq> REDIS_REPLY_ARRAY then Inl AssertFailed
               else if t_idx cur = t_elements prv - 1 then moveToNextTask (ts\<lparr>ridx := ridx ts - 1\<rparr>)
               else if \<not> t_idx cur < t_elements prv then Inl AssertFailed
               else set_task ts (ridx ts)
                      (cur\<lparr>t_type := -1, t_elements := -1, t_idx := t_idx cur + 1\<rparr>))))"
  by pat_completeness auto
termination
  by (relation "measure (\<lambda>ts. nat (ridx ts))") auto

declare moveToNextTask.simps [simp del]

definition fresh_task :: "int \<Rightarrow> task" where
  "fresh_task idx = \<lparr>t_type = -1, t_elements = -1, t_idx = idx, t_obj = None\<rparr>"

section \<open>The reader and its errors\<close>

record reader =
  r_err :: nat
  r_errstr :: string
  r_buf :: "sds option"
  r_pos :: nat
  r_len :: nat
  r_maxbuf :: nat
  r_tasks :: tasks

definition redisReaderSetError :: "reader \<Rightarrow> nat \<Rightarrow> string \<Rightarrow> reader" where
  "redisReaderSetError r ty str =
     r\<lparr>r_buf := None,
       r_pos := (if r_buf r = None then r_pos r else 0),
       r_len := (if r_buf r = None then r_len r else 0),
       r_tasks := (r_tasks r)\<lparr>root := None, ridx := -1\<rparr>,
       r_err := ty, r_errstr := take 127 str\<rparr>"

text \<open>\<open>chrtos\<close> with \<open>snprintf\<close> into a buffer of the given size.\<close>

definition chrtos_text :: "char \<Rightarrow> string" where
  "chrtos_text byte =
     (let q = CHR 0x22; bs = CHR 0x5C in
      if byte = bs \<or> byte = q then [q, bs, byte, q]
      else if byte = LF then [q, bs, CHR ''n'', q]
      else if byte = CR then [q, bs, CHR ''r'', q]
      else if byte = CHR 0x09 then [q, bs, CHR ''t'', q]
      else if byte = CHR 0x07 then [q, bs, CHR ''a'', q]
      else if byte = CHR 0x08 then [q, bs, CHR ''b'', q]
      else if isprint byte then [q, byte, q]
      else [q, bs, CHR ''x''] @ hex2 byte @ [q])"

definition chrtos :: "nat \<Rightarrow> char \<Rightarrow> string \<times> nat" where
  "chrtos sz byte = (take (sz - 1) (chrtos_text byte), length (chrtos_text byte))"

definition redisReaderSetErrorProtocolByte :: "reader \<Rightarrow> char \<Rightarrow> reader" where
  "redisReaderSetErrorProtocolByte r byte =
     redisReaderSetError r REDIS_ERR_PROTOCOL
       (take 127 (''Protocol error, got '' @ fst (chrtos 8 byte) @ '' as reply type byte''))"

definition redisReaderSetErrorOOM :: "reader \<Rightarrow> reader" where
  "redisReaderSetErrorOOM r = redisReaderSetError r REDIS_ERR_OOM ''Out of memory''"

section \<open>Reading the buffer\<close>

text \<open>The memory from \<open>r->buf + r->pos\<close> on, up to the end of the allocation.\<close>

definition bytes_at :: "reader \<Rightarrow> string res" where
  "bytes_at r = (case r_buf r of None \<Rightarrow> Inl NullDeref | Some s \<Rightarrow> Inr (drop (r_pos r) (sds_buf s)))"

definition readBytes :: "reader \<Rightarrow> nat \<Rightarrow> (string \<times> reader) option res" where
  "readBytes r bytes =
     (if bytes \<le> r_len r - r_pos r then
        bind_res (bytes_at r) (\<lambda>p. Inr (Some (p, r\<lparr>r_pos := r_pos r + bytes\<rparr>)))
      else Inr None)"

text \<open>\<open>seekNewline\<close>: \<open>lim\<close> is \<open>_len\<close>, one less than the length. The inner loop first.\<close>

function skip_to_CR :: "string \<Rightarrow> int \<Rightarrow> nat \<Rightarrow> nat res" where
  "skip_to_CR s lim pos =
     (if int pos < lim then
        bind_res (char_at s pos) (\<lambda>c. if c \<noteq> CR then skip_to_CR s lim (pos + 1) else Inr pos)
      else Inr pos)"
  by pat_completeness auto
termination
  by (relation "measure (\<lambda>(s, lim, pos). nat (lim - int pos))") auto

declare skip_to_CR.simps [simp del]

lemma skip_to_CR_ge: "skip_to_CR s lim pos = Inr p \<Longrightarrow> pos \<le> p"
proof (induction s lim pos rule: skip_to_CR.induct)
  case (1 s lim pos)
  then show ?case
    by (subst (asm) (2) skip_to_CR.simps) (fastforce split: if_splits)
qed

function seek_loop :: "string \<Rightarrow> int \<Rightarrow> nat \<Rightarrow> nat option res" where
  "seek_loop s lim pos =
     (if int pos < lim then
        bind_res (skip_to_CR s lim pos)
        (\<lambda>pos1. bind_res (char_at s pos1)
        (\<lambda>c. if c \<noteq> CR then Inr None
             else bind_res (char_at s (pos1 + 1))
             (\<lambda>d. if d = LF then Inr (Some pos1) else seek_loop s lim (pos1 + 1))))
      else Inr None)"
  by pat_completeness auto
termination
  by (relation "measure (\<lambda>(s, lim, pos). nat (lim - int pos))") (auto dest!: skip_to_CR_ge)

declare seek_loop.simps [simp del]

definition seekNewline :: "string \<Rightarrow> nat \<Rightarrow> nat option res" where
  "seekNewline s len = seek_loop s (int len - 1) 0"

text \<open>\<open>readLongLong\<close>: the value is 64 bits wide and wraps; -1 for anything but a digit.\<close>

fun long_loop :: "u64 \<Rightarrow> u64 \<Rightarrow> string \<Rightarrow> u64 res" where
  "long_loop mult v [] = Inl OutOfBounds"
| "long_loop mult v (c # s) =
     (if c = CR then Inr (mult * v)
      else if is_digit c then long_loop mult (v * 10 + word_of_int (digit_val c)) s
      else Inr (-1))"

definition readLongLong :: "string \<Rightarrow> u64 res" where
  "readLongLong s =
     bind_res (char_at s 0)
     (\<lambda>c. if c = CHR ''-'' then long_loop (-1) 0 (drop 1 s)
          else if c = CHR ''+'' then long_loop 1 0 (drop 1 s)
          else long_loop 1 0 s)"

definition readLine :: "reader \<Rightarrow> (string \<times> nat \<times> reader) option res" where
  "readLine r =
     bind_res (bytes_at r)
     (\<lambda>p. bind_res (seekNewline p (r_len r - r_pos r))
     (\<lambda>s. case s of
            None \<Rightarrow> Inr None
          | Some len \<Rightarrow> Inr (Some (p, len, r\<lparr>r_pos := r_pos r + len + 2\<rparr>))))"

section \<open>Processing items\<close>

text \<open>The end of an item: out of memory, the root reply, and on to the next task. The flag is
  \<open>REDIS_OK\<close>.\<close>

definition finish_item :: "reader \<Rightarrow> (reply \<times> tasks) option \<Rightarrow> (reader \<times> bool) res" where
  "finish_item r obj =
     (case obj of
        None \<Rightarrow> Inr (redisReaderSetErrorOOM r, False)
      | Some (x, ts) \<Rightarrow>
          bind_res (moveToNextTask (if ridx ts = 0 then ts\<lparr>root := Some x\<rparr> else ts))
            (\<lambda>ts'. Inr (r\<lparr>r_tasks := ts'\<rparr>, True)))"

definition processLineItem :: "bool \<Rightarrow> reader \<Rightarrow> (reader \<times> bool) res" where
  "processLineItem mem r =
     bind_res (get_task (r_tasks r) (ridx (r_tasks r)))
     (\<lambda>cur. bind_res (readLine r)
     (\<lambda>l. case l of
            None \<Rightarrow> Inr (r, False)
          | Some (p, len, r1) \<Rightarrow>
              bind_res
                (if t_type cur = REDIS_REPLY_INTEGER
                 then bind_res (readLongLong p) (createIntegerObject mem (r_tasks r1))
                 else createStringObject mem (r_tasks r1) p len)
                (finish_item r1)))"

definition processBulkItem :: "bool \<Rightarrow> reader \<Rightarrow> (reader \<times> bool) res" where
  "processBulkItem mem r =
     bind_res (bytes_at r)
     (\<lambda>p. bind_res (seekNewline p (r_len r - r_pos r))
     (\<lambda>s. case s of
            None \<Rightarrow> Inr (r, False)
          | Some k \<Rightarrow>
              bind_res (readLongLong p)
              (\<lambda>v. let len = sint v; bytelen = k + 2
                   in if len < 0 then
                        bind_res (createNilObject mem (r_tasks r))
                          (finish_item (r\<lparr>r_pos := r_pos r + bytelen\<rparr>))
                      else
                        let bytelen2 = bytelen + (nat len + 2)
                        in if r_pos r + bytelen2 \<le> r_len r then
                             bind_res (createStringObject mem (r_tasks r) (drop (k + 2) p) (nat len))
                               (finish_item (r\<lparr>r_pos := r_pos r + bytelen2\<rparr>))
                           else Inr (r, False))))"

text \<open>A 64-bit value given to an \<open>int\<close>.\<close>

definition to_int :: "u64 \<Rightarrow> int" where
  "to_int v = sint (ucast v :: u32)"

text \<open>The path of the object of the current task: its slot in the parent's object.\<close>

definition obj_path :: "tasks \<Rightarrow> nat list res" where
  "obj_path ts =
     (if ridx ts = 0 then Inr []
      else bind_res (get_task ts (ridx ts))
      (\<lambda>cur. bind_res (get_task ts (ridx ts - 1))
      (\<lambda>par. case t_obj par of
               None \<Rightarrow> Inl NullDeref
             | Some p \<Rightarrow> Inr (p @ [nat (t_idx cur)]))))"

text \<open>The current task becomes an open array and a fresh task is pushed for its first element.\<close>

definition push_task :: "tasks \<Rightarrow> reply \<Rightarrow> int \<Rightarrow> tasks res" where
  "push_task ts x elements =
     bind_res (get_task ts (ridx ts))
     (\<lambda>cur. bind_res (obj_path ts)
     (\<lambda>p. bind_res (set_task ts (ridx ts) (cur\<lparr>t_elements := elements, t_obj := Some p\<rparr>))
     (\<lambda>ts1. bind_res (set_task ts1 (ridx ts + 1) (fresh_task 0))
     (\<lambda>ts2. Inr (ts2\<lparr>ridx := ridx ts + 1,
                     root := (if ridx ts = 0 then Some x else root ts2)\<rparr>)))))"

definition processMultiBulkItem :: "bool \<Rightarrow> reader \<Rightarrow> (reader \<times> bool) res" where
  "processMultiBulkItem mem r =
     (if ridx (r_tasks r) = 8 then
        Inr (redisReaderSetError r REDIS_ERR_PROTOCOL
               ''No support for nested multi bulk replies with depth > 7'', False)
      else
        bind_res (readLine r)
        (\<lambda>l. case l of
               None \<Rightarrow> Inr (r, False)
             | Some (p, len, r1) \<Rightarrow>
                 bind_res (readLongLong p)
                 (\<lambda>v. if v = -1 then
                        bind_res (createNilObject mem (r_tasks r1)) (finish_item r1)
                      else
                        bind_res (createArrayObject mem (r_tasks r1) (to_int v))
                        (\<lambda>obj. if 0 < sint v
                               then (case obj of
                                 None \<Rightarrow> Inr (redisReaderSetErrorOOM r1, False)
                               | Some (x, ts) \<Rightarrow> bind_res (push_task ts x (to_int v))
                                   (\<lambda>ts'. Inr (r1\<lparr>r_tasks := ts'\<rparr>, True)))
                               else finish_item r1 obj))))"

definition reply_type_of :: "char \<Rightarrow> int option" where
  "reply_type_of c =
     (if c = CHR ''-'' then Some REDIS_REPLY_ERROR
      else if c = CHR ''+'' then Some REDIS_REPLY_STATUS
      else if c = CHR '':'' then Some REDIS_REPLY_INTEGER
      else if c = CHR ''$'' then Some REDIS_REPLY_STRING
      else if c = CHR ''*'' then Some REDIS_REPLY_ARRAY
      else None)"

definition process_typed :: "bool \<Rightarrow> reader \<Rightarrow> int \<Rightarrow> (reader \<times> bool) res" where
  "process_typed mem r ty =
     (if ty = REDIS_REPLY_ERROR \<or> ty = REDIS_REPLY_STATUS \<or> ty = REDIS_REPLY_INTEGER
      then processLineItem mem r
      else if ty = REDIS_REPLY_STRING then processBulkItem mem r
      else if ty = REDIS_REPLY_ARRAY then processMultiBulkItem mem r
      else Inl AssertFailed)"

definition processItem :: "bool \<Rightarrow> reader \<Rightarrow> (reader \<times> bool) res" where
  "processItem mem r =
     bind_res (get_task (r_tasks r) (ridx (r_tasks r)))
     (\<lambda>cur. if t_type cur < 0 then
              bind_res (readBytes r 1)
              (\<lambda>b. case b of
                     None \<Rightarrow> Inr (r, False)
                   | Some (p, r1) \<Rightarrow>
                       bind_res (char_at p 0)
                       (\<lambda>c. case reply_type_of c of
                              None \<Rightarrow> Inr (redisReaderSetErrorProtocolByte r1 c, False)
                            | Some ty \<Rightarrow>
                                bind_res (set_task (r_tasks r1) (ridx (r_tasks r1)) (cur\<lparr>t_type := ty\<rparr>))
                                (\<lambda>ts. process_typed mem (r1\<lparr>r_tasks := ts\<rparr>) ty)))
            else process_typed mem r (t_type cur))"

section \<open>The public operations\<close>

definition no_tasks :: tasks where
  "no_tasks = \<lparr>rstack = replicate 9 \<lparr>t_type = 0, t_elements = 0, t_idx = 0, t_obj = None\<rparr>,
     ridx = -1, root = None\<rparr>"

definition redisReaderCreate :: "bool \<Rightarrow> allocator \<Rightarrow> reader option res" where
  "redisReaderCreate mem al =
     (if \<not> mem then Inr None
      else cat_bind (sdsempty al)
        (\<lambda>buf. Inr (Some \<lparr>r_err = 0, r_errstr = [], r_buf = Some buf, r_pos = 0, r_len = 0,
                  r_maxbuf = REDIS_READER_MAX_BUF, r_tasks = no_tasks\<rparr>)))"

text \<open>\<open>redisReaderFree\<close>: the reply structures and strings it frees, and the buffer if there is one.\<close>

definition redisReaderFree :: "reader \<Rightarrow> (nat \<times> nat) \<times> sds option" where
  "redisReaderFree r =
     ((case root (r_tasks r) of None \<Rightarrow> (0, 0) | Some x \<Rightarrow> freeReplyObject x), r_buf r)"

definition redisReaderFeed :: "allocator \<Rightarrow> reader \<Rightarrow> string \<Rightarrow> nat \<Rightarrow> (reader \<times> bool) res" where
  "redisReaderFeed al r buf len =
     (if r_err r \<noteq> 0 then Inr (r, False)
      else if len < 1 then Inr (r, True)
      else case r_buf r of
             None \<Rightarrow> Inl NullDeref
           | Some s \<Rightarrow>
               bind_res
                 (if r_len r = 0 \<and> r_maxbuf r \<noteq> 0 \<and> r_maxbuf r < sdsavail s
                  then bind_res (sdsempty al)
                    (\<lambda>e. case e of
                           None \<Rightarrow> Inl AssertFailed
                         | Some s1 \<Rightarrow> Inr (s1, r\<lparr>r_buf := Some s1, r_pos := 0\<rparr>))
                  else Inr (s, r))
                 (\<lambda>(s1, r1). bind_res (sdscatlen al s1 buf len)
                 (\<lambda>n. case n of
                        None \<Rightarrow> Inr (redisReaderSetErrorOOM r1, False)
                      | Some s2 \<Rightarrow> Inr (r1\<lparr>r_buf := Some s2, r_len := sdslen s2\<rparr>, True))))"

text \<open>
  The loop of \<open>redisReaderGetReply\<close>: an item that comes back with \<open>REDIS_OK\<close> has consumed input
  (lemma \<open>item_consumes\<close>), so \<open>len + 1\<close> rounds are enough. \<open>mem pos\<close> is the outcome of the allocations for
  the object read at \<open>pos\<close>.
\<close>

fun process_loop :: "nat \<Rightarrow> (nat \<Rightarrow> bool) \<Rightarrow> reader \<Rightarrow> reader res" where
  "process_loop 0 mem r = Inl OutOfFuel"
| "process_loop (Suc fuel) mem r =
     (if ridx (r_tasks r) < 0 then Inr r
      else bind_res (processItem (mem (r_pos r)) r)
        (\<lambda>(r1, ok). if ok then process_loop fuel mem r1 else Inr r1))"

definition start_root :: "tasks \<Rightarrow> tasks" where
  "start_root ts =
     (if ridx ts = -1 then ts\<lparr>rstack := (rstack ts)[0 := fresh_task (-1)], ridx := 0\<rparr> else ts)"

definition trim_buffer :: "reader \<Rightarrow> reader res" where
  "trim_buffer r =
     (if 1024 \<le> r_pos r then
        case r_buf r of
          None \<Rightarrow> Inl NullDeref
        | Some s \<Rightarrow>
            bind_res (sdsrange s (int (r_pos r)) (-1))
              (\<lambda>s1. Inr (r\<lparr>r_buf := Some s1, r_pos := 0, r_len := sdslen s1\<rparr>))
      else Inr r)"

text \<open>The result is the reader, the reply handed out (if any), and the \<open>REDIS_OK\<close> flag.\<close>

definition redisReaderGetReply :: "(nat \<Rightarrow> bool) \<Rightarrow> reader \<Rightarrow> (reader \<times> reply option \<times> bool) res" where
  "redisReaderGetReply mem r =
     (if r_err r \<noteq> 0 then Inr (r, None, False)
      else if r_len r = 0 then Inr (r, None, True)
      else
        bind_res (process_loop (r_len r + 1) mem (r\<lparr>r_tasks := start_root (r_tasks r)\<rparr>))
        (\<lambda>r1. if r_err r1 \<noteq> 0 then Inr (r1, None, False)
              else bind_res (trim_buffer r1)
                (\<lambda>r2. if ridx (r_tasks r2) = -1
                      then Inr (r2\<lparr>r_tasks := (r_tasks r2)\<lparr>root := None\<rparr>\<rparr>, root (r_tasks r2), True)
                      else Inr (r2, None, True))))"

end
