(* ===== verification/Reader_Spec.thy ===== *)
theory Reader_Spec
  imports Reader
begin

text \<open>
  The reader's steps against a parser on plain strings: lines end at the first CR LF, and the unread
  bytes are a list. The lemma \<open>item_refines\<close> says that one step of the reader, with its cursor into
  the buffer, is one step of that parser.
\<close>

section \<open>The parser on plain strings\<close>

text \<open>
  The specification of one step: the unread bytes are a list, a line ends at its first CR LF, and
  the step either completes an item, needs more input, or fails with an error.
\<close>

fun find_crlf :: "string \<Rightarrow> nat option" where
  "find_crlf (a # b # s) =
     (if a = CR \<and> b = LF then Some 0 else map_option Suc (find_crlf (b # s)))"
| "find_crlf _ = None"

datatype outcome =
    Item string tasks
  | Need string tasks
  | Bad tasks nat string

definition parse_long :: "string \<Rightarrow> u64" where
  "parse_long line = (case readLongLong (line @ [CR]) of Inr v \<Rightarrow> v | Inl _ \<Rightarrow> -1)"

definition finish_spec :: "tasks \<Rightarrow> string \<Rightarrow> (reply \<times> tasks) option \<Rightarrow> outcome res" where
  "finish_spec ts rest obj =
     (case obj of
        None \<Rightarrow> Inr (Bad ts REDIS_ERR_OOM ''Out of memory'')
      | Some (x, ts1) \<Rightarrow>
          bind_res (moveToNextTask (if ridx ts1 = 0 then ts1\<lparr>root := Some x\<rparr> else ts1))
            (\<lambda>ts'. Inr (Item rest ts')))"

definition line_spec :: "bool \<Rightarrow> string \<Rightarrow> tasks \<Rightarrow> int \<Rightarrow> outcome res" where
  "line_spec mem rest ts ty =
     (case find_crlf rest of
        None \<Rightarrow> Inr (Need rest ts)
      | Some k \<Rightarrow>
          bind_res (if ty = REDIS_REPLY_INTEGER then createIntegerObject mem ts (parse_long (take k rest))
                    else createStringObject mem ts (take k rest) k)
            (finish_spec ts (drop (k + 2) rest)))"

definition bulk_spec :: "bool \<Rightarrow> string \<Rightarrow> tasks \<Rightarrow> outcome res" where
  "bulk_spec mem rest ts =
     (case find_crlf rest of
        None \<Rightarrow> Inr (Need rest ts)
      | Some k \<Rightarrow>
          let len = sint (parse_long (take k rest))
          in if len < 0 then bind_res (createNilObject mem ts) (finish_spec ts (drop (k + 2) rest))
             else if k + 2 + (nat len + 2) \<le> length rest then
               bind_res (createStringObject mem ts (take (nat len) (drop (k + 2) rest)) (nat len))
                 (finish_spec ts (drop (k + 2 + (nat len + 2)) rest))
             else Inr (Need rest ts))"

definition multi_spec :: "bool \<Rightarrow> string \<Rightarrow> tasks \<Rightarrow> outcome res" where
  "multi_spec mem rest ts =
     (if ridx ts = 8 then
        Inr (Bad ts REDIS_ERR_PROTOCOL ''No support for nested multi bulk replies with depth > 7'')
      else case find_crlf rest of
        None \<Rightarrow> Inr (Need rest ts)
      | Some k \<Rightarrow>
          let v = parse_long (take k rest); rest1 = drop (k + 2) rest
          in if v = -1 then bind_res (createNilObject mem ts) (finish_spec ts rest1)
             else bind_res (createArrayObject mem ts (to_int v))
               (\<lambda>obj. if 0 < sint v
                      then (case obj of
                              None \<Rightarrow> Inr (Bad ts REDIS_ERR_OOM ''Out of memory'')
                            | Some (x, ts1) \<Rightarrow>
                                bind_res (push_task ts1 x (to_int v)) (\<lambda>ts'. Inr (Item rest1 ts')))
                      else finish_spec ts rest1 obj))"

definition typed_spec :: "bool \<Rightarrow> string \<Rightarrow> tasks \<Rightarrow> int \<Rightarrow> outcome res" where
  "typed_spec mem rest ts ty =
     (if ty = REDIS_REPLY_ERROR \<or> ty = REDIS_REPLY_STATUS \<or> ty = REDIS_REPLY_INTEGER
      then line_spec mem rest ts ty
      else if ty = REDIS_REPLY_STRING then bulk_spec mem rest ts
      else if ty = REDIS_REPLY_ARRAY then multi_spec mem rest ts
      else Inl AssertFailed)"

definition bad_byte :: "char \<Rightarrow> string" where
  "bad_byte c = ''Protocol error, got '' @ chrtos_text c @ '' as reply type byte''"

definition item_spec :: "bool \<Rightarrow> string \<Rightarrow> tasks \<Rightarrow> outcome res" where
  "item_spec mem rest ts =
     bind_res (get_task ts (ridx ts))
     (\<lambda>cur. if t_type cur < 0 then
              (case rest of
                 [] \<Rightarrow> Inr (Need rest ts)
               | c # rest1 \<Rightarrow>
                   (case reply_type_of c of
                      None \<Rightarrow> Inr (Bad ts REDIS_ERR_PROTOCOL (bad_byte c))
                    | Some ty \<Rightarrow>
                        bind_res (set_task ts (ridx ts) (cur\<lparr>t_type := ty\<rparr>))
                          (\<lambda>ts1. typed_spec mem rest1 ts1 ty)))
            else typed_spec mem rest ts (t_type cur))"

section \<open>The reader implements it\<close>

definition rd_ok :: "reader \<Rightarrow> bool" where
  "rd_ok r \<longleftrightarrow> r_err r = 0 \<and>
     (\<exists>s. r_buf r = Some s \<and> sds_inv s \<and> r_len r = sds_len s \<and> r_pos r \<le> sds_len s)"

definition unread :: "reader \<Rightarrow> string" where
  "unread r = (case r_buf r of None \<Rightarrow> [] | Some s \<Rightarrow> drop (r_pos r) (sds_str s))"

definition after :: "reader \<Rightarrow> outcome \<Rightarrow> reader \<times> bool" where
  "after r oc =
     (case oc of
        Item rest ts \<Rightarrow> (r\<lparr>r_pos := r_len r - length rest, r_tasks := ts\<rparr>, True)
      | Need rest ts \<Rightarrow> (r\<lparr>r_pos := r_len r - length rest, r_tasks := ts\<rparr>, False)
      | Bad ts e msg \<Rightarrow> (redisReaderSetError (r\<lparr>r_tasks := ts\<rparr>) e msg, False))"

subsection \<open>Lines\<close>

lemma find_crlf_split:
  "find_crlf s = Some k \<Longrightarrow> s = take k s @ CR # LF # drop (k + 2) s \<and> k + 2 \<le> length s"
proof (induction s arbitrary: k rule: find_crlf.induct)
  case (1 a b s)
  show ?case
  proof (cases "a = CR \<and> b = LF")
    case False
    with "1.prems" obtain m where "k = Suc m" "find_crlf (b # s) = Some m" by auto
    with 1 False show ?thesis by auto
  qed (use 1 in auto)
qed auto

lemma find_crlf_append: "find_crlf s = Some k \<Longrightarrow> find_crlf (s @ t) = Some k"
proof (induction s arbitrary: k rule: find_crlf.induct)
  case (1 a b s)
  then show ?case by (cases "a = CR \<and> b = LF") (auto split: if_splits)
qed auto

lemma find_crlf_line: "CR \<notin> set a \<Longrightarrow> find_crlf (a @ CR # LF # t) = Some (length a)"
proof (induction a)
  case (Cons c a)
  then show ?case by (cases a) auto
qed simp

lemma seek_loop_steps:
  assumes "int pos < lim" "nat lim + 1 < length s"
  shows "seek_loop s lim pos =
    (if s ! pos \<noteq> CR then
       (if int (pos + 1) < lim then seek_loop s lim (pos + 1)
        else if s ! (pos + 1) = CR \<and> s ! (pos + 2) = LF then Inr (Some (pos + 1)) else Inr None)
     else if s ! (pos + 1) = LF then Inr (Some pos) else seek_loop s lim (pos + 1))"
proof (cases "s ! pos = CR")
  case True
  with assms show ?thesis
    by (subst seek_loop.simps) (simp add: skip_to_CR.simps [of s lim pos])
next
  case False
  have "skip_to_CR s lim pos = skip_to_CR s lim (pos + 1)"
    using assms False by (subst skip_to_CR.simps) simp
  moreover have "skip_to_CR s lim (pos + 1) = Inr (pos + 1)" if "\<not> int (pos + 1) < lim"
    using that by (subst skip_to_CR.simps) simp
  moreover have "seek_loop s lim (pos + 2) = Inr None" if "\<not> int (pos + 1) < lim"
    using that by (subst seek_loop.simps) simp
  ultimately show ?thesis
    using assms False by (subst (1 2) seek_loop.simps) auto
qed

lemma seekNewline_find:
  assumes "c \<noteq> LF"
  shows "seekNewline (x @ c # j) (length x) = Inr (find_crlf x)"
proof -
  let ?s = "x @ c # j" and ?lim = "int (length x) - 1"
  have "pos \<le> length x \<Longrightarrow>
      seek_loop ?s ?lim pos = Inr (map_option ((+) pos) (find_crlf (drop pos x)))" for pos
  proof (induction "length x - pos" arbitrary: pos)
    case 0
    then show ?case by (subst seek_loop.simps) simp
  next
    case (Suc m)
    show ?case
    proof (cases "int pos < ?lim")
      case False
      with Suc have "length (drop pos x) = 1" by simp
      then have "find_crlf (drop pos x) = None" by (cases "drop pos x") auto
      with False show ?thesis by (subst seek_loop.simps) simp
    next
      case True
      then have lt: "Suc pos < length x" by simp
      have d: "drop pos x = x ! pos # x ! Suc pos # drop (pos + 2) x"
        "drop (pos + 1) x = x ! Suc pos # drop (pos + 2) x"
        using lt by (simp_all add: Cons_nth_drop_Suc)
      have IH: "seek_loop ?s ?lim (pos + 1) = Inr (map_option ((+) (pos + 1)) (find_crlf (drop (pos + 1) x)))"
        using Suc lt by (intro Suc.hyps) auto
      have n: "?s ! pos = x ! pos" "?s ! (pos + 1) = x ! Suc pos"
        using lt by (simp_all add: nth_append)
      have last: "\<not> (?s ! (pos + 1) = CR \<and> ?s ! (pos + 2) = LF) \<and> find_crlf (drop (pos + 1) x) = None"
        if "\<not> int (pos + 1) < ?lim"
      proof -
        from that lt have "length x = pos + 2" by simp
        then show ?thesis using assms d(2) by (simp add: nth_append)
      qed
      have st: "seek_loop ?s ?lim pos =
        (if x ! pos \<noteq> CR then
           (if int (pos + 1) < ?lim then seek_loop ?s ?lim (pos + 1) else Inr None)
         else if x ! Suc pos = LF then Inr (Some pos) else seek_loop ?s ?lim (pos + 1))"
        using seek_loop_steps [OF True, of ?s] last lt unfolding n by auto
      have f: "find_crlf (drop pos x) =
          (if x ! pos = CR \<and> x ! Suc pos = LF then Some 0
           else map_option Suc (find_crlf (drop (pos + 1) x)))"
        by (subst d(1), subst d(2)) simp
      have e: "(+) (pos + 1) = (\<lambda>k. Suc (pos + k))" by auto
      show ?thesis
        unfolding st IH f e using last by (auto simp: option.map_comp comp_def)
    qed
  qed
  moreover have "(+) (0 :: nat) = (\<lambda>k. k)" by auto
  ultimately show ?thesis by (simp add: seekNewline_def option.map_ident)
qed

lemma long_loop_line: "\<exists>u. \<forall>j. long_loop m v (a @ CR # j) = Inr u"
  by (induction a arbitrary: v) auto

lemma readLongLong_line: "readLongLong (a @ CR # j) = Inr (parse_long a)"
proof -
  have "\<exists>u. \<forall>j. readLongLong (a @ CR # j) = Inr u"
  proof (cases a)
    case Nil
    then show ?thesis by (simp add: readLongLong_def)
  next
    case (Cons c b)
    consider "c = CHR ''-''" | "c = CHR ''+''" | "c \<noteq> CHR ''-''" "c \<noteq> CHR ''+''" by blast
    then show ?thesis
    proof cases
      case 3
      with long_loop_line [of 1 0 "c # b"] Cons show ?thesis
        by (simp add: readLongLong_def del: long_loop.simps)
    qed (use long_loop_line [of _ 0 b] Cons in \<open>simp_all add: readLongLong_def\<close>)
  qed
  then obtain u where "\<forall>j. readLongLong (a @ CR # j) = Inr u" by blast
  then show ?thesis by (simp add: parse_long_def)
qed

subsection \<open>One step\<close>

lemma rd_okD:
  assumes "rd_ok r"
  obtains s j where "r_buf r = Some s" "bytes_at r = Inr (unread r @ NUL # j)"
    "r_len r - r_pos r = length (unread r)" "r_pos r \<le> r_len r" "r_err r = 0"
proof -
  from assms obtain s where s: "r_buf r = Some s" "sds_inv s" "r_len r = sds_len s" "r_pos r \<le> sds_len s"
    "r_err r = 0" by (auto simp: rd_ok_def)
  note len = sds_str_length [OF s(2)]
  have "drop (r_pos r) (sds_buf s) = drop (r_pos r) (sds_str s) @ NUL # drop (Suc (sds_len s)) (sds_buf s)"
    using s(4) len by (subst sds_buf_split [OF s(2)]) simp
  with s len that [of s "drop (Suc (sds_len s)) (sds_buf s)"] show ?thesis
    by (simp add: bytes_at_def unread_def)
qed

abbreviation stepped :: "reader \<Rightarrow> outcome res \<Rightarrow> (reader \<times> bool) res" where
  "stepped r m \<equiv> bind_res m (\<lambda>oc. Inr (after r oc))"

lemma finish_refines:
  assumes "r_buf r \<noteq> None" "p = r_len r - length rest"
  shows "finish_item (r\<lparr>r_pos := p\<rparr>) = (\<lambda>obj. stepped r (finish_spec (r_tasks r) rest obj))"
  using assms
  by (intro ext)
     (auto split: option.splits simp: finish_item_def finish_spec_def after_def redisReaderSetErrorOOM_def
        redisReaderSetError_def bind_res_assoc)

lemma readLine_spec:
  assumes ok: "rd_ok r"
  shows "\<exists>j. readLine r = Inr (case find_crlf (unread r) of None \<Rightarrow> None
     | Some k \<Rightarrow> Some (take k (unread r) @ CR # j, k,
         r\<lparr>r_pos := r_len r - length (drop (k + 2) (unread r))\<rparr>))"
proof -
  from ok obtain s j where s: "bytes_at r = Inr (unread r @ NUL # j)"
    "r_len r - r_pos r = length (unread r)" "r_pos r \<le> r_len r" by (rule rd_okD)
  show ?thesis
  proof (cases "find_crlf (unread r)")
    case None
    with s show ?thesis by (simp add: readLine_def seekNewline_find)
  next
    case (Some k)
    from find_crlf_split [OF this] have k: "unread r = take k (unread r) @ CR # LF # drop (k + 2) (unread r)"
      "k + 2 \<le> length (unread r)" by auto
    then have "unread r @ NUL # j = take k (unread r) @ CR # LF # drop (k + 2) (unread r) @ NUL # j"
      by (metis append_Cons append_assoc)
    moreover have "r_pos r + k + 2 = r_len r - (length (unread r) - (k + 2))"
      using s k(2) by linarith
    ultimately show ?thesis
      using s Some by (intro exI [of _ "LF # drop (k + 2) (unread r) @ NUL # j"])
        (simp add: readLine_def seekNewline_find)
  qed
qed

lemma string_refines: "createStringObject m ts (take k u @ j) k = createStringObject m ts (take k u) k"
  if "k \<le> length u"
  using that by (simp add: createStringObject_def read_from_def cong: if_cong)

lemma line_refines:
  assumes ok: "rd_ok r" and t: "get_task (r_tasks r) (ridx (r_tasks r)) = Inr cur" "t_type cur = ty"
  shows "processLineItem m r = stepped r (line_spec m (unread r) (r_tasks r) ty)"
proof -
  let ?u = "unread r"
  from ok have b: "r_buf r \<noteq> None" by (auto simp: rd_ok_def)
  from readLine_spec [OF ok] obtain j where j: "readLine r = Inr (case find_crlf ?u of None \<Rightarrow> None
     | Some k \<Rightarrow> Some (take k ?u @ CR # j, k, r\<lparr>r_pos := r_len r - length (drop (k + 2) ?u)\<rparr>))" by blast
  show ?thesis
  proof (cases "find_crlf ?u")
    case None
    from ok have "r_len r - length ?u = r_pos r" by (elim rd_okD) linarith
    with None j t show ?thesis by (simp add: processLineItem_def line_spec_def after_def)
  next
    case (Some k)
    then have k: "k \<le> length ?u" using find_crlf_split by fastforce
    show ?thesis
      using t j Some k finish_refines [OF b refl, of "drop (k + 2) ?u"]
      by (simp add: processLineItem_def line_spec_def readLongLong_line string_refines bind_res_assoc
          cong: if_cong)
  qed
qed

lemma pos_unread: "rd_ok r \<Longrightarrow> r_len r - length (unread r) = r_pos r"
  by (elim rd_okD) linarith

lemma after_Need: "rd_ok r \<Longrightarrow> after r (Need (unread r) (r_tasks r)) = (r, False)"
  by (simp add: after_def pos_unread)

lemma bulk_refines:
  assumes ok: "rd_ok r"
  shows "processBulkItem m r = stepped r (bulk_spec m (unread r) (r_tasks r))"
proof -
  let ?u = "unread r"
  from ok obtain s j where s: "r_buf r = Some s" "bytes_at r = Inr (?u @ NUL # j)"
    "r_len r - r_pos r = length ?u" "r_pos r \<le> r_len r" by (rule rd_okD)
  then have b: "r_buf r \<noteq> None" by simp
  show ?thesis
  proof (cases "find_crlf ?u")
    case None
    with s ok show ?thesis
      by (simp add: processBulkItem_def bulk_spec_def seekNewline_find after_Need)
  next
    case (Some k)
    from find_crlf_split [OF this] have k: "?u = take k ?u @ CR # LF # drop (k + 2) ?u"
      "k + 2 \<le> length ?u" by auto
    then have mem: "?u @ NUL # j = take k ?u @ CR # LF # drop (k + 2) ?u @ NUL # j"
      by (metis append_Cons append_assoc)
    let ?len = "sint (parse_long (take k ?u))"
    have rl: "readLongLong (?u @ NUL # j) = Inr (parse_long (take k ?u))"
      by (subst mem) (rule readLongLong_line)
    have seek: "seekNewline (?u @ NUL # j) (length ?u) = Inr (Some k)"
      using Some by (simp add: seekNewline_find)
    have p1: "r_pos r + (k + 2) = r_len r - length (drop (k + 2) ?u)" using s k by simp
    show ?thesis
    proof (cases "?len < 0")
      case True
      with s seek rl Some show ?thesis
        by (simp add: processBulkItem_def bulk_spec_def Let_def p1 [simplified] bind_res_assoc
            finish_refines [OF b refl, of "drop (k + 2) ?u", simplified])
    next
      case False
      let ?n = "k + 2 + (nat ?len + 2)"
      have fits: "(r_pos r + ?n \<le> r_len r) = (?n \<le> length ?u)" using s by linarith
      show ?thesis
      proof (cases "?n \<le> length ?u")
        case True
        then have "r_pos r + ?n = r_len r - length (drop ?n ?u)" using s by simp
        note fin = finish_refines [OF b this]
        have rd: "createStringObject m ts (drop (k + 2) (?u @ NUL # j)) (nat ?len)
          = createStringObject m ts (take (nat ?len) (drop (k + 2) ?u)) (nat ?len)" for ts
        proof -
          let ?U = "drop (k + 2) ?u" and ?l = "nat ?len"
          have l: "?l \<le> length ?U" using True by simp
          have "drop (k + 2) (?u @ NUL # j) = ?U @ NUL # j" using k(2) by simp
          also have "\<dots> = take ?l ?U @ drop ?l ?U @ NUL # j" by (metis append_assoc append_take_drop_id)
          finally show ?thesis using string_refines [OF l] by simp
        qed
        show ?thesis
          unfolding processBulkItem_def bulk_spec_def Some s(2,3) seek rl bind_res.simps option.case Let_def
            rd fin fits if_not_P [OF False] if_P [OF True]
          by (simp add: bind_res_assoc)
      next
        case nfit: False
        show ?thesis
          unfolding processBulkItem_def bulk_spec_def Some s(2,3) seek rl bind_res.simps option.case Let_def
            fits if_not_P [OF False] if_not_P [OF nfit]
          using ok by (simp add: after_Need)
      qed
    qed
  qed
qed

lemma multi_refines:
  assumes ok: "rd_ok r"
  shows "processMultiBulkItem m r = stepped r (multi_spec m (unread r) (r_tasks r))"
proof -
  let ?u = "unread r"
  from ok have b: "r_buf r \<noteq> None" by (auto simp: rd_ok_def)
  from readLine_spec [OF ok] obtain j where j: "readLine r = Inr (case find_crlf ?u of None \<Rightarrow> None
     | Some k \<Rightarrow> Some (take k ?u @ CR # j, k, r\<lparr>r_pos := r_len r - length (drop (k + 2) ?u)\<rparr>))" by blast
  show ?thesis
  proof (cases "ridx (r_tasks r) = 8")
    case True
    then show ?thesis by (simp add: processMultiBulkItem_def multi_spec_def after_def)
  next
    case n8: False
    show ?thesis
    proof (cases "find_crlf ?u")
      case None
      with n8 j ok show ?thesis by (simp add: processMultiBulkItem_def multi_spec_def after_Need)
    next
      case (Some k)
      let ?v = "parse_long (take k ?u)" and ?rest = "drop (k + 2) ?u"
      let ?r1 = "r\<lparr>r_pos := r_len r - length ?rest\<rparr>"
      note fin = finish_refines [OF b refl, of ?rest]
      have oom: "(redisReaderSetErrorOOM ?r1, False) = after r (Bad (r_tasks r) REDIS_ERR_OOM ''Out of memory'')"
        using b by (auto simp: after_def redisReaderSetErrorOOM_def redisReaderSetError_def)
      have obj: "(if 0 < sint ?v
             then (case obj of None \<Rightarrow> Inr (redisReaderSetErrorOOM ?r1, False)
               | Some (x, ts) \<Rightarrow> bind_res (push_task ts x (to_int ?v)) (\<lambda>ts'. Inr (?r1\<lparr>r_tasks := ts'\<rparr>, True)))
             else finish_item ?r1 obj) =
          stepped r (if 0 < sint ?v
             then (case obj of None \<Rightarrow> Inr (Bad (r_tasks r) REDIS_ERR_OOM ''Out of memory'')
               | Some (x, ts1) \<Rightarrow> bind_res (push_task ts1 x (to_int ?v)) (\<lambda>ts'. Inr (Item ?rest ts')))
             else finish_spec (r_tasks r) ?rest obj)" for obj
        unfolding fin oom
        by (auto simp: after_def bind_res_assoc split: option.splits)
      show ?thesis
        unfolding processMultiBulkItem_def multi_spec_def if_not_P [OF n8] j Some bind_res.simps
          option.case prod.case readLongLong_line Let_def obj
        unfolding fin
        by (simp add: bind_res_assoc)
    qed
  qed
qed

lemma typed_refines:
  assumes "rd_ok r" "get_task (r_tasks r) (ridx (r_tasks r)) = Inr cur" "t_type cur = ty"
  shows "process_typed m r ty = stepped r (typed_spec m (unread r) (r_tasks r) ty)"
  using assms
  by (simp add: process_typed_def typed_spec_def line_refines bulk_refines multi_refines)

lemma chrtos_8: "fst (chrtos 8 c) = chrtos_text c"
  by (simp add: chrtos_def chrtos_text_def hex2_def Let_def)

lemma bad_byte_length: "length (bad_byte c) \<le> 60"
  by (simp add: bad_byte_def chrtos_text_def hex2_def Let_def)

lemma set_task_get: "set_task ts i t = Inr ts' \<Longrightarrow> get_task ts' i = Inr t \<and> ridx ts' = ridx ts"
  by (auto simp: set_task_def get_task_def split: if_splits)

lemma item_refines:
  assumes ok: "rd_ok r"
  shows "processItem m r = stepped r (item_spec m (unread r) (r_tasks r))"
proof (cases "get_task (r_tasks r) (ridx (r_tasks r))")
  case (Inl f)
  then show ?thesis by (simp add: processItem_def item_spec_def)
next
  case (Inr cur)
  show ?thesis
  proof (cases "t_type cur < 0")
    case False
    with Inr typed_refines [OF ok Inr refl] show ?thesis by (simp add: processItem_def item_spec_def)
  next
    case True
    from ok obtain s j where s: "r_buf r = Some s" "bytes_at r = Inr (unread r @ NUL # j)"
      "r_len r - r_pos r = length (unread r)" "r_pos r \<le> r_len r" by (rule rd_okD)
    show ?thesis
    proof (cases "unread r")
      case Nil
      with True Inr s show ?thesis
        by (simp add: processItem_def item_spec_def readBytes_def after_def)
    next
      case (Cons c u)
      let ?r1 = "r\<lparr>r_pos := r_pos r + 1\<rparr>"
      have rb: "readBytes r 1 = Inr (Some (c # u @ NUL # j, ?r1))"
        using s Cons by (simp add: readBytes_def)
      show ?thesis
      proof (cases "reply_type_of c")
        case None
        have "redisReaderSetErrorProtocolByte ?r1 c = redisReaderSetError r REDIS_ERR_PROTOCOL (bad_byte c)"
          using s(1) bad_byte_length [of c]
          by (simp add: redisReaderSetErrorProtocolByte_def redisReaderSetError_def bad_byte_def chrtos_8)
        with None Cons rb Inr True show ?thesis
          by (simp add: processItem_def item_spec_def after_def)
      next
        case (Some ty)
        have u1: "unread (?r1\<lparr>r_tasks := ts\<rparr>) = u" "rd_ok (?r1\<lparr>r_tasks := ts\<rparr>)" for ts
        proof -
          have "drop (r_pos r) (sds_str s) = c # u" using Cons s by (simp add: unread_def)
          then have "drop (Suc (r_pos r)) (sds_str s) = u" by (metis drop_Suc list.sel(3) tl_drop)
          then show "unread (?r1\<lparr>r_tasks := ts\<rparr>) = u" using s by (simp add: unread_def)
          show "rd_ok (?r1\<lparr>r_tasks := ts\<rparr>)"
            using ok s Cons by (auto simp: rd_ok_def)
        qed
        have aft: "after (?r1\<lparr>r_tasks := ts\<rparr>) oc = after r oc" for ts oc
          using s(1) by (cases oc) (auto simp: after_def redisReaderSetError_def)
        show ?thesis
        proof (cases "set_task (r_tasks r) (ridx (r_tasks r)) (cur\<lparr>t_type := ty\<rparr>)")
          case (Inl f)
          with Some Cons rb Inr True show ?thesis by (simp add: processItem_def item_spec_def)
        next
          case (Inr ts)
          note g = set_task_get [OF this]
          have "process_typed m (?r1\<lparr>r_tasks := ts\<rparr>) ty = stepped r (typed_spec m u ts ty)"
            using typed_refines [OF u1(2), of ts "cur\<lparr>t_type := ty\<rparr>" ty m] g
            by (simp add: u1(1) [simplified] aft [simplified])
          with Some Cons rb Inr True \<open>get_task (r_tasks r) (ridx (r_tasks r)) = Inr cur\<close> show ?thesis
            by (simp add: processItem_def item_spec_def)
        qed
      qed
    qed
  qed
qed

section \<open>Properties\<close>

text \<open>\<open>seekNewline\<close> returns the first CR LF of the given bytes and NULL if there is none; it ends
  for every input and reads at most one byte behind the length, which in the reader's buffer is the
  terminating NUL.\<close>

theorem seekNewline_first:
  assumes "c \<noteq> LF"
  shows "seekNewline (x @ c # j) (length x) = Inr (find_crlf x)"
  using assms by (rule seekNewline_find)

theorem seekNewline_first_witness:
  "seekNewline (''a'' @ [CR] @ ''b'' @ [CR, LF, NUL]) 5 = Inr (Some 3)"
proof -
  have "find_crlf (''a'' @ [CR] @ ''b'' @ [CR, LF]) = Some 3" by code_simp
  then show ?thesis
    using seekNewline_first [of NUL "''a'' @ [CR] @ ''b'' @ [CR, LF]" "[]"] by (simp add: eval_nat_numeral)
qed

text \<open>C10: one step of the reader, with its cursor arithmetic on the buffer, implements the parser on
  plain strings: the same items are created, the same input is consumed, and it waits or fails in
  the same cases with the same message.\<close>

theorem processItem_refines:
  assumes "rd_ok r"
  shows "processItem m r = bind_res (item_spec m (unread r) (r_tasks r)) (\<lambda>oc. Inr (after r oc))"
  using assms by (rule item_refines)

definition demo_reader :: "string \<Rightarrow> reader" where
  "demo_reader x = \<lparr>r_err = 0, r_errstr = [], r_buf = Some (demo_sds x), r_pos = 0, r_len = length x,
     r_maxbuf = REDIS_READER_MAX_BUF, r_tasks = no_tasks\<lparr>rstack := fresh_task (-1) # tl (rstack no_tasks), ridx := 0\<rparr>\<rparr>"

lemma demo_reader_ok: "rd_ok (demo_reader x)" "unread (demo_reader x) = x"
  by (auto simp: rd_ok_def unread_def demo_reader_def) (simp_all add: demo_sds_def)

theorem processItem_refines_witness:
  "\<exists>r'. processItem True (demo_reader ('':7'' @ [CR, LF])) = Inr (r', True) \<and> r_pos r' = 4 \<and>
     root (r_tasks r') = Some (RInteger 7)"
proof -
  let ?r = "demo_reader ('':7'' @ [CR, LF])"
  have "case item_spec True ('':7'' @ [CR, LF]) (r_tasks ?r) of
      Inr (Item u ts) \<Rightarrow> u = [] \<and> root ts = Some (RInteger 7) | _ \<Rightarrow> False"
    by code_simp
  then obtain ts where "item_spec True ('':7'' @ [CR, LF]) (r_tasks ?r) = Inr (Item [] ts)"
    "root ts = Some (RInteger 7)"
    by (auto split: sum.splits outcome.splits)
  then show ?thesis
    using processItem_refines [OF demo_reader_ok(1), of True "'':7'' @ [CR, LF]"]
    by (simp add: demo_reader_ok after_def) (simp add: demo_reader_def)
qed

end
