(* ===== verification/Reader_Tasks.thy ===== *)
theory Reader_Tasks
  imports Reader_Spec
begin

text \<open>
  The reply under construction and the task stack: which slot the current task fills, the invariant
  of the open levels, and what one item does to it. No step faults but for a missing element vector.
\<close>

section \<open>The reply under construction\<close>

fun get_at :: "reply \<Rightarrow> nat list \<Rightarrow> reply option" where
  "get_at r [] = Some r"
| "get_at (RArray n xs) (j # p) =
     (if j < length xs then (case xs ! j of None \<Rightarrow> None | Some x \<Rightarrow> get_at x p) else None)"
| "get_at _ (j # p) = None"

fun put_at :: "reply \<Rightarrow> nat list \<Rightarrow> reply \<Rightarrow> reply" where
  "put_at r [] y = y"
| "put_at (RArray n xs) (j # p) y =
     RArray n (xs[j := Some (case xs ! j of None \<Rightarrow> y | Some x \<Rightarrow> put_at x p y)])"
| "put_at r (j # p) y = r"

lemma get_put: "get_at r p = Some x \<Longrightarrow> get_at (put_at r p y) p = Some y"
  by (induction r p arbitrary: y rule: get_at.induct) (auto split: if_splits option.splits)

lemma put_put: "get_at r p = Some x \<Longrightarrow> put_at (put_at r p y) (p @ q) z = put_at r p (put_at y q z)"
  by (induction r p arbitrary: y z rule: get_at.induct) (auto split: if_splits option.splits)

lemma get_append: "get_at r p = Some x \<Longrightarrow> get_at r (p @ q) = get_at x q"
  by (induction r p rule: get_at.induct) (auto split: if_splits option.splits)

lemma put_append: "get_at r p = Some x \<Longrightarrow> put_at r (p @ q) z = put_at r p (put_at x q z)"
  by (induction r p arbitrary: z rule: get_at.induct) (auto split: if_splits option.splits)

lemma store_at_ok:
  "get_at r p = Some (RArray n xs) \<Longrightarrow> 0 \<le> i \<Longrightarrow> i < int (length xs)
    \<Longrightarrow> store_at r p i y = Inr (put_at r p (RArray n (xs[nat i := Some y])))"
proof (induction r p rule: get_at.induct)
  case (1 r)
  then show ?case by (cases r) auto
qed (auto split: if_splits option.splits)

lemma store_at_null:
  "get_at r p = Some (RArray n []) \<Longrightarrow> store_at r p i y = Inl NullDeref"
proof (induction r p rule: get_at.induct)
  case (1 r)
  then show ?case by (cases r) auto
qed (auto split: if_splits option.splits)

text \<open>An array on the path keeps its \<open>elements\<close> field and the length of its vector.\<close>

lemma put_prefix_array:
  assumes "get_at r (q @ s) = Some x" "get_at r q = Some (RArray n xs)" "s \<noteq> []"
  shows "\<exists>ys. get_at (put_at r (q @ s) y) q = Some (RArray n ys) \<and> length ys = length xs"
proof -
  obtain j s' where s: "s = j # s'" using assms(3) by (cases s) auto
  have "put_at r (q @ s) y = put_at r q (put_at (RArray n xs) s y)"
    using assms(2) by (rule put_append)
  then show ?thesis using get_put [OF assms(2)] by (simp add: s)
qed

section \<open>The invariant of the task stack\<close>

definition path :: "task list \<Rightarrow> nat \<Rightarrow> nat list" where
  "path st i = map (\<lambda>k. nat (t_idx (st ! k))) [1..<Suc i]"

lemma path_0 [simp]: "path st 0 = []"
  by (simp add: path_def)

lemma path_Suc: "path st (Suc i) = path st i @ [nat (t_idx (st ! Suc i))]"
  by (simp add: path_def)

lemma path_cong: "(\<And>k. k \<le> i \<Longrightarrow> t_idx (st ! k) = t_idx (st' ! k)) \<Longrightarrow> path st i = path st' i"
  unfolding path_def by (intro map_cong) auto

lemma path_split: "i < d \<Longrightarrow> \<exists>s. s \<noteq> [] \<and> path st d = path st i @ s"
proof (induction d)
  case (Suc d)
  show ?case
  proof (cases "i = d")
    case False
    with Suc obtain s where "s \<noteq> []" "path st d = path st i @ s" by auto
    then show ?thesis by (intro exI [of _ "s @ [nat (t_idx (st ! Suc d))]"]) (simp add: path_Suc)
  qed (auto simp: path_Suc)
qed simp

text \<open>
  The element count of a task against its vector: they agree and the index is inside, or the count
  (a length of \<open>2^31\<close> and more that does not fit the \<open>int\<close>) is not positive and there is no vector.
\<close>

definition fits :: "int \<Rightarrow> reply option list \<Rightarrow> int \<Rightarrow> bool" where
  "fits e xs j \<longleftrightarrow> (if xs = [] then e \<le> 0 else e = int (length xs) \<and> 0 \<le> j \<and> j < e)"

definition level_ok :: "task list \<Rightarrow> reply \<Rightarrow> nat \<Rightarrow> bool" where
  "level_ok st rt i \<longleftrightarrow> t_type (st ! i) = REDIS_REPLY_ARRAY \<and> t_obj (st ! i) = Some (path st i) \<and>
     (\<exists>n xs. get_at rt (path st i) = Some (RArray n xs) \<and>
        fits (t_elements (st ! i)) xs (t_idx (st ! Suc i)))"

definition known_type :: "int \<Rightarrow> bool" where
  "known_type ty \<longleftrightarrow> ty < 0 \<or> ty \<in> {REDIS_REPLY_STRING, REDIS_REPLY_ARRAY, REDIS_REPLY_INTEGER,
     REDIS_REPLY_STATUS, REDIS_REPLY_ERROR}"

definition ts_ok :: "tasks \<Rightarrow> bool" where
  "ts_ok ts \<longleftrightarrow> length (rstack ts) = 9 \<and> -1 \<le> ridx ts \<and> ridx ts \<le> 8 \<and>
     (0 \<le> ridx ts \<longrightarrow> known_type (t_type (rstack ts ! nat (ridx ts)))) \<and>
     (0 < ridx ts \<longrightarrow>
        (\<exists>rt. root ts = Some rt \<and> (\<forall>i < nat (ridx ts). level_ok (rstack ts) rt i)))"

abbreviation slot :: "tasks \<Rightarrow> nat list" where
  "slot ts \<equiv> path (rstack ts) (nat (ridx ts))"

text \<open>The slot of the current item filled with a reply.\<close>

definition filled :: "tasks \<Rightarrow> reply \<Rightarrow> tasks" where
  "filled ts x = ts\<lparr>root := Some (case root ts of None \<Rightarrow> x | Some rt \<Rightarrow> put_at rt (slot ts) x)\<rparr>"

lemma filled_simps [simp]: "rstack (filled ts x) = rstack ts" "ridx (filled ts x) = ridx ts"
  by (simp_all add: filled_def)

lemma filled_root: "root (filled ts x) \<noteq> None" "\<exists>y. root (filled ts x) = Some y"
  by (simp_all add: filled_def)

definition vector_missing :: "tasks \<Rightarrow> bool" where
  "vector_missing ts \<longleftrightarrow> (\<exists>rt n. 0 < ridx ts \<and> root ts = Some rt \<and>
     get_at rt (path (rstack ts) (nat (ridx ts) - 1)) = Some (RArray n []))"

lemma get_task_ok:
  "ts_ok ts \<Longrightarrow> 0 \<le> i \<Longrightarrow> i \<le> 8 \<Longrightarrow> get_task ts i = Inr (rstack ts ! nat i)"
  by (simp add: get_task_def ts_ok_def)

lemma put_slot:
  assumes "get_at rt p = Some (RArray n xs)" "j < length xs"
  shows "put_at rt p (RArray n (xs[j := Some y])) = put_at rt (p @ [j]) y"
  using assms by (simp add: put_append split: option.splits)

lemma link_spec:
  assumes ok: "ts_ok ts" and r0: "0 \<le> ridx ts"
  shows "if vector_missing ts then link ts x = Inl NullDeref
    else \<exists>ts1. link ts x = Inr (Some (x, ts1)) \<and> ridx ts1 = ridx ts
      \<and> (if ridx ts = 0 then ts1\<lparr>root := Some x\<rparr> else ts1) = filled ts x"
proof (cases "ridx ts = 0")
  case True
  with ok show ?thesis
    by (auto simp: link_def get_task_ok vector_missing_def filled_def split: option.splits)
next
  case False
  with r0 have pos: "0 < ridx ts" by simp
  define d where "d = nat (ridx ts) - 1"
  have d: "nat (ridx ts) = Suc d" "nat (ridx ts - 1) = d" using pos by (simp_all add: d_def)
  from ok pos obtain rt where rt: "root ts = Some rt" "\<forall>i < nat (ridx ts). level_ok (rstack ts) rt i"
    by (auto simp: ts_ok_def)
  from rt(2) have "level_ok (rstack ts) rt d" by (simp add: d)
  then obtain n xs where l: "t_obj (rstack ts ! d) = Some (path (rstack ts) d)"
    "get_at rt (path (rstack ts) d) = Some (RArray n xs)"
    "fits (t_elements (rstack ts ! d)) xs (t_idx (rstack ts ! Suc d))"
    by (auto simp: level_ok_def)
  have r8: "ridx ts \<le> 8" using ok by (simp add: ts_ok_def)
  have g: "get_task ts (ridx ts) = Inr (rstack ts ! Suc d)" "get_task ts (ridx ts - 1) = Inr (rstack ts ! d)"
    using get_task_ok [OF ok, of "ridx ts"] get_task_ok [OF ok, of "ridx ts - 1"] pos r8 by (simp_all add: d)
  let ?j = "t_idx (rstack ts ! Suc d)"
  show ?thesis
  proof (cases "xs = []")
    case True
    with l(2) rt(1) pos have "vector_missing ts" by (auto simp: vector_missing_def d)
    then show ?thesis using False g rt(1) l True by (simp add: link_def store_at_null)
  next
    case ne: False
    with l(2) rt(1) have nv: "\<not> vector_missing ts" by (auto simp: vector_missing_def d)
    from l(3) ne have j: "0 \<le> ?j" "?j < int (length xs)" by (auto simp: fits_def)
    have "store_at rt (path (rstack ts) d) ?j x = Inr (put_at rt (slot ts) x)"
      using store_at_ok [OF l(2) j] put_slot [OF l(2), of "nat ?j"] j by (simp add: d path_Suc)
    then show ?thesis
      using False g rt(1) l(1) nv by (simp add: link_def filled_def)
  qed
qed

text \<open>Filling the slot keeps every open level.\<close>

lemma filled_levels:
  assumes ok: "ts_ok ts" and nv: "\<not> vector_missing ts" and pos: "0 < ridx ts"
  shows "\<exists>rt. root (filled ts x) = Some rt \<and> (\<forall>i < nat (ridx ts). level_ok (rstack ts) rt i)
    \<and> get_at rt (slot ts) = Some x"
proof -
  define d where "d = nat (ridx ts) - 1"
  have d: "nat (ridx ts) = Suc d" using pos by (simp add: d_def)
  let ?st = "rstack ts"
  from ok pos obtain rt where rt: "root ts = Some rt" "\<forall>i < nat (ridx ts). level_ok ?st rt i"
    by (auto simp: ts_ok_def)
  from rt(2) have "level_ok ?st rt d" by (simp add: d)
  then obtain n xs where l: "get_at rt (path ?st d) = Some (RArray n xs)"
    "fits (t_elements (?st ! d)) xs (t_idx (?st ! Suc d))" by (auto simp: level_ok_def)
  with nv rt(1) pos have ne: "xs \<noteq> []" by (auto simp: vector_missing_def d)
  let ?j = "t_idx (?st ! Suc d)" and ?p = "path ?st d"
  have j: "nat ?j < length xs" using l(2) ne by (auto simp: fits_def)
  let ?ys = "xs[nat ?j := Some x]"
  let ?rt = "put_at rt ?p (RArray n ?ys)"
  have sl: "put_at rt (slot ts) x = ?rt" using put_slot [OF l(1) j] by (simp add: d path_Suc)
  have gp: "get_at ?rt ?p = Some (RArray n ?ys)" using get_put [OF l(1)] .
  have "level_ok ?st ?rt i" if "i < nat (ridx ts)" for i
  proof (cases "i = d")
    case True
    with rt(2) gp l ne that show ?thesis by (auto simp: level_ok_def fits_def)
  next
    case False
    with that have "i < d" by (simp add: d)
    with path_split obtain s where s: "s \<noteq> []" "?p = path ?st i @ s" by blast
    from rt(2) that obtain m zs where z: "get_at rt (path ?st i) = Some (RArray m zs)"
      "fits (t_elements (?st ! i)) zs (t_idx (?st ! Suc i))" by (auto simp: level_ok_def)
    from put_prefix_array [OF _ z(1) s(1)] l(1) obtain ws where
      "get_at ?rt (path ?st i) = Some (RArray m ws)" "length ws = length zs"
      by (auto simp: s(2))
    with z(2) rt(2) that show ?thesis
      by (auto simp: level_ok_def fits_def split: if_splits)
  qed
  moreover have "get_at ?rt (slot ts) = Some x"
    using get_append [OF gp, of "[nat ?j]"] j by (simp add: d path_Suc)
  ultimately show ?thesis using rt(1) sl by (simp add: filled_def)
qed

text \<open>Moving on from a filled slot: open levels stay, the index of the new current task is inside.\<close>

lemma move_levels:
  assumes "length (rstack ts) = 9" "-1 \<le> ridx ts" "ridx ts \<le> 8"
    and "0 < ridx ts \<longrightarrow> root ts = Some rt"
    and "\<And>i. i < nat (ridx ts) \<Longrightarrow> level_ok (rstack ts) rt i \<and> (\<exists>n xs. get_at rt (path (rstack ts) i) = Some (RArray n xs) \<and> xs \<noteq> [])"
  shows "\<exists>ts'. moveToNextTask ts = Inr ts' \<and> ts_ok ts' \<and> root ts' = root ts"
  using assms
proof (induction ts rule: moveToNextTask.induct)
  case (1 ts)
  note prems = "1.prems"
  let ?st = "rstack ts"
  show ?case
  proof (cases "ridx ts \<le> 0")
    case True
    with prems show ?thesis
      by (subst moveToNextTask.simps) (auto simp: ts_ok_def)
  next
    case False
    define d where "d = nat (ridx ts) - 1"
    have d: "nat (ridx ts) = Suc d" "nat (ridx ts - 1) = d" using False by (simp_all add: d_def)
    have rt: "root ts = Some rt" using prems(4) False by simp
    have d8: "d < 8" using prems(3) d by linarith
    have g: "get_task ts (ridx ts) = Inr (?st ! Suc d)" "get_task ts (ridx ts - 1) = Inr (?st ! d)"
      using prems(1,3) False by (auto simp: get_task_def d)
    let ?cur = "?st ! Suc d" and ?prv = "?st ! d"
    obtain n xs where l: "level_ok ?st rt d" "get_at rt (path ?st d) = Some (RArray n xs)" "xs \<noteq> []"
      using prems(5) [of d] by (auto simp: d)
    then have idx: "t_type ?prv = REDIS_REPLY_ARRAY" "0 \<le> t_idx ?cur" "t_idx ?cur < t_elements ?prv"
      by (auto simp: level_ok_def fits_def)
    show ?thesis
    proof (cases "t_idx ?cur = t_elements ?prv - 1")
      case True
      let ?ts = "ts\<lparr>ridx := ridx ts - 1\<rparr>"
      have "\<exists>ts'. moveToNextTask ?ts = Inr ts' \<and> ts_ok ts' \<and> root ts' = root ?ts"
        by (rule "1.IH" [of ?cur ?prv]) (use False g idx True prems in \<open>auto simp: d\<close>)
      moreover have "moveToNextTask ts = moveToNextTask ?ts"
        using False g idx True by (subst moveToNextTask.simps) simp
      ultimately show ?thesis by simp
    next
      case nlast: False
      let ?new = "?cur\<lparr>t_type := -1, t_elements := -1, t_idx := t_idx ?cur + 1\<rparr>"
      let ?st' = "?st[Suc d := ?new]"
      let ?ts = "ts\<lparr>rstack := ?st'\<rparr>"
      have m: "moveToNextTask ts = Inr ?ts"
        using False g idx nlast prems(1,3) d8
        by (subst moveToNextTask.simps) (auto simp: set_task_def d)
      have p: "path ?st' i = path ?st i" if "i \<le> d" for i
        using that by (intro path_cong) auto
      have "level_ok ?st' rt i" if i: "i \<le> d" for i
      proof -
        have lv: "level_ok ?st rt i" using prems(5) [of i] i by (simp add: d)
        show ?thesis
        proof (cases "i = d")
          case True
          with l idx nlast p [of d] d8 prems(1) show ?thesis
            by (auto simp: level_ok_def fits_def)
        next
          case False
          with lv p [OF i] i show ?thesis by (auto simp: level_ok_def)
        qed
      qed
      then have "ts_ok ?ts"
        using prems(1,2,3) False rt d8 by (auto simp: ts_ok_def d known_type_def less_Suc_eq_le)
      with m show ?thesis by simp
    qed
  qed
qed

lemma get_prefix: "get_at r (q @ s) = Some y \<Longrightarrow> \<exists>x. get_at r q = Some x"
  by (induction r q rule: get_at.induct) (auto split: if_splits option.splits)

lemma path_prefix: "i \<le> d \<Longrightarrow> \<exists>s. path st d = path st i @ s"
  using path_split [of i d st] by (cases "i = d") auto

lemma move_filled:
  assumes ok: "ts_ok ts" and nv: "\<not> vector_missing ts"
  shows "\<exists>ts'. moveToNextTask (filled ts x) = Inr ts' \<and> ts_ok ts' \<and> root ts' = root (filled ts x)"
proof (cases "0 < ridx ts")
  case False
  then show ?thesis
    using ok by (subst moveToNextTask.simps) (auto simp: ts_ok_def)
next
  case True
  obtain rt where rt: "root (filled ts x) = Some rt" "\<forall>i < nat (ridx ts). level_ok (rstack ts) rt i"
    "get_at rt (slot ts) = Some x"
    using filled_levels [OF ok nv True] by blast
  have ne: "\<exists>n xs. get_at rt (path (rstack ts) i) = Some (RArray n xs) \<and> xs \<noteq> []"
    if i: "i < nat (ridx ts)" for i
  proof -
    from rt(2) i obtain n xs where l: "get_at rt (path (rstack ts) i) = Some (RArray n xs)"
      by (auto simp: level_ok_def)
    from path_prefix [of "Suc i" "nat (ridx ts)"] i obtain s where
      "slot ts = path (rstack ts) i @ nat (t_idx (rstack ts ! Suc i)) # s"
      by (auto simp: path_Suc)
    with rt(3) get_append [OF l] have "get_at (RArray n xs) (nat (t_idx (rstack ts ! Suc i)) # s) = Some x"
      by simp
    then have "xs \<noteq> []" by (auto split: if_splits)
    with l show ?thesis by blast
  qed
  show ?thesis
    by (rule move_levels [of _ rt]) (use ok rt ne in \<open>auto simp: ts_ok_def\<close>)
qed

text \<open>An item that is not an open array: it fills its slot and the reader moves on.\<close>

definition completed :: "tasks \<Rightarrow> reply \<Rightarrow> tasks \<Rightarrow> bool" where
  "completed ts x ts' \<longleftrightarrow> ts_ok ts' \<and> root ts' \<noteq> None \<and> moveToNextTask (filled ts x) = Inr ts'"

lemma link_finish:
  assumes ok: "ts_ok ts" and r0: "0 \<le> ridx ts"
  shows "if vector_missing ts then bind_res (link ts x) (finish_spec ts0 rest) = Inl NullDeref
    else \<exists>ts'. bind_res (link ts x) (finish_spec ts0 rest) = Inr (Item rest ts') \<and> completed ts x ts'"
proof (cases "vector_missing ts")
  case True
  with link_spec [OF ok r0, of x] show ?thesis by simp
next
  case False
  with link_spec [OF ok r0, of x] obtain ts1 where l: "link ts x = Inr (Some (x, ts1))"
    "ridx ts1 = ridx ts" "(if ridx ts = 0 then ts1\<lparr>root := Some x\<rparr> else ts1) = filled ts x" by auto
  from move_filled [OF ok False] obtain ts' where
    "moveToNextTask (filled ts x) = Inr ts'" "ts_ok ts'" "root ts' = root (filled ts x)" by blast
  with False l show ?thesis by (simp add: finish_spec_def completed_def filled_root)
qed

text \<open>An array with elements to come: it fills its slot and a task for its first element is pushed.\<close>

definition opened :: "tasks \<Rightarrow> reply \<Rightarrow> int \<Rightarrow> tasks \<Rightarrow> bool" where
  "opened ts x e ts' \<longleftrightarrow> ts_ok ts' \<and> ridx ts' = ridx ts + 1 \<and> root ts' = root (filled ts x) \<and>
     rstack ts' = (rstack ts)[nat (ridx ts) := (rstack ts ! nat (ridx ts))\<lparr>t_elements := e,
         t_obj := Some (slot ts)\<rparr>, nat (ridx ts) + 1 := fresh_task 0]"

lemma array_levels:
  assumes ok: "ts_ok ts" and r0: "0 \<le> ridx ts" "ridx ts < 8" and nv: "\<not> vector_missing ts"
    and ty: "t_type (rstack ts ! nat (ridx ts)) = REDIS_REPLY_ARRAY"
    and x: "x = RArray n xs" "xs = (if 0 < e then replicate (nat e) None else [])"
  shows "\<exists>ts1 ts'. link ts x = Inr (Some (x, ts1)) \<and> push_task ts1 x e = Inr ts' \<and> opened ts x e ts'"
proof -
  let ?d = "nat (ridx ts)" and ?st = "rstack ts"
  from link_spec [OF ok r0(1), of x] nv obtain ts1 where l: "link ts x = Inr (Some (x, ts1))"
    "ridx ts1 = ridx ts" "(if ridx ts = 0 then ts1\<lparr>root := Some x\<rparr> else ts1) = filled ts x" by auto
  have st1: "rstack ts1 = ?st" using arg_cong [OF l(3), of rstack] by (simp split: if_splits)
  have rt1: "root (filled ts x) = (if ridx ts = 0 then Some x else root ts1)"
    using arg_cong [OF l(3), of root] by (auto split: if_splits)
  have len: "length ?st = 9" and d8: "?d < 8" using ok r0 by (auto simp: ts_ok_def)
  let ?cur = "?st ! ?d"
  let ?new = "?cur\<lparr>t_elements := e, t_obj := Some (slot ts)\<rparr>"
  let ?st' = "?st[?d := ?new, ?d + 1 := fresh_task 0]"
  let ?ts' = "ts1\<lparr>rstack := ?st', ridx := ridx ts + 1, root := root (filled ts x)\<rparr>"
  have path_obj: "obj_path ts1 = Inr (slot ts)"
  proof (cases "ridx ts = 0")
    case False
    define d where "d = ?d - 1"
    have d: "?d = Suc d" "nat (ridx ts - 1) = d" using False r0(1) by (simp_all add: d_def)
    have "t_obj (?st ! d) = Some (path ?st d)"
      using ok False r0(1) d by (auto simp: ts_ok_def level_ok_def)
    with False r0 d len d8 show ?thesis
      by (simp add: obj_path_def get_task_def l(2) st1 path_Suc)
  qed (simp add: obj_path_def l(2))
  have push: "push_task ts1 x e = Inr ?ts'"
    using r0 len d8 path_obj rt1
    by (simp add: push_task_def get_task_def set_task_def l(2) st1 nat_add_distrib)
  have p: "path ?st' i = path ?st i" if "i \<le> ?d" for i
    using that len d8 by (intro path_cong) (auto simp: nth_list_update)
  obtain rt where rt: "root (filled ts x) = Some rt" "\<forall>i < ?d. level_ok ?st rt i" "get_at rt (slot ts) = Some x"
  proof (cases "0 < ridx ts")
    case True
    with filled_levels [OF ok nv True, of x] that show ?thesis by auto
  next
    case False
    with r0 that rt1 show ?thesis by auto
  qed
  have "level_ok ?st' rt i" if i: "i \<le> ?d" for i
  proof (cases "i = ?d")
    case True
    with rt(3) p [of ?d] ty x len d8 show ?thesis
      by (auto simp: level_ok_def fits_def fresh_task_def nth_list_update)
  next
    case False
    with i have "i < ?d" by simp
    with rt(2) p [of i] len d8 show ?thesis
      by (auto simp: level_ok_def nth_list_update)
  qed
  then have "ts_ok ?ts'"
    using len r0 rt(1) d8 by (auto simp: ts_ok_def nat_add_distrib fresh_task_def known_type_def)
  then show ?thesis
    using l(1) push by (auto simp: opened_def)
qed

section \<open>What one item does\<close>

lemma set_type_ok:
  assumes ok: "ts_ok ts" and r0: "0 \<le> ridx ts" and ty: "known_type ty"
  defines "ts1 \<equiv> ts\<lparr>rstack := (rstack ts)[nat (ridx ts) := (rstack ts ! nat (ridx ts))\<lparr>t_type := ty\<rparr>]\<rparr>"
  shows "set_task ts (ridx ts) ((rstack ts ! nat (ridx ts))\<lparr>t_type := ty\<rparr>) = Inr ts1"
    "ts_ok ts1" "slot ts1 = slot ts" "vector_missing ts1 = vector_missing ts"
    "root (filled ts1 x) = root (filled ts x)"
proof -
  let ?d = "nat (ridx ts)" and ?st = "rstack ts"
  have len: "length ?st = 9" and d8: "?d \<le> 8" and r8: "ridx ts \<le> 8" using ok r0 by (auto simp: ts_ok_def)
  show "set_task ts (ridx ts) ((rstack ts ! ?d)\<lparr>t_type := ty\<rparr>) = Inr ts1"
    using len r8 r0 by (simp add: set_task_def ts1_def)
  have p: "path (rstack ts1) i = path ?st i" for i
    unfolding ts1_def by (rule path_cong) (use len d8 in \<open>auto simp: nth_list_update\<close>)
  then show sl: "slot ts1 = slot ts" by (simp add: ts1_def)
  show "vector_missing ts1 = vector_missing ts"
    using p by (simp add: vector_missing_def ts1_def)
  show "root (filled ts1 x) = root (filled ts x)"
    unfolding filled_def sl by (simp add: ts1_def)
  have "level_ok (rstack ts1) rt i = level_ok ?st rt i" if "i < ?d" for rt i
    using that p [of i] len d8 by (simp add: level_ok_def ts1_def nth_list_update)
  then show "ts_ok ts1"
    using ok ty r0 len d8 by (auto simp: ts_ok_def ts1_def)
qed

text \<open>What a step may return when \<open>u\<close> is unread: no fault but a NULL vector, and a valid state.\<close>

definition oc_ok :: "string \<Rightarrow> tasks \<Rightarrow> outcome res \<Rightarrow> bool" where
  "oc_ok u ts r =
     (case r of
        Inl f \<Rightarrow> f = NullDeref \<and> vector_missing ts
      | Inr (Item u' ts') \<Rightarrow> ts_ok ts' \<and> strict_suffix u' u \<and> root ts' \<noteq> None
      | Inr (Need u' ts') \<Rightarrow> ts_ok ts' \<and> 0 \<le> ridx ts' \<and> suffix u' u
      | Inr (Bad ts' e msg) \<Rightarrow> length (rstack ts') = 9 \<and> e \<noteq> 0)"

lemma oc_ok_simps [simp]:
  "oc_ok u ts (Inl f) = (f = NullDeref \<and> vector_missing ts)"
  "oc_ok u ts (Inr (Item u' ts')) = (ts_ok ts' \<and> strict_suffix u' u \<and> root ts' \<noteq> None)"
  "oc_ok u ts (Inr (Need u' ts')) = (ts_ok ts' \<and> 0 \<le> ridx ts' \<and> suffix u' u)"
  "oc_ok u ts (Inr (Bad ts' e msg)) = (length (rstack ts') = 9 \<and> e \<noteq> 0)"
  by (simp_all add: oc_ok_def)

lemma strict_suffix_drop: "0 < n \<Longrightarrow> n \<le> length u \<Longrightarrow> strict_suffix (drop n u) u"
  by (auto simp: strict_suffix_def suffix_drop dest: arg_cong [of _ _ length])

lemma created_ok:
  assumes "ts_ok ts" "0 \<le> ridx ts" "strict_suffix rest u"
  shows "oc_ok u ts (bind_res (link ts x) (finish_spec ts rest))"
  using link_finish [OF assms(1,2), of x ts rest] assms(3) by (auto simp: completed_def split: if_splits)

lemma oom_ok: "ts_ok ts \<Longrightarrow> oc_ok u ts (finish_spec ts rest None)"
  by (simp add: finish_spec_def REDIS_ERR_OOM_def ts_ok_def)

lemma string_created:
  assumes ok: "ts_ok ts" "0 \<le> ridx ts" "strict_suffix rest u" and n: "n \<le> length s"
    and ty: "t_type (rstack ts ! nat (ridx ts)) \<in> {REDIS_REPLY_ERROR, REDIS_REPLY_STATUS, REDIS_REPLY_STRING}"
  shows "oc_ok u ts (bind_res (createStringObject m ts s n) (finish_spec ts rest))"
proof -
  have "ridx ts \<le> 8" using ok by (simp add: ts_ok_def)
  with get_task_ok [OF ok(1,2)] ty n created_ok [OF ok] oom_ok [OF ok(1)] show ?thesis
    by (simp add: createStringObject_def read_from_def)
qed

lemma line_ok:
  assumes ok: "ts_ok ts" "0 \<le> ridx ts" and ty: "t_type (rstack ts ! nat (ridx ts)) = ty"
    "ty \<in> {REDIS_REPLY_ERROR, REDIS_REPLY_STATUS, REDIS_REPLY_INTEGER}"
  shows "oc_ok u ts (line_spec m u ts ty)"
proof (cases "find_crlf u")
  case None
  with ok show ?thesis by (simp add: line_spec_def)
next
  case (Some k)
  from find_crlf_split [OF this] have k: "k + 2 \<le> length u" by simp
  then have s: "strict_suffix (drop (k + 2) u) u" by (intro strict_suffix_drop) auto
  show ?thesis
  proof (cases "ty = REDIS_REPLY_INTEGER")
    case True
    with Some created_ok [OF ok s] oom_ok [OF ok(1)] show ?thesis
      by (simp add: line_spec_def createIntegerObject_def)
  next
    case False
    have "oc_ok u ts (bind_res (createStringObject m ts (take k u) k) (finish_spec ts (drop (k + 2) u)))"
      by (rule string_created [OF ok s]) (use ty False k in auto)
    with Some False show ?thesis by (simp add: line_spec_def)
  qed
qed

lemma bulk_ok:
  assumes ok: "ts_ok ts" "0 \<le> ridx ts" and ty: "t_type (rstack ts ! nat (ridx ts)) = REDIS_REPLY_STRING"
  shows "oc_ok u ts (bulk_spec m u ts)"
proof (cases "find_crlf u")
  case None
  with ok show ?thesis by (simp add: bulk_spec_def)
next
  case (Some k)
  from find_crlf_split [OF this] have k: "k + 2 \<le> length u" by simp
  then have s: "strict_suffix (drop (k + 2) u) u" by (intro strict_suffix_drop) auto
  let ?len = "sint (parse_long (take k u))"
  let ?n = "k + 2 + (nat ?len + 2)"
  consider "?len < 0" | "\<not> ?len < 0" "?n \<le> length u" | "\<not> ?len < 0" "\<not> ?n \<le> length u" by blast
  then show ?thesis
  proof cases
    case 1
    with Some created_ok [OF ok s] oom_ok [OF ok(1)] show ?thesis
      by (simp add: bulk_spec_def createNilObject_def)
  next
    case 2
    have s2: "strict_suffix (drop ?n u) u" using 2 by (intro strict_suffix_drop) auto
    have "oc_ok u ts (bind_res (createStringObject m ts (take (nat ?len) (drop (k + 2) u)) (nat ?len))
        (finish_spec ts (drop ?n u)))"
      by (rule string_created [OF ok s2]) (use ty 2 in auto)
    then show ?thesis
      unfolding bulk_spec_def Some option.case Let_def if_not_P [OF 2(1)] if_P [OF 2(2)] .
  next
    case 3
    show ?thesis
      unfolding bulk_spec_def Some option.case Let_def if_not_P [OF 3(1)] if_not_P [OF 3(2)]
      using ok by simp
  qed
qed

lemma multi_ok:
  assumes ok: "ts_ok ts" "0 \<le> ridx ts" and ty: "t_type (rstack ts ! nat (ridx ts)) = REDIS_REPLY_ARRAY"
  shows "oc_ok u ts (multi_spec m u ts)"
proof -
  have len: "length (rstack ts) = 9" using ok by (simp add: ts_ok_def)
  consider "ridx ts = 8" | "ridx ts \<noteq> 8" "find_crlf u = None"
    | k where "ridx ts \<noteq> 8" "find_crlf u = Some k" by auto
  then show ?thesis
  proof cases
    case 1
    with len show ?thesis by (simp add: multi_spec_def REDIS_ERR_PROTOCOL_def)
  next
    case 2
    with ok show ?thesis by (simp add: multi_spec_def)
  next
    case 3
    then have r8: "ridx ts < 8" using ok by (simp add: ts_ok_def)
    from find_crlf_split [OF 3(2)] have k: "k + 2 \<le> length u" by simp
    then have s: "strict_suffix (drop (k + 2) u) u" by (intro strict_suffix_drop) auto
    let ?v = "parse_long (take k u)"
    let ?x = "RArray (word_of_int (to_int ?v))
      (if 0 < to_int ?v then replicate (nat (to_int ?v)) None else [])"
    consider "?v = -1 \<or> \<not> 0 < sint ?v" | "?v \<noteq> -1" "0 < sint ?v" by auto
    then show ?thesis
    proof cases
      case 1
      with 3 created_ok [OF ok s] oom_ok [OF ok(1)] show ?thesis
        by (auto simp: multi_spec_def createNilObject_def createArrayObject_def Let_def)
    next
      case 2
      show ?thesis
      proof (cases "vector_missing ts")
        case True
        with 2 3 link_spec [OF ok, of ?x] show ?thesis
          by (simp add: multi_spec_def createArrayObject_def Let_def len REDIS_ERR_OOM_def)
      next
        case False
        from array_levels [OF ok r8 False ty refl refl, of "word_of_int (to_int ?v)" "to_int ?v"]
        obtain ts1 ts' where "link ts ?x = Inr (Some (?x, ts1))" "push_task ts1 ?x (to_int ?v) = Inr ts'"
          "opened ts ?x (to_int ?v) ts'" by blast
        with 2 3 s len show ?thesis
          by (simp add: multi_spec_def createArrayObject_def Let_def REDIS_ERR_OOM_def opened_def filled_root)
      qed
    qed
  qed
qed

lemma typed_ok:
  assumes "ts_ok ts" "0 \<le> ridx ts" "t_type (rstack ts ! nat (ridx ts)) = ty"
    "known_type ty" "\<not> ty < 0"
  shows "oc_ok u ts (typed_spec m u ts ty)"
  using assms line_ok [OF assms(1-3)] bulk_ok [OF assms(1,2)] multi_ok [OF assms(1,2)]
  by (auto simp: typed_spec_def known_type_def)

lemma reply_type_known: "reply_type_of c = Some ty \<Longrightarrow> known_type ty \<and> \<not> ty < 0"
  by (auto simp: reply_type_of_def known_type_def reply_types split: if_splits)

lemma item_ok:
  assumes ok: "ts_ok ts" "0 \<le> ridx ts"
  shows "oc_ok u ts (item_spec m u ts)"
proof -
  let ?cur = "rstack ts ! nat (ridx ts)"
  have g: "get_task ts (ridx ts) = Inr ?cur"
    using ok get_task_ok [OF ok] by (simp add: ts_ok_def)
  have kt: "known_type (t_type ?cur)" using ok by (simp add: ts_ok_def)
  show ?thesis
  proof (cases "t_type ?cur < 0")
    case False
    with g kt typed_ok [OF ok refl] show ?thesis by (simp add: item_spec_def)
  next
    case True
    show ?thesis
    proof (cases u)
      case Nil
      with True g ok show ?thesis by (simp add: item_spec_def)
    next
      case (Cons c u1)
      show ?thesis
      proof (cases "reply_type_of c")
        case None
        with True g Cons ok show ?thesis
          by (simp add: item_spec_def ts_ok_def REDIS_ERR_PROTOCOL_def)
      next
        case (Some ty)
        note kt = reply_type_known [OF Some]
        define ts1 where "ts1 = ts\<lparr>rstack := (rstack ts)[nat (ridx ts) := ?cur\<lparr>t_type := ty\<rparr>]\<rparr>"
        note st = set_type_ok [OF ok kt [THEN conjunct1], folded ts1_def]
        have r1: "0 \<le> ridx ts1" and t1: "t_type (rstack ts1 ! nat (ridx ts1)) = ty"
          using ok by (auto simp: ts1_def ts_ok_def)
        have "oc_ok u1 ts1 (typed_spec m u1 ts1 ty)" using typed_ok [OF st(2) r1 t1] kt by blast
        moreover have "item_spec m u ts = typed_spec m u1 ts1 ty"
          using True g Cons Some st(1) by (simp add: item_spec_def)
        ultimately show ?thesis
          using st(4) Cons
          by (auto simp: oc_ok_def suffix_ConsI strict_suffix_def split: sum.splits outcome.splits
              dest: suffix_length_le)
      qed
    qed
  qed
qed

end
