(* ===== verification/Reader_Chunks.thy ===== *)
theory Reader_Chunks
  imports Reader_Tasks
begin

text \<open>
  The whole parse, its independence of how the input is cut into chunks, and the invariant of the
  reader's public operations.
\<close>

section \<open>The whole parse\<close>

text \<open>Items until the reply is complete, input is missing, or an error; all allocations succeed.\<close>

fun spec_loop :: "nat \<Rightarrow> string \<Rightarrow> tasks \<Rightarrow> outcome res" where
  "spec_loop 0 u ts = Inl OutOfFuel"
| "spec_loop (Suc n) u ts =
     (if ridx ts < 0 then Inr (Item u ts)
      else bind_res (item_spec True u ts)
        (\<lambda>oc. case oc of Item u' ts' \<Rightarrow> spec_loop n u' ts' | _ \<Rightarrow> Inr oc))"

definition parse :: "string \<Rightarrow> tasks \<Rightarrow> outcome res" where
  "parse u ts = spec_loop (Suc (length u)) u ts"

lemma spec_loop_fuel:
  "ts_ok ts \<Longrightarrow> length u < n \<Longrightarrow> spec_loop n u ts = parse u ts"
proof (induction "length u" arbitrary: u ts n rule: less_induct)
  case less
  obtain k where n: "n = Suc k" "length u \<le> k" using less.prems(2) by (cases n) auto
  show ?case
  proof (cases "ridx ts < 0")
    case True
    then show ?thesis by (simp add: n parse_def)
  next
    case False
    with item_ok [OF less.prems(1), of u True] have io: "oc_ok u ts (item_spec True u ts)" by simp
    show ?thesis
    proof (cases "\<exists>u' ts'. item_spec True u ts = Inr (Item u' ts')")
      case True
      then obtain u' ts' where i: "item_spec True u ts = Inr (Item u' ts')" by blast
      with io have v: "ts_ok ts'" "length u' < length u"
        by (auto simp: strict_suffix_def suffix_def)
      have "spec_loop k u' ts' = parse u' ts'" "spec_loop (length u) u' ts' = parse u' ts'"
        using less.hyps [OF v(2,1)] v(2) n(2) by auto
      with i False show ?thesis by (simp add: n(1) parse_def)
    next
      case nitem: False
      with False show ?thesis
        by (cases "item_spec True u ts") (auto simp: n(1) parse_def split: outcome.splits)
    qed
  qed
qed

lemma parse_unfold:
  assumes "ts_ok ts"
  shows "parse u ts =
    (if ridx ts < 0 then Inr (Item u ts)
     else bind_res (item_spec True u ts)
       (\<lambda>oc. case oc of Item u' ts' \<Rightarrow> parse u' ts' | _ \<Rightarrow> Inr oc))"
proof (cases "ridx ts < 0")
  case False
  with item_ok [OF assms, of u True] have io: "oc_ok u ts (item_spec True u ts)" by simp
  show ?thesis
  proof (cases "item_spec True u ts")
    case (Inr oc)
    show ?thesis
    proof (cases oc)
      case (Item u' ts')
      with io Inr have "ts_ok ts'" "length u' < length u" by (auto simp: strict_suffix_def suffix_def)
      from spec_loop_fuel [OF this] have "spec_loop (length u) u' ts' = parse u' ts'" .
      with Inr Item False show ?thesis by (simp add: parse_def [of u])
    qed (use Inr False in \<open>simp_all add: parse_def\<close>)
  qed (use False in \<open>simp add: parse_def\<close>)
qed (simp add: parse_def)

lemma parse_ok: "ts_ok ts \<Longrightarrow> case parse u ts of
    Inl f \<Rightarrow> f = NullDeref
  | Inr (Item u' ts') \<Rightarrow> ts_ok ts' \<and> ridx ts' = -1 \<and> suffix u' u \<and> (root ts \<noteq> None \<or> 0 \<le> ridx ts \<longrightarrow> root ts' \<noteq> None)
  | Inr (Need u' ts') \<Rightarrow> ts_ok ts' \<and> 0 \<le> ridx ts' \<and> suffix u' u
  | Inr (Bad ts' e msg) \<Rightarrow> e \<noteq> 0"
proof (induction "length u" arbitrary: u ts rule: less_induct)
  case less
  note pu = parse_unfold [OF less.prems, of u]
  show ?case
  proof (cases "ridx ts < 0")
    case True
    with less.prems pu show ?thesis by (auto simp: ts_ok_def)
  next
    case False
    with item_ok [OF less.prems, of u True] have io: "oc_ok u ts (item_spec True u ts)" by simp
    show ?thesis
    proof (cases "item_spec True u ts")
      case (Inl f)
      with io False pu show ?thesis by simp
    next
      case (Inr oc)
      show ?thesis
      proof (cases oc)
        case (Item u' ts')
        with io Inr have v: "ts_ok ts'" "suffix u' u" "length u' < length u" "root ts' \<noteq> None"
          by (auto simp: strict_suffix_def suffix_def)
        have "parse u ts = parse u' ts'" using False pu Inr Item by simp
        with less.hyps [OF v(3,1)] v(2,4) show ?thesis
          by (auto split: sum.splits outcome.splits dest: suffix_order.trans)
      qed (use io Inr False pu in auto)
    qed
  qed
qed

subsection \<open>More input behind\<close>

text \<open>A step on more input: a complete item or an error is the same, and a step that waited can be
  repeated from where it stopped.\<close>

definition extended :: "outcome res \<Rightarrow> string \<Rightarrow> (string \<Rightarrow> tasks \<Rightarrow> outcome res) \<Rightarrow> outcome res" where
  "extended r w f =
     (case r of
        Inl e \<Rightarrow> Inl e
      | Inr (Item u ts) \<Rightarrow> Inr (Item (u @ w) ts)
      | Inr (Need u ts) \<Rightarrow> f (u @ w) ts
      | Inr (Bad ts e msg) \<Rightarrow> Inr (Bad ts e msg))"

lemma extended_simps [simp]:
  "extended (Inl flt) w f = Inl flt" "extended (Inr (Item u ts)) w f = Inr (Item (u @ w) ts)"
  "extended (Inr (Need u ts)) w f = f (u @ w) ts" "extended (Inr (Bad ts e msg)) w f = Inr (Bad ts e msg)"
  by (simp_all add: extended_def)

lemma extended_bind:
  assumes "\<And>x. m = Inr x \<Longrightarrow> g' x = extended (g x) w f"
  shows "bind_res m g' = extended (bind_res m g) w f"
  using assms by (cases m) auto

lemma extended_push:
  "bind_res m (\<lambda>ts'. Inr (Item (rest @ w) ts')) = extended (bind_res m (\<lambda>ts'. Inr (Item rest ts'))) w f"
  by (cases m) auto

lemma extended_finish: "finish_spec ts (rest @ w) obj = extended (finish_spec ts rest obj) w f"
proof (cases obj)
  case None
  then show ?thesis by (simp add: finish_spec_def)
next
  case (Some p)
  obtain x ts1 where "p = (x, ts1)" by force
  with Some show ?thesis
    by (cases "moveToNextTask (if ridx ts1 = 0 then ts1\<lparr>root := Some x\<rparr> else ts1)")
       (simp_all add: finish_spec_def)
qed

lemma line_extended: "line_spec m (u @ w) ts ty = extended (line_spec m u ts ty) w (\<lambda>u ts. line_spec m u ts ty)"
proof (cases "find_crlf u")
  case (Some k)
  from find_crlf_split [OF this] have k: "k + 2 \<le> length u" by simp
  have e: "take k (u @ w) = take k u" "drop (k + 2) (u @ w) = drop (k + 2) u @ w" using k by auto
  show ?thesis
    unfolding line_spec_def find_crlf_append [OF Some] Some option.case e
    by (rule extended_bind) (rule extended_finish)
qed (simp add: line_spec_def)

lemma bulk_extended: "bulk_spec m (u @ w) ts = extended (bulk_spec m u ts) w (bulk_spec m)"
proof (cases "find_crlf u")
  case (Some k)
  from find_crlf_split [OF this] have k: "k + 2 \<le> length u" by simp
  have e: "take k (u @ w) = take k u" "drop (k + 2) (u @ w) = drop (k + 2) u @ w" using k by auto
  let ?len = "sint (parse_long (take k u))"
  let ?n = "k + 2 + (nat ?len + 2)"
  consider "?len < 0" | "\<not> ?len < 0" "?n \<le> length u" | "\<not> ?len < 0" "\<not> ?n \<le> length u" by blast
  then show ?thesis
  proof cases
    case 1
    show ?thesis
      unfolding bulk_spec_def find_crlf_append [OF Some] Some option.case e Let_def if_P [OF 1]
      by (rule extended_bind) (rule extended_finish)
  next
    case 2
    then have fit: "?n \<le> length (u @ w)" and tk: "take (nat ?len) (drop (k + 2) u @ w) = take (nat ?len) (drop (k + 2) u)"
      and dr: "drop ?n (u @ w) = drop ?n u @ w" by auto
    show ?thesis
      unfolding bulk_spec_def find_crlf_append [OF Some] Some option.case e Let_def if_not_P [OF 2(1)]
        if_P [OF 2(2)] if_P [OF fit] tk dr
      by (rule extended_bind) (rule extended_finish)
  next
    case 3
    have "bulk_spec m u ts = Inr (Need u ts)"
      unfolding bulk_spec_def Some option.case Let_def if_not_P [OF 3(1)] if_not_P [OF 3(2)] ..
    then show ?thesis by simp
  qed
qed (simp add: bulk_spec_def)

lemma multi_extended: "multi_spec m (u @ w) ts = extended (multi_spec m u ts) w (multi_spec m)"
proof (cases "ridx ts = 8")
  case n8: False
  show ?thesis
  proof (cases "find_crlf u")
    case (Some k)
    from find_crlf_split [OF this] have k: "k + 2 \<le> length u" by simp
    have e: "take k (u @ w) = take k u" "drop (k + 2) (u @ w) = drop (k + 2) u @ w" using k by auto
    let ?v = "parse_long (take k u)"
    show ?thesis
    proof (cases "?v = -1")
      case True
      show ?thesis
        unfolding multi_spec_def if_not_P [OF n8] find_crlf_append [OF Some] Some option.case e Let_def if_P [OF True]
        by (rule extended_bind) (rule extended_finish)
    next
      case nil: False
      show ?thesis
      proof (cases "0 < sint ?v")
        case True
        show ?thesis
          unfolding multi_spec_def if_not_P [OF n8] find_crlf_append [OF Some] Some option.case e Let_def
            if_not_P [OF nil] if_P [OF True]
          by (rule extended_bind)
             (simp split: option.split prod.split add: extended_push)
      next
        case False
        show ?thesis
          unfolding multi_spec_def if_not_P [OF n8] find_crlf_append [OF Some] Some option.case e Let_def
            if_not_P [OF nil] if_not_P [OF False]
          by (rule extended_bind) (rule extended_finish)
      qed
    qed
  qed (simp add: multi_spec_def n8)
qed (simp add: multi_spec_def)

lemma typed_extended: "typed_spec m (u @ w) ts ty = extended (typed_spec m u ts ty) w (\<lambda>u ts. typed_spec m u ts ty)"
proof -
  consider "ty \<in> {REDIS_REPLY_ERROR, REDIS_REPLY_STATUS, REDIS_REPLY_INTEGER}" | "ty = REDIS_REPLY_STRING"
    | "ty = REDIS_REPLY_ARRAY"
    | "ty \<notin> {REDIS_REPLY_ERROR, REDIS_REPLY_STATUS, REDIS_REPLY_INTEGER, REDIS_REPLY_STRING, REDIS_REPLY_ARRAY}"
    by blast
  then show ?thesis
  proof cases
    case 1
    with line_extended [of m u w ts ty] show ?thesis by (auto simp: typed_spec_def)
  next
    case 2
    with bulk_extended [of m u w ts] show ?thesis by (simp add: typed_spec_def reply_types)
  next
    case 3
    with multi_extended [of m u w ts] show ?thesis by (simp add: typed_spec_def reply_types)
  next
    case 4
    then show ?thesis by (simp add: typed_spec_def)
  qed
qed

lemma typed_need: "typed_spec m u ts ty = Inr (Need u' ts') \<Longrightarrow> u' = u \<and> ts' = ts"
proof -
  have fin: "bind_res c (finish_spec ts rest) \<noteq> Inr (Need u' ts')" for c rest
    by (cases c) (auto simp: finish_spec_def split: option.splits)
  show "typed_spec m u ts ty = Inr (Need u' ts') \<Longrightarrow> u' = u \<and> ts' = ts"
    using fin
    by (auto simp: typed_spec_def line_spec_def bulk_spec_def multi_spec_def Let_def finish_spec_def
        split: if_splits option.splits)
qed

lemma item_extended:
  assumes "ts_ok ts" "0 \<le> ridx ts"
  shows "item_spec m (u @ w) ts = extended (item_spec m u ts) w (item_spec m)"
proof -
  let ?cur = "rstack ts ! nat (ridx ts)"
  have g: "get_task ts (ridx ts) = Inr ?cur"
    using assms get_task_ok [OF assms] by (simp add: ts_ok_def)
  have again: "item_spec m u' ts' = typed_spec m u' ts' ty"
    if "get_task ts' (ridx ts') = Inr c" "t_type c = ty" "\<not> ty < 0" for u' ts' c ty
    using that by (simp add: item_spec_def)
  have ext: "extended (typed_spec m v ts1 ty) w (\<lambda>u ts. typed_spec m u ts ty)
      = extended (typed_spec m v ts1 ty) w (item_spec m)"
    if "get_task ts1 (ridx ts1) = Inr c" "t_type c = ty" "\<not> ty < 0" for v ts1 c ty
    using again [OF that] typed_need [of m v ts1 ty]
    by (auto simp: extended_def split: sum.splits outcome.splits)
  show ?thesis
  proof (cases "t_type ?cur < 0")
    case False
    with g typed_extended [of m u w ts "t_type ?cur"] ext [OF g refl False, of u] show ?thesis
      by (simp add: item_spec_def)
  next
    case True
    show ?thesis
    proof (cases u)
      case Nil
      with True g show ?thesis by (simp add: item_spec_def)
    next
      case (Cons c v)
      show ?thesis
      proof (cases "reply_type_of c")
        case None
        with True g Cons show ?thesis by (simp add: item_spec_def)
      next
        case (Some ty)
        then have ty: "\<not> ty < 0" using reply_type_known by blast
        show ?thesis
        proof (cases "set_task ts (ridx ts) (?cur\<lparr>t_type := ty\<rparr>)")
          case (Inl f)
          with True g Cons Some show ?thesis by (simp add: item_spec_def)
        next
          case (Inr ts1)
          note sg = set_task_get [OF Inr]
          have "get_task ts1 (ridx ts1) = Inr (?cur\<lparr>t_type := ty\<rparr>)" using sg by simp
          note e = ext [OF this _ ty, of v]
          show ?thesis
            using True g Cons Some Inr typed_extended [of m v w ts1 ty] e by (simp add: item_spec_def)
        qed
      qed
    qed
  qed
qed

lemma parse_extended:
  "ts_ok ts \<Longrightarrow> parse (u @ w) ts = extended (parse u ts) w parse"
proof (induction "length u" arbitrary: u ts rule: less_induct)
  case less
  note pu = parse_unfold [OF less.prems]
  show ?case
  proof (cases "ridx ts < 0")
    case True
    with pu show ?thesis by simp
  next
    case False
    then have r0: "0 \<le> ridx ts" by simp
    note io = item_ok [OF less.prems r0, of u True]
    note ie = item_extended [OF less.prems r0, of True u w]
    show ?thesis
    proof (cases "item_spec True u ts")
      case (Inl f)
      with ie False pu [of u] pu [of "u @ w"] show ?thesis by simp
    next
      case (Inr oc)
      show ?thesis
      proof (cases oc)
        case (Item u' ts')
        with io Inr have v: "ts_ok ts'" "length u' < length u"
          by (auto simp: strict_suffix_def suffix_def)
        with less.hyps [OF v(2,1)] ie Inr Item False pu [of u] pu [of "u @ w"] show ?thesis by simp
      next
        case (Need u' ts')
        with io Inr have v: "ts_ok ts'" "0 \<le> ridx ts'" by auto
        with ie Inr Need False pu [of u] pu [of "u @ w"] parse_unfold [OF v(1), of "u' @ w"] show ?thesis
          by simp
      next
        case (Bad ts' e msg)
        with ie Inr False pu [of u] pu [of "u @ w"] show ?thesis by simp
      qed
    qed
  qed
qed

section \<open>The reader operations\<close>

definition reader_inv :: "reader \<Rightarrow> bool" where
  "reader_inv r \<longleftrightarrow>
     (if r_err r = 0 then rd_ok r \<and> ts_ok (r_tasks r)
      else r_buf r = None \<and> ridx (r_tasks r) = -1 \<and> root (r_tasks r) = None)"

lemma after_ok:
  fixes ts :: tasks
  assumes ok: "rd_ok r" and s: "suffix u (unread r)"
  defines "r' \<equiv> r\<lparr>r_pos := r_len r - length u, r_tasks := ts\<rparr>"
  shows "rd_ok r'" "unread r' = u" "after r' oc = after r oc"
proof -
  from ok obtain b where b: "r_buf r = Some b" "sds_inv b" "r_len r = sds_len b" "r_pos r \<le> sds_len b"
    "r_err r = 0" by (auto simp: rd_ok_def)
  note len = sds_str_length [OF b(2)]
  from s obtain p where p: "unread r = p @ u" by (auto simp: suffix_def)
  then have "sds_str b = (take (r_pos r) (sds_str b) @ p) @ u"
    using b(1) by (simp add: unread_def) (metis append_take_drop_id)
  then have d: "drop (sds_len b - length u) (sds_str b) = u"
    using len by (metis append_eq_conv_conj diff_add_inverse2 length_append)
  show "rd_ok r'" using b by (auto simp: rd_ok_def r'_def)
  show "unread r' = u" using b d by (simp add: unread_def r'_def)
  show "after r' oc = after r oc"
    using b by (cases oc) (auto simp: after_def r'_def redisReaderSetError_def)
qed

lemma error_inv: "e \<noteq> 0 \<Longrightarrow> reader_inv (redisReaderSetError r e msg)"
  by (simp add: reader_inv_def redisReaderSetError_def)

lemma loop_ok:
  "rd_ok r \<Longrightarrow> ts_ok (r_tasks r) \<Longrightarrow> length (unread r) < n \<Longrightarrow>
    case process_loop n mem r of Inl f \<Rightarrow> f = NullDeref | Inr r' \<Rightarrow> reader_inv r'"
proof (induction n mem r rule: process_loop.induct)
  case (2 n mem r)
  show ?case
  proof (cases "ridx (r_tasks r) < 0")
    case True
    with 2 show ?thesis by (auto simp: reader_inv_def rd_ok_def)
  next
    case False
    let ?m = "mem (r_pos r)"
    from False item_ok [OF "2.prems"(2), of "unread r" ?m] have io:
      "oc_ok (unread r) (r_tasks r) (item_spec ?m (unread r) (r_tasks r))" by simp
    note ref = item_refines [OF "2.prems"(1), of ?m]
    show ?thesis
    proof (cases "item_spec ?m (unread r) (r_tasks r)")
      case (Inl f)
      with io ref False show ?thesis by simp
    next
      case (Inr oc)
      show ?thesis
      proof (cases oc)
        case (Item u ts)
        with io Inr have v: "ts_ok ts" "suffix u (unread r)" "length u < length (unread r)"
          by (auto simp: strict_suffix_def suffix_def)
        let ?r = "r\<lparr>r_pos := r_len r - length u, r_tasks := ts\<rparr>"
        have p: "processItem ?m r = Inr (?r, True)" using ref Inr Item by (simp add: after_def)
        have "case process_loop n mem ?r of Inl f \<Rightarrow> f = NullDeref | Inr r' \<Rightarrow> reader_inv r'"
          by (rule "2.IH" [OF False p]) (use after_ok(1,2) [OF "2.prems"(1) v(2), of ts] v "2.prems" in auto)
        with p False show ?thesis by simp
      next
        case (Need u ts)
        with io Inr have v: "ts_ok ts" "suffix u (unread r)" by auto
        from Need Inr ref False after_ok(1) [OF "2.prems"(1) v(2), of ts] v show ?thesis
          by (auto simp: after_def reader_inv_def rd_ok_def)
      next
        case (Bad ts e msg)
        with io Inr ref False show ?thesis by (simp add: after_def error_inv)
      qed
    qed
  qed
qed simp

lemma loop_spec:
  "rd_ok r \<Longrightarrow> ts_ok (r_tasks r) \<Longrightarrow>
    process_loop n (\<lambda>_. True) r = bind_res (spec_loop n (unread r) (r_tasks r)) (\<lambda>oc. Inr (fst (after r oc)))"
proof (induction n arbitrary: r)
  case (Suc n)
  show ?case
  proof (cases "ridx (r_tasks r) < 0")
    case True
    with Suc.prems show ?thesis by (simp add: after_def pos_unread)
  next
    case False
    from False item_ok [OF Suc.prems(2), of "unread r" True] have io:
      "oc_ok (unread r) (r_tasks r) (item_spec True (unread r) (r_tasks r))" by simp
    note ref = item_refines [OF Suc.prems(1), of True]
    show ?thesis
    proof (cases "item_spec True (unread r) (r_tasks r)")
      case (Inl f)
      with io ref False show ?thesis by simp
    next
      case (Inr oc)
      show ?thesis
      proof (cases oc)
        case (Item u ts)
        with io Inr have v: "ts_ok ts" "suffix u (unread r)" by (auto simp: strict_suffix_def)
        let ?r = "r\<lparr>r_pos := r_len r - length u, r_tasks := ts\<rparr>"
        note a = after_ok [OF Suc.prems(1) v(2), of ts]
        have p: "processItem True r = Inr (?r, True)" using ref Inr Item by (simp add: after_def)
        have "process_loop n (\<lambda>_. True) ?r = bind_res (spec_loop n u ts) (\<lambda>oc. Inr (fst (after r oc)))"
          using Suc.IH [of ?r] a v(1) by simp
        with p False Inr Item show ?thesis by simp
      qed (use Inr ref False in \<open>simp_all add: after_def\<close>)
    qed
  qed
qed simp

lemma start_root_ok:
  assumes "ts_ok ts"
  shows "ts_ok (start_root ts)" "0 \<le> ridx (start_root ts)"
  using assms by (auto simp: start_root_def ts_ok_def fresh_task_def known_type_def)

lemma buffer_trim_ok:
  assumes ok: "rd_ok r"
  shows "\<exists>r'. trim_buffer r = Inr r' \<and> rd_ok r' \<and> unread r' = unread r \<and> r_tasks r' = r_tasks r
    \<and> r_errstr r' = r_errstr r \<and> r_err r' = r_err r"
proof (cases "1024 \<le> r_pos r")
  case True
  from ok obtain b where b: "r_buf r = Some b" "sds_inv b" "r_len r = sds_len b" "r_pos r \<le> sds_len b"
    "r_err r = 0" by (auto simp: rd_ok_def)
  from range_drop [OF b(2,4)] obtain b' where b': "sdsrange b (int (r_pos r)) (-1) = Inr b'"
    "sds_inv b'" "sds_str b' = drop (r_pos r) (sds_str b)" by blast
  with b True show ?thesis
    by (simp add: trim_buffer_def rd_ok_def unread_def sdslen_def)
qed (use ok in \<open>simp add: trim_buffer_def\<close>)

lemma getreply_ok:
  assumes inv: "reader_inv r"
  shows "case redisReaderGetReply mem r of
      Inl f \<Rightarrow> f = NullDeref
    | Inr (r', x, ok) \<Rightarrow> reader_inv r' \<and> ok = (r_err r' = 0) \<and> (x \<noteq> None \<longrightarrow> ok)"
proof (cases "r_err r \<noteq> 0 \<or> r_len r = 0")
  case True
  with inv show ?thesis by (auto simp: redisReaderGetReply_def)
next
  case False
  let ?r0 = "r\<lparr>r_tasks := start_root (r_tasks r)\<rparr>"
  from False inv have ok: "rd_ok r" "ts_ok (r_tasks r)" by (auto simp: reader_inv_def)
  then have ok0: "rd_ok ?r0" "ts_ok (r_tasks ?r0)" using start_root_ok by (auto simp: rd_ok_def)
  have "length (unread ?r0) < r_len r + 1" using ok0(1) by (elim rd_okD) auto
  note l = loop_ok [OF ok0 this, of mem]
  show ?thesis
  proof (cases "process_loop (r_len r + 1) mem ?r0")
    case (Inl f)
    with l False show ?thesis by (simp add: redisReaderGetReply_def)
  next
    case (Inr r1)
    with l have i1: "reader_inv r1" by simp
    show ?thesis
    proof (cases "r_err r1 = 0")
      case e0: False
      with Inr i1 False show ?thesis by (simp add: redisReaderGetReply_def)
    next
      case e0: True
      with i1 have "rd_ok r1" "ts_ok (r_tasks r1)" by (auto simp: reader_inv_def)
      with buffer_trim_ok obtain r2 where r2: "trim_buffer r1 = Inr r2" "rd_ok r2" "r_tasks r2 = r_tasks r1" "r_err r2 = 0"
        using e0 by metis
      have "reader_inv (r2\<lparr>r_tasks := (r_tasks r2)\<lparr>root := None\<rparr>\<rparr>)" if "ridx (r_tasks r2) = -1"
        using r2 \<open>ts_ok (r_tasks r1)\<close> that by (auto simp: reader_inv_def rd_ok_def ts_ok_def)
      moreover have "reader_inv r2" using r2 \<open>ts_ok (r_tasks r1)\<close> by (simp add: reader_inv_def)
      ultimately show ?thesis using Inr e0 False r2 by (simp add: redisReaderGetReply_def)
    qed
  qed
qed

text \<open>Feeding appends to the unread bytes.\<close>

lemma feed_ok:
  assumes inv: "reader_inv r" and al: "good_alloc al" "al 1 \<noteq> None" and n: "n \<le> length x"
  shows "\<exists>r' ok. redisReaderFeed al r x n = Inr (r', ok) \<and> reader_inv r' \<and> ok = (r_err r' = 0) \<and>
    (ok \<longrightarrow> unread r' = unread r @ take n x \<and> r_tasks r' = r_tasks r \<and> r_errstr r' = r_errstr r
       \<and> (r_len r' = 0 \<longleftrightarrow> r_len r = 0 \<and> n = 0))"
proof (cases "r_err r \<noteq> 0 \<or> n = 0")
  case True
  with inv show ?thesis by (auto simp: redisReaderFeed_def)
next
  case False
  with inv have ok: "rd_ok r" "ts_ok (r_tasks r)" by (auto simp: reader_inv_def)
  from ok obtain b where b: "r_buf r = Some b" "sds_inv b" "r_len r = sds_len b" "r_pos r \<le> sds_len b"
    "r_err r = 0" by (auto simp: rd_ok_def)
  have "\<exists>s1 r1. (if r_len r = 0 \<and> r_maxbuf r \<noteq> 0 \<and> r_maxbuf r < sdsavail b
        then bind_res (sdsempty al) (\<lambda>e. case e of None \<Rightarrow> Inl AssertFailed
               | Some s1 \<Rightarrow> Inr (s1, r\<lparr>r_buf := Some s1, r_pos := 0\<rparr>))
        else Inr (b, r)) = Inr (s1, r1) \<and> sds_inv s1 \<and> r_buf r1 = Some s1 \<and> r_err r1 = 0
      \<and> r_pos r1 \<le> sds_len s1 \<and> drop (r_pos r1) (sds_str s1) = unread r \<and> r_tasks r1 = r_tasks r \<and> r_errstr r1 = r_errstr r"
  proof (cases "r_len r = 0 \<and> r_maxbuf r \<noteq> 0 \<and> r_maxbuf r < sdsavail b")
    case True
    have h: "holds (sdsempty al) []" using empty_holds [OF al(1)] .
    have ne: "sdsempty al \<noteq> Inr None"
      using newlen_holds [OF al(1), of 0 "[NUL]"] al(2) by (simp add: sdsempty_def)
    from h ne obtain e where e: "sdsempty al = Inr (Some e)" "sds_inv e" "sds_str e = []"
      by (cases "(sdsempty al, [] :: string)" rule: holds.cases) auto
    have "unread r = []" using b True sds_str_length [OF b(2)] by (simp add: unread_def)
    with e True b show ?thesis by auto
  next
    case False
    with b show ?thesis by (auto simp: unread_def)
  qed
  then obtain s1 r1 where r1: "(if r_len r = 0 \<and> r_maxbuf r \<noteq> 0 \<and> r_maxbuf r < sdsavail b
        then bind_res (sdsempty al) (\<lambda>e. case e of None \<Rightarrow> Inl AssertFailed
               | Some s1 \<Rightarrow> Inr (s1, r\<lparr>r_buf := Some s1, r_pos := 0\<rparr>))
        else Inr (b, r)) = Inr (s1, r1)" "sds_inv s1" "r_buf r1 = Some s1" "r_err r1 = 0"
      "r_pos r1 \<le> sds_len s1" "drop (r_pos r1) (sds_str s1) = unread r" "r_tasks r1 = r_tasks r"
      "r_errstr r1 = r_errstr r" by blast
  have f: "redisReaderFeed al r x n = bind_res (sdscatlen al s1 x n) (\<lambda>nb. case nb of
        None \<Rightarrow> Inr (redisReaderSetErrorOOM r1, False)
      | Some s2 \<Rightarrow> Inr (r1\<lparr>r_buf := Some s2, r_len := sdslen s2\<rparr>, True))"
    using False b(1) r1(1) by (simp add: redisReaderFeed_def)
  note h = catlen_holds [OF al(1) r1(2) n, THEN conjunct1]
  show ?thesis
  proof (cases "(sdscatlen al s1 x n, sds_str s1 @ take n x)" rule: holds.cases)
    case (2 str)
    then show ?thesis
      by (simp add: f error_inv redisReaderSetErrorOOM_def REDIS_ERR_OOM_def) 
         (simp add: redisReaderSetError_def)
  next
    case (3 s2 str)
    with h have s2: "sds_inv s2" "sds_str s2 = sds_str s1 @ take n x" by auto
    then have l2: "sds_len s2 = sds_len s1 + n"
      using sds_str_length [OF r1(2)] n by (metis length_append length_take min_absorb2 sds_str_length)
    let ?r = "r1\<lparr>r_buf := Some s2, r_len := sdslen s2\<rparr>"
    have "unread ?r = unread r @ take n x"
      using r1(5,6) s2 sds_str_length [OF r1(2)] by (simp add: unread_def)
    moreover have "reader_inv ?r"
      using r1 s2 l2 ok(2) by (simp add: reader_inv_def rd_ok_def sdslen_def)
    ultimately show ?thesis
      using 3 r1 l2 False by (simp add: f sdslen_def)
  qed (use h in auto)
qed

section \<open>Chunks\<close>

text \<open>What a client can see of a reader, and of the result of \<open>redisReaderGetReply\<close>.\<close>

definition view :: "reader \<Rightarrow> nat \<times> string \<times> string \<times> tasks" where
  "view r = (r_err r, r_errstr r, unread r, r_tasks r)"

definition seen :: "(reader \<times> reply option \<times> bool) res \<Rightarrow>
    ((nat \<times> string \<times> string \<times> tasks) \<times> reply option \<times> bool) res" where
  "seen m = bind_res m (\<lambda>(r, x, ok). Inr (view r, x, ok))"

definition answer :: "string \<Rightarrow> outcome \<Rightarrow> (nat \<times> string \<times> string \<times> tasks) \<times> reply option \<times> bool" where
  "answer es oc =
     (case oc of
        Item u ts \<Rightarrow> ((0, es, u, ts\<lparr>root := None\<rparr>), root ts, True)
      | Need u ts \<Rightarrow> ((0, es, u, ts), None, True)
      | Bad ts e msg \<Rightarrow> ((e, take 127 msg, [], ts\<lparr>root := None, ridx := -1\<rparr>), None, False))"

lemma getreply_view:
  assumes inv: "reader_inv r" and e0: "r_err r = 0"
  shows "seen (redisReaderGetReply (\<lambda>_. True) r) =
    (if r_len r = 0 then Inr (view r, None, True)
     else bind_res (parse (unread r) (start_root (r_tasks r))) (\<lambda>oc. Inr (answer (r_errstr r) oc)))"
proof (cases "r_len r = 0")
  case True
  with e0 show ?thesis by (simp add: redisReaderGetReply_def seen_def)
next
  case False
  let ?r0 = "r\<lparr>r_tasks := start_root (r_tasks r)\<rparr>" and ?ts = "start_root (r_tasks r)"
  from e0 inv have ok: "rd_ok r" "ts_ok (r_tasks r)" by (auto simp: reader_inv_def)
  then have ok0: "rd_ok ?r0" "ts_ok ?ts" using start_root_ok by (auto simp: rd_ok_def)
  have u0: "unread ?r0 = unread r" by (simp add: unread_def split: option.split)
  have "length (unread r) < r_len r + 1" using ok(1) by (elim rd_okD) auto
  note sp = spec_loop_fuel [OF ok0(2) this]
  have l: "process_loop (r_len r + 1) (\<lambda>_. True) ?r0 =
      bind_res (parse (unread r) ?ts) (\<lambda>oc. Inr (fst (after ?r0 oc)))"
    using loop_spec [OF ok0(1), of "r_len r + 1"] ok0(2) sp by (simp add: u0)
  note po = parse_ok [OF ok0(2), of "unread r"]
  show ?thesis
  proof (cases "parse (unread r) ?ts")
    case (Inl f)
    with l e0 False show ?thesis by (simp add: redisReaderGetReply_def seen_def)
  next
    case (Inr oc)
    have good: "seen (redisReaderGetReply (\<lambda>_. True) r) = Inr (answer (r_errstr r) oc)"
      if s: "suffix u (unread r)" and c: "oc = Item u ts \<and> ridx ts = -1 \<or> oc = Need u ts \<and> 0 \<le> ridx ts" for u ts
    proof -
      let ?r1 = "?r0\<lparr>r_pos := r_len r - length u, r_tasks := ts\<rparr>"
      have a: "rd_ok ?r1" "unread ?r1 = u" using after_ok [OF ok0(1), of u ts] s u0 by auto
      have f: "fst (after ?r0 oc) = ?r1" using c by (auto simp: after_def)
      from buffer_trim_ok [OF a(1)] obtain r2 where r2: "trim_buffer ?r1 = Inr r2"
        "unread r2 = u" "r_tasks r2 = ts" "r_errstr r2 = r_errstr r" "r_err r2 = 0"
        using a e0 by auto
      have ur: "unread (r2\<lparr>r_tasks := t\<rparr>) = u" for t
        using r2(2) by (simp add: unread_def split: option.splits)
      show ?thesis
        using c l Inr False e0 f r2 ur
        by (auto simp: redisReaderGetReply_def seen_def answer_def view_def)
    qed
    show ?thesis
    proof (cases oc)
      case (Item u ts)
      with po Inr good [of u ts] False show ?thesis by simp
    next
      case (Need u ts)
      with po Inr good [of u ts] False show ?thesis by simp
    next
      case (Bad ts e msg)
      with po Inr have "e \<noteq> 0" by simp
      then show ?thesis
        using Bad l Inr False e0
        by (simp add: redisReaderGetReply_def seen_def answer_def view_def after_def
            redisReaderSetError_def unread_def)
    qed
  qed
qed

lemma start_root_open [simp]: "0 \<le> ridx ts \<Longrightarrow> start_root ts = ts"
  by (simp add: start_root_def)

lemma chunks_ok:
  assumes inv: "reader_inv r" and al: "good_alloc al" "al 1 \<noteq> None"
    and f1: "redisReaderFeed al r x (length x) = Inr (r1, True)"
    and g1: "redisReaderGetReply (\<lambda>_. True) r1 = Inr (r2, None, True)"
    and f2: "redisReaderFeed al r2 y (length y) = Inr (r3, True)"
    and f: "redisReaderFeed al r (x @ y) (length (x @ y)) = Inr (s, True)"
  shows "seen (redisReaderGetReply (\<lambda>_. True) r3) = seen (redisReaderGetReply (\<lambda>_. True) s)"
proof -
  note F1 = feed_ok [OF inv al, of "length x" x]
  have r1: "reader_inv r1" "r_err r1 = 0" "unread r1 = unread r @ x" "r_tasks r1 = r_tasks r"
    "r_errstr r1 = r_errstr r" "r_len r1 = 0 \<longleftrightarrow> r_len r = 0 \<and> length x = 0"
    using F1 f1 by auto
  define z where "z = x @ y"
  note F = feed_ok [OF inv al, of "length z" z]
  have s: "reader_inv s" "r_err s = 0" "unread s = unread r @ x @ y" "r_tasks s = r_tasks r"
    "r_errstr s = r_errstr r" "r_len s = 0 \<longleftrightarrow> r_len r = 0 \<and> length (x @ y) = 0"
    using F f unfolding z_def [symmetric] by (auto simp: z_def)
  have r2: "reader_inv r2" "r_err r2 = 0"
    using getreply_ok [OF r1(1), of "\<lambda>_. True"] g1 by auto
  note F2 = feed_ok [OF r2(1) al, of "length y" y]
  have r3: "reader_inv r3" "r_err r3 = 0" "unread r3 = unread r2 @ y" "r_tasks r3 = r_tasks r2"
    "r_errstr r3 = r_errstr r2" "r_len r3 = 0 \<longleftrightarrow> r_len r2 = 0 \<and> length y = 0"
    using F2 f2 by auto
  have ts: "ts_ok (r_tasks r)" using r1 by (simp add: reader_inv_def)
  note st = start_root_ok [OF ts]
  show ?thesis
  proof (cases "r_len r1 = 0")
    case True
    then have "r2 = r1" using g1 r1(2) by (simp add: redisReaderGetReply_def)
    moreover have "x = []" "r_len r = 0" using True r1(6) by auto
    ultimately show ?thesis
      using r1 r3 s getreply_view [OF r3(1,2)] getreply_view [OF s(1,2)] by (auto simp: view_def)
  next
    case False
    with g1 getreply_view [OF r1(1,2)] have
      p: "bind_res (parse (unread r @ x) (start_root (r_tasks r))) (\<lambda>oc. Inr (answer (r_errstr r) oc))
        = Inr (view r2, None, True)" by (simp add: seen_def r1(3-5))
    then obtain oc where oc: "parse (unread r @ x) (start_root (r_tasks r)) = Inr oc"
      "answer (r_errstr r) oc = (view r2, None, True)" by auto
    from oc parse_ok [OF st(1), of "unread r @ x"] st(2) obtain u t where
      need: "oc = Need u t" "ts_ok t" "0 \<le> ridx t" "view r2 = (0, r_errstr r, u, t)"
      by (cases oc) (auto simp: answer_def)
    then have v2: "unread r2 = u" "r_tasks r2 = t" "r_errstr r2 = r_errstr r" by (auto simp: view_def)
    have ext: "parse (unread r @ x @ y) (start_root (r_tasks r)) = parse (u @ y) t"
      using parse_extended [OF st(1), of "unread r @ x" y] oc(1) need(1) by simp
    have ns: "r_len s \<noteq> 0" using False r1(6) s(6) by auto
    have S: "seen (redisReaderGetReply (\<lambda>_. True) s) =
        bind_res (parse (u @ y) t) (\<lambda>oc. Inr (answer (r_errstr r) oc))"
      using getreply_view [OF s(1,2)] ns ext by (simp add: s(3-5))
    show ?thesis
    proof (cases "r_len r3 = 0")
      case True
      then have y: "y = []" using r3(6) by simp
      have again: "parse u t = Inr (Need u t)"
        using parse_extended [OF st(1), of "unread r @ x" "[]"] oc(1) need(1) by simp
      have "view r3 = view r2" using r2 r3 y by (simp add: view_def)
      then show ?thesis
        using getreply_view [OF r3(1,2)] True S again y need(4) by (simp add: answer_def)
    next
      case False
      then show ?thesis
        using getreply_view [OF r3(1,2)] S need(3) v2 by (simp add: r3(3-5))
    qed
  qed
qed

section \<open>Properties\<close>

definition idle_reader :: "string \<Rightarrow> reader" where
  "idle_reader x = \<lparr>r_err = 0, r_errstr = [], r_buf = Some (demo_sds x), r_pos = 0, r_len = length x,
     r_maxbuf = REDIS_READER_MAX_BUF, r_tasks = no_tasks\<rparr>"

lemma no_tasks_ok: "ts_ok no_tasks"
  by (simp add: ts_ok_def no_tasks_def)

lemma idle_reader_inv: "reader_inv (idle_reader x)" "unread (idle_reader x) = x"
  "r_err (idle_reader x) = 0"
  by (auto simp: reader_inv_def rd_ok_def unread_def idle_reader_def no_tasks_ok) (simp_all add: demo_sds_def)



text \<open>\<open>redisReaderFeed\<close> appends the bytes to the unread input, whether or not it replaced a large
  empty buffer, or leaves the reader in an error state; it does nothing else.\<close>

theorem reader_feed_appends:
  assumes "reader_inv r" "good_alloc al" "al 1 \<noteq> None" "n \<le> length x"
  shows "\<exists>r' ok. redisReaderFeed al r x n = Inr (r', ok) \<and> reader_inv r' \<and> ok = (r_err r' = 0) \<and>
    (ok \<longrightarrow> unread r' = unread r @ take n x \<and> r_tasks r' = r_tasks r \<and> r_errstr r' = r_errstr r
       \<and> (r_len r' = 0 \<longleftrightarrow> r_len r = 0 \<and> n = 0))"
  using assms by (rule feed_ok)

lemma zero_alloc_1: "zero_alloc 1 \<noteq> None"
  by (simp add: zero_alloc_def)

lemma feed_zero_alloc:
  assumes "reader_inv r" "r_err r = 0"
  shows "\<exists>r'. redisReaderFeed zero_alloc r x (length x) = Inr (r', True)"
proof -
  have total: "sdscatlen zero_alloc s x (length x) \<noteq> Inr None" for s
    by (auto simp: sdscatlen_def sdsMakeRoomFor_def realloc_def zero_alloc_def Let_def write_at_def
        read_from_def split: if_splits)
  from feed_ok [OF assms(1) good_alloc_zero zero_alloc_1, of "length x" x] obtain r' ok where
    f: "redisReaderFeed zero_alloc r x (length x) = Inr (r', ok)" by blast
  have "ok" if "redisReaderFeed zero_alloc r x (length x) = Inr (r', ok)"
    using that assms(2) total
    by (auto simp: redisReaderFeed_def split: if_splits option.splits)
  with f show ?thesis by (cases ok) auto
qed

theorem reader_feed_appends_witness:
  "\<exists>r'. redisReaderFeed zero_alloc (idle_reader ''+O'') ''Kx'' 1 = Inr (r', True) \<and> unread r' = ''+OK''"
proof -
  have "case redisReaderFeed zero_alloc (idle_reader ''+O'') ''Kx'' 1 of Inr (r', True) \<Rightarrow> True | _ \<Rightarrow> False"
    by code_simp
  then show ?thesis
    using reader_feed_appends [OF idle_reader_inv(1) good_alloc_zero zero_alloc_1, of 1 "''Kx''" "''+O''"]
    by (auto simp: idle_reader_inv split: sum.splits bool.splits)
qed

text \<open>C9: how the input is cut into chunks does not matter: feeding \<open>x\<close>, asking for a reply in vain and
  feeding \<open>y\<close> gives the same reply, error, unread input and pending tasks as feeding both at once.\<close>

theorem reader_chunks:
  assumes "reader_inv r" "good_alloc al" "al 1 \<noteq> None"
    and "redisReaderFeed al r x (length x) = Inr (r1, True)"
    and "redisReaderGetReply (\<lambda>_. True) r1 = Inr (r2, None, True)"
    and "redisReaderFeed al r2 y (length y) = Inr (r3, True)"
    and "redisReaderFeed al r (x @ y) (length (x @ y)) = Inr (s, True)"
  shows "seen (redisReaderGetReply (\<lambda>_. True) r3) = seen (redisReaderGetReply (\<lambda>_. True) s)"
  using assms by (rule chunks_ok)

lemma reader_feed_inv_ex:
  "reader_inv r \<Longrightarrow> redisReaderFeed zero_alloc r x (length x) = Inr (r', ok) \<Longrightarrow> reader_inv r'"
  using feed_ok [OF _ good_alloc_zero zero_alloc_1, of r "length x" x] by auto

theorem reader_chunks_witness:
  "\<exists>r1 r2 r3 s. redisReaderFeed zero_alloc (idle_reader []) ''$2'' 2 = Inr (r1, True)
     \<and> redisReaderGetReply (\<lambda>_. True) r1 = Inr (r2, None, True)
     \<and> redisReaderFeed zero_alloc r2 ([CR, LF] @ ''ab'' @ [CR, LF]) 6 = Inr (r3, True)
     \<and> seen (redisReaderGetReply (\<lambda>_. True) r3) = seen (redisReaderGetReply (\<lambda>_. True) s)"
proof -
  let ?x = "''$2''" and ?y = "[CR, LF] @ ''ab'' @ [CR, LF]" and ?r = "idle_reader []"
  have l: "length ?x = 2" "length ?y = 6" by simp_all
  obtain r1 where r1: "redisReaderFeed zero_alloc ?r ?x (length ?x) = Inr (r1, True)"
    using feed_zero_alloc [OF idle_reader_inv(1,3)] by blast
  have "case redisReaderFeed zero_alloc ?r ?x 2 of
      Inr (r1, True) \<Rightarrow> (case redisReaderGetReply (\<lambda>_. True) r1 of Inr (r2, None, True) \<Rightarrow> True | _ \<Rightarrow> False)
    | _ \<Rightarrow> False" by code_simp
  with r1 obtain r2 where r2: "redisReaderGetReply (\<lambda>_. True) r1 = Inr (r2, None, True)"
    unfolding l by (auto split: sum.splits option.splits bool.splits)
  have i1: "reader_inv r1"
    using reader_feed_inv_ex [OF idle_reader_inv(1) r1] .
  have i2: "reader_inv r2" "r_err r2 = 0" using getreply_ok [OF i1, of "\<lambda>_. True"] r2 by auto
  obtain r3 where r3: "redisReaderFeed zero_alloc r2 ?y (length ?y) = Inr (r3, True)"
    using feed_zero_alloc [OF i2] by blast
  obtain s where s: "redisReaderFeed zero_alloc ?r (?x @ ?y) (length (?x @ ?y)) = Inr (s, True)"
    using feed_zero_alloc [OF idle_reader_inv(1,3)] by blast
  from reader_chunks [OF idle_reader_inv(1) good_alloc_zero zero_alloc_1 r1 r2 r3 s] r1 r2 r3
  show ?thesis unfolding l by blast
qed

lemma seen_fault: "seen m = Inl f \<Longrightarrow> m = Inl f"
  by (cases m) (auto simp: seen_def)


text \<open>A byte that starts no reply puts an idle reader into the protocol error, with the message that
  quotes the byte, and the error is final: the buffer is gone, and feeding or asking for a reply
  returns REDIS_ERR and changes nothing.\<close>

theorem bad_byte_is_final:
  assumes "reader_inv r" "r_err r = 0" "ridx (r_tasks r) = -1" "unread r = c # u"
    "reply_type_of c = None"
  shows "\<exists>r'. redisReaderGetReply (\<lambda>_. True) r = Inr (r', None, False) \<and>
     r_err r' = REDIS_ERR_PROTOCOL \<and> r_errstr r' = bad_byte c \<and> r_buf r' = None \<and>
     redisReaderFeed al r' x n = Inr (r', False) \<and> redisReaderGetReply mem r' = Inr (r', None, False)"
proof -
  let ?ts = "start_root (r_tasks r)"
  have ok: "rd_ok r" "ts_ok (r_tasks r)" using assms(1,2) by (auto simp: reader_inv_def)
  then have ln: "r_len r \<noteq> 0" using assms(4) by (elim rd_okD) auto
  note st = start_root_ok [OF ok(2)]
  have t: "ridx ?ts = 0" "t_type (rstack ?ts ! 0) = -1"
    using ok(2) assms(3) by (auto simp: start_root_def fresh_task_def ts_ok_def)
  have g: "get_task ?ts 0 = Inr (rstack ?ts ! 0)" using get_task_ok [OF st(1), of 0] by simp
  have "item_spec True (c # u) ?ts = Inr (Bad ?ts REDIS_ERR_PROTOCOL (bad_byte c))"
    using t assms(5) g by (simp add: item_spec_def)
  then have "parse (c # u) ?ts = Inr (Bad ?ts REDIS_ERR_PROTOCOL (bad_byte c))"
    using parse_unfold [OF st(1), of "c # u"] t by simp
  with getreply_view [OF assms(1,2)] ln assms(4)
  have "seen (redisReaderGetReply (\<lambda>_. True) r) = Inr (answer (r_errstr r) (Bad ?ts REDIS_ERR_PROTOCOL (bad_byte c)))"
    by simp
  then obtain r' where r': "redisReaderGetReply (\<lambda>_. True) r = Inr (r', None, False)"
    "r_err r' = REDIS_ERR_PROTOCOL" "r_errstr r' = take 127 (bad_byte c)"
    by (auto simp: seen_def answer_def view_def)
  have e: "r_err r' \<noteq> 0" using r'(2) by (simp add: REDIS_ERR_PROTOCOL_def)
  have "r_buf r' = None" using getreply_ok [OF assms(1), of "\<lambda>_. True"] r'(1) e by (simp add: reader_inv_def)
  with r' e bad_byte_length [of c] show ?thesis
    by (simp add: redisReaderFeed_def redisReaderGetReply_def)
qed

theorem bad_byte_is_final_witness:
  "\<exists>r'. redisReaderGetReply (\<lambda>_. True) (idle_reader ''HTTP'') = Inr (r', None, False)
     \<and> r_errstr r' = ''Protocol error, got \"H\" as reply type byte''"
proof -
  have "reply_type_of CHR ''H'' = None" "bad_byte CHR ''H'' = ''Protocol error, got \"H\" as reply type byte''"
    by code_simp+
  then show ?thesis
    using bad_byte_is_final [OF idle_reader_inv(1,3) _ idle_reader_inv(2) [of "''HTTP''"], where al = zero_alloc and x = "[]" and n = 0 and mem = "\<lambda>_. True"]
    by (auto simp: idle_reader_def no_tasks_def)
qed

end
