(* ===== verification/Reader_Roundtrip.thy ===== *)
theory Reader_Roundtrip
  imports Reader_Chunks
begin

text \<open>
  Round trip: a reply encoded as the server encodes it is read back as the same reply.
\<close>

section \<open>Round trip with the protocol's encoding\<close>

abbreviation CRLF :: string where "CRLF \<equiv> [CR, LF]"

text \<open>A reply as the server writes it. Only replies satisfying \<open>wire_ok\<close> have an encoding: lines
  without CR, lengths that fit the fields they are read into, no NULL elements, and at most \<open>d\<close>
  nested arrays.\<close>

fun encode :: "reply \<Rightarrow> string" where
  "encode (RString ty s) =
     (if ty = REDIS_REPLY_STRING then CHR ''$'' # dec (length s) @ CRLF @ s @ CRLF
      else (if ty = REDIS_REPLY_STATUS then CHR ''+'' else CHR ''-'') # s @ CRLF)"
| "encode (RInteger v) = CHR '':'' # dec_int (sint v) @ CRLF"
| "encode RNil = ''$-1'' @ CRLF"
| "encode (RArray n xs) = CHR ''*'' # dec (length xs) @ CRLF @
     concat (map (\<lambda>x. case x of None \<Rightarrow> [] | Some r \<Rightarrow> encode r) xs)"

fun wire_ok :: "nat \<Rightarrow> reply \<Rightarrow> bool" where
  "wire_ok d (RString ty s) \<longleftrightarrow>
     (if ty = REDIS_REPLY_STRING then length s < 2 ^ 31
      else ty \<in> {REDIS_REPLY_STATUS, REDIS_REPLY_ERROR} \<and> CR \<notin> set s)"
| "wire_ok d (RInteger v) \<longleftrightarrow> True"
| "wire_ok d RNil \<longleftrightarrow> True"
| "wire_ok d (RArray n xs) \<longleftrightarrow> 0 < d \<and> length xs < 2 ^ 31 \<and> n = word_of_int (int (length xs)) \<and>
     (\<forall>x \<in> set xs. case x of None \<Rightarrow> False | Some r \<Rightarrow> wire_ok (d - 1) r)"

subsection \<open>Numbers on the wire\<close>

lemma long_loop_digits:
  "(\<And>c. c \<in> set ds \<Longrightarrow> is_digit c) \<Longrightarrow>
    long_loop m v (ds @ [CR]) = Inr (m * foldl (\<lambda>v c. v * 10 + word_of_int (digit_val c)) v ds)"
proof (induction ds arbitrary: v)
  case (Cons c ds)
  then have "is_digit c" by simp
  moreover from this have "c \<noteq> CR" by auto
  ultimately show ?case using Cons by simp
qed simp

lemma foldl_undec:
  "foldl (\<lambda>v c. v * 10 + word_of_int (digit_val c)) (word_of_int i :: u64) ds
     = word_of_int (foldl (\<lambda>v c. v * 10 + digit_val c) i ds)"
proof (induction ds arbitrary: i)
  case (Cons c ds)
  have "word_of_int i * 10 + (word_of_int (digit_val c) :: u64) = word_of_int (i * 10 + digit_val c)"
    by simp
  then show ?case using Cons [of "i * 10 + digit_val c"] by (simp del: of_int_add of_int_mult)
qed simp

lemma long_loop_dec: "long_loop m 0 (dec n @ [CR]) = Inr (m * word_of_int (int n))"
  using long_loop_digits [of "dec n" m 0] foldl_undec [of 0 "dec n"] dec_is_digit [of _ n]
    undec_dec [of n] by (simp add: undec_def)

lemma parse_long_dec: "parse_long (dec n) = word_of_int (int n)"
proof -
  obtain c ds where d: "dec n = c # ds" by (cases "dec n") auto
  with dec_is_digit [of c n] have "is_digit c" by simp
  then have "c \<noteq> CHR ''-''" "c \<noteq> CHR ''+''" by auto
  with d long_loop_dec [of 1 n] show ?thesis
    by (simp add: parse_long_def readLongLong_def del: long_loop.simps)
qed

lemma parse_long_dec_int: "parse_long (dec_int (sint v)) = v"
proof (cases "sint v < 0")
  case True
  then have "parse_long (dec_int (sint v)) = - 1 * word_of_int (- sint v)"
    using long_loop_dec [of "-1" "nat (- sint v)"]
    by (simp add: parse_long_def readLongLong_def dec_int_def)
  then show ?thesis by simp
next
  case False
  then show ?thesis using parse_long_dec [of "nat (sint v)"] by (simp add: dec_int_def)
qed

lemma dec_no_CR: "CR \<notin> set (dec n)"
  using dec_is_digit by fastforce

lemma dec_int_no_CR: "CR \<notin> set (dec_int i)"
  using dec_no_CR by (auto simp: dec_int_def)

lemma sint_small: "n < 2 ^ 31 \<Longrightarrow> sint (word_of_int (int n) :: u64) = int n"
  by (subst int_word_sint) (simp add: mod_pos_pos_trivial)

lemma to_int_small:
  assumes "n < 2 ^ 31"
  shows "to_int (word_of_int (int n)) = int n"
proof -
  have "is_down (ucast :: u64 \<Rightarrow> u32)" by (simp add: is_down)
  then have "(ucast (word_of_int (int n) :: u64) :: u32) = word_of_int (int n)" by (rule ucast_down_wi)
  then have "to_int (word_of_int (int n)) = sint (word_of_int (int n) :: u32)" by (simp only: to_int_def)
  also have "\<dots> = int n" using assms by (subst int_word_sint) (simp add: mod_pos_pos_trivial)
  finally show ?thesis .
qed

subsection \<open>Stale tasks\<close>

text \<open>Tasks above the current one, and the object field of the current one, are left over from
  earlier items. Two stacks that agree on the rest move on in the same way.\<close>

definition sim :: "tasks \<Rightarrow> tasks \<Rightarrow> bool" where
  "sim a b \<longleftrightarrow> ridx a = ridx b \<and> root a = root b \<and> length (rstack a) = length (rstack b) \<and>
     (\<forall>i < nat (ridx a). rstack a ! i = rstack b ! i) \<and>
     (0 \<le> ridx a \<longrightarrow> t_idx (rstack a ! nat (ridx a)) = t_idx (rstack b ! nat (ridx a)))"

lemma sim_refl [simp]: "sim a a"
  by (simp add: sim_def)

lemma sim_trans: "sim a b \<Longrightarrow> sim b c \<Longrightarrow> sim a c"
  by (auto simp: sim_def)

lemma sim_sym: "sim a b \<Longrightarrow> sim b a"
  by (auto simp: sim_def)

lemma move_sim:
  "sim a b \<Longrightarrow> moveToNextTask a = Inr a' \<Longrightarrow> \<exists>b'. moveToNextTask b = Inr b' \<and> sim a' b'"
proof (induction a arbitrary: b rule: moveToNextTask.induct)
  case (1 a)
  show ?case
  proof (cases "ridx a \<le> 0")
    case True
    with "1.prems" show ?thesis
      by (auto simp: sim_def moveToNextTask.simps [of a] moveToNextTask.simps [of b] split: if_splits)
  next
    case False
    define d where "d = nat (ridx a) - 1"
    have d: "nat (ridx a) = Suc d" "nat (ridx a - 1) = d" using False by (simp_all add: d_def)
    note s = "1.prems"(1) [unfolded sim_def]
    let ?ca = "rstack a ! Suc d" and ?p = "rstack a ! d" and ?cb = "rstack b ! Suc d"
    have s': "ridx b = ridx a" "root b = root a" "length (rstack b) = length (rstack a)"
      "rstack b ! d = ?p" "t_idx ?cb = t_idx ?ca"
      using s False d by (simp_all add: less_Suc_eq_le)
    have lv: "rstack b ! i = rstack a ! i" if "i \<le> d" for i using s that d by simp
    have bound: "ridx a < int (length (rstack a))"
      using "1.prems"(2) False by (auto simp: moveToNextTask.simps [of a] get_task_def split: if_splits)
    have g: "get_task a (ridx a) = Inr ?ca" "get_task a (ridx a - 1) = Inr ?p"
      "get_task b (ridx a) = Inr ?cb" "get_task b (ridx a - 1) = Inr ?p"
      using bound False s' by (auto simp: get_task_def d)
    have t: "t_type ?p = REDIS_REPLY_ARRAY"
      using "1.prems"(2) False g by (auto simp: moveToNextTask.simps [of a] split: if_splits)
    show ?thesis
    proof (cases "t_idx ?ca = t_elements ?p - 1")
      case True
      let ?a = "a\<lparr>ridx := ridx a - 1\<rparr>" and ?b = "b\<lparr>ridx := ridx a - 1\<rparr>"
      have m: "moveToNextTask a = moveToNextTask ?a" "moveToNextTask b = moveToNextTask ?b"
        using False g t True s' moveToNextTask.simps [of a] moveToNextTask.simps [of b] by simp_all
      have "sim ?a ?b" using s' lv by (auto simp: sim_def d)
      moreover have "moveToNextTask ?a = Inr a'" using "1.prems"(2) m(1) by simp
      ultimately have "\<exists>b'. moveToNextTask ?b = Inr b' \<and> sim a' b'"
        using False g(1,2) t True by (intro "1.IH" [of ?ca ?p ?b]) simp_all
      then show ?thesis unfolding m(2) .
    next
      case nl: False
      then have lt: "t_idx ?ca < t_elements ?p"
        using "1.prems"(2) False g t nl by (auto simp: moveToNextTask.simps [of a] split: if_splits)
      let ?n = "\<lambda>c. c\<lparr>t_type := -1, t_elements := -1, t_idx := t_idx c + 1\<rparr>"
      have m: "moveToNextTask a = Inr (a\<lparr>rstack := (rstack a)[Suc d := ?n ?ca]\<rparr>)"
        "moveToNextTask b = Inr (b\<lparr>rstack := (rstack b)[Suc d := ?n ?cb]\<rparr>)"
        using False g t nl lt s' bound
        by (simp_all add: moveToNextTask.simps [of a] moveToNextTask.simps [of b] set_task_def d)
      then have a': "a' = a\<lparr>rstack := (rstack a)[Suc d := ?n ?ca]\<rparr>" using "1.prems"(2) by simp
      have "Suc d < length (rstack a)" using bound d by linarith
      then show ?thesis
        unfolding m a' using s' d lv by (auto simp: sim_def nth_list_update)
    qed
  qed
qed

lemma move_fresh:
  "moveToNextTask a = Inr a' \<Longrightarrow> 0 \<le> ridx a' \<Longrightarrow> t_type (rstack a' ! nat (ridx a')) = -1"
proof (induction a rule: moveToNextTask.induct)
  case (1 a)
  then show ?case
    by (subst (asm) (2) moveToNextTask.simps)
       (auto simp: set_task_def get_task_def split: if_splits)
qed

subsection \<open>One reply\<close>

definition ready :: "tasks \<Rightarrow> bool" where
  "ready ts \<longleftrightarrow> ts_ok ts \<and> 0 \<le> ridx ts \<and> \<not> vector_missing ts \<and> t_type (rstack ts ! nat (ridx ts)) < 0"

text \<open>From \<open>ts\<close>, reading \<open>bs\<close> before \<open>u\<close> puts \<open>x\<close> into the current slot and moves on.\<close>

definition delivered :: "tasks \<Rightarrow> string \<Rightarrow> string \<Rightarrow> reply \<Rightarrow> bool" where
  "delivered ts bs u x \<longleftrightarrow> (\<exists>ts' b. parse (bs @ u) ts = parse u ts' \<and> ts_ok ts' \<and>
     moveToNextTask (filled ts x) = Inr b \<and> sim ts' b \<and>
     (0 \<le> ridx ts' \<longrightarrow> t_type (rstack ts' ! nat (ridx ts')) < 0))"

abbreviation typed :: "tasks \<Rightarrow> int \<Rightarrow> tasks" where
  "typed ts ty \<equiv> ts\<lparr>rstack := (rstack ts)[nat (ridx ts) := (rstack ts ! nat (ridx ts))\<lparr>t_type := ty\<rparr>]\<rparr>"

lemma typed_facts:
  assumes "ready ts" "reply_type_of c = Some ty"
  shows "ts_ok (typed ts ty)" "0 \<le> ridx (typed ts ty)" "\<not> vector_missing (typed ts ty)"
    "sim (filled (typed ts ty) x) (filled ts x)" "root (filled (typed ts ty) x) = root (filled ts x)"
    "slot (typed ts ty) = slot ts"
    "t_type (rstack (typed ts ty) ! nat (ridx ts)) = ty"
    "item_spec True (c # v) ts = typed_spec True v (typed ts ty) ty"
proof -
  have r: "ts_ok ts" "0 \<le> ridx ts" "\<not> vector_missing ts" using assms(1) by (auto simp: ready_def)
  note kt = reply_type_known [OF assms(2)]
  note st = set_type_ok [OF r(1,2) kt [THEN conjunct1]]
  have len: "length (rstack ts) = 9" "ridx ts \<le> 8" using r by (auto simp: ts_ok_def)
  show "ts_ok (typed ts ty)" "\<not> vector_missing (typed ts ty)" "slot (typed ts ty) = slot ts"
    "root (filled (typed ts ty) x) = root (filled ts x)"
    using st(2-5) r(3) by simp_all
  show "0 \<le> ridx (typed ts ty)" using r by simp
  show "t_type (rstack (typed ts ty) ! nat (ridx ts)) = ty" using len r by simp
  show "sim (filled (typed ts ty) x) (filled ts x)"
    using st(5) [of x] len r by (auto simp: sim_def)
  show "item_spec True (c # v) ts = typed_spec True v (typed ts ty) ty"
    using assms get_task_ok [OF r(1,2)] len st(1) by (simp add: item_spec_def ready_def)
qed

lemma scalar_delivered:
  assumes rd: "ready ts" and c: "reply_type_of c = Some ty"
    and s: "typed_spec True (body @ u) (typed ts ty) ty =
      bind_res (link (typed ts ty) x) (finish_spec (typed ts ty) u)"
  shows "delivered ts (c # body) u x"
proof -
  note t = typed_facts [OF rd c]
  from link_finish [OF t(1,2), of x "typed ts ty" u] t(3) obtain ts' where
    l: "bind_res (link (typed ts ty) x) (finish_spec (typed ts ty) u) = Inr (Item u ts')"
    "completed (typed ts ty) x ts'" by auto
  then have m: "moveToNextTask (filled (typed ts ty) x) = Inr ts'" "ts_ok ts'" by (auto simp: completed_def)
  from move_sim [OF t(4) m(1)] obtain b where b: "moveToNextTask (filled ts x) = Inr b" "sim ts' b" by blast
  have "parse ((c # body) @ u) ts = parse u ts'"
    using rd parse_unfold [of ts "c # body @ u"] t(8) [of "body @ u"] s l(1) by (simp add: ready_def)
  with m b move_fresh [OF m(1)] show ?thesis by (auto simp: delivered_def)
qed

lemma line_typed:
  assumes "CR \<notin> set s" "ty \<in> {REDIS_REPLY_STATUS, REDIS_REPLY_ERROR}" "ts_ok ts" "0 \<le> ridx ts"
    "t_type (rstack ts ! nat (ridx ts)) = ty"
  shows "typed_spec True (s @ CRLF @ u) ts ty = bind_res (link ts (RString ty s)) (finish_spec ts u)"
proof -
  have f: "find_crlf (s @ CR # LF # u) = Some (length s)" using assms(1) by (rule find_crlf_line)
  have n: "ty \<noteq> REDIS_REPLY_INTEGER" using assms(2) by (auto simp: reply_types)
  have "ridx ts \<le> 8" using assms(3) by (simp add: ts_ok_def)
  with get_task_ok [OF assms(3,4)] assms(2,5) n f show ?thesis
    by (auto simp: typed_spec_def line_spec_def createStringObject_def read_from_def)
qed

lemma reply_types_distinct:
  "REDIS_REPLY_STRING \<noteq> REDIS_REPLY_STATUS" "REDIS_REPLY_STRING \<noteq> REDIS_REPLY_ERROR"
  "REDIS_REPLY_STRING \<noteq> REDIS_REPLY_INTEGER" "REDIS_REPLY_ARRAY \<noteq> REDIS_REPLY_STATUS"
  "REDIS_REPLY_ARRAY \<noteq> REDIS_REPLY_ERROR" "REDIS_REPLY_ARRAY \<noteq> REDIS_REPLY_INTEGER"
  "REDIS_REPLY_ARRAY \<noteq> REDIS_REPLY_STRING"
  by (simp_all add: reply_types)

lemma bulk_typed:
  assumes "length s < 2 ^ 31" "ts_ok ts" "0 \<le> ridx ts" "t_type (rstack ts ! nat (ridx ts)) = REDIS_REPLY_STRING"
  shows "typed_spec True ((dec (length s) @ CRLF @ s @ CRLF) @ u) ts REDIS_REPLY_STRING
    = bind_res (link ts (RString REDIS_REPLY_STRING s)) (finish_spec ts u)"
proof -
  let ?d = "dec (length s)"
  have f: "find_crlf (?d @ CR # LF # s @ CR # LF # u) = Some (length ?d)"
    using dec_no_CR by (rule find_crlf_line)
  have v: "sint (parse_long ?d) = int (length s)" unfolding parse_long_dec using assms(1) by (rule sint_small)
  have "ridx ts \<le> 8" using assms(2) by (simp add: ts_ok_def)
  with get_task_ok [OF assms(2,3)] assms(4) f v show ?thesis
    by (simp add: typed_spec_def bulk_spec_def createStringObject_def read_from_def reply_types_distinct
        eval_nat_numeral)
qed

lemma integer_typed:
  "typed_spec True ((dec_int (sint v) @ CRLF) @ u) ts REDIS_REPLY_INTEGER
    = bind_res (link ts (RInteger v)) (finish_spec ts u)"
proof -
  have "find_crlf (dec_int (sint v) @ CR # LF # u) = Some (length (dec_int (sint v)))"
    using dec_int_no_CR by (rule find_crlf_line)
  then show ?thesis
    by (simp add: typed_spec_def line_spec_def createIntegerObject_def parse_long_dec_int)
qed

lemma nil_typed:
  "typed_spec True ((''-1'' @ CRLF) @ u) ts REDIS_REPLY_STRING = bind_res (link ts RNil) (finish_spec ts u)"
proof -
  have f: "find_crlf (''-1'' @ CR # LF # u) = Some 2" using find_crlf_line [of "''-1''" u] by simp
  have p: "parse_long ''-1'' = -1"
    by code_simp
  from f p show ?thesis
    by (simp add: typed_spec_def bulk_spec_def createNilObject_def reply_types_distinct)
qed

text \<open>An array header opens the array, or completes an empty one.\<close>

lemma array_typed:
  assumes "n < 2 ^ 31" "ridx ts \<noteq> 8"
  defines "x \<equiv> RArray (word_of_int (int n)) (replicate n None)"
  shows "typed_spec True ((dec n @ CRLF) @ u) ts REDIS_REPLY_ARRAY =
    (if n = 0 then bind_res (link ts x) (finish_spec ts u)
     else bind_res (link ts x) (\<lambda>obj. case obj of
         None \<Rightarrow> Inr (Bad ts REDIS_ERR_OOM ''Out of memory'')
       | Some (x, ts1) \<Rightarrow> bind_res (push_task ts1 x (int n)) (\<lambda>ts'. Inr (Item u ts'))))"
proof -
  have f: "find_crlf (dec n @ CR # LF # u) = Some (length (dec n))" using dec_no_CR by (rule find_crlf_line)
  have v: "sint (parse_long (dec n)) = int n" "to_int (parse_long (dec n)) = int n"
    unfolding parse_long_dec by (rule sint_small [OF assms(1)], rule to_int_small [OF assms(1)])
  then have "parse_long (dec n) \<noteq> -1" by auto
  with f v assms(2) show ?thesis
    by (simp add: typed_spec_def multi_spec_def createArrayObject_def reply_types_distinct x_def Let_def)
       (unfold v, simp)
qed

subsection \<open>Arrays\<close>

text \<open>The state after the first \<open>i\<close> elements of an array \<open>RArray n\<close> opened at \<open>ts\<close>: the array is in the
  slot of \<open>ts\<close> with those elements, and the current task is element \<open>i\<close>.\<close>

definition partial :: "u64 \<Rightarrow> reply list \<Rightarrow> nat \<Rightarrow> reply" where
  "partial n rs i = RArray n (map Some (take i rs) @ replicate (length rs - i) None)"

definition inside :: "tasks \<Rightarrow> u64 \<Rightarrow> reply list \<Rightarrow> nat \<Rightarrow> tasks \<Rightarrow> bool" where
  "inside ts n rs i S \<longleftrightarrow> ts_ok S \<and> ridx S = ridx ts + 1 \<and>
     t_idx (rstack S ! nat (ridx S)) = int i \<and> t_type (rstack S ! nat (ridx S)) < 0 \<and>
     t_elements (rstack S ! nat (ridx ts)) = int (length rs) \<and>
     t_idx (rstack S ! nat (ridx ts)) = t_idx (rstack ts ! nat (ridx ts)) \<and>
     (\<forall>k < nat (ridx ts). rstack S ! k = rstack ts ! k) \<and>
     root S = root (filled ts (partial n rs i))"

lemma filled_get:
  assumes "ready ts"
  shows "\<exists>rt. root (filled ts x) = Some rt \<and> get_at rt (slot ts) = Some x"
proof (cases "0 < ridx ts")
  case True
  with assms filled_levels [of ts x] show ?thesis by (auto simp: ready_def)
next
  case False
  then show ?thesis by (auto simp: filled_def split: option.splits)
qed

lemma put_again:
  assumes "get_at t q = Some (RArray n xs)" "j < length xs"
  shows "put_at (put_at t (q @ [j]) x) (q @ [j]) z = put_at t (q @ [j]) z"
  using assms put_put [OF assms(1), of "RArray n (xs[j := Some x])" "[j]" z]
  by (simp add: put_append split: option.splits)

lemma filled_twice:
  assumes "ready ts" "root (filled ts x) = Some rt"
  shows "put_at rt (slot ts @ q) y = the (root (filled ts (put_at x q y)))"
proof (cases "0 < ridx ts")
  case False
  then have "nat (ridx ts) = 0" by simp
  with assms(2) show ?thesis by (auto simp: filled_def split: option.splits)
next
  case True
  define d where "d = nat (ridx ts) - 1"
  have d: "nat (ridx ts) = Suc d" using True by (simp add: d_def)
  from assms(1) True obtain t where t: "root ts = Some t" "level_ok (rstack ts) t d"
    by (auto simp: ready_def ts_ok_def d)
  from t(2) obtain n xs where l: "get_at t (path (rstack ts) d) = Some (RArray n xs)"
    "fits (t_elements (rstack ts ! d)) xs (t_idx (rstack ts ! Suc d))" by (auto simp: level_ok_def)
  have "xs \<noteq> []" using assms(1) t(1) l(1) True by (auto simp: ready_def vector_missing_def d)
  then have j: "nat (t_idx (rstack ts ! Suc d)) < length xs" using l(2) by (auto simp: fits_def)
  have rt: "rt = put_at t (slot ts) x" using assms(2) t by (simp add: filled_def)
  from filled_get [OF assms(1), of x] assms(2) have g: "get_at rt (slot ts) = Some x" by simp
  show ?thesis
    using put_append [OF g, of q y] put_again [OF l(1) j, of x "put_at x q y"] t
    by (simp add: filled_def rt d path_Suc)
qed

lemma inside_facts:
  assumes rd: "ready ts" and ins: "inside ts n rs i S" and i: "i < length rs"
  shows "ready S" "slot S = slot ts @ [i]"
    "root (filled S (rs ! i)) = root (filled ts (partial n rs (Suc i)))"
proof -
  let ?d = "nat (ridx ts)"
  have r0: "0 \<le> ridx ts" using rd by (simp add: ready_def)
  have S: "ts_ok S" "ridx S = ridx ts + 1" "nat (ridx S) = Suc ?d" "t_idx (rstack S ! Suc ?d) = int i"
    "t_type (rstack S ! Suc ?d) < 0" "root S = root (filled ts (partial n rs i))"
    "\<forall>k < ?d. rstack S ! k = rstack ts ! k" "t_idx (rstack S ! ?d) = t_idx (rstack ts ! ?d)"
    using ins r0 by (auto simp: inside_def nat_add_distrib)
  have p: "path (rstack S) ?d = slot ts"
    using S(7,8) by (intro path_cong) (metis le_neq_implies_less)
  then show sl: "slot S = slot ts @ [i]" using S by (simp add: path_Suc)
  from filled_get [OF rd] obtain rt where rt: "root (filled ts (partial n rs i)) = Some rt"
    "get_at rt (slot ts) = Some (partial n rs i)" by blast
  have "\<not> vector_missing S" using rt S p i by (auto simp: vector_missing_def partial_def)
  then show "ready S" using S r0 by (simp add: ready_def)
  have step: "put_at (partial n rs i) [i] (rs ! i) = partial n rs (Suc i)"
  proof -
    have "replicate (length rs - i) (None :: reply option) = None # replicate (length rs - Suc i) None"
      using i by (metis Suc_diff_Suc replicate_Suc)
    then show ?thesis using i by (simp add: partial_def take_Suc_conv_app_nth list_update_append nth_append)
  qed
  have "root (filled S (rs ! i)) = Some (put_at rt (slot ts @ [i]) (rs ! i))"
    using S(6) rt(1) sl by (simp add: filled_def)
  also have "\<dots> = root (filled ts (partial n rs (Suc i)))"
    using filled_twice [OF rd rt(1), of "[i]" "rs ! i"] filled_root(2) [of ts "partial n rs (Suc i)"]
    by (auto simp: step)
  finally show "root (filled S (rs ! i)) = root (filled ts (partial n rs (Suc i)))" .
qed

text \<open>Moving on from element \<open>i\<close>: to the next element, or out of the array.\<close>

lemma inside_move:
  assumes rd: "ready ts" and ins: "inside ts n rs i S" and i: "i < length rs"
    and m: "moveToNextTask (filled S (rs ! i)) = Inr b" and s: "sim S' b" and ok: "ts_ok S'"
    and ty: "0 \<le> ridx S' \<longrightarrow> t_type (rstack S' ! nat (ridx S')) < 0"
  shows "if Suc i < length rs then inside ts n rs (Suc i) S'
    else \<exists>b'. moveToNextTask (filled ts (RArray n (map Some rs))) = Inr b' \<and> sim S' b'"
proof -
  let ?d = "nat (ridx ts)" and ?F = "filled S (rs ! i)"
  have r0: "0 \<le> ridx ts" using rd by (simp add: ready_def)
  have S: "ts_ok S" "ridx S = ridx ts + 1" "nat (ridx S) = Suc ?d" "t_idx (rstack S ! Suc ?d) = int i"
    "t_elements (rstack S ! ?d) = int (length rs)"
    "\<forall>k < ?d. rstack S ! k = rstack ts ! k" "t_idx (rstack S ! ?d) = t_idx (rstack ts ! ?d)"
    using ins r0 by (auto simp: inside_def nat_add_distrib)
  note fr = inside_facts(3) [OF rd ins i]
  have len: "length (rstack S) = 9" "ridx S \<le> 8" using S(1) by (auto simp: ts_ok_def)
  have g: "get_task ?F (ridx ?F) = Inr (rstack S ! Suc ?d)" "get_task ?F (ridx ?F - 1) = Inr (rstack S ! ?d)"
    using len S r0 by (auto simp: get_task_def nat_add_distrib)
  have arr: "t_type (rstack S ! ?d) = REDIS_REPLY_ARRAY"
    using S(1-3) r0 by (auto simp: ts_ok_def level_ok_def)
  show ?thesis
  proof (cases "Suc i < length rs")
    case False
    with i have last: "Suc i = length rs" by simp
    let ?G = "?F\<lparr>ridx := ridx ts\<rparr>"
    have "moveToNextTask ?F = moveToNextTask ?G"
      using g arr S r0 last by (simp add: moveToNextTask.simps [of ?F])
    with m have mg: "moveToNextTask ?G = Inr b" by simp
    have "RArray n (map Some rs) = partial n rs (Suc i)" using last by (simp add: partial_def)
    then have "sim ?G (filled ts (RArray n (map Some rs)))"
      using S fr len rd by (auto simp: sim_def ready_def ts_ok_def)
    from move_sim [OF this mg] s False show ?thesis by (auto dest: sim_trans)
  next
    case True
    let ?new = "(rstack S ! Suc ?d)\<lparr>t_type := -1, t_elements := -1, t_idx := int i + 1\<rparr>"
    have "moveToNextTask ?F = Inr (?F\<lparr>rstack := (rstack S)[Suc ?d := ?new]\<rparr>)"
      using g arr S r0 True len by (simp add: moveToNextTask.simps [of ?F] set_task_def nat_add_distrib)
    with m have b: "b = ?F\<lparr>rstack := (rstack S)[Suc ?d := ?new]\<rparr>" by simp
    have "Suc ?d < 9" using len S(2) r0 by linarith
    with s b len S have S': "ridx S' = ridx ts + 1" "root S' = root ?F" "t_idx (rstack S' ! Suc ?d) = int i + 1"
      "\<forall>k < Suc ?d. rstack S' ! k = rstack S ! k"
      by (auto simp: sim_def)
    have "inside ts n rs (Suc i) S'"
      using S' S fr ok ty r0 by (auto simp: inside_def nat_add_distrib)
    with True show ?thesis by simp
  qed
qed

text \<open>Reading the elements from \<open>i\<close> on closes the array.\<close>

lemma elements_delivered:
  assumes rd: "ready ts"
    and el: "\<And>x S v. x \<in> set rs \<Longrightarrow> ready S \<Longrightarrow> ridx S = ridx ts + 1 \<Longrightarrow> delivered S (encode x) v x"
  shows "inside ts n rs i S \<Longrightarrow> i < length rs \<Longrightarrow>
    \<exists>ts' b. parse (concat (map encode (drop i rs)) @ u) S = parse u ts' \<and> ts_ok ts' \<and>
     moveToNextTask (filled ts (RArray n (map Some rs))) = Inr b \<and> sim ts' b \<and>
     (0 \<le> ridx ts' \<longrightarrow> t_type (rstack ts' ! nat (ridx ts')) < 0)"
proof (induction "length rs - i" arbitrary: i S)
  case (Suc k i S)
  note ins = Suc.prems(1) and i = Suc.prems(2)
  let ?v = "concat (map encode (drop (Suc i) rs)) @ u"
  have c: "concat (map encode (drop i rs)) @ u = encode (rs ! i) @ ?v"
    using i by (simp add: Cons_nth_drop_Suc [symmetric])
  have r: "ridx S = ridx ts + 1" using ins by (simp add: inside_def)
  from el [OF nth_mem [OF i] inside_facts(1) [OF rd ins i] r, of ?v] obtain S' b where
    S': "parse (encode (rs ! i) @ ?v) S = parse ?v S'" "ts_ok S'"
      "moveToNextTask (filled S (rs ! i)) = Inr b" "sim S' b"
      "0 \<le> ridx S' \<longrightarrow> t_type (rstack S' ! nat (ridx S')) < 0"
    by (auto simp: delivered_def)
  note mv = inside_move [OF rd ins i S'(3,4,2,5)]
  show ?case
  proof (cases "Suc i < length rs")
    case True
    with mv have "inside ts n rs (Suc i) S'" by simp
    with Suc.hyps(1) [of "Suc i" S'] Suc.hyps(2) True show ?thesis unfolding c S'(1) by simp
  next
    case False
    then have "?v = u" using i by simp
    with mv False S' show ?thesis unfolding c by auto
  qed
qed simp

lemma opened_inside:
  assumes rd: "ready ts" and ne: "rs \<noteq> []"
    and o: "opened (typed ts REDIS_REPLY_ARRAY) (RArray n (replicate (length rs) None)) (int (length rs)) S"
  shows "inside ts n rs 0 S"
proof -
  let ?d = "nat (ridx ts)" and ?t = "typed ts REDIS_REPLY_ARRAY"
  note t = typed_facts [OF rd, of "CHR ''*''" REDIS_REPLY_ARRAY]
  have rt: "reply_type_of CHR ''*'' = Some REDIS_REPLY_ARRAY" by (simp add: reply_type_of_def)
  have r: "ts_ok ts" "0 \<le> ridx ts" using rd by (auto simp: ready_def)
  have S: "ts_ok S" "ridx S = ridx ts + 1"
    "rstack S = (rstack ?t)[?d := (rstack ?t ! ?d)\<lparr>t_elements := int (length rs), t_obj := Some (slot ?t)\<rparr>,
       ?d + 1 := fresh_task 0]"
    using o by (auto simp: opened_def)
  have len: "length (rstack ts) = 9" "Suc ?d < 9" using r S by (auto simp: ts_ok_def)
  have "root S = root (filled ts (RArray n (replicate (length rs) None)))"
    using o t(5) [OF rt] by (simp add: opened_def)
  then show ?thesis
    using S(1,2) len r unfolding inside_def S(3) partial_def
    by (simp add: nat_add_distrib fresh_task_def nth_list_update)
qed

lemma array_delivered:
  assumes rd: "ready ts" and r8: "ridx ts < 8" and len: "length rs < 2 ^ 31"
    and el: "\<And>x S v. x \<in> set rs \<Longrightarrow> ready S \<Longrightarrow> ridx S = ridx ts + 1 \<Longrightarrow> delivered S (encode x) v x"
  defines "n \<equiv> word_of_int (int (length rs))"
  shows "delivered ts (CHR ''*'' # (dec (length rs) @ CRLF) @ concat (map encode rs)) u (RArray n (map Some rs))"
proof -
  let ?t = "typed ts REDIS_REPLY_ARRAY" and ?v = "concat (map encode rs) @ u"
  have rt: "reply_type_of CHR ''*'' = Some REDIS_REPLY_ARRAY" by (simp add: reply_type_of_def)
  note t = typed_facts [OF rd rt]
  have t8: "ridx ?t \<noteq> 8" "ridx ?t < 8" using r8 by auto
  note at = array_typed [OF len t8(1), of ?v]
  show ?thesis
  proof (cases "rs = []")
    case True
    have "delivered ts (CHR ''*'' # (dec 0 @ CRLF)) u (RArray (word_of_int (int 0)) [])"
      by (rule scalar_delivered [OF rd rt]) (use at True in simp)
    with True show ?thesis by (simp add: n_def)
  next
    case False
    let ?x = "RArray n (replicate (length rs) None)"
    have "(if 0 < int (length rs) then replicate (nat (int (length rs))) None else []) = replicate (length rs) (None :: reply option)"
      using False by simp
    from array_levels [OF t(1,2) t8(2) t(3) _ refl this [symmetric], of n] t(7)
    obtain ts1 S where S: "link ?t ?x = Inr (Some (?x, ts1))" "push_task ts1 ?x (int (length rs)) = Inr S"
      "opened ?t ?x (int (length rs)) S" by auto
    have "typed_spec True ((dec (length rs) @ CRLF) @ ?v) ?t REDIS_REPLY_ARRAY = Inr (Item ?v S)"
      unfolding at n_def [symmetric] using False by (simp add: S(1,2))
    then have "item_spec True (CHR ''*'' # (dec (length rs) @ CRLF) @ ?v) ts = Inr (Item ?v S)"
      unfolding t(8) .
    with rd parse_unfold [of ts "CHR ''*'' # (dec (length rs) @ CRLF) @ ?v"]
    have p: "parse (CHR ''*'' # (dec (length rs) @ CRLF) @ ?v) ts = parse ?v S" by (simp add: ready_def)
    have "\<exists>ts' b. parse (concat (map encode (drop 0 rs)) @ u) S = parse u ts' \<and> ts_ok ts' \<and>
       moveToNextTask (filled ts (RArray n (map Some rs))) = Inr b \<and> sim ts' b \<and>
       (0 \<le> ridx ts' \<longrightarrow> t_type (rstack ts' ! nat (ridx ts')) < 0)"
      using elements_delivered [OF rd el opened_inside [OF rd False S(3)]] False by blast
    then show ?thesis using p by (simp add: delivered_def)
  qed
qed

lemma reply_delivered:
  "wire_ok (8 - nat (ridx ts)) x \<Longrightarrow> ready ts \<Longrightarrow> delivered ts (encode x) u x"
proof (induction x arbitrary: ts u)
  case (RString ty s)
  show ?case
  proof (cases "ty = REDIS_REPLY_STRING")
    case True
    have c: "reply_type_of CHR ''$'' = Some REDIS_REPLY_STRING" by (simp add: reply_type_of_def)
    note t = typed_facts [OF RString.prems(2) c]
    have "length s < 2 ^ 31" using RString.prems(1) True by simp
    from scalar_delivered [OF RString.prems(2) c bulk_typed [OF this t(1,2)]] t(7) True
    show ?thesis by simp
  next
    case False
    with RString.prems(1) have l: "CR \<notin> set s" "ty \<in> {REDIS_REPLY_STATUS, REDIS_REPLY_ERROR}" by auto
    let ?c = "if ty = REDIS_REPLY_STATUS then CHR ''+'' else CHR ''-''"
    have c: "reply_type_of ?c = Some ty" using l(2) by (auto simp: reply_type_of_def)
    note t = typed_facts [OF RString.prems(2) c]
    have "delivered ts (?c # (s @ CRLF)) u (RString ty s)"
      by (rule scalar_delivered [OF RString.prems(2) c])
         (use line_typed [OF l t(1,2), of u] t(7) in simp)
    with False show ?thesis by simp
  qed
next
  case (RArray n xs)
  define rs where "rs = map the xs"
  have some: "x = Some (the x) \<and> wire_ok (8 - nat (ridx ts) - 1) (the x)" if "x \<in> set xs" for x
    using RArray.prems(1) that by (auto split: option.splits)
  then have xs: "xs = map Some rs" by (simp add: rs_def map_idI [symmetric])
  have r: "0 \<le> ridx ts" "ridx ts < 8" using RArray.prems by (auto simp: ready_def)
  have len: "length rs < 2 ^ 31" "n = word_of_int (int (length rs))"
    using RArray.prems(1) by (auto simp: xs)
  have "delivered ts (CHR ''*'' # (dec (length rs) @ CRLF) @ concat (map encode rs)) u
      (RArray (word_of_int (int (length rs))) (map Some rs))"
  proof (rule array_delivered [OF RArray.prems(2) r(2) len(1)])
    fix x S v assume x: "x \<in> set rs" and S: "ready S" "ridx S = ridx ts + 1"
    have "wire_ok (8 - nat (ridx S)) x"
      using some [of "Some x"] x S(2) r by (simp add: xs nat_add_distrib)
    with RArray.IH [of "Some x" x] x S(1) show "delivered S (encode x) v x" by (simp add: xs)
  qed
  moreover have "encode (RArray n xs) = CHR ''*'' # (dec (length rs) @ CRLF) @ concat (map encode rs)"
    by (simp add: xs comp_def)
  ultimately show ?case unfolding xs len(2) by simp
next
  case (RInteger v)
  have c: "reply_type_of CHR '':'' = Some REDIS_REPLY_INTEGER" by (simp add: reply_type_of_def)
  from scalar_delivered [OF RInteger.prems(2) c integer_typed] show ?case by simp
next
  case RNil
  have c: "reply_type_of CHR ''$'' = Some REDIS_REPLY_STRING" by (simp add: reply_type_of_def)
  from scalar_delivered [OF RNil.prems(2) c nil_typed] show ?case by simp
qed

lemma encode_neq_Nil [simp]: "encode x \<noteq> []"
  by (cases x) auto

lemma roundtrip_ok:
  assumes inv: "reader_inv r" "r_err r = 0" "ridx (r_tasks r) = -1" "unread r = []"
    and al: "good_alloc al" "al 1 \<noteq> None" and x: "wire_ok 8 x"
    and f: "redisReaderFeed al r (encode x @ rest) (length (encode x @ rest)) = Inr (r1, True)"
  shows "\<exists>r2. redisReaderGetReply (\<lambda>_. True) r1 = Inr (r2, Some x, True) \<and> unread r2 = rest \<and> reader_inv r2"
proof -
  define z where "z = encode x @ rest"
  note F = feed_ok [OF inv(1) al, of "length z" z]
  have r1: "reader_inv r1" "r_err r1 = 0" "unread r1 = z" "r_tasks r1 = r_tasks r" "r_len r1 \<noteq> 0"
    using F f inv(4) unfolding z_def [symmetric] by (auto simp: z_def)
  let ?ts = "start_root (r_tasks r)"
  have ok: "ts_ok (r_tasks r)" using inv by (simp add: reader_inv_def)
  note st = start_root_ok [OF ok]
  have ts: "ridx ?ts = 0" "t_type (rstack ?ts ! 0) = -1"
    using ok inv(3) by (auto simp: start_root_def fresh_task_def ts_ok_def)
  then have "ready ?ts" using st by (simp add: ready_def vector_missing_def)
  with reply_delivered [of ?ts x rest] x ts(1) obtain ts' b where
    d: "parse z ?ts = parse rest ts'" "ts_ok ts'" "moveToNextTask (filled ?ts x) = Inr b" "sim ts' b"
    by (auto simp: delivered_def z_def)
  have "b = (filled ?ts x)\<lparr>ridx := -1\<rparr>" using d(3) ts(1) by (simp add: moveToNextTask.simps [of "filled ?ts x"])
  with d(4) ts(1) have e: "ridx ts' = -1" "root ts' = Some x"
    by (auto simp: sim_def filled_def split: option.splits)
  have "parse rest ts' = Inr (Item rest ts')" using parse_unfold [OF d(2), of rest] e by simp
  with d(1) getreply_view [OF r1(1,2)] r1(5)
  have "seen (redisReaderGetReply (\<lambda>_. True) r1) = Inr (answer (r_errstr r1) (Item rest ts'))"
    by (simp add: r1(3,4))
  then obtain r2 where "redisReaderGetReply (\<lambda>_. True) r1 = Inr (r2, Some x, True)" "unread r2 = rest"
    using e by (auto simp: seen_def answer_def view_def)
  with getreply_ok [OF r1(1), of "\<lambda>_. True"] show ?thesis by simp
qed

section \<open>Properties\<close>

text \<open>C4: every reply the protocol can carry in eight levels of arrays is read back exactly: feeding its
  encoding, with anything behind it, to an idle reader and asking for a reply returns that reply and
  leaves what was behind it unread.\<close>

theorem reader_roundtrip:
  assumes "reader_inv r" "r_err r = 0" "ridx (r_tasks r) = -1" "unread r = []"
    and "good_alloc al" "al 1 \<noteq> None" and "wire_ok 8 x"
    and "redisReaderFeed al r (encode x @ rest) (length (encode x @ rest)) = Inr (r1, True)"
  shows "\<exists>r2. redisReaderGetReply (\<lambda>_. True) r1 = Inr (r2, Some x, True) \<and> unread r2 = rest \<and> reader_inv r2"
  using assms by (rule roundtrip_ok)

theorem reader_roundtrip_witness:
  "\<exists>r1 r2. redisReaderFeed zero_alloc (idle_reader [])
       (''*2'' @ CRLF @ '':12'' @ CRLF @ ''$2'' @ CRLF @ ''ab'' @ CRLF @ ''+O'') 19 = Inr (r1, True)
     \<and> redisReaderGetReply (\<lambda>_. True) r1 = Inr (r2, Some (RArray 2 [Some (RInteger 12), Some (RString 1 ''ab'')]), True)
     \<and> unread r2 = ''+O''"
proof -
  let ?x = "RArray 2 [Some (RInteger 12), Some (RString 1 ''ab'')]"
  have e: "encode ?x = ''*2'' @ CRLF @ '':12'' @ CRLF @ ''$2'' @ CRLF @ ''ab'' @ CRLF" by code_simp
  have w: "wire_ok 8 ?x" by (simp add: REDIS_REPLY_STRING_def)
  have idle: "ridx (r_tasks (idle_reader [])) = -1" by (simp add: idle_reader_def no_tasks_def)
  have l: "length (encode ?x @ ''+O'') = 19" unfolding e by simp
  obtain r1 where f: "redisReaderFeed zero_alloc (idle_reader []) (encode ?x @ ''+O'') (length (encode ?x @ ''+O'')) = Inr (r1, True)"
    using feed_zero_alloc [OF idle_reader_inv(1,3)] by blast
  from reader_roundtrip [OF idle_reader_inv(1,3) idle idle_reader_inv(2) good_alloc_zero zero_alloc_1 w f]
    f [unfolded l]
  show ?thesis unfolding e append_assoc append_Cons append_Nil by blast
qed

lemma idle_parse:
  assumes "parse x (start_root no_tasks) = Inr oc" "x \<noteq> []"
  shows "seen (redisReaderGetReply (\<lambda>_. True) (idle_reader x)) = Inr (answer [] oc)"
proof -
  have "r_tasks (idle_reader x) = no_tasks" "r_len (idle_reader x) \<noteq> 0" "r_errstr (idle_reader x) = []"
    using assms(2) by (simp_all add: idle_reader_def)
  with getreply_view [OF idle_reader_inv(1,3), of x] assms(1) idle_reader_inv(2) [of x]
  show ?thesis by (simp only: bind_res.simps if_False)
qed

text \<open>Eight levels of arrays are the limit: a reply with eight is delivered, and the ninth array ends
  in the protocol error before its length has to be there.\<close>

theorem depth_limit:
  "(\<exists>r'. redisReaderGetReply (\<lambda>_. True) (idle_reader (concat (replicate 8 (''*1'' @ CRLF)) @ ''*''))
      = Inr (r', None, False) \<and> r_err r' = REDIS_ERR_PROTOCOL
        \<and> r_errstr r' = ''No support for nested multi bulk replies with depth > 7'')
   \<and> (\<exists>r' x. redisReaderGetReply (\<lambda>_. True) (idle_reader (concat (replicate 8 (''*1'' @ CRLF)) @ '':1'' @ CRLF))
      = Inr (r', Some x, True))"
proof
  let ?bad = "concat (replicate 8 (''*1'' @ CRLF)) @ ''*''"
  have "case parse ?bad (start_root no_tasks) of
      Inr (Bad ts e msg) \<Rightarrow> e = REDIS_ERR_PROTOCOL \<and> msg = ''No support for nested multi bulk replies with depth > 7''
    | _ \<Rightarrow> False" by code_simp
  then obtain ts where "parse ?bad (start_root no_tasks) =
      Inr (Bad ts REDIS_ERR_PROTOCOL ''No support for nested multi bulk replies with depth > 7'')"
    by (auto split: sum.splits outcome.splits)
  from idle_parse [OF this] show "\<exists>r'. redisReaderGetReply (\<lambda>_. True) (idle_reader ?bad)
      = Inr (r', None, False) \<and> r_err r' = REDIS_ERR_PROTOCOL
        \<and> r_errstr r' = ''No support for nested multi bulk replies with depth > 7''"
    by (auto simp: seen_def answer_def view_def)
next
  let ?good = "concat (replicate 8 (''*1'' @ CRLF)) @ '':1'' @ CRLF"
  have "case parse ?good (start_root no_tasks) of Inr (Item u ts) \<Rightarrow> root ts \<noteq> None | _ \<Rightarrow> False"
    by code_simp
  then obtain u ts x where "parse ?good (start_root no_tasks) = Inr (Item u ts)" "root ts = Some x"
    by (auto split: sum.splits outcome.splits)
  with idle_parse [of ?good "Item u ts"]
  show "\<exists>r' x. redisReaderGetReply (\<lambda>_. True) (idle_reader ?good) = Inr (r', Some x, True)"
    by (auto simp: seen_def answer_def)
qed

end
