(* ===== verification/Config.thy ===== *)
theory Config
  imports Prelude Sds
begin

text \<open>
  \<open>config.c\<close>: the configuration with its defaults and the loop over the parsed command line. What
  \<open>getopt_long\<close> returns is an argument: the list of option characters with their \<open>optarg\<close>. The texts
  of \<open>print_version\<close> and \<open>print_usage\<close> are not modelled, only that the program exits after them.
\<close>

section \<open>The code\<close>

definition BUF :: nat where "BUF = 1500"
definition MAXLENGTH :: nat where "MAXLENGTH = 2000"
definition NAMELENGTH :: nat where "NAMELENGTH = 255"
definition PATHLENGTH :: nat where "PATHLENGTH = 2048"
definition MAXHANDLES :: u32 where "MAXHANDLES = 50"
definition FLUSH :: u32 where "FLUSH = 1"
definition PORT :: u32 where "PORT = 9930"
definition ADDRESS :: string where "ADDRESS = ''0.0.0.0''"
definition LOGPATH :: string where "LOGPATH = ''/var/log/yaul''"

record yaulConfig =
  port :: u32
  address :: string
  opt_daemonize :: u32
  opt_statistics :: u32
  opt_flush :: u32
  opt_redis :: u32
  redis_ip :: string
  redis_port :: int
  redis_ttl :: int
  logpath :: string
  maxhandles :: u32

definition setDefaultOptions :: yaulConfig where
  "setDefaultOptions =
     \<lparr>port = PORT, address = ADDRESS, opt_daemonize = 0, opt_statistics = 0, opt_flush = FLUSH,
      opt_redis = 0, redis_ip = ''127.0.0.1'', redis_port = 6379, redis_ttl = 0,
      logpath = LOGPATH, maxhandles = MAXHANDLES\<rparr>"

text \<open>
  \<open>atoi\<close> is \<open>strtol\<close> cut to an \<open>int\<close>: leading white space, a sign, digits; the \<open>long\<close> saturates.
\<close>

definition clamp_long :: "int \<Rightarrow> int" where
  "clamp_long v = max (- (2 ^ 63)) (min (2 ^ 63 - 1) v)"

definition atoi_digits :: "string \<Rightarrow> int" where
  "atoi_digits s = undec (takeWhile is_digit s)"

definition strtol :: "string \<Rightarrow> int" where
  "strtol s0 =
     (let s = dropWhile isspace s0
      in clamp_long
           (case s of
              [] \<Rightarrow> 0
            | c # t \<Rightarrow> if c = CHR ''-'' then - atoi_digits t
                       else if c = CHR ''+'' then atoi_digits t
                       else atoi_digits s))"

definition atoi :: "string \<Rightarrow> int" where
  "atoi s = sint (word_of_int (strtol s) :: u32)"

text \<open>One round of the option loop. \<open>None\<close> is \<open>exit(EXIT_SUCCESS)\<close>. The path option copies its argument
  over the string literal the default path points to.\<close>

definition set_option :: "char \<Rightarrow> string \<Rightarrow> yaulConfig \<Rightarrow> yaulConfig option res" where
  "set_option opt optarg c =
     (if opt = CHR ''b'' then Inr (Some (c\<lparr>address := optarg\<rparr>))
      else if opt = CHR ''p'' then Inr (Some (c\<lparr>port := word_of_int (atoi optarg)\<rparr>))
      else if opt = CHR ''v'' then Inr None
      else if opt = CHR ''?'' \<or> opt = CHR ''h'' then Inr None
      else if opt = CHR ''l'' then Inl ReadOnlyStore
      else if opt = CHR ''s'' then Inr (Some (c\<lparr>opt_statistics := word_of_int (atoi optarg)\<rparr>))
      else if opt = CHR ''f'' then Inr (Some (c\<lparr>opt_flush := word_of_int (atoi optarg)\<rparr>))
      else if opt = CHR ''d'' then Inr (Some (c\<lparr>opt_daemonize := 1\<rparr>))
      else if opt = CHR ''r'' then Inr (Some (c\<lparr>redis_ip := optarg, opt_redis := 1\<rparr>))
      else if opt = CHR ''o'' then Inr (Some (c\<lparr>redis_port := atoi optarg, opt_redis := 1\<rparr>))
      else if opt = CHR ''t'' then Inr (Some (c\<lparr>redis_ttl := atoi optarg, opt_redis := 1\<rparr>))
      else if opt = CHR ''m'' then Inr (Some (c\<lparr>maxhandles := word_of_int (atoi optarg)\<rparr>))
      else Inr (Some c))"

fun options_loop :: "(char \<times> string) list \<Rightarrow> yaulConfig \<Rightarrow> yaulConfig option res" where
  "options_loop [] c = Inr (Some c)"
| "options_loop ((opt, optarg) # opts) c =
     cat_bind (set_option opt optarg c) (\<lambda>c1. options_loop opts c1)"

definition readOptions :: "(char \<times> string) list \<Rightarrow> yaulConfig option res" where
  "readOptions opts = options_loop opts setDefaultOptions"

section \<open>What the options mean\<close>

text \<open>The value of the last occurrence of an option, or a default.\<close>

fun last_value :: "char \<Rightarrow> (string \<Rightarrow> 'a) \<Rightarrow> (char \<times> string) list \<Rightarrow> 'a \<Rightarrow> 'a" where
  "last_value c f [] d = d"
| "last_value c f ((o1, a) # opts) d = last_value c f opts (if o1 = c then f a else d)"

definition given :: "char \<Rightarrow> (char \<times> string) list \<Rightarrow> bool" where
  "given c opts \<longleftrightarrow> c \<in> fst ` set opts"

definition u_arg :: "string \<Rightarrow> u32" where
  "u_arg a = word_of_int (atoi a)"

definition overlay :: "(char \<times> string) list \<Rightarrow> yaulConfig \<Rightarrow> yaulConfig" where
  "overlay opts c =
     \<lparr>port = last_value CHR ''p'' u_arg opts (port c),
      address = last_value CHR ''b'' (\<lambda>a. a) opts (address c),
      opt_daemonize = (if given CHR ''d'' opts then 1 else opt_daemonize c),
      opt_statistics = last_value CHR ''s'' u_arg opts (opt_statistics c),
      opt_flush = last_value CHR ''f'' u_arg opts (opt_flush c),
      opt_redis = (if given CHR ''r'' opts \<or> given CHR ''o'' opts \<or> given CHR ''t'' opts then 1 else opt_redis c),
      redis_ip = last_value CHR ''r'' (\<lambda>a. a) opts (redis_ip c),
      redis_port = last_value CHR ''o'' atoi opts (redis_port c),
      redis_ttl = last_value CHR ''t'' atoi opts (redis_ttl c),
      logpath = logpath c,
      maxhandles = last_value CHR ''m'' u_arg opts (maxhandles c)\<rparr>"

lemma given_simps [simp]: "\<not> given c []" "given c ((o1, a) # opts) = (o1 = c \<or> given c opts)"
  by (auto simp: given_def)

lemma set_option_overlay:
  "set_option o1 a c = Inr (Some c1) \<Longrightarrow> overlay opts c1 = overlay ((o1, a) # opts) c"
  by (auto simp: set_option_def overlay_def u_arg_def split: if_splits)

lemma set_option_goes_on:
  "o1 \<notin> {CHR ''v'', CHR ''?'', CHR ''h'', CHR ''l''} \<Longrightarrow> \<exists>c1. set_option o1 a c = Inr (Some c1)"
  by (simp add: set_option_def)

lemma options_loop_spec:
  "options_loop opts c =
     (case find (\<lambda>(o1, a). o1 \<in> {CHR ''v'', CHR ''?'', CHR ''h'', CHR ''l''}) opts of
        None \<Rightarrow> Inr (Some (overlay opts c))
      | Some (o1, a) \<Rightarrow> if o1 = CHR ''l'' then Inl ReadOnlyStore else Inr None)"
proof (induction opts c rule: options_loop.induct)
  case (1 c)
  then show ?case by (simp add: overlay_def)
next
  case (2 o1 a opts c)
  show ?case
  proof (cases "o1 \<in> {CHR ''v'', CHR ''?'', CHR ''h'', CHR ''l''}")
    case True
    then show ?thesis by (auto simp: set_option_def)
  next
    case False
    from set_option_goes_on [OF this] obtain c1 where c1: "set_option o1 a c = Inr (Some c1)" by blast
    with 2 False set_option_overlay [OF c1, of opts] show ?thesis by (auto split: option.splits)
  qed
qed

lemma atoi_dec:
  assumes "n < 2 ^ 31" "s = [] \<or> \<not> is_digit (hd s)"
  shows "atoi (dec n @ s) = int n"
proof -
  obtain c ds where d: "dec n = c # ds" by (cases "dec n") auto
  then have dig: "is_digit c" using dec_is_digit [of c n] by simp
  then have ns: "\<not> isspace c" by (auto simp: is_digit_def digit_val_def isspace_def schar_def Let_def split: if_splits)
  have "takeWhile is_digit (dec n @ s) = dec n"
    using assms(2) dec_is_digit [of _ n] by (cases s) (auto simp: takeWhile_append)
  then have "atoi_digits (dec n @ s) = int n" by (simp add: atoi_digits_def)
  then have "strtol (dec n @ s) = int n"
    using d dig ns assms(1) by (auto simp: strtol_def clamp_long_def Let_def)
  then have "atoi (dec n @ s) = sint (word_of_int (int n) :: u32)" by (simp only: atoi_def)
  also have "\<dots> = int n" using assms(1) by (subst int_word_sint) (simp add: mod_pos_pos_trivial)
  finally show ?thesis .
qed

section \<open>Properties\<close>

text \<open>C35: the command line: without \<open>-v\<close>, \<open>-h\<close>, an unknown option and \<open>-l\<close> every field is the value of
  its last option or the default, and Redis logging is on exactly when one of its three options is
  given. Of the other four the first one decides: the help and version options exit, and \<open>-l\<close> writes
  into the string literal of the default path.\<close>

theorem readOptions_spec:
  "readOptions opts =
     (case find (\<lambda>(o1, a). o1 \<in> {CHR ''v'', CHR ''?'', CHR ''h'', CHR ''l''}) opts of
        None \<Rightarrow> Inr (Some (overlay opts setDefaultOptions))
      | Some (o1, a) \<Rightarrow> if o1 = CHR ''l'' then Inl ReadOnlyStore else Inr None)"
  unfolding readOptions_def by (rule options_loop_spec)

end
