(* ===== verification/Format.thy ===== *)
theory Format
  imports Reader_Roundtrip
begin

text \<open>
  Formatting commands (\<open>hiredis/hiredis.c\<close>): \<open>redisvFormatCommand\<close> and \<open>redisFormatCommandArgv\<close>. Sizes
  and lengths are natural numbers; the \<open>int\<close> totals hold them below 2 GB. The pointer \<open>c\<close> into the
  format is the memory from it on, so running past the terminating NUL is visible. The lemmas show that
  a command is the protocol's encoding of the arguments the format means.
\<close>

section \<open>Lengths\<close>

function digits_count :: "int \<Rightarrow> nat" where
  "digits_count i = (if i div 10 = 0 then 1 else if i \<le> 0 then 1 else 1 + digits_count (i div 10))"
  by pat_completeness auto
termination
  by (relation "measure nat") auto

declare digits_count.simps [simp del]

definition intlen :: "int \<Rightarrow> nat" where
  "intlen i = (if i < 0 then 1 + digits_count (- i) else digits_count i)"

definition bulklen :: "nat \<Rightarrow> nat" where
  "bulklen len = 1 + intlen (int len) + 2 + len + 2"

section \<open>Writing the command\<close>

text \<open>Writing at a position and moving it; \<open>sprintf\<close> also writes a NUL behind its text.\<close>

definition emit :: "string \<Rightarrow> nat \<Rightarrow> string \<Rightarrow> (string \<times> nat) res" where
  "emit b pos x = bind_res (write_at b pos x) (\<lambda>b1. Inr (b1, pos + length x))"

definition emit_text :: "string \<Rightarrow> nat \<Rightarrow> string \<Rightarrow> (string \<times> nat) res" where
  "emit_text b pos x = bind_res (write_at b pos (x @ [NUL])) (\<lambda>b1. Inr (b1, pos + length x))"

fun build_loop :: "string \<Rightarrow> nat \<Rightarrow> (string \<times> nat) list \<Rightarrow> (string \<times> nat) res" where
  "build_loop cmd pos [] = Inr (cmd, pos)"
| "build_loop cmd pos ((arg, len) # args) =
     bind_res (emit_text cmd pos (CHR ''$'' # dec len @ CRLF))
     (\<lambda>(cmd1, pos1). bind_res (read_from arg len)
     (\<lambda>x. bind_res (emit cmd1 pos1 x)
     (\<lambda>(cmd2, pos2). bind_res (emit cmd2 pos2 CRLF)
     (\<lambda>(cmd3, pos3). build_loop cmd3 pos3 args))))"

text \<open>The block of \<open>totlen + 1\<close> bytes, its contents, the assertion on the position and the final NUL.
  The result is the block and the length.\<close>

definition build_command :: "allocator \<Rightarrow> nat \<Rightarrow> (string \<times> nat) list \<Rightarrow> (string \<times> nat) option res" where
  "build_command al totlen args =
     (case al (totlen + 1) of
        None \<Rightarrow> Inr None
      | Some cmd \<Rightarrow>
          bind_res (emit_text cmd 0 (CHR ''*'' # dec (length args) @ CRLF))
          (\<lambda>(cmd1, pos1). bind_res (build_loop cmd1 pos1 args)
          (\<lambda>(cmd2, pos2). if pos2 \<noteq> totlen then Inl AssertFailed
             else bind_res (write_at cmd2 pos2 [NUL]) (\<lambda>cmd3. Inr (Some (cmd3, totlen))))))"

section \<open>A command from an argument vector\<close>

text \<open>An argument is the memory it points into; \<open>argvlen = None\<close> takes the lengths from \<open>strlen\<close>.\<close>

fun with_lengths :: "string list \<Rightarrow> nat list option \<Rightarrow> (string \<times> nat) list res" where
  "with_lengths [] lens = Inr []"
| "with_lengths (a # argv) None =
     (case strlen a of
        None \<Rightarrow> Inl OutOfBounds
      | Some n \<Rightarrow> bind_res (with_lengths argv None) (\<lambda>r. Inr ((a, n) # r)))"
| "with_lengths (a # argv) (Some (n # lens)) =
     bind_res (with_lengths argv (Some lens)) (\<lambda>r. Inr ((a, n) # r))"
| "with_lengths (a # argv) (Some []) = Inl OutOfBounds"

definition redisFormatCommandArgv ::
  "allocator \<Rightarrow> string list \<Rightarrow> nat list option \<Rightarrow> (string \<times> nat) option res" where
  "redisFormatCommandArgv al argv argvlen =
     bind_res (with_lengths argv argvlen)
     (\<lambda>args. build_command al
        (1 + intlen (int (length argv)) + 2 + sum_list (map (\<lambda>(a, n). bulklen n) args)) args)"

section \<open>A command from a format\<close>

text \<open>A variadic argument: a string pointer (the memory it points into), a size, an integer or a
  floating-point value; reading the wrong kind or past the last one is undefined.\<close>

datatype va = VStr string | VSize nat | VInt int | VDouble nat

definition va_str :: "va list \<Rightarrow> (string \<times> va list) res" where
  "va_str ap = (case ap of VStr s # r \<Rightarrow> Inr (s, r) | _ \<Rightarrow> Inl WildPointer)"

definition va_size :: "va list \<Rightarrow> (nat \<times> va list) res" where
  "va_size ap = (case ap of VSize n # r \<Rightarrow> Inr (n, r) | _ \<Rightarrow> Inl WildPointer)"

definition va_int :: "va list \<Rightarrow> (va \<times> va list) res" where
  "va_int ap = (case ap of VInt i # r \<Rightarrow> Inr (VInt i, r) | _ \<Rightarrow> Inl WildPointer)"

definition va_double :: "va list \<Rightarrow> (va \<times> va list) res" where
  "va_double ap = (case ap of VDouble d # r \<Rightarrow> Inr (VDouble d, r) | _ \<Rightarrow> Inl WildPointer)"

definition intfmts :: string where "intfmts = ''diouxX''"

definition doublefmts :: string where "doublefmts = ''eEfFgGaA''"

text \<open>Flags in their fixed order, width and precision.\<close>

definition skip1 :: "char \<Rightarrow> string \<Rightarrow> string" where
  "skip1 ch p = (case p of [] \<Rightarrow> [] | x # t \<Rightarrow> if x = ch then t else p)"

definition skip_prefix :: "string \<Rightarrow> string" where
  "skip_prefix p0 =
     (let p1 = skip1 CHR ''+'' (skip1 CHR '' '' (skip1 CHR ''-'' (skip1 CHR ''0'' (skip1 CHR ''#'' p0))));
          p2 = dropWhile is_digit p1
      in case p2 of
           x # t \<Rightarrow> if x = CHR ''.'' then dropWhile is_digit t else p2
         | [] \<Rightarrow> p2)"

text \<open>
  The conversion at \<open>p\<close>: \<open>Some\<close> of whether it takes a floating-point argument and of the memory from
  the conversion character on; \<open>None\<close> jumps to \<open>fmt_invalid\<close>. \<open>strchr\<close> also finds the NUL that ends
  \<open>intfmts\<close>, so the end of the format counts as an integer conversion.
\<close>

definition sized_conversion :: "string \<Rightarrow> (bool \<times> string) option res" where
  "sized_conversion p =
     bind_res (char_at p 0)
     (\<lambda>c. if c \<noteq> NUL \<and> c \<in> set intfmts then Inr (Some (False, p)) else Inr None)"

definition conversion :: "string \<Rightarrow> (bool \<times> string) option res" where
  "conversion p =
     bind_res (char_at p 0)
     (\<lambda>c. if c \<in> set intfmts \<or> c = NUL then Inr (Some (False, p))
          else if c \<in> set doublefmts then Inr (Some (True, p))
          else if c = CHR ''h'' \<or> c = CHR ''l'' then
            bind_res (char_at p 1)
            (\<lambda>d. if d = c then sized_conversion (drop 2 p) else sized_conversion (drop 1 p))
          else Inr None)"

text \<open>What \<open>vsnprintf\<close> prints for a conversion: decimal integers are written out, every other
  conversion is the parameter \<open>pf\<close>.\<close>

definition conv_text :: "(string \<Rightarrow> va \<Rightarrow> string) \<Rightarrow> string \<Rightarrow> va \<Rightarrow> string" where
  "conv_text pf fmt v =
     (case v of
        VInt i \<Rightarrow> if fmt = ''%d'' \<or> fmt = ''%i'' then dec_int i
                  else if fmt = ''%u'' then dec (nat (i mod 2 ^ 32))
                  else pf fmt v
      | _ \<Rightarrow> pf fmt v)"

text \<open>One directive \<open>%x\<close> at \<open>c\<close>; the result is the new current argument, the remaining variadic
  arguments and the memory behind the directive. \<open>None\<close> is a jump to \<open>err\<close>.\<close>

definition directive ::
  "allocator \<Rightarrow> (string \<Rightarrow> va \<Rightarrow> string) \<Rightarrow> string \<Rightarrow> va list \<Rightarrow> sds \<Rightarrow> (sds \<times> va list \<times> string) option res" where
  "directive al pf c ap curarg =
     bind_res (char_at c 1)
     (\<lambda>x. if x = CHR ''s'' then
            bind_res (va_str ap)
            (\<lambda>(arg, ap1). case strlen arg of
               None \<Rightarrow> Inl OutOfBounds
             | Some n \<Rightarrow> cat_bind (if 0 < n then sdscatlen al curarg arg n else Inr (Some curarg))
                          (\<lambda>s. Inr (Some (s, ap1, drop 2 c))))
          else if x = CHR ''b'' then
            bind_res (va_str ap)
            (\<lambda>(arg, ap1). bind_res (va_size ap1)
            (\<lambda>(n, ap2). cat_bind (if 0 < n then sdscatlen al curarg arg n else Inr (Some curarg))
                          (\<lambda>s. Inr (Some (s, ap2, drop 2 c)))))
          else if x = CHR ''%'' then
            cat_bind (sdscat al curarg [CHR ''%'', NUL]) (\<lambda>s. Inr (Some (s, ap, drop 2 c)))
          else
            cat_bind (conversion (skip_prefix (drop 1 c)))
            (\<lambda>(dbl, p). bind_res (if dbl then va_double ap else va_int ap)
            (\<lambda>(v, ap1).
               let l = length c - length p + 1
               in if l < 14 then
                    cat_bind (sdscatvprintf al curarg (conv_text pf (cstr (take l c)) v))
                      (\<lambda>s. Inr (Some (s, ap1, drop 1 p)))
                  else Inr (Some (curarg, ap1, drop 2 c)))))"

lemma skip1_length: "length (skip1 ch p) \<le> length p"
  by (simp add: skip1_def split: list.split)

lemma skip_prefix_length: "length (skip_prefix p) \<le> length p"
proof -
  define p1 where "p1 = skip1 CHR ''+'' (skip1 CHR '' '' (skip1 CHR ''-'' (skip1 CHR ''0'' (skip1 CHR ''#'' p))))"
  define p2 where "p2 = dropWhile is_digit p1"
  have 1: "length p1 \<le> length p" unfolding p1_def by (meson order_trans skip1_length)
  have 2: "length p2 \<le> length p1" unfolding p2_def by (rule length_dropWhile_le)
  have e: "skip_prefix p = (case p2 of x # t \<Rightarrow> if x = CHR ''.'' then dropWhile is_digit t else p2 | [] \<Rightarrow> p2)"
    unfolding skip_prefix_def p2_def p1_def Let_def ..
  show ?thesis
  proof (cases p2)
    case (Cons x t)
    have "length (dropWhile is_digit t) \<le> length t" by (rule length_dropWhile_le)
    with 1 2 Cons show ?thesis unfolding e by simp
  qed (use 1 2 in \<open>simp add: e\<close>)
qed

lemma conversion_length: "conversion p = Inr (Some (dbl, q)) \<Longrightarrow> length q \<le> length p"
  by (auto simp: conversion_def sized_conversion_def char_at_def split: if_splits)

lemma cat_bind_Some:
  "cat_bind m f = Inr (Some y) \<longleftrightarrow> (\<exists>x. m = Inr (Some x) \<and> f x = Inr (Some y))"
  by (auto simp: cat_bind_def split: option.splits)

lemma directive_shorter:
  assumes "directive al pf c ap cur = Inr (Some (s, ap', c'))"
  shows "length c' < length c"
proof -
  have l: "1 < length c" using assms by (auto simp: directive_def char_at_def split: if_splits)
  have "length c' \<le> length c - 2 \<or> (\<exists>d q. conversion (skip_prefix (drop 1 c)) = Inr (Some (d, q)) \<and> c' = drop 1 q)"
    using assms unfolding directive_def
    by (auto simp: cat_bind_Some Let_def split: if_splits option.splits)
  then show ?thesis
  proof
    assume "\<exists>d q. conversion (skip_prefix (drop 1 c)) = Inr (Some (d, q)) \<and> c' = drop 1 q"
    then obtain d q where q: "conversion (skip_prefix (drop 1 c)) = Inr (Some (d, q))" "c' = drop 1 q" by blast
    have "length q \<le> length c - 1"
      using conversion_length [OF q(1)] skip_prefix_length [of "drop 1 c"] by simp
    with q(2) l show ?thesis by simp
  qed (use l in linarith)
qed

text \<open>The loop over the format: the current argument, whether it is touched, and the arguments so far.\<close>

function vformat_loop ::
  "allocator \<Rightarrow> (nat \<Rightarrow> bool) \<Rightarrow> (string \<Rightarrow> va \<Rightarrow> string) \<Rightarrow> string \<Rightarrow> va list \<Rightarrow> sds \<Rightarrow> bool \<Rightarrow> sds list \<Rightarrow>
     (sds \<times> bool \<times> sds list) option res" where
  "vformat_loop al vec pf c ap curarg touched argv =
     bind_res (char_at c 0)
     (\<lambda>ch. if ch = NUL then Inr (Some (curarg, touched, argv))
       else bind_res (if ch = CHR ''%'' then char_at c 1 else Inr NUL)
       (\<lambda>nx. if ch \<noteq> CHR ''%'' \<or> nx = NUL then
               if ch = CHR '' '' then
                 if touched then
                   if vec (length argv)
                   then cat_bind (sdsempty al)
                          (\<lambda>fresh. vformat_loop al vec pf (drop 1 c) ap fresh False (argv @ [curarg]))
                   else Inr None
                 else vformat_loop al vec pf (drop 1 c) ap curarg False argv
               else cat_bind (sdscatlen al curarg c 1)
                      (\<lambda>newarg. vformat_loop al vec pf (drop 1 c) ap newarg True argv)
             else cat_bind (directive al pf c ap curarg)
                    (\<lambda>(newarg, ap1, c1). vformat_loop al vec pf c1 ap1 newarg True argv)))"
  by pat_completeness auto
termination
  by (relation "measure (\<lambda>(al, vec, pf, c, ap, curarg, touched, argv). length c)")
    (auto simp: char_at_def directive_shorter split: if_splits)

declare vformat_loop.simps [simp del]

text \<open>\<open>vec k\<close> tells whether the vector can grow to \<open>k + 1\<close> pointers; \<open>None\<close> is the result -1.\<close>

definition redisvFormatCommand ::
  "allocator \<Rightarrow> (nat \<Rightarrow> bool) \<Rightarrow> (string \<Rightarrow> va \<Rightarrow> string) \<Rightarrow> bool \<Rightarrow> string \<Rightarrow> va list \<Rightarrow> (string \<times> nat) option res" where
  "redisvFormatCommand al vec pf target format ap =
     (if \<not> target then Inr None
      else cat_bind (sdsempty al)
        (\<lambda>curarg0. cat_bind (vformat_loop al vec pf format ap curarg0 False [])
        (\<lambda>(curarg, touched, argv0).
           if touched \<and> \<not> vec (length argv0) then Inr None
           else let argv = (if touched then argv0 @ [curarg] else argv0)
                in build_command al
                     (sum_list (map (\<lambda>s. bulklen (sdslen s)) argv) + (1 + intlen (int (length argv)) + 2))
                     (map (\<lambda>s. (sds_buf s, sdslen s)) argv))))"

definition redisFormatCommand ::
  "allocator \<Rightarrow> (nat \<Rightarrow> bool) \<Rightarrow> (string \<Rightarrow> va \<Rightarrow> string) \<Rightarrow> bool \<Rightarrow> string \<Rightarrow> va list \<Rightarrow> (string \<times> nat) option res" where
  "redisFormatCommand al vec pf target format args = redisvFormatCommand al vec pf target format args"

section \<open>The command written\<close>

text \<open>A command on the wire is the array of its arguments as bulk strings.\<close>

definition command_reply :: "string list \<Rightarrow> reply" where
  "command_reply args =
     RArray (word_of_int (int (length args))) (map (\<lambda>a. Some (RString REDIS_REPLY_STRING a)) args)"

definition bulk :: "string \<Rightarrow> string" where
  "bulk a = CHR ''$'' # dec (length a) @ CRLF @ a @ CRLF"

definition command_bytes :: "string list \<Rightarrow> string" where
  "command_bytes args = CHR ''*'' # dec (length args) @ CRLF @ concat (map bulk args)"

lemma command_bytes_encode: "encode (command_reply args) = command_bytes args"
proof -
  have "map ((\<lambda>x. case x of None \<Rightarrow> [] | Some r \<Rightarrow> encode r) \<circ> (\<lambda>a. Some (RString REDIS_REPLY_STRING a))) args
      = map bulk args"
    by (rule map_cong) (simp_all add: bulk_def)
  then show ?thesis by (simp only: command_reply_def command_bytes_def encode.simps map_map length_map)
qed

lemma digits_count_dec: "digits_count (int n) = length (dec n)"
proof (induction n rule: dec.induct)
  case (1 n)
  show ?case
  proof (cases "n < 10")
    case True
    then show ?thesis by (simp add: digits_count.simps [of "int n"] dec.simps [of n])
  next
    case False
    have d: "int n div 10 = int (n div 10)" by simp
    from False have "n div 10 \<noteq> 0" by simp
    with 1 False show ?thesis
      unfolding digits_count.simps [of "int n"] dec.simps [of n] d by simp
  qed
qed

lemma intlen_dec: "intlen (int n) = length (dec n)"
  by (simp add: intlen_def digits_count_dec)

lemma bulklen_bulk: "bulklen (length a) = length (bulk a)"
  by (simp add: bulklen_def bulk_def intlen_dec)

lemma emit_text_ok:
  assumes "b = p @ r" "pos = length p" "length x + 1 \<le> length r"
  shows "\<exists>r'. emit_text b pos x = Inr ((p @ x) @ r', length (p @ x)) \<and> length r' = length r - length x"
  using assms by (intro exI [of _ "NUL # drop (length x + 1) r"])
    (simp add: emit_text_def write_at_def)

lemma emit_ok:
  assumes "b = p @ r" "pos = length p" "length x \<le> length r"
  shows "\<exists>r'. emit b pos x = Inr ((p @ x) @ r', length (p @ x)) \<and> length r' = length r - length x"
  using assms by (intro exI [of _ "drop (length x) r"]) (simp add: emit_def write_at_def)

abbreviation bulks :: "(string \<times> nat) list \<Rightarrow> string" where
  "bulks args \<equiv> concat (map (\<lambda>(a, n). bulk (take n a)) args)"

lemma build_loop_ok:
  assumes "\<forall>(a, n) \<in> set args. n \<le> length a" "length (bulks args) + 1 \<le> length r"
  shows "\<exists>r'. build_loop (p @ r) (length p) args = Inr ((p @ bulks args) @ r', length (p @ bulks args))
    \<and> length r' = length r - length (bulks args)"
  using assms
proof (induction args arbitrary: p r)
  case (Cons x args)
  obtain a n where x: "x = (a, n)" by (cases x)
  have n: "n \<le> length a" using Cons.prems(1) by (auto simp: x)
  define h where "h = CHR ''$'' # dec n @ CRLF"
  define t where "t = take n a"
  have b: "bulk t = h @ t @ CRLF" using n by (simp add: bulk_def min_absorb2 t_def h_def)
  have bs: "bulks (x # args) = bulk t @ bulks args" by (simp add: x t_def)
  have l: "length h + length t + 2 + length (bulks args) + 1 \<le> length r"
    using Cons.prems(2) unfolding bs b by simp
  obtain r1 where r1: "emit_text (p @ r) (length p) h = Inr ((p @ h) @ r1, length (p @ h))"
    "length r1 = length r - length h" using emit_text_ok [OF refl refl, of h r p] l by auto
  have le1: "length t \<le> length r1" using l r1(2) by linarith
  obtain r2 where r2: "emit ((p @ h) @ r1) (length (p @ h)) t = Inr (((p @ h) @ t) @ r2, length ((p @ h) @ t))"
    "length r2 = length r1 - length t"
    using emit_ok [OF refl refl, of t r1 "p @ h"] le1 by blast
  have le2: "length CRLF \<le> length r2" using l r1(2) r2(2) by simp
  obtain r3 where r3: "emit (((p @ h) @ t) @ r2) (length ((p @ h) @ t)) CRLF
      = Inr ((((p @ h) @ t) @ CRLF) @ r3, length (((p @ h) @ t) @ CRLF))" "length r3 = length r2 - 2"
    using emit_ok [OF refl refl, of CRLF r2 "(p @ h) @ t"] le2 by force
  define q where "q = ((p @ h) @ t) @ CRLF"
  have q: "q = p @ bulk t" by (simp add: q_def b)
  have "length (bulks args) + 1 \<le> length r3" using l r1(2) r2(2) r3(2) by simp
  with Cons.IH [of r3 q] Cons.prems(1) obtain r' where
    r': "build_loop (q @ r3) (length q) args = Inr ((q @ bulks args) @ r', length (q @ bulks args))"
    "length r' = length r3 - length (bulks args)" by auto
  have t: "read_from a n = Inr t" using n by (simp add: read_from_def t_def)
  have "build_loop (p @ r) (length p) (x # args) = Inr ((q @ bulks args) @ r', length (q @ bulks args))"
    unfolding x build_loop.simps h_def [symmetric] r1(1) bind_res.simps split_conv t r2(1) r3(1)
    by (simp only: q_def [symmetric] r'(1))
  moreover have "length r' = length r - length (bulk t @ bulks args)"
    using r'(2) r3(2) r2(2) r1(2) l by (simp add: b)
  ultimately show ?case unfolding bs q by auto
qed simp

text \<open>With the right total, writing a command never leaves the block, the position assertion holds and
  the block holds the encoding and a NUL.\<close>

lemma build_command_ok:
  assumes al: "good_alloc al" and args: "\<forall>(a, n) \<in> set args. n \<le> length a"
    and xs: "xs = map (\<lambda>(a, n). take n a) args"
  shows "build_command al (length (command_bytes xs)) args =
    Inr (if al (length (command_bytes xs) + 1) = None then None
         else Some (command_bytes xs @ [NUL], length (command_bytes xs)))"
proof (cases "al (length (command_bytes xs) + 1)")
  case None
  then show ?thesis by (simp add: build_command_def)
next
  case (Some b)
  let ?h = "CHR ''*'' # dec (length args) @ CRLF"
  let ?c = "concat (map (\<lambda>(a, n). bulk (take n a)) args)"
  have c: "command_bytes xs = ?h @ ?c"
    unfolding command_bytes_def xs by (simp add: split_def o_def)
  have lb: "length b = length ?h + length ?c + 1" using good_allocD [OF al Some] by (simp add: c)
  obtain r1 where r1: "emit_text b 0 ?h = Inr (?h @ r1, length ?h)" "length r1 = length b - length ?h"
    using emit_text_ok [of b "[]" b 0 ?h] lb by auto
  obtain r2 where r2: "build_loop (?h @ r1) (length ?h) args = Inr (?h @ ?c @ r2, length ?h + length ?c)"
    "length r2 = length r1 - length ?c"
    using build_loop_ok [OF args, of r1 ?h] r1(2) lb by auto
  obtain y where y: "r2 = [y]" using r2(2) r1(2) lb by (cases r2) auto
  have "write_at (?h @ ?c @ [y]) (length ?h + length ?c) [NUL] = Inr ((?h @ ?c) @ [NUL])"
    by (simp add: write_at_def)
  with Some r1(1) r2(1) show ?thesis unfolding build_command_def c y by (simp add: y)
qed

lemma total_length:
  "1 + intlen (int (length xs)) + 2 + sum_list (map (\<lambda>a. bulklen (length a)) xs) = length (command_bytes xs)"
  by (simp add: command_bytes_def intlen_dec bulklen_bulk length_concat o_def)

section \<open>What the argument vector means\<close>

lemma with_lengths_strlen:
  "\<forall>a \<in> set argv. NUL \<in> set a \<Longrightarrow> with_lengths argv None = Inr (map (\<lambda>a. (a, length (cstr a))) argv)"
  by (induction argv) (auto simp: strlen_cstr)

lemma with_lengths_given:
  "length lens = length argv \<Longrightarrow> with_lengths argv (Some lens) = Inr (zip argv lens)"
  by (induction argv lens rule: list_induct2 [OF sym, consumes 1]) auto

lemma cstr_take: "take (length (cstr a)) a = cstr a"
  by (simp add: cstr_def takeWhile_eq_take [symmetric])

lemma argv_ok:
  assumes al: "good_alloc al" and args: "with_lengths argv lens = Inr args" "\<forall>(a, n) \<in> set args. n \<le> length a"
    and len: "length args = length argv" and xs: "xs = map (\<lambda>(a, n). take n a) args"
  shows "redisFormatCommandArgv al argv lens =
    Inr (if al (length (command_bytes xs) + 1) = None then None
         else Some (command_bytes xs @ [NUL], length (command_bytes xs)))"
proof -
  have "map (\<lambda>(a, n). bulklen n) args = map (\<lambda>a. bulklen (length a)) xs"
    unfolding xs map_map by (rule map_cong) (use args(2) in \<open>auto simp: min_absorb2\<close>)
  moreover have "length xs = length argv" using len by (simp add: xs)
  ultimately have "1 + intlen (int (length argv)) + 2 + sum_list (map (\<lambda>(a, n). bulklen n) args) = length (command_bytes xs)"
    using total_length [of xs] by simp
  with build_command_ok [OF al args(2) xs] args(1) show ?thesis
    unfolding redisFormatCommandArgv_def by simp
qed

section \<open>What the format means\<close>

definition int_conv :: "char \<Rightarrow> int \<Rightarrow> string option" where
  "int_conv d i = (if d = CHR ''d'' \<or> d = CHR ''i'' then Some (dec_int i)
     else if d = CHR ''u'' then Some (dec (nat (i mod 2 ^ 32))) else None)"

text \<open>
  The arguments a format stands for, on plain strings, for literal text, \<open>%s\<close>, \<open>%b\<close>, \<open>%%\<close>, \<open>%d\<close>, \<open>%i\<close>
  and \<open>%u\<close>: a space of the format ends an argument, and nothing an interpolated value contains does.
  \<open>None\<close> stands for every other format and for values that do not fit it.
\<close>

fun fmt_args :: "string \<Rightarrow> va list \<Rightarrow> string \<Rightarrow> bool \<Rightarrow> string list \<Rightarrow> string list option" where
  "fmt_args [] ap cur t argv = Some (if t then argv @ [cur] else argv)"
| "fmt_args [c] ap cur t argv =
     (if c = CHR '' '' then Some (if t then argv @ [cur] else argv) else Some (argv @ [cur @ [c]]))"
| "fmt_args (c # d # f) ap cur t argv =
     (if c = CHR ''%'' then
        if d = CHR ''%'' then fmt_args f ap (cur @ [CHR ''%'']) True argv
        else if d = CHR ''s'' then
          (case ap of VStr s # r \<Rightarrow> if NUL \<in> set s then fmt_args f r (cur @ cstr s) True argv else None
           | _ \<Rightarrow> None)
        else if d = CHR ''b'' then
          (case ap of VStr s # VSize n # r \<Rightarrow>
             if n \<le> length s then fmt_args f r (cur @ take n s) True argv else None
           | _ \<Rightarrow> None)
        else
          (case ap of VInt i # r \<Rightarrow>
             (case int_conv d i of Some x \<Rightarrow> fmt_args f r (cur @ x) True argv | None \<Rightarrow> None)
           | _ \<Rightarrow> None)
      else if c = CHR '' '' then
        if t then fmt_args (d # f) ap [] False (argv @ [cur]) else fmt_args (d # f) ap cur False argv
      else fmt_args (d # f) ap (cur @ [c]) True argv)"

subsection \<open>One directive\<close>

text \<open>With \<open>g\<close>, memory does not run out.\<close>

definition al_total :: "allocator \<Rightarrow> bool" where
  "al_total al \<longleftrightarrow> (\<forall>n. al n \<noteq> None)"

lemma catlen_total: "al_total al \<Longrightarrow> good_alloc al \<Longrightarrow> sds_inv s \<Longrightarrow> n \<le> length t \<Longrightarrow> sdscatlen al s t n \<noteq> Inr None"
proof -
  assume t: "al_total al" and a: "good_alloc al" "sds_inv s" "n \<le> length t"
  obtain b where "al ((sdslen s + n) * 2 + 1) = Some b" using t by (auto simp: al_total_def)
  then have "sdsMakeRoomFor al s n \<noteq> None" by (simp add: sdsMakeRoomFor_def realloc_def Let_def)
  with catlen_holds [OF a] show ?thesis by blast
qed

lemma cat_total: "al_total al \<Longrightarrow> good_alloc al \<Longrightarrow> sds_inv s \<Longrightarrow> sdscat al s t \<noteq> Inr None"
  using catlen_total [of al s "length (cstr t)" t]
  by (simp add: sdscat_def strlen_cstr cstr_def length_takeWhile_le)

lemma vprintf_total: "al_total al \<Longrightarrow> vprintf_buf al out n \<noteq> None"
proof (induction al out n rule: vprintf_buf.induct)
  case (1 al out n)
  then obtain b where b: "al n = Some b" by (auto simp: al_total_def)
  show ?case
    using 1 b by (subst vprintf_buf.simps) simp
qed

lemma catvprintf_total: "al_total al \<Longrightarrow> good_alloc al \<Longrightarrow> sds_inv s \<Longrightarrow> sdscatvprintf al s out \<noteq> Inr None"
  using vprintf_total [of al out 16] cat_total [of al s] by (auto simp: sdscatvprintf_def)

lemma empty_total: "al_total al \<Longrightarrow> good_alloc al \<Longrightarrow> sdsempty al \<noteq> Inr None"
  using newlen_holds [of al 0 "[NUL]"] by (simp add: sdsempty_def al_total_def)

fun next_ok :: "bool \<Rightarrow> (sds \<times> va list \<times> string) option res \<Rightarrow> string \<Rightarrow> va list \<Rightarrow> string \<Rightarrow> bool" where
  "next_ok g (Inl e) x ap c = False"
| "next_ok g (Inr None) x ap c = (\<not> g)"
| "next_ok g (Inr (Some (s, ap', c'))) x ap c = (sds_inv s \<and> sds_str s = x \<and> ap' = ap \<and> c' = c)"

lemma next_ok_bind: "holds m x \<Longrightarrow> g \<longrightarrow> m \<noteq> Inr None \<Longrightarrow> next_ok g (cat_bind m (\<lambda>s. Inr (Some (s, ap, c)))) x ap c"
  by (cases "(m, x)" rule: holds.cases) auto

lemma cat_n_total:
  "good_alloc al \<Longrightarrow> sds_inv s \<Longrightarrow> n \<le> length t \<Longrightarrow> g \<longrightarrow> al_total al \<Longrightarrow>
    g \<longrightarrow> (if 0 < n then sdscatlen al s t n else Inr (Some s)) \<noteq> Inr None"
  using catlen_total [of al s n t] by auto

lemma cat_n_holds:
  "good_alloc al \<Longrightarrow> sds_inv s \<Longrightarrow> n \<le> length t \<Longrightarrow>
    holds (if 0 < n then sdscatlen al s t n else Inr (Some s)) (sds_str s @ take n t)"
  using catlen_holds [of al s n t] by auto

lemma directive_s:
  assumes "good_alloc al" "sds_inv s" "NUL \<in> set a" "g \<longrightarrow> al_total al"
  shows "next_ok g (directive al pf (CHR ''%'' # CHR ''s'' # c) (VStr a # ap) s) (sds_str s @ cstr a) ap c"
proof -
  have "length (cstr a) \<le> length a" by (simp add: cstr_def length_takeWhile_le)
  from next_ok_bind [OF cat_n_holds [OF assms(1,2) this] cat_n_total [OF assms(1,2) this assms(4)], of ap c] assms(3) show ?thesis
    unfolding cstr_take by (simp add: directive_def va_str_def strlen_cstr)
qed

lemma directive_b:
  assumes "good_alloc al" "sds_inv s" "n \<le> length a" "g \<longrightarrow> al_total al"
  shows "next_ok g (directive al pf (CHR ''%'' # CHR ''b'' # c) (VStr a # VSize n # ap) s) (sds_str s @ take n a) ap c"
  using next_ok_bind [OF cat_n_holds [OF assms(1-3)] cat_n_total [OF assms(1-4)], of ap c] assms(3)
  by (simp add: directive_def va_str_def va_size_def)

lemma directive_percent:
  assumes "good_alloc al" "sds_inv s" "g \<longrightarrow> al_total al"
  shows "next_ok g (directive al pf (CHR ''%'' # CHR ''%'' # c) ap s) (sds_str s @ ''%'') ap c"
  using next_ok_bind [OF cat_holds [OF assms(1,2), of "[CHR ''%'', NUL]"], of g ap c] cat_total [OF _ assms(1,2)] assms(3)
  by (simp add: directive_def cstr_def)

lemma dec_NUL: "NUL \<notin> set (dec n)"
  using dec_is_digit [of NUL n] by auto

lemma dec_int_NUL: "NUL \<notin> set (dec_int i)"
  using dec_NUL by (auto simp: dec_int_def)

lemma int_conv_chars: "int_conv d i = Some x \<Longrightarrow> d \<in> {CHR ''d'', CHR ''i'', CHR ''u''}"
  by (auto simp: int_conv_def split: if_splits)

lemma skip_prefix_int: "d \<in> {CHR ''d'', CHR ''i'', CHR ''u''} \<Longrightarrow> skip_prefix (d # c) = d # c"
proof -
  assume d: "d \<in> {CHR ''d'', CHR ''i'', CHR ''u''}"
  have "\<not> is_digit CHR ''d''" "\<not> is_digit CHR ''i''" "\<not> is_digit CHR ''u''" by code_simp+
  with d have g: "\<not> is_digit d" by blast
  have "d \<noteq> CHR ''#''" "d \<noteq> CHR ''0''" "d \<noteq> CHR ''-''" "d \<noteq> CHR '' ''" "d \<noteq> CHR ''+''" "d \<noteq> CHR ''.''"
    using d by auto
  with g show ?thesis by (simp add: skip_prefix_def skip1_def)
qed

lemma conversion_int: "d \<in> {CHR ''d'', CHR ''i'', CHR ''u''} \<Longrightarrow> conversion (d # c) = Inr (Some (False, d # c))"
  by (auto simp: conversion_def intfmts_def)

lemma conv_text_int: "int_conv d i = Some x \<Longrightarrow> conv_text pf [CHR ''%'', d] (VInt i) = x"
  by (auto simp: int_conv_def conv_text_def split: if_splits)

lemma directive_default:
  assumes "d \<noteq> CHR ''s''" "d \<noteq> CHR ''b''" "d \<noteq> CHR ''%''"
  shows "directive al pf (p # d # c) ap cur =
    cat_bind (conversion (skip_prefix (d # c)))
      (\<lambda>(dbl, q). bind_res (if dbl then va_double ap else va_int ap)
      (\<lambda>(v, ap1).
         let l = length (p # d # c) - length q + 1
         in if l < 14 then
              cat_bind (sdscatvprintf al cur (conv_text pf (cstr (take l (p # d # c))) v))
                (\<lambda>s. Inr (Some (s, ap1, drop 1 q)))
            else Inr (Some (cur, ap1, drop 2 (p # d # c)))))"
proof -
  have c: "char_at (p # d # c) 1 = Inr d" "drop 1 (p # d # c) = d # c" by (simp_all add: char_at_def)
  have i: "(d = CHR ''s'') = False" "(d = CHR ''b'') = False" "(d = CHR ''%'') = False" using assms by blast+
  show ?thesis unfolding directive_def c bind_res.simps i if_False ..
qed

lemma directive_int:
  assumes al: "good_alloc al" and s: "sds_inv s" and g: "g \<longrightarrow> al_total al" and x: "int_conv d i = Some x"
  shows "next_ok g (directive al pf (CHR ''%'' # d # c) (VInt i # ap) s) (sds_str s @ x) ap c"
proof -
  note d = int_conv_chars [OF x]
  have n: "d \<noteq> CHR ''s''" "d \<noteq> CHR ''b''" "d \<noteq> CHR ''%''" "d \<noteq> NUL" using d by auto
  have f: "cstr (take 2 (CHR ''%'' # d # c)) = [CHR ''%'', d]"
    using n(4) by (simp add: cstr_def numeral_2_eq_2)
  have l: "length (CHR ''%'' # d # c) - length (d # c) + 1 = 2" by simp
  have "NUL \<notin> set x" using x dec_NUL dec_int_NUL by (auto simp: int_conv_def split: if_splits)
  from next_ok_bind [OF catvprintf_holds [OF al s this], of g ap c] catvprintf_total [OF _ al s] g
  have "next_ok g (cat_bind (sdscatvprintf al s (conv_text pf (cstr (take 2 (CHR ''%'' # d # c))) (VInt i)))
      (\<lambda>s. Inr (Some (s, ap, c)))) (sds_str s @ x) ap c"
    unfolding f conv_text_int [OF x] by blast
  moreover have "drop 1 (d # c) = c" by simp
  ultimately show ?thesis
    unfolding directive_default [OF n(1-3)] skip_prefix_int [OF d] conversion_int [OF d] cat_bind_simps
      split_conv if_False va_int_def list.case va.case bind_res.simps l Let_def by simp
qed

lemma fmt_directive:
  assumes al: "good_alloc al" and s: "sds_inv s" and g: "g \<longrightarrow> al_total al"
    and f: "fmt_args (CHR ''%'' # d # f) ap (sds_str s) t argv = Some args"
  shows "\<exists>x ap'. next_ok g (directive al pf (CHR ''%'' # d # f @ [NUL]) ap s) x ap' (f @ [NUL])
      \<and> fmt_args f ap' x True argv = Some args"
proof -
  note ds = directive_s [OF al s _ g] directive_b [OF al s _ g] directive_percent [OF al s g] directive_int [OF al s g]
  show ?thesis
    using f ds by (auto split: if_splits list.splits va.splits option.splits) blast+
qed

subsection \<open>The loop\<close>

fun loop_gives :: "bool \<Rightarrow> (sds \<times> bool \<times> sds list) option res \<Rightarrow> string list \<Rightarrow> bool" where
  "loop_gives g (Inl e) args = False"
| "loop_gives g (Inr None) args = (\<not> g)"
| "loop_gives g (Inr (Some (s, t, argv))) args =
     (sds_inv s \<and> (\<forall>a \<in> set argv. sds_inv a) \<and> map sds_str (if t then argv @ [s] else argv) = args)"

abbreviation strs :: "sds list \<Rightarrow> string list" where
  "strs argv \<equiv> map sds_str argv"

lemma gives_bind:
  assumes "holds m x" "g \<longrightarrow> m \<noteq> Inr None" "\<And>s. sds_inv s \<Longrightarrow> sds_str s = x \<Longrightarrow> loop_gives g (f s) args"
  shows "loop_gives g (cat_bind m f) args"
  using assms by (cases "(m, x)" rule: holds.cases) auto

lemma gives_next:
  assumes "next_ok g m x ap c" "\<And>s. sds_inv s \<Longrightarrow> sds_str s = x \<Longrightarrow> loop_gives g (f (s, ap, c)) args"
  shows "loop_gives g (cat_bind m f) args"
  using assms by (cases "(g, m, x, ap, c)" rule: next_ok.cases) auto

lemma step_literal:
  assumes "good_alloc al" "sds_inv s" and g: "g \<longrightarrow> al_total al \<and> (\<forall>k. vec k)" and "c \<noteq> CHR '' ''" "c \<noteq> NUL" "c = CHR ''%'' \<longrightarrow> m = []"
    and "\<And>s'. sds_inv s' \<Longrightarrow> sds_str s' = sds_str s @ [c] \<Longrightarrow>
      loop_gives g (vformat_loop al vec pf (m @ [NUL]) ap s' True argv) args"
  shows "loop_gives g (vformat_loop al vec pf ((c # m) @ [NUL]) ap s t argv) args"
proof -
  have l: "char_at ((c # m) @ [NUL]) 0 = Inr c"
    "drop 1 ((c # m) @ [NUL]) = m @ [NUL]" by (simp_all add: char_at_def)
  have n: "bind_res (if c = CHR ''%'' then char_at ((c # m) @ [NUL]) 1 else Inr NUL) f = f NUL" for f :: "char \<Rightarrow> (sds \<times> bool \<times> sds list) option res"
    using assms(6) by (auto simp: char_at_def)
  have h: "holds (sdscatlen al s ((c # m) @ [NUL]) 1) (sds_str s @ [c])"
    using catlen_holds [OF assms(1,2), of 1 "(c # m) @ [NUL]"] by simp
  show ?thesis
    unfolding vformat_loop.simps [of al vec pf "(c # m) @ [NUL]"] l bind_res.simps
    using assms(4,5) by (simp only: n if_False if_True simp_thms)
      (rule gives_bind [OF h], use assms(7) g catlen_total [OF _ assms(1,2), of 1] in simp_all)
qed

lemma step_space:
  assumes al: "good_alloc al" and g: "g \<longrightarrow> al_total al \<and> (\<forall>k. vec k)"
    and 1: "t \<Longrightarrow> (\<And>s'. sds_inv s' \<Longrightarrow> sds_str s' = [] \<Longrightarrow>
      loop_gives g (vformat_loop al vec pf (m @ [NUL]) ap s' False (argv @ [s])) args)"
    and 2: "\<not> t \<Longrightarrow> loop_gives g (vformat_loop al vec pf (m @ [NUL]) ap s False argv) args"
  shows "loop_gives g (vformat_loop al vec pf ((CHR '' '' # m) @ [NUL]) ap s t argv) args"
proof (cases t)
  case True
  have l: "loop_gives g (cat_bind (sdsempty al) (\<lambda>fresh. vformat_loop al vec pf (m @ [NUL]) ap fresh False (argv @ [s]))) args"
    by (rule gives_bind [OF empty_holds [OF al]]) (use g empty_total [OF _ al] 1 [OF True] in blast)+
  show ?thesis
    unfolding vformat_loop.simps [of al vec pf "(CHR '' '' # m) @ [NUL]"] using True l g
    by (auto simp: char_at_def)
next
  case False
  with 2 show ?thesis
    unfolding vformat_loop.simps [of al vec pf "(CHR '' '' # m) @ [NUL]"] by (simp add: char_at_def)
qed

lemma step_directive:
  assumes "d \<noteq> NUL" and n: "next_ok g (directive al pf (CHR ''%'' # d # m @ [NUL]) ap s) x ap' (m @ [NUL])"
    and "\<And>s'. sds_inv s' \<Longrightarrow> sds_str s' = x \<Longrightarrow>
      loop_gives g (vformat_loop al vec pf (m @ [NUL]) ap' s' True argv) args"
  shows "loop_gives g (vformat_loop al vec pf ((CHR ''%'' # d # m) @ [NUL]) ap s t argv) args"
proof -
  have l: "char_at ((CHR ''%'' # d # m) @ [NUL]) 0 = Inr CHR ''%''" "char_at ((CHR ''%'' # d # m) @ [NUL]) 1 = Inr d"
    "(CHR ''%'' # d # m) @ [NUL] = CHR ''%'' # d # m @ [NUL]" by (simp_all add: char_at_def)
  have i: "(CHR ''%'' = NUL) = False" "(d = NUL) = False" using assms(1) by simp_all
  show ?thesis
    unfolding vformat_loop.simps [of al vec pf "(CHR ''%'' # d # m) @ [NUL]"] l(1,2) bind_res.simps i
    by (simp only: if_False if_True simp_thms bind_res.simps i l)
      (rule gives_next [OF n], use assms(3) in simp)
qed

lemma step_end:
  "vformat_loop al vec pf [NUL] ap s t argv = Inr (Some (s, t, argv))"
  by (subst vformat_loop.simps) (simp add: char_at_def)

lemma vformat_ok:
  assumes "good_alloc al" and g: "g \<longrightarrow> al_total al \<and> (\<forall>k. vec k)"
  shows "NUL \<notin> set f \<Longrightarrow> sds_inv s \<Longrightarrow> \<forall>a \<in> set argv. sds_inv a \<Longrightarrow>
    fmt_args f ap (sds_str s) t (strs argv) = Some args \<Longrightarrow>
    loop_gives g (vformat_loop al vec pf (f @ [NUL]) ap s t argv) args"
proof (induction "length f" arbitrary: f ap s t argv rule: less_induct)
  case less
  consider "f = []" | c where "f = [c]" | c d m where "f = c # d # m"
    by (cases f; cases "tl f") auto
  then show ?case
  proof cases
    case 1
    with less.prems show ?thesis by (auto simp: step_end)
  next
    case (2 c)
    show ?thesis
    proof (cases "c = CHR '' ''")
      case True
      show ?thesis
        unfolding 2 True
        by (rule step_space [OF assms]) (use less.prems True 2 in \<open>auto simp: step_end\<close>)
    next
      case False
      show ?thesis
        unfolding 2 by (rule step_literal [OF assms(1) less.prems(2) g False])
          (use less.prems False 2 in \<open>auto simp: step_end\<close>)
    qed
  next
    case (3 c d m)
    note IH = less.hyps
    show ?thesis
    proof (cases "c = CHR ''%''")
      case True
      from fmt_directive [OF assms(1) less.prems(2), of g d m ap t "strs argv" args] less.prems(4) g obtain x ap' where
        n: "next_ok g (directive al pf (CHR ''%'' # d # m @ [NUL]) ap s) x ap' (m @ [NUL])"
        "fmt_args m ap' x True (strs argv) = Some args" unfolding 3 True by blast
      show ?thesis
        unfolding 3 True
        by (rule step_directive [OF _ n(1)]) (use less.prems n(2) 3 IH in auto)
    next
      case np: False
      show ?thesis
      proof (cases "c = CHR '' ''")
        case True
        show ?thesis
          unfolding 3 True
          by (rule step_space [OF assms]) (use less.prems True 3 IH [of "d # m"] in auto)
      next
        case False
        show ?thesis
          unfolding 3 by (rule step_literal [OF assms(1) less.prems(2) g False])
            (use less.prems False np 3 IH [of "d # m"] in auto)
      qed
    qed
  qed
qed

lemma sds_buf_take: "sds_inv a \<Longrightarrow> take (sdslen a) (sds_buf a) = sds_str a \<and> sdslen a \<le> length (sds_buf a)"
  by (simp add: sds_str_def sdslen_def sds_inv_def)

text \<open>Whatever fails, the command is the encoding of the arguments or there is none; without failures
  there is one.\<close>

lemma vFormat_ok:
  assumes al: "good_alloc al" and f: "NUL \<notin> set f" "fmt_args f ap [] False [] = Some args"
  shows "redisvFormatCommand al vec pf True (f @ [NUL]) ap
    \<in> (if al_total al \<and> (\<forall>k. vec k) then {} else {Inr None})
      \<union> {Inr (Some (command_bytes args @ [NUL], length (command_bytes args)))}"
proof -
  define g where "g \<longleftrightarrow> al_total al \<and> (\<forall>k. vec k)"
  define fin where "fin = (\<lambda>(curarg, touched, argv0).
    if touched \<and> \<not> vec (length argv0) then Inr None
    else let argv = (if touched then argv0 @ [curarg] else argv0)
         in build_command al
              (sum_list (map (\<lambda>s. bulklen (sdslen s)) argv) + (1 + intlen (int (length argv)) + 2))
              (map (\<lambda>s. (sds_buf s, sdslen s)) argv))"
  let ?goal = "\<lambda>r. r \<in> (if g then {} else {Inr None})
    \<union> {Inr (Some (command_bytes args @ [NUL], length (command_bytes args)))}"
  have fin: "?goal (fin (s, t, argv))" if "loop_gives g (Inr (Some (s, t, argv))) args" for s t argv
  proof -
    define v where "v = (if t then argv @ [s] else argv)"
    have inv: "\<forall>a \<in> set v. sds_inv a" and strs: "strs v = args" using that by (auto simp: v_def)
    have a: "args = map (\<lambda>(a, n). take n a) (map (\<lambda>s. (sds_buf s, sdslen s)) v)"
      unfolding strs [symmetric] using inv by (simp add: sds_buf_take)
    have n: "\<forall>(a, n) \<in> set (map (\<lambda>s. (sds_buf s, sdslen s)) v). n \<le> length a"
      using inv sds_buf_take by auto
    have "map (\<lambda>s. bulklen (sdslen s)) v = map (\<lambda>a. bulklen (length a)) args"
      unfolding strs [symmetric] using inv by (simp add: sds_str_length sdslen_def)
    moreover have "length v = length args" unfolding strs [symmetric] by simp
    ultimately have tot: "sum_list (map (\<lambda>s. bulklen (sdslen s)) v) + (1 + intlen (int (length v)) + 2)
        = length (command_bytes args)"
      using total_length [of args] by (simp add: ac_simps)
    show ?thesis
      unfolding fin_def split_conv v_def [symmetric] Let_def tot build_command_ok [OF al n a]
      by (auto simp: g_def al_total_def)
  qed
  have "?goal (cat_bind (sdsempty al) (\<lambda>s. cat_bind (vformat_loop al vec pf (f @ [NUL]) ap s False []) fin))"
  proof (cases "sdsempty al = Inr None")
    case False
    with empty_holds [OF al] obtain s where s: "sdsempty al = Inr (Some s)" "sds_inv s" "sds_str s = []"
      by (cases "(sdsempty al, [] :: string)" rule: holds.cases) auto
    have "loop_gives g (vformat_loop al vec pf (f @ [NUL]) ap s False []) args"
      by (rule vformat_ok [OF al _ f(1) s(2)]) (simp_all add: s(3) f(2) g_def)
    then show ?thesis
      using fin by (cases "(g, vformat_loop al vec pf (f @ [NUL]) ap s False [], args)" rule: loop_gives.cases)
        (auto simp: s(1))
  qed (use empty_total [OF _ al] in \<open>auto simp: g_def\<close>)
  then show ?thesis by (simp add: redisvFormatCommand_def fin_def g_def)
qed

section \<open>Properties\<close>

lemma command_wire_ok:
  "length args < 2 ^ 31 \<Longrightarrow> \<forall>a \<in> set args. length a < 2 ^ 31 \<Longrightarrow> wire_ok 8 (command_reply args)"
  by (auto simp: command_reply_def)

text \<open>A command built from an argument vector is the protocol's array of bulk strings, one per
  argument with exactly its bytes, followed by a NUL behind the returned length; the block is never
  left, the position assertion holds, and the result is -1 exactly when the block cannot be allocated.\<close>

theorem command_argv_encodes:
  assumes "good_alloc al" "length lens = length argv" "\<forall>(a, n) \<in> set (zip argv lens). n \<le> length a"
    and "args = map (\<lambda>(a, n). take n a) (zip argv lens)"
  shows "redisFormatCommandArgv al argv (Some lens) =
    Inr (if al (length (encode (command_reply args)) + 1) = None then None
         else Some (encode (command_reply args) @ [NUL], length (encode (command_reply args))))"
  unfolding command_bytes_encode
  by (rule argv_ok [OF assms(1) with_lengths_given [OF assms(2)] assms(3) _ assms(4)]) (simp add: assms(2))

theorem command_argv_encodes_witness:
  "redisFormatCommandArgv zero_alloc [''SET'', CHR ''k'' # NUL # ''x''] (Some [3, 2]) =
     Inr (Some (encode (command_reply [''SET'', [CHR ''k'', NUL]]) @ [NUL], 21))"
proof -
  have e: "map (\<lambda>(a, n). take n a) (zip [''SET'', CHR ''k'' # NUL # ''x''] [3, 2]) = [''SET'', [CHR ''k'', NUL]]"
    by simp
  have l: "length (encode (command_reply [''SET'', [CHR ''k'', NUL]])) = 21" by code_simp
  show ?thesis
    using command_argv_encodes [OF good_alloc_zero, of "[3, 2]" "[''SET'', CHR ''k'' # NUL # ''x'']" "[''SET'', [CHR ''k'', NUL]]"] e
    by (simp add: l zero_alloc_def)
qed


lemma zero_alloc_total: "al_total zero_alloc"
  by (simp add: al_total_def zero_alloc_def)




text \<open>A conversion that the end of the format cuts short is taken for an integer conversion, because
  \<open>strchr\<close> also finds the NUL behind the conversion characters: the position moves behind the
  terminating NUL and the loop reads past the end of the format.\<close>

theorem format_overrun:
  "redisFormatCommand zero_alloc (\<lambda>_. True) (\<lambda>_ _. ''1'') True (''GET %5'' @ [NUL]) [VInt 1] = Inl OutOfBounds"
  by code_simp

end
