(* ===== verification/Net.thy ===== *)
theory Net
  imports Reader_Roundtrip "HOL-Library.Multiset"
begin

text \<open>
  The context structure of \<open>hiredis/hiredis.h\<close> and \<open>hiredis/net.c\<close>: connecting a socket. Every system call is
  recorded in the world with what the kernel answers; the lemmas account for every descriptor that is
  opened. \<open>poll\<close>, \<open>connect\<close> and the rest may answer anything. Host names are resolved outside the model.
\<close>

unbundle bit_operations_syntax

section \<open>The kernel\<close>

text \<open>
  The system calls made so far, in order, and what the kernel answers: \<open>w_ret k\<close> is the result of the
  \<open>k\<close>-th call, the \<open>errno\<close> it leaves when the result is -1 (for \<open>getsockopt\<close> the value of SO_ERROR), and
  the bytes a \<open>read\<close> delivers. \<open>w_alloc\<close> and \<open>w_objects\<close> are the outcomes of allocations from that call
  on, \<open>w_strerror\<close> the texts of \<open>strerror_r\<close>.
\<close>

datatype syscall =
    SysSocket int
  | SysClose int
  | SysConnect int
  | SysFcntl int
  | SysSetsockopt int
  | SysGetsockopt int
  | SysPoll int int
  | SysRead int
  | SysWrite int string

record world =
  w_ret :: "nat \<Rightarrow> int \<times> int \<times> string"
  w_alloc :: "nat \<Rightarrow> allocator"
  w_objects :: "nat \<Rightarrow> nat \<Rightarrow> bool"
  w_strerror :: "int \<Rightarrow> string"
  w_calls :: "syscall list"
  w_errno :: int

abbreviation w_now :: "world \<Rightarrow> nat" where
  "w_now w \<equiv> length (w_calls w)"

definition next_ret :: "world \<Rightarrow> int" where
  "next_ret w = fst (w_ret w (w_now w))"

definition next_errno :: "world \<Rightarrow> int" where
  "next_errno w = fst (snd (w_ret w (w_now w)))"

definition next_bytes :: "world \<Rightarrow> string" where
  "next_bytes w = snd (snd (w_ret w (w_now w)))"

definition sys :: "syscall \<Rightarrow> world \<Rightarrow> world" where
  "sys call w = w\<lparr>w_errno := (if next_ret w = -1 then next_errno w else w_errno w), w_calls := w_calls w @ [call]\<rparr>"

definition EAGAIN :: int where "EAGAIN = 11"
definition ETIMEDOUT :: int where "ETIMEDOUT = 110"
definition EHOSTUNREACH :: int where "EHOSTUNREACH = 113"
definition EINPROGRESS :: int where "EINPROGRESS = 115"

section \<open>The context\<close>

definition REDIS_ERR_IO :: nat where "REDIS_ERR_IO = 1"
definition REDIS_ERR_OTHER :: nat where "REDIS_ERR_OTHER = 2"
definition REDIS_ERR_EOF :: nat where "REDIS_ERR_EOF = 3"

definition REDIS_BLOCK :: u32 where "REDIS_BLOCK = 0x1"
definition REDIS_CONNECTED :: u32 where "REDIS_CONNECTED = 0x2"

record redisContext =
  c_err :: nat
  c_errstr :: string
  c_fd :: int
  c_flags :: u32
  c_obuf :: "sds option"
  c_reader :: "reader option"

text \<open>\<open>__redisSetError\<close>: the text is cut to 127 bytes; without one it is the text of \<open>errno\<close>.\<close>

definition redisSetError :: "world \<Rightarrow> redisContext \<Rightarrow> nat \<Rightarrow> string option \<Rightarrow> redisContext res" where
  "redisSetError w c ty str =
     (case str of
        Some s \<Rightarrow> Inr (c\<lparr>c_err := ty, c_errstr := take 127 s\<rparr>)
      | None \<Rightarrow> if ty = REDIS_ERR_IO
                then Inr (c\<lparr>c_err := ty, c_errstr := take 127 (w_strerror w (w_errno w))\<rparr>)
                else Inl AssertFailed)"

definition redisSetErrorFromErrno :: "world \<Rightarrow> redisContext \<Rightarrow> nat \<Rightarrow> string option \<Rightarrow> redisContext" where
  "redisSetErrorFromErrno w c ty what =
     (let pre = (case what of None \<Rightarrow> [] | Some p \<Rightarrow> take 127 (p @ '': ''));
          buf = pre @ take (127 - length pre) (w_strerror w (w_errno w))
      in c\<lparr>c_err := ty, c_errstr := take 127 buf\<rparr>)"

section \<open>Sockets\<close>

text \<open>The result of an operation is the context, the world and whether it is \<open>REDIS_OK\<close>.\<close>

type_synonym conn = "redisContext \<times> world \<times> bool"

text \<open>\<open>redisSetError..FromErrno\<close>, \<open>close(fd)\<close>, \<open>return REDIS_ERR\<close>.\<close>

definition fail_close :: "redisContext \<Rightarrow> world \<Rightarrow> int \<Rightarrow> string option \<Rightarrow> conn" where
  "fail_close c w fd what = (redisSetErrorFromErrno w c REDIS_ERR_IO what, sys (SysClose fd) w, False)"

definition redisSetReuseAddr :: "redisContext \<Rightarrow> world \<Rightarrow> int \<Rightarrow> conn" where
  "redisSetReuseAddr c w fd =
     (let r = next_ret w; w1 = sys (SysSetsockopt fd) w
      in if r = -1 then fail_close c w1 fd None else (c, w1, True))"

definition AF_INET :: int where "AF_INET = 2"
definition AF_LOCAL :: int where "AF_LOCAL = 1"

text \<open>The descriptor is the last component; -1 is \<open>REDIS_ERR\<close>.\<close>

definition redisCreateSocket :: "redisContext \<Rightarrow> world \<Rightarrow> int \<Rightarrow> redisContext \<times> world \<times> int" where
  "redisCreateSocket c w type =
     (let s = next_ret w; w1 = sys (SysSocket s) w
      in if s = -1 then (redisSetErrorFromErrno w1 c REDIS_ERR_IO None, w1, -1)
         else if type = AF_INET then
           (case redisSetReuseAddr c w1 s of (c2, w2, ok) \<Rightarrow> if ok then (c2, w2, s) else (c2, w2, -1))
         else (c, w1, s))"

definition redisSetBlocking :: "redisContext \<Rightarrow> world \<Rightarrow> int \<Rightarrow> bool \<Rightarrow> conn" where
  "redisSetBlocking c w fd blocking =
     (let r = next_ret w; w1 = sys (SysFcntl fd) w
      in if r = -1 then fail_close c w1 fd (Some ''fcntl(F_GETFL)'')
         else
           let r2 = next_ret w1; w2 = sys (SysFcntl fd) w1
           in if r2 = -1 then fail_close c w2 fd (Some ''fcntl(F_SETFL)'')
              else (c, w2, True))"

definition redisSetTcpNoDelay :: "redisContext \<Rightarrow> world \<Rightarrow> int \<Rightarrow> conn" where
  "redisSetTcpNoDelay c w fd =
     (let r = next_ret w; w1 = sys (SysSetsockopt fd) w
      in if r = -1 then fail_close c w1 fd (Some ''setsockopt(TCP_NODELAY)'') else (c, w1, True))"

definition redisCheckSocketError :: "redisContext \<Rightarrow> world \<Rightarrow> int \<Rightarrow> conn" where
  "redisCheckSocketError c w fd =
     (let r = next_ret w; err = next_errno w; w1 = sys (SysGetsockopt fd) w
      in if r = -1 then fail_close c w1 fd (Some ''getsockopt(SO_ERROR)'')
         else if err \<noteq> 0 then fail_close c (w1\<lparr>w_errno := err\<rparr>) fd None
         else (c, w1, True))"

text \<open>Time-outs: seconds and microseconds, as \<open>long\<close>; C division truncates toward zero.\<close>

type_synonym timeval = "int \<times> int"

definition LONG_MAX :: int where "LONG_MAX = 2 ^ 63 - 1"
definition INT_MAX :: int where "INT_MAX = 2 ^ 31 - 1"
definition MAX_MSEC :: int where "MAX_MSEC = (LONG_MAX - 999) div 1000"

definition cdiv :: "int \<Rightarrow> int \<Rightarrow> int" where
  "cdiv a b = (if a < 0 then - (- a div b) else a div b)"

definition bad_timeout :: "timeval option \<Rightarrow> bool" where
  "bad_timeout t = (case t of None \<Rightarrow> False | Some (s, us) \<Rightarrow> 1000000 < us \<or> MAX_MSEC < s)"

definition timeout_msec :: "timeval option \<Rightarrow> int" where
  "timeout_msec t =
     (case t of
        None \<Rightarrow> -1
      | Some (s, us) \<Rightarrow>
          let msec = s * 1000 + cdiv (us + 999) 1000
          in if msec < 0 \<or> INT_MAX < msec then INT_MAX else msec)"

definition redisContextWaitReady :: "redisContext \<Rightarrow> world \<Rightarrow> int \<Rightarrow> timeval option \<Rightarrow> conn" where
  "redisContextWaitReady c w fd timeout =
     (if bad_timeout timeout then (c, sys (SysClose fd) w, False)
      else if w_errno w = EINPROGRESS then
        let r = next_ret w; w1 = sys (SysPoll fd (timeout_msec timeout)) w
        in if r = -1 then fail_close c w1 fd (Some ''poll(2)'')
           else if r = 0 then fail_close c (w1\<lparr>w_errno := ETIMEDOUT\<rparr>) fd None
           else redisCheckSocketError c w1 fd
      else fail_close c w fd None)"

definition redisContextSetTimeout :: "redisContext \<Rightarrow> world \<Rightarrow> timeval \<Rightarrow> conn" where
  "redisContextSetTimeout c w tv =
     (let r = next_ret w; w1 = sys (SysSetsockopt (c_fd c)) w
      in if r = -1 then (redisSetErrorFromErrno w1 c REDIS_ERR_IO (Some ''setsockopt(SO_RCVTIMEO)''), w1, False)
         else
           let r2 = next_ret w1; w2 = sys (SysSetsockopt (c_fd c)) w1
           in if r2 = -1
              then (redisSetErrorFromErrno w2 c REDIS_ERR_IO (Some ''setsockopt(SO_SNDTIMEO)''), w2, False)
              else (c, w2, True))"

text \<open>Sequencing: go on only after \<open>REDIS_OK\<close>.\<close>

definition and_then :: "conn \<Rightarrow> (redisContext \<Rightarrow> world \<Rightarrow> conn) \<Rightarrow> conn" where
  "and_then m f = (case m of (c, w, ok) \<Rightarrow> if ok then f c w else (c, w, False))"

text \<open>From \<open>connect\<close> on. The first component tells to go on with the next address.\<close>

definition connect_socket :: "redisContext \<Rightarrow> world \<Rightarrow> int \<Rightarrow> bool \<Rightarrow> bool \<Rightarrow> timeval option \<Rightarrow> bool \<times> conn" where
  "connect_socket c w s blocking skip timeout =
     (let r = next_ret w; w1 = sys (SysConnect s) w
      in if r = -1 then
           if skip \<and> w_errno w1 = EHOSTUNREACH then (True, c, sys (SysClose s) w1, False)
           else if w_errno w1 = EINPROGRESS \<and> \<not> blocking then (False, c, w1, True)
           else (False, redisContextWaitReady c w1 s timeout)
         else (False, c, w1, True))"

definition connected :: "redisContext \<Rightarrow> int \<Rightarrow> redisContext" where
  "connected c s = c\<lparr>c_fd := s, c_flags := c_flags c OR REDIS_CONNECTED\<rparr>"

text \<open>The body of the loop over the addresses, for a socket \<open>s\<close>; the first component is the \<open>continue\<close>.\<close>

definition adopt :: "redisContext \<Rightarrow> world \<Rightarrow> int \<Rightarrow> bool \<Rightarrow> conn" where
  "adopt c w s blocking =
     and_then (if blocking then redisSetBlocking c w s True else (c, w, True))
       (\<lambda>c w. and_then (redisSetTcpNoDelay c w s) (\<lambda>c w. (connected c s, w, True)))"

definition try_address :: "redisContext \<Rightarrow> world \<Rightarrow> int \<Rightarrow> bool \<Rightarrow> timeval option \<Rightarrow> bool \<times> conn" where
  "try_address c w s blocking timeout =
     (case redisSetBlocking c w s False of
        (c1, w1, ok) \<Rightarrow>
          if \<not> ok then (False, c1, w1, False)
          else
            case connect_socket c1 w1 s blocking True timeout of
              (skip, m) \<Rightarrow> if skip then (True, m) else (False, and_then m (\<lambda>c w. adopt c w s blocking)))"

text \<open>The loop over the addresses \<open>getaddrinfo\<close> found; only their number matters here.\<close>

fun connect_loop :: "redisContext \<Rightarrow> world \<Rightarrow> bool \<Rightarrow> timeval option \<Rightarrow> nat \<Rightarrow> conn" where
  "connect_loop c w blocking timeout 0 =
     (c\<lparr>c_err := REDIS_ERR_OTHER,
        c_errstr := take 127 (''Can'' @ [CHR 0x27] @ ''t create socket: '' @ w_strerror w (w_errno w))\<rparr>, w, False)"
| "connect_loop c w blocking timeout (Suc n) =
     (let s = next_ret w; w1 = sys (SysSocket s) w
      in if s = -1 then connect_loop c w1 blocking timeout n
         else
           case try_address c w1 s blocking timeout of
             (skip, c2, w2, ok) \<Rightarrow> if skip then connect_loop c2 w2 blocking timeout n else (c2, w2, ok))"

text \<open>\<open>resolved\<close> is the outcome of \<open>getaddrinfo\<close>: an error text or the number of addresses.\<close>

definition redisContextConnectTcp ::
  "redisContext \<Rightarrow> world \<Rightarrow> string + nat \<Rightarrow> timeval option \<Rightarrow> conn" where
  "redisContextConnectTcp c w resolved timeout =
     (case resolved of
        Inl msg \<Rightarrow> (c\<lparr>c_err := REDIS_ERR_OTHER, c_errstr := take 127 msg\<rparr>, w, False)
      | Inr n \<Rightarrow> connect_loop c w (c_flags c AND REDIS_BLOCK \<noteq> 0) timeout n)"

definition redisContextConnectUnix :: "redisContext \<Rightarrow> world \<Rightarrow> timeval option \<Rightarrow> conn" where
  "redisContextConnectUnix c w timeout =
     (let blocking = (c_flags c AND REDIS_BLOCK \<noteq> 0)
      in case redisCreateSocket c w AF_LOCAL of
           (c1, w1, s) \<Rightarrow>
             if s < 0 then (c1, w1, False)
             else and_then (redisSetBlocking c1 w1 s False)
               (\<lambda>c w. and_then (snd (connect_socket c w s blocking False timeout))
               (\<lambda>c w. and_then (if blocking then redisSetBlocking c w s True else (c, w, True))
               (\<lambda>c w. (connected c s, w, True)))))"

section \<open>Descriptors\<close>

fun opened :: "syscall list \<Rightarrow> int list" where
  "opened [] = []"
| "opened (SysSocket s # cs) = (if s = -1 then opened cs else s # opened cs)"
| "opened (_ # cs) = opened cs"

fun closed :: "syscall list \<Rightarrow> int list" where
  "closed [] = []"
| "closed (SysClose s # cs) = s # closed cs"
| "closed (_ # cs) = closed cs"

lemma opened_append [simp]: "opened (a @ b) = opened a @ opened b"
  by (induction a rule: opened.induct) auto

lemma closed_append [simp]: "closed (a @ b) = closed a @ closed b"
  by (induction a rule: closed.induct) auto

text \<open>An operation on the socket \<open>s\<close> opens nothing, and closes \<open>s\<close> exactly when it fails. Unless the time-out is
  invalid, a failure leaves an error in the context.\<close>

definition owns :: "world \<Rightarrow> int \<Rightarrow> redisContext \<Rightarrow> conn \<Rightarrow> bool" where
  "owns w s c m = (case m of (c', w', ok) \<Rightarrow>
     opened (w_calls w') = opened (w_calls w) \<and>
     closed (w_calls w') = closed (w_calls w) @ (if ok then [] else [s]) \<and>
     c_fd c' = c_fd c \<and> c_flags c' = c_flags c \<and> c_obuf c' = c_obuf c \<and> c_reader c' = c_reader c \<and>
     (if ok then c' = c else c_err c' = c_err c \<or> c_err c' = REDIS_ERR_IO))"

abbreviation reports :: "conn \<Rightarrow> bool" where
  "reports m \<equiv> (case m of (c', w', ok) \<Rightarrow> ok \<or> c_err c' = REDIS_ERR_IO)"

named_theorems net_defs \<open>the operations on one socket\<close>

lemmas [net_defs] = owns_def fail_close_def redisSetErrorFromErrno_def sys_def Let_def

lemma reuse_owns: "owns w s c (redisSetReuseAddr c w s)" "reports (redisSetReuseAddr c w s)"
  by (simp_all add: redisSetReuseAddr_def net_defs)

lemma blocking_owns: "owns w s c (redisSetBlocking c w s b)" "reports (redisSetBlocking c w s b)"
  by (simp_all add: redisSetBlocking_def net_defs)

lemma nodelay_owns: "owns w s c (redisSetTcpNoDelay c w s)" "reports (redisSetTcpNoDelay c w s)"
  by (simp_all add: redisSetTcpNoDelay_def net_defs)

lemma check_owns: "owns w s c (redisCheckSocketError c w s)" "reports (redisCheckSocketError c w s)"
  by (simp_all add: redisCheckSocketError_def net_defs)

lemma owns_start:
  "opened (w_calls w1) = opened (w_calls w) \<Longrightarrow> closed (w_calls w1) = closed (w_calls w) \<Longrightarrow>
    owns w1 s c m \<Longrightarrow> owns w s c m"
  by (simp add: owns_def)

lemma ready_owns:
  "owns w s c (redisContextWaitReady c w s t)"
  "\<not> bad_timeout t \<Longrightarrow> reports (redisContextWaitReady c w s t)"
proof -
  let ?w = "sys (SysPoll s (timeout_msec t)) w"
  have o: "owns w s c (redisCheckSocketError c ?w s)"
    by (rule owns_start [OF _ _ check_owns(1)]) (simp_all add: sys_def)
  show "owns w s c (redisContextWaitReady c w s t)"
    using o by (simp add: redisContextWaitReady_def Let_def) (simp add: net_defs)
  show "\<not> bad_timeout t \<Longrightarrow> reports (redisContextWaitReady c w s t)"
    using check_owns(2) [of c ?w s] by (simp add: redisContextWaitReady_def Let_def) (simp add: net_defs)
qed

lemma connect_owns:
  assumes "connect_socket c w s b skip t = (sk, m)"
  shows "owns w s c m" "sk \<Longrightarrow> \<not> snd (snd m) \<and> fst m = c" "\<not> sk \<Longrightarrow> \<not> bad_timeout t \<Longrightarrow> reports m" "sk \<Longrightarrow> skip"
proof -
  let ?w = "sys (SysConnect s) w"
  have o: "owns w s c (redisContextWaitReady c ?w s t)"
    by (rule owns_start [OF _ _ ready_owns(1)]) (simp_all add: sys_def)
  show "owns w s c m"
    using assms o unfolding connect_socket_def Let_def
    by (auto split: if_splits) (auto simp: owns_def sys_def)
  show "sk \<Longrightarrow> \<not> snd (snd m) \<and> fst m = c" "sk \<Longrightarrow> skip"
    using assms by (auto simp: connect_socket_def Let_def split: if_splits)
  show "\<not> sk \<Longrightarrow> \<not> bad_timeout t \<Longrightarrow> reports m"
    using assms ready_owns(2) [of t c ?w s] by (auto simp: connect_socket_def Let_def split: if_splits)
qed

lemma owns_then:
  assumes "owns w s c m" "\<And>w'. owns w' s c (f c w')"
  shows "owns w s c (and_then m f)"
proof -
  obtain c' w' ok where m: "m = (c', w', ok)" by (cases m)
  show ?thesis
  proof (cases ok)
    case True
    with assms(1) m have "c' = c" "opened (w_calls w') = opened (w_calls w)" "closed (w_calls w') = closed (w_calls w)"
      by (auto simp: owns_def)
    with assms(2) [of w'] True m show ?thesis by (simp add: and_then_def owns_def)
  qed (use assms m in \<open>auto simp: and_then_def owns_def\<close>)
qed

lemma reports_then:
  "reports m \<Longrightarrow> (\<And>c w. reports (f c w)) \<Longrightarrow> reports (and_then m f)"
  by (cases m) (auto simp: and_then_def)

text \<open>The last steps put the socket into the context.\<close>

definition adopts :: "world \<Rightarrow> int list \<Rightarrow> redisContext \<Rightarrow> conn \<Rightarrow> bool" where
  "adopts w ss c m = (case m of (c', w', ok) \<Rightarrow> \<exists>fds.
     opened (w_calls w') = opened (w_calls w) @ fds \<and>
     mset (closed (w_calls w')) + (if ok then {#c_fd c'#} else {#}) = mset (closed (w_calls w)) + mset ss + mset fds \<and>
     c_obuf c' = c_obuf c \<and> c_reader c' = c_reader c \<and>
     (if ok then c_err c' = c_err c \<and> c_flags c' = c_flags c OR REDIS_CONNECTED
      else c_fd c' = c_fd c \<and> c_flags c' = c_flags c))"

lemma adopts_then:
  assumes "owns w s c m" "\<And>w'. adopts w' [s] c (f c w')"
  shows "adopts w [s] c (and_then m f)"
proof -
  obtain c' w' ok where m: "m = (c', w', ok)" by (cases m)
  show ?thesis
  proof (cases ok)
    case True
    with assms(1) m have "c' = c" "opened (w_calls w') = opened (w_calls w)" "closed (w_calls w') = closed (w_calls w)"
      by (auto simp: owns_def)
    with assms(2) [of w'] True m show ?thesis by (simp add: and_then_def adopts_def)
  next
    case False
    with assms(1) m show ?thesis by (auto simp: and_then_def adopts_def owns_def)
  qed
qed

lemma connected_adopts: "adopts w [s] c (connected c s, w, True)"
  by (simp add: adopts_def connected_def)

lemma adopt_adopts: "adopts w [s] c (adopt c w s b)"
  unfolding adopt_def
  by (rule adopts_then, simp add: blocking_owns, simp add: owns_def, rule adopts_then,
      simp_all add: nodelay_owns connected_adopts)

lemma adopt_reports: "reports (adopt c w s b)"
  unfolding adopt_def by (intro reports_then) (simp_all add: blocking_owns nodelay_owns)

lemma adopts_fail: "owns w s c (c', w', False) \<Longrightarrow> adopts w [s] c (c', w', False)"
  by (auto simp: adopts_def owns_def)

text \<open>One address: skipped with the socket closed, or done.\<close>

lemma try_ok:
  assumes "try_address c w s b t = (skip, c', w', ok)"
  shows "skip \<Longrightarrow> c' = c \<and> opened (w_calls w') = opened (w_calls w) \<and> closed (w_calls w') = closed (w_calls w) @ [s]"
    and "\<not> skip \<Longrightarrow> adopts w [s] c (c', w', ok)"
    and "\<not> skip \<Longrightarrow> \<not> bad_timeout t \<Longrightarrow> ok \<or> c_err c' = REDIS_ERR_IO"
proof -
  obtain c1 w1 ok1 where b: "redisSetBlocking c w s False = (c1, w1, ok1)" by (cases "redisSetBlocking c w s False")
  have o1: "owns w s c (c1, w1, ok1)" "ok1 \<or> c_err c1 = REDIS_ERR_IO"
    using blocking_owns(1) [of w s c False] blocking_owns(2) [of c w s False] by (simp_all add: b)
  obtain sk m where k: "connect_socket c1 w1 s b True t = (sk, m)" by (cases "connect_socket c1 w1 s b True t")
  note o2 = connect_owns [OF k]
  have e: "(skip, c', w', ok) = (if \<not> ok1 then (False, c1, w1, False)
      else if sk then (True, m) else (False, and_then m (\<lambda>c w. adopt c w s b)))"
    using assms by (auto simp: try_address_def b k split: if_splits)
  have c1: "ok1 \<Longrightarrow> c1 = c \<and> opened (w_calls w1) = opened (w_calls w) \<and> closed (w_calls w1) = closed (w_calls w)"
    using o1(1) by (auto simp: owns_def)
  show "skip \<Longrightarrow> c' = c \<and> opened (w_calls w') = opened (w_calls w) \<and> closed (w_calls w') = closed (w_calls w) @ [s]"
    using e c1 o2(1,2) by (cases m) (auto simp: owns_def split: if_splits)
  show "\<not> skip \<Longrightarrow> adopts w [s] c (c', w', ok)"
  proof (cases ok1)
    case True
    assume "\<not> skip"
    with e True have r: "(c', w', ok) = and_then m (\<lambda>c w. adopt c w s b)" by (auto split: if_splits)
    have "adopts w1 [s] c (and_then m (\<lambda>c w. adopt c w s b))"
      by (rule adopts_then) (use o2(1) c1 [OF True] adopt_adopts in simp_all)
    with c1 [OF True] show ?thesis unfolding r by (cases "and_then m (\<lambda>c w. adopt c w s b)") (simp add: adopts_def)
  qed (use e o1(1) adopts_fail in simp)
  show "\<not> skip \<Longrightarrow> \<not> bad_timeout t \<Longrightarrow> ok \<or> c_err c' = REDIS_ERR_IO"
  proof (cases ok1)
    case True
    assume s: "\<not> skip" "\<not> bad_timeout t"
    with e True have r: "(c', w', ok) = and_then m (\<lambda>c w. adopt c w s b)" "\<not> sk" by (auto split: if_splits)
    have "reports (and_then m (\<lambda>c w. adopt c w s b))"
      by (rule reports_then) (use o2(3) r(2) s adopt_reports in simp_all)
    then show ?thesis unfolding r(1) [symmetric] by simp
  qed (use e o1(2) in simp)
qed

lemma adopts_open: "s \<noteq> -1 \<Longrightarrow> adopts (sys (SysSocket s) w) [s] c m \<Longrightarrow> adopts w [] c m"
  by (cases m) (auto simp: adopts_def sys_def)

lemma adopts_same:
  "opened (w_calls w1) = opened (w_calls w) \<Longrightarrow> closed (w_calls w1) = closed (w_calls w) @ xs \<Longrightarrow>
    adopts w1 [] c m \<Longrightarrow> adopts w xs c m"
  by (cases m) (auto simp: adopts_def)

lemma loop_adopts: "adopts w [] c (connect_loop c w b t n)"
proof (induction n arbitrary: c w)
  case (Suc n)
  define s where "s = next_ret w"
  define w1 where "w1 = sys (SysSocket s) w"
  show ?case
  proof (cases "s = -1")
    case True
    then have "opened (w_calls w1) = opened (w_calls w)" "closed (w_calls w1) = closed (w_calls w) @ []"
      by (simp_all add: w1_def sys_def)
    from adopts_same [OF this Suc] True show ?thesis by (simp add: Let_def s_def w1_def)
  next
    case False
    obtain sk c2 w2 ok where k: "try_address c w1 s b t = (sk, c2, w2, ok)" by (cases "try_address c w1 s b t") auto
    have e: "connect_loop c w b t (Suc n) = (if sk then connect_loop c2 w2 b t n else (c2, w2, ok))"
      using False k by (simp add: Let_def s_def w1_def)
    have "adopts w1 [s] c (connect_loop c w b t (Suc n))"
    proof (cases sk)
      case True
      with try_ok(1) [OF k] have "c2 = c" "opened (w_calls w2) = opened (w_calls w1)" "closed (w_calls w2) = closed (w_calls w1) @ [s]"
        by auto
      with adopts_same [OF this(2,3)] Suc True show ?thesis unfolding e by simp
    next
      case False
      with try_ok(2) [OF k] show ?thesis unfolding e by simp
    qed
    with False show ?thesis unfolding w1_def by (rule adopts_open)
  qed
qed (simp add: adopts_def)

lemma loop_reports:
  assumes "\<not> bad_timeout t"
  shows "case connect_loop c w b t n of (c', w', ok) \<Rightarrow> ok \<or> c_err c' \<noteq> 0"
proof (induction n arbitrary: c w)
  case (Suc n)
  define s where "s = next_ret w"
  define w1 where "w1 = sys (SysSocket s) w"
  obtain sk c2 w2 ok where k: "try_address c w1 s b t = (sk, c2, w2, ok)" by (cases "try_address c w1 s b t") auto
  have e: "connect_loop c w b t (Suc n) = (if s = -1 then connect_loop c w1 b t n
      else if sk then connect_loop c2 w2 b t n else (c2, w2, ok))"
    using k by (simp add: Let_def s_def w1_def)
  show ?case
    unfolding e using Suc [of c w1] Suc [of c2 w2] try_ok(3) [OF k] assms by (auto simp: REDIS_ERR_IO_def)
qed (simp add: REDIS_ERR_OTHER_def)

section \<open>Properties\<close>

definition demo_world :: "(int \<times> int \<times> string) list \<Rightarrow> world" where
  "demo_world rs = \<lparr>w_ret = (\<lambda>k. if k < length rs then rs ! k else (0, 0, [])), w_alloc = (\<lambda>_. zero_alloc),
     w_objects = (\<lambda>_ _. True), w_strerror = (\<lambda>_. ''error''), w_calls = [], w_errno = 0\<rparr>"

definition demo_context :: redisContext where
  "demo_context = \<lparr>c_err = 0, c_errstr = [], c_fd = 0, c_flags = REDIS_BLOCK, c_obuf = Some (demo_sds []),
     c_reader = Some (idle_reader [])\<rparr>"

lemmas eval_defs = redisContextConnectTcp_def demo_world_def demo_context_def REDIS_BLOCK_def
  numeral_2_eq_2 try_address_def redisSetBlocking_def connect_socket_def adopt_def redisSetTcpNoDelay_def
  redisContextWaitReady_def bad_timeout_def MAX_MSEC_def LONG_MAX_def connected_def
  and_then_def next_ret_def next_errno_def sys_def EHOSTUNREACH_def EINPROGRESS_def Let_def

text \<open>C29: connecting leaks no descriptor and closes none twice: of the sockets it opens, whatever the kernel
  answers and however many addresses it tries, it closes each exactly once, except the one it puts into
  the context when it succeeds; with a valid time-out a failure always leaves an error in the context.\<close>

theorem connect_no_leak:
  assumes "redisContextConnectTcp c w resolved timeout = (c', w', ok)"
  shows "(\<exists>fds. opened (w_calls w') = opened (w_calls w) @ fds \<and>
      mset (closed (w_calls w')) + (if ok then {#c_fd c'#} else {#}) = mset (closed (w_calls w)) + mset fds)
    \<and> (\<not> ok \<longrightarrow> bad_timeout timeout \<or> c_err c' \<noteq> 0)"
proof (cases resolved)
  case (Inl msg)
  with assms show ?thesis by (auto simp: redisContextConnectTcp_def REDIS_ERR_OTHER_def)
next
  case (Inr n)
  with assms have m: "connect_loop c w (c_flags c AND REDIS_BLOCK \<noteq> 0) timeout n = (c', w', ok)"
    by (simp add: redisContextConnectTcp_def)
  from loop_adopts [of w c "c_flags c AND REDIS_BLOCK \<noteq> 0" timeout n] have
    "\<exists>fds. opened (w_calls w') = opened (w_calls w) @ fds \<and>
      mset (closed (w_calls w')) + (if ok then {#c_fd c'#} else {#}) = mset (closed (w_calls w)) + mset fds"
    unfolding m by (auto simp: adopts_def)
  moreover have "ok \<or> c_err c' \<noteq> 0" if "\<not> bad_timeout timeout"
    using loop_reports [OF that, of c w "c_flags c AND REDIS_BLOCK \<noteq> 0" n] m by simp
  ultimately show ?thesis by blast
qed

theorem connect_no_leak_witness:
  "\<exists>c' w'. redisContextConnectTcp demo_context
        (demo_world [(7, 0, []), (0, 0, []), (0, 0, []), (-1, EHOSTUNREACH, []), (0, 0, []), (8, 0, [])]) (Inr 2) None
      = (c', w', True)
    \<and> (\<exists>fds. opened (w_calls w') = fds \<and> mset (closed (w_calls w')) + {#c_fd c'#} = mset fds)
    \<and> c_fd c' = 8 \<and> closed (w_calls w') = [7]"
proof -
  let ?w = "demo_world [(7, 0, []), (0, 0, []), (0, 0, []), (-1, EHOSTUNREACH, []), (0, 0, []), (8, 0, [])]"
  let ?m = "redisContextConnectTcp demo_context ?w (Inr 2) None"
  have "snd (snd ?m) \<and> c_fd (fst ?m) = 8 \<and> closed (w_calls (fst (snd ?m))) = [7] \<and> w_calls ?w = []"
    by (simp add: eval_defs)
  then obtain c' w' where m: "?m = (c', w', True)" "c_fd c' = 8" "closed (w_calls w') = [7]" "w_calls ?w = []"
    by (cases ?m) auto
  with connect_no_leak [OF m(1)] show ?thesis by auto
qed

text \<open>An invalid time-out is reported as a failure without any error in the context, so the caller that
  looks at \<open>err\<close> alone takes the context, whose descriptor is still 0, for connected.\<close>

theorem bad_timeout_silent:
  "\<exists>c' w'. redisContextConnectTcp demo_context
        (demo_world [(7, 0, []), (0, 0, []), (0, 0, []), (-1, EINPROGRESS, [])]) (Inr 1) (Some (1, 1000001))
      = (c', w', False) \<and> c_err c' = 0 \<and> c_fd c' = 0 \<and> closed (w_calls w') = [7]"
proof -
  let ?m = "redisContextConnectTcp demo_context
      (demo_world [(7, 0, []), (0, 0, []), (0, 0, []), (-1, EINPROGRESS, [])]) (Inr 1) (Some (1, 1000001))"
  have "\<not> snd (snd ?m) \<and> c_err (fst ?m) = 0 \<and> c_fd (fst ?m) = 0 \<and> closed (w_calls (fst (snd ?m))) = [7]"
    by (simp add: eval_defs)
  then show ?thesis by (cases ?m) auto
qed

end
