(* ===== verification/Redis_Context.thy ===== *)
theory Redis_Context
  imports Net Format
begin

text \<open>
  Contexts of \<open>hiredis/hiredis.c\<close>: creation, buffered reading and writing, replies and commands. The loops of
  \<open>redisGetReply\<close> are bounded by a fuel, one unit per round. The lemmas show that the wire carries exactly the
  encoded commands and that a request on an idle connection returns the server's reply.
\<close>

section \<open>Contexts\<close>

text \<open>\<open>calloc\<close> and the reader's \<open>calloc\<close> succeed when \<open>w_objects\<close> says so; a failed buffer leaves a NULL field.\<close>

definition redisContextInit :: "world \<Rightarrow> redisContext option res" where
  "redisContextInit w =
     (if \<not> w_objects w (w_now w) 0 then Inr None
      else bind_res (sdsempty (w_alloc w (w_now w)))
        (\<lambda>obuf. bind_res (redisReaderCreate (w_objects w (w_now w) 1) (w_alloc w (w_now w)))
        (\<lambda>rd. Inr (Some \<lparr>c_err = 0, c_errstr = [], c_fd = 0, c_flags = 0, c_obuf = obuf, c_reader = rd\<rparr>))))"

text \<open>The result of \<open>redisContextInit\<close> is dereferenced without a check. \<open>connect\<close> is one of the two operations
  of \<open>net.c\<close>; \<open>set\<close> tells to set or to clear \<open>REDIS_BLOCK\<close>.\<close>

definition init_and_connect ::
  "bool \<Rightarrow> (redisContext \<Rightarrow> world \<Rightarrow> conn) \<Rightarrow> world \<Rightarrow> (redisContext \<times> world) res" where
  "init_and_connect block connect w =
     bind_res (redisContextInit w)
     (\<lambda>c. case c of
            None \<Rightarrow> Inl NullDeref
          | Some c0 \<Rightarrow>
              let c1 = (if block then c0\<lparr>c_flags := c_flags c0 OR REDIS_BLOCK\<rparr>
                        else c0\<lparr>c_flags := c_flags c0 AND NOT REDIS_BLOCK\<rparr>)
              in case connect c1 w of (c2, w2, ok) \<Rightarrow> Inr (c2, w2))"

definition redisConnect :: "world \<Rightarrow> string + nat \<Rightarrow> (redisContext \<times> world) res" where
  "redisConnect w resolved = init_and_connect True (\<lambda>c w. redisContextConnectTcp c w resolved None) w"

definition redisConnectWithTimeout :: "world \<Rightarrow> string + nat \<Rightarrow> timeval \<Rightarrow> (redisContext \<times> world) res" where
  "redisConnectWithTimeout w resolved tv =
     init_and_connect True (\<lambda>c w. redisContextConnectTcp c w resolved (Some tv)) w"

definition redisConnectNonBlock :: "world \<Rightarrow> string + nat \<Rightarrow> (redisContext \<times> world) res" where
  "redisConnectNonBlock w resolved = init_and_connect False (\<lambda>c w. redisContextConnectTcp c w resolved None) w"

definition redisConnectUnix :: "world \<Rightarrow> (redisContext \<times> world) res" where
  "redisConnectUnix w = init_and_connect True (\<lambda>c w. redisContextConnectUnix c w None) w"

definition redisConnectUnixWithTimeout :: "world \<Rightarrow> timeval \<Rightarrow> (redisContext \<times> world) res" where
  "redisConnectUnixWithTimeout w tv = init_and_connect True (\<lambda>c w. redisContextConnectUnix c w (Some tv)) w"

definition redisConnectUnixNonBlock :: "world \<Rightarrow> (redisContext \<times> world) res" where
  "redisConnectUnixNonBlock w = init_and_connect False (\<lambda>c w. redisContextConnectUnix c w None) w"

definition redisSetTimeout :: "redisContext \<Rightarrow> world \<Rightarrow> timeval \<Rightarrow> conn" where
  "redisSetTimeout c w tv =
     (if c_flags c AND REDIS_BLOCK \<noteq> 0 then redisContextSetTimeout c w tv else (c, w, False))"

text \<open>The memory \<open>redisFree\<close> gives back is the output buffer and what \<open>redisReaderFree\<close> frees, if there.\<close>

definition redisFree :: "redisContext \<Rightarrow> world \<Rightarrow> world \<times> sds option \<times> ((nat \<times> nat) \<times> sds option) option" where
  "redisFree c w =
     ((if 0 < c_fd c then sys (SysClose (c_fd c)) w else w), c_obuf c, map_option redisReaderFree (c_reader c))"

section \<open>Reading and writing\<close>

definition would_block :: "redisContext \<Rightarrow> world \<Rightarrow> bool" where
  "would_block c w \<longleftrightarrow> w_errno w = EAGAIN \<and> c_flags c AND REDIS_BLOCK = 0"

text \<open>\<open>c->reader\<close> used by a reader operation.\<close>

definition with_reader :: "redisContext \<Rightarrow> (reader \<Rightarrow> 'a res) \<Rightarrow> 'a res" where
  "with_reader c f = (case c_reader c of None \<Rightarrow> Inl NullDeref | Some r \<Rightarrow> f r)"

definition redisBufferRead :: "redisContext \<Rightarrow> world \<Rightarrow> conn res" where
  "redisBufferRead c w =
     (if c_err c \<noteq> 0 then Inr (c, w, False)
      else
        let r = next_ret w;
            buf = take (1024 * 16) (next_bytes w);
            w1 = sys (SysRead (c_fd c)) w
        in if r = -1 then
             if would_block c w1 then Inr (c, w1, True)
             else bind_res (redisSetError w1 c REDIS_ERR_IO None) (\<lambda>c1. Inr (c1, w1, False))
           else if buf = [] then
             bind_res (redisSetError w1 c REDIS_ERR_EOF (Some ''Server closed the connection''))
               (\<lambda>c1. Inr (c1, w1, False))
           else with_reader c
             (\<lambda>rd. bind_res (redisReaderFeed (w_alloc w (w_now w)) rd buf (length buf))
             (\<lambda>(rd1, ok).
                let c1 = c\<lparr>c_reader := Some rd1\<rparr>
                in if ok then Inr (c1, w1, True)
                   else bind_res (redisSetError w1 c1 (r_err rd1) (Some (r_errstr rd1)))
                     (\<lambda>c2. Inr (c2, w1, False)))))"

definition with_obuf :: "redisContext \<Rightarrow> (sds \<Rightarrow> 'a res) \<Rightarrow> 'a res" where
  "with_obuf c f = (case c_obuf c of None \<Rightarrow> Inl NullDeref | Some s \<Rightarrow> f s)"

text \<open>What is left in the output buffer after \<open>n > 0\<close> of its bytes are written.\<close>

definition drop_written :: "allocator \<Rightarrow> sds \<Rightarrow> nat \<Rightarrow> sds option res" where
  "drop_written al s n =
     (if n = sdslen s then sdsempty al else bind_res (sdsrange s (int n) (-1)) (\<lambda>s1. Inr (Some s1)))"

text \<open>The kernel takes at most the bytes it is given. The last component is \<open>*done\<close>; every caller asks for it.\<close>

definition redisBufferWrite :: "redisContext \<Rightarrow> world \<Rightarrow> (redisContext \<times> world \<times> bool \<times> bool) res" where
  "redisBufferWrite c w =
     (if c_err c \<noteq> 0 then Inr (c, w, False, False)
      else with_obuf c
        (\<lambda>s. if 0 < sdslen s then
               let r = next_ret w;
                   nwritten = min (nat r) (sdslen s);
                   w1 = sys (SysWrite (c_fd c) (if r = -1 then [] else take nwritten (sds_buf s))) w
               in if r = -1 then
                    if would_block c w1 then Inr (c, w1, True, False)
                    else bind_res (redisSetError w1 c REDIS_ERR_IO None) (\<lambda>c1. Inr (c1, w1, False, False))
                  else bind_res (if 0 < nwritten then drop_written (w_alloc w (w_now w)) s nwritten else Inr (Some s))
                    (\<lambda>s1. let c1 = c\<lparr>c_obuf := s1\<rparr>
                          in with_obuf c1 (\<lambda>s2. Inr (c1, w1, True, sdslen s2 = 0)))
             else Inr (c, w, True, sdslen s = 0)))"

section \<open>Replies\<close>

definition redisGetReplyFromReader :: "redisContext \<Rightarrow> world \<Rightarrow> (redisContext \<times> reply option \<times> bool) res" where
  "redisGetReplyFromReader c w =
     with_reader c
     (\<lambda>rd. bind_res (redisReaderGetReply (w_objects w (w_now w)) rd)
     (\<lambda>(rd1, x, ok).
        let c1 = c\<lparr>c_reader := Some rd1\<rparr>
        in if ok then Inr (c1, x, True)
           else bind_res (redisSetError w c1 (r_err rd1) (Some (r_errstr rd1))) (\<lambda>c2. Inr (c2, x, False))))"

text \<open>The two loops; each round is one system call, and the fuel bounds the rounds.\<close>

fun write_loop :: "nat \<Rightarrow> redisContext \<Rightarrow> world \<Rightarrow> conn res" where
  "write_loop 0 c w = Inl OutOfFuel"
| "write_loop (Suc fuel) c w =
     bind_res (redisBufferWrite c w)
     (\<lambda>(c1, w1, ok, wdone). if \<not> ok then Inr (c1, w1, False)
        else if wdone then Inr (c1, w1, True) else write_loop fuel c1 w1)"

fun read_loop :: "nat \<Rightarrow> redisContext \<Rightarrow> world \<Rightarrow> (redisContext \<times> world \<times> reply option \<times> bool) res" where
  "read_loop 0 c w = Inl OutOfFuel"
| "read_loop (Suc fuel) c w =
     bind_res (redisBufferRead c w)
     (\<lambda>(c1, w1, ok1). if \<not> ok1 then Inr (c1, w1, None, False)
        else bind_res (redisGetReplyFromReader c1 w1)
          (\<lambda>(c2, aux, ok2). if \<not> ok2 then Inr (c2, w1, None, False)
             else if aux = None then read_loop fuel c2 w1 else Inr (c2, w1, aux, True)))"

definition redisGetReply :: "nat \<Rightarrow> redisContext \<Rightarrow> world \<Rightarrow> (redisContext \<times> world \<times> reply option \<times> bool) res" where
  "redisGetReply fuel c w =
     bind_res (redisGetReplyFromReader c w)
     (\<lambda>(c1, aux, ok). if \<not> ok then Inr (c1, w, None, False)
        else if aux = None \<and> c_flags c1 AND REDIS_BLOCK \<noteq> 0 then
          bind_res (write_loop fuel c1 w)
          (\<lambda>(c2, w2, ok2). if \<not> ok2 then Inr (c2, w2, None, False) else read_loop fuel c2 w2)
        else Inr (c1, w, aux, True))"

section \<open>Commands\<close>

definition redisAppendCmd :: "redisContext \<Rightarrow> world \<Rightarrow> string \<Rightarrow> nat \<Rightarrow> (redisContext \<times> bool) res" where
  "redisAppendCmd c w cmd len =
     with_obuf c
     (\<lambda>s. bind_res (sdscatlen (w_alloc w (w_now w)) s cmd len)
     (\<lambda>n. case n of
            None \<Rightarrow> bind_res (redisSetError w c REDIS_ERR_OOM (Some ''Out of memory'')) (\<lambda>c1. Inr (c1, False))
          | Some newbuf \<Rightarrow> Inr (c\<lparr>c_obuf := Some newbuf\<rparr>, True)))"

text \<open>Append what a formatter made, or the error of the -1 it returned.\<close>

definition append_formatted :: "redisContext \<Rightarrow> world \<Rightarrow> (string \<times> nat) option res \<Rightarrow> (redisContext \<times> bool) res" where
  "append_formatted c w formatted =
     bind_res formatted
     (\<lambda>f. case f of
            None \<Rightarrow> bind_res (redisSetError w c REDIS_ERR_OOM (Some ''Out of memory'')) (\<lambda>c1. Inr (c1, False))
          | Some (cmd, len) \<Rightarrow> redisAppendCmd c w cmd len)"

text \<open>The vector of the arguments grows while \<open>w_objects\<close> lets it.\<close>

definition redisvAppendCommand ::
  "(string \<Rightarrow> va \<Rightarrow> string) \<Rightarrow> redisContext \<Rightarrow> world \<Rightarrow> string \<Rightarrow> va list \<Rightarrow> (redisContext \<times> bool) res" where
  "redisvAppendCommand pf c w format ap =
     append_formatted c w
       (redisvFormatCommand (w_alloc w (w_now w)) (w_objects w (w_now w)) pf True format ap)"

definition redisAppendCommand ::
  "(string \<Rightarrow> va \<Rightarrow> string) \<Rightarrow> redisContext \<Rightarrow> world \<Rightarrow> string \<Rightarrow> va list \<Rightarrow> (redisContext \<times> bool) res" where
  "redisAppendCommand pf c w format args = redisvAppendCommand pf c w format args"

definition redisAppendCommandArgv ::
  "redisContext \<Rightarrow> world \<Rightarrow> string list \<Rightarrow> nat list option \<Rightarrow> (redisContext \<times> bool) res" where
  "redisAppendCommandArgv c w argv argvlen =
     append_formatted c w (redisFormatCommandArgv (w_alloc w (w_now w)) argv argvlen)"

text \<open>The reply is \<open>None\<close> for NULL.\<close>

definition redisBlockForReply :: "nat \<Rightarrow> redisContext \<Rightarrow> world \<Rightarrow> (redisContext \<times> world \<times> reply option) res" where
  "redisBlockForReply fuel c w =
     (if c_flags c AND REDIS_BLOCK \<noteq> 0 then
        bind_res (redisGetReply fuel c w)
          (\<lambda>(c1, w1, x, ok). if \<not> ok then Inr (c1, w1, None) else Inr (c1, w1, x))
      else Inr (c, w, None))"

definition redisvCommand ::
  "nat \<Rightarrow> (string \<Rightarrow> va \<Rightarrow> string) \<Rightarrow> redisContext \<Rightarrow> world \<Rightarrow> string \<Rightarrow> va list \<Rightarrow>
     (redisContext \<times> world \<times> reply option) res" where
  "redisvCommand fuel pf c w format ap =
     bind_res (redisvAppendCommand pf c w format ap)
     (\<lambda>(c1, ok). if \<not> ok then Inr (c1, w, None) else redisBlockForReply fuel c1 w)"

definition redisCommand ::
  "nat \<Rightarrow> (string \<Rightarrow> va \<Rightarrow> string) \<Rightarrow> redisContext \<Rightarrow> world \<Rightarrow> string \<Rightarrow> va list \<Rightarrow>
     (redisContext \<times> world \<times> reply option) res" where
  "redisCommand fuel pf c w format args = redisvCommand fuel pf c w format args"

definition redisCommandArgv ::
  "nat \<Rightarrow> redisContext \<Rightarrow> world \<Rightarrow> string list \<Rightarrow> nat list option \<Rightarrow> (redisContext \<times> world \<times> reply option) res" where
  "redisCommandArgv fuel c w argv argvlen =
     bind_res (redisAppendCommandArgv c w argv argvlen)
     (\<lambda>(c1, ok). if \<not> ok then Inr (c1, w, None) else redisBlockForReply fuel c1 w)"

section \<open>What every operation on a context keeps\<close>

text \<open>The invariant of a context in use, the bytes sent so far, and the bytes that wait to be sent.\<close>

definition ctx_inv :: "redisContext \<Rightarrow> bool" where
  "ctx_inv c \<longleftrightarrow> (\<exists>s. c_obuf c = Some s \<and> sds_inv s) \<and>
     (\<exists>r. c_reader c = Some r \<and> reader_inv r \<and> (c_err c = 0 \<longrightarrow> r_err r = 0))"

definition unsent :: "redisContext \<Rightarrow> string" where
  "unsent c = (case c_obuf c of None \<Rightarrow> [] | Some s \<Rightarrow> sds_str s)"

fun wire_of :: "syscall list \<Rightarrow> string" where
  "wire_of [] = []"
| "wire_of (SysWrite fd x # cs) = x @ wire_of cs"
| "wire_of (_ # cs) = wire_of cs"

abbreviation wire :: "world \<Rightarrow> string" where
  "wire w \<equiv> wire_of (w_calls w)"

lemma wire_append [simp]: "wire_of (a @ b) = wire_of a @ wire_of b"
  by (induction a rule: wire_of.induct) auto

text \<open>Small allocations succeed; the others may fail.\<close>

definition kernel_ok :: "world \<Rightarrow> bool" where
  "kernel_ok w \<longleftrightarrow> (\<forall>k. good_alloc (w_alloc w k) \<and> w_alloc w k 1 \<noteq> None)"

text \<open>No byte is lost, duplicated or reordered between the output buffer and the wire.\<close>

definition keeps :: "redisContext \<Rightarrow> world \<Rightarrow> redisContext \<Rightarrow> world \<Rightarrow> bool" where
  "keeps c w c' w' \<longleftrightarrow> ctx_inv c' \<and> kernel_ok w' \<and> c_flags c' = c_flags c \<and> c_fd c' = c_fd c \<and>
     wire w' @ unsent c' = wire w @ unsent c"

lemma keeps_trans: "keeps c w c1 w1 \<Longrightarrow> keeps c1 w1 c2 w2 \<Longrightarrow> keeps c w c2 w2"
  by (simp add: keeps_def)

lemma kernel_ok_sys [simp]: "kernel_ok (sys call w) = kernel_ok w"
  by (simp add: kernel_ok_def sys_def)

lemma wire_sys: "wire (sys call w) = wire w @ (case call of SysWrite fd x \<Rightarrow> x | _ \<Rightarrow> [])"
  by (cases call) (simp_all add: sys_def)

lemma kernel_okD: "kernel_ok w \<Longrightarrow> good_alloc (w_alloc w k)" "kernel_ok w \<Longrightarrow> w_alloc w k 1 \<noteq> None"
  by (simp_all add: kernel_ok_def)

lemma set_error_keeps:
  assumes "ctx_inv c" "kernel_ok w" "ty \<noteq> 0" "str \<noteq> None \<or> ty = REDIS_ERR_IO"
  shows "\<exists>c'. redisSetError w0 c ty str = Inr c' \<and> keeps c w c' w \<and> c_err c' = ty \<and> c_obuf c' = c_obuf c
    \<and> c_reader c' = c_reader c"
  using assms by (cases str) (auto simp: redisSetError_def keeps_def ctx_inv_def unsent_def)

subsection \<open>Reading\<close>

lemma buffer_read_ok:
  assumes inv: "ctx_inv c" and w: "kernel_ok w"
  shows "\<exists>c' w' ok. redisBufferRead c w = Inr (c', w', ok) \<and> keeps c w c' w' \<and> c_obuf c' = c_obuf c \<and> ok = (c_err c' = 0)"
proof (cases "c_err c = 0")
  case False
  with inv w show ?thesis by (simp add: redisBufferRead_def keeps_def)
next
  case e: True
  define w1 where "w1 = sys (SysRead (c_fd c)) w"
  define buf where "buf = take (1024 * 16) (next_bytes w)"
  have w1: "kernel_ok w1" "wire w1 = wire w" using w by (simp_all add: w1_def wire_sys)
  have k: "keeps c w c1 w1" if "keeps c w1 c1 w1" for c1 using that w1(2) by (simp add: keeps_def)
  have k0: "keeps c w1 c w1" using inv w1 by (simp add: keeps_def)
  obtain r where r: "c_reader c = Some r" "reader_inv r" "r_err r = 0" using inv e by (auto simp: ctx_inv_def)
  obtain rd1 ok where f: "redisReaderFeed (w_alloc w (w_now w)) r buf (length buf) = Inr (rd1, ok)"
    "reader_inv rd1" "ok = (r_err rd1 = 0)"
    using feed_ok [OF r(2) kernel_okD [OF w], of "length buf" buf] by blast
  define c1 where "c1 = c\<lparr>c_reader := Some rd1\<rparr>"
  have c1: "c_obuf c1 = c_obuf c" "c_flags c1 = c_flags c" "c_fd c1 = c_fd c" "c_err c1 = 0"
    "unsent c1 = unsent c" using e by (simp_all add: c1_def unsent_def)
  have io: "\<exists>c'. redisSetError w1 c REDIS_ERR_IO None = Inr c' \<and> keeps c w c' w1 \<and> c_err c' = REDIS_ERR_IO \<and> c_obuf c' = c_obuf c"
    "\<exists>c'. redisSetError w1 c REDIS_ERR_EOF (Some ''Server closed the connection'') = Inr c' \<and> keeps c w c' w1
        \<and> c_err c' = REDIS_ERR_EOF \<and> c_obuf c' = c_obuf c"
    using set_error_keeps [OF inv w1(1), of REDIS_ERR_IO None w1] set_error_keeps [OF inv w1(1), of REDIS_ERR_EOF "Some _" w1] k
    by (auto simp: REDIS_ERR_IO_def REDIS_ERR_EOF_def)
  have rd: "\<exists>c' ok'. (if ok then Inr (c1, w1, True)
      else bind_res (redisSetError w1 c1 (r_err rd1) (Some (r_errstr rd1))) (\<lambda>c2. Inr (c2, w1, False))) = Inr (c', w1, ok')
      \<and> keeps c w c' w1 \<and> c_obuf c' = c_obuf c \<and> ok' = (c_err c' = 0)"
  proof (cases ok)
    case True
    with inv f c1 r w1 have "ctx_inv c1" by (auto simp: ctx_inv_def c1_def)
    with True c1 w1 show ?thesis by (simp add: keeps_def)
  next
    case False
    with f c1 w1 inv show ?thesis
      by (auto simp: redisSetError_def keeps_def ctx_inv_def c1_def unsent_def)
  qed
  show ?thesis
    using e io rd k [OF k0] r(1) f(1)
    unfolding redisBufferRead_def Let_def w1_def [symmetric] buf_def [symmetric]
    by (auto simp: with_reader_def c1_def REDIS_ERR_IO_def REDIS_ERR_EOF_def)
qed

lemma from_reader_ok:
  assumes inv: "ctx_inv c" and w: "kernel_ok w"
  shows "case redisGetReplyFromReader c w of
      Inl f \<Rightarrow> f = NullDeref
    | Inr (c', x, ok) \<Rightarrow> keeps c w c' w \<and> c_obuf c' = c_obuf c \<and> (\<not> ok \<longrightarrow> c_err c' \<noteq> 0 \<and> x = None)
        \<and> (ok \<longrightarrow> c_err c' = c_err c)"
proof -
  obtain r where r: "c_reader c = Some r" "reader_inv r" using inv by (auto simp: ctx_inv_def)
  show ?thesis
  proof (cases "redisReaderGetReply (w_objects w (w_now w)) r")
    case (Inl f)
    with getreply_ok [OF r(2), of "w_objects w (w_now w)"] r(1) show ?thesis
      by (simp add: redisGetReplyFromReader_def with_reader_def)
  next
    case (Inr y)
    obtain rd x ok where y: "y = (rd, x, ok)" by (cases y)
    with Inr getreply_ok [OF r(2), of "w_objects w (w_now w)"]
    have g: "reader_inv rd" "ok = (r_err rd = 0)" "x \<noteq> None \<longrightarrow> ok" by auto
    have e: "redisGetReplyFromReader c w = (let c1 = c\<lparr>c_reader := Some rd\<rparr>
        in if ok then Inr (c1, x, True)
           else bind_res (redisSetError w c1 (r_err rd) (Some (r_errstr rd))) (\<lambda>c2. Inr (c2, x, False)))"
      using Inr y r(1) by (simp add: redisGetReplyFromReader_def with_reader_def)
    show ?thesis
      unfolding e using g inv w
      by (cases ok) (auto simp: redisSetError_def keeps_def ctx_inv_def unsent_def)
  qed
qed

subsection \<open>Writing\<close>

lemma drop_written_ok:
  assumes "good_alloc al" "al 1 \<noteq> None" "sds_inv s" "n \<le> sds_len s"
  shows "\<exists>s'. drop_written al s n = Inr (Some s') \<and> sds_inv s' \<and> sds_str s' = drop n (sds_str s)"
proof (cases "n = sds_len s")
  case True
  have "drop n (sds_str s) = []" using True sds_str_length [OF assms(3)] by simp
  with newlen_holds [OF assms(1), of 0 "[NUL]"] assms(2) True show ?thesis
    by (cases "(sdsempty al, [] :: string)" rule: holds.cases) (auto simp: drop_written_def sdsempty_def sdslen_def)
next
  case False
  with range_drop [OF assms(3,4)] show ?thesis by (auto simp: drop_written_def sdslen_def)
qed

lemma buffer_write_ok:
  assumes inv: "ctx_inv c" and w: "kernel_ok w"
  shows "\<exists>c' w' ok d. redisBufferWrite c w = Inr (c', w', ok, d) \<and> keeps c w c' w' \<and> c_reader c' = c_reader c
    \<and> ok = (c_err c' = 0) \<and> (ok \<longrightarrow> d = (unsent c' = []))"
proof (cases "c_err c = 0")
  case False
  with inv w show ?thesis
    by (intro exI [of _ c] exI [of _ w] exI [of _ False]) (simp add: redisBufferWrite_def keeps_def)
next
  case e: True
  obtain s where s: "c_obuf c = Some s" "sds_inv s" using inv by (auto simp: ctx_inv_def)
  have l: "length (sds_str s) = sds_len s" using s(2) by (rule sds_str_length)
  show ?thesis
  proof (cases "sds_len s = 0")
    case True
    with e s inv w l show ?thesis
      by (auto simp: redisBufferWrite_def with_obuf_def sdslen_def keeps_def unsent_def)
  next
    case False
    define n where "n = min (nat (next_ret w)) (sds_len s)"
    define x where "x = (if next_ret w = -1 then [] else take n (sds_buf s))"
    define w1 where "w1 = sys (SysWrite (c_fd c) x) w"
    have w1: "kernel_ok w1" "wire w1 = wire w @ x" using w by (simp_all add: w1_def wire_sys)
    have n: "n \<le> sds_len s" "take n (sds_buf s) = take n (sds_str s)" by (simp_all add: n_def sds_str_def min_def)
    show ?thesis
    proof (cases "next_ret w = -1")
      case True
      with w1 have w1': "wire w1 = wire w" by (simp add: x_def)
      obtain c' where "redisSetError w1 c REDIS_ERR_IO None = Inr c'" "keeps c w1 c' w1" "c_err c' = REDIS_ERR_IO"
        "c_reader c' = c_reader c"
        using set_error_keeps [OF inv w1(1), of REDIS_ERR_IO None w1] by (auto simp: REDIS_ERR_IO_def)
      with w1' have k: "keeps c w c' w1" "c_err c' \<noteq> 0" "c_reader c' = c_reader c"
        by (simp_all add: keeps_def REDIS_ERR_IO_def)
      have u: "unsent c \<noteq> []" using s(1) l False by (auto simp: unsent_def)
      have r: "redisBufferWrite c w = (if would_block c w1 then Inr (c, w1, True, False) else Inr (c', w1, False, False))"
        using e s True False \<open>redisSetError w1 c REDIS_ERR_IO None = Inr c'\<close>
        by (simp add: redisBufferWrite_def with_obuf_def sdslen_def Let_def w1_def x_def)
      have "keeps c w c w1" using inv w1(1) w1' by (simp add: keeps_def)
      with k u r e show ?thesis by (cases "would_block c w1") auto
    next
      case ok: False
      then have x: "x = take n (sds_str s)" using n(2) by (simp add: x_def)
      obtain s1 where s1: "(if 0 < n then drop_written (w_alloc w (w_now w)) s n else Inr (Some s)) = Inr (Some s1)"
        "sds_inv s1" "sds_str s1 = drop n (sds_str s)"
        using drop_written_ok [OF kernel_okD [OF w] s(2) n(1)] s(2) by (cases "0 < n") auto
      define c1 where "c1 = c\<lparr>c_obuf := Some s1\<rparr>"
      have r: "redisBufferWrite c w = Inr (c1, w1, True, sds_len s1 = 0)"
        using e s False ok s1(1) [unfolded n_def]
        by (auto simp: redisBufferWrite_def with_obuf_def sdslen_def Let_def w1_def x_def n_def c1_def split: if_splits)
      have "keeps c w c1 w1"
        using inv s s1 w1 x by (auto simp: keeps_def ctx_inv_def c1_def unsent_def)
      moreover have "c_err c1 = 0" "c_reader c1 = c_reader c" "unsent c1 = sds_str s1"
        using e by (simp_all add: c1_def unsent_def)
      moreover have "(sds_str s1 = []) = (sds_len s1 = 0)" using sds_str_length [OF s1(2)] by auto
      ultimately show ?thesis using r by auto
    qed
  qed
qed

subsection \<open>The loops\<close>

lemma write_loop_ok:
  "ctx_inv c \<Longrightarrow> kernel_ok w \<Longrightarrow> case write_loop fuel c w of
      Inl f \<Rightarrow> f = OutOfFuel
    | Inr (c', w', ok) \<Rightarrow> keeps c w c' w' \<and> c_reader c' = c_reader c \<and> ok = (c_err c' = 0) \<and> (ok \<longrightarrow> unsent c' = [])"
proof (induction fuel arbitrary: c w)
  case (Suc fuel)
  obtain c1 w1 ok d where b: "redisBufferWrite c w = Inr (c1, w1, ok, d)" "keeps c w c1 w1"
    "c_reader c1 = c_reader c" "ok = (c_err c1 = 0)" "ok \<longrightarrow> d = (unsent c1 = [])"
    using buffer_write_ok [OF Suc.prems] by metis
  show ?case
  proof (cases "ok \<and> \<not> d")
    case True
    with b(1) have e: "write_loop (Suc fuel) c w = write_loop fuel c1 w1" by simp
    have "ctx_inv c1" "kernel_ok w1" using b(2) by (simp_all add: keeps_def)
    from Suc.IH [OF this] show ?thesis
      unfolding e using b(2,3) by (auto split: sum.splits dest: keeps_trans)
  qed (use b in auto)
qed simp

lemma read_loop_ok:
  "ctx_inv c \<Longrightarrow> kernel_ok w \<Longrightarrow> case read_loop fuel c w of
      Inl f \<Rightarrow> f \<in> {NullDeref, OutOfFuel}
    | Inr (c', w', x, ok) \<Rightarrow> keeps c w c' w' \<and> c_obuf c' = c_obuf c \<and> (ok \<longrightarrow> x \<noteq> None)
        \<and> (\<not> ok \<longrightarrow> c_err c' \<noteq> 0 \<and> x = None)"
proof (induction fuel arbitrary: c w)
  case (Suc fuel)
  obtain c1 w1 ok1 where b: "redisBufferRead c w = Inr (c1, w1, ok1)" "keeps c w c1 w1" "c_obuf c1 = c_obuf c"
    "ok1 = (c_err c1 = 0)" using buffer_read_ok [OF Suc.prems] by blast
  show ?case
  proof (cases ok1)
    case True
    have i: "ctx_inv c1" "kernel_ok w1" using b(2) by (simp_all add: keeps_def)
    show ?thesis
    proof (cases "redisGetReplyFromReader c1 w1")
      case (Inl f)
      with from_reader_ok [OF i] b(1) True show ?thesis by simp
    next
      case (Inr y)
      obtain c2 x ok2 where y: "y = (c2, x, ok2)" by (cases y)
      with Inr from_reader_ok [OF i] have g: "keeps c1 w1 c2 w1" "c_obuf c2 = c_obuf c1"
        "\<not> ok2 \<longrightarrow> c_err c2 \<noteq> 0 \<and> x = None" by auto
      note k = keeps_trans [OF b(2) g(1)]
      show ?thesis
      proof (cases "ok2 \<and> x = None")
        case more: True
        with b(1) True Inr y have e: "read_loop (Suc fuel) c w = read_loop fuel c2 w1" by simp
        have "ctx_inv c2" "kernel_ok w1" using k by (simp_all add: keeps_def)
        from Suc.IH [OF this] show ?thesis
          unfolding e using k g(2) b(3) by (auto split: sum.splits dest: keeps_trans)
      qed (use b True Inr y g k in auto)
    qed
  qed (use b in simp)
qed simp

lemma getreply_ctx_ok:
  assumes inv: "ctx_inv c" and w: "kernel_ok w"
  shows "case redisGetReply fuel c w of
      Inl f \<Rightarrow> f \<in> {NullDeref, OutOfFuel}
    | Inr (c', w', x, ok) \<Rightarrow> keeps c w c' w' \<and> (ok \<longrightarrow> c_flags c AND REDIS_BLOCK \<noteq> 0 \<longrightarrow> x \<noteq> None)
        \<and> (\<not> ok \<longrightarrow> c_err c' \<noteq> 0 \<and> x = None)"
proof (cases "redisGetReplyFromReader c w")
  case (Inl f)
  with from_reader_ok [OF assms] show ?thesis by (simp add: redisGetReply_def)
next
  case (Inr y)
  obtain c1 x ok where y: "y = (c1, x, ok)" by (cases y)
  with Inr from_reader_ok [OF assms] have g: "keeps c w c1 w" "\<not> ok \<longrightarrow> c_err c1 \<noteq> 0 \<and> x = None" by auto
  have fl: "c_flags c1 = c_flags c" and i1: "ctx_inv c1" using g(1) by (simp_all add: keeps_def)
  show ?thesis
  proof (cases "ok \<and> x = None \<and> c_flags c AND REDIS_BLOCK \<noteq> 0")
    case True
    show ?thesis
    proof (cases "write_loop fuel c1 w")
      case (Inl f)
      with write_loop_ok [OF i1 w, of fuel] \<open>redisGetReplyFromReader c w = Inr y\<close> y True fl show ?thesis
        by (simp add: redisGetReply_def)
    next
      case (Inr z)
      obtain c2 w2 ok2 where z: "z = (c2, w2, ok2)" by (cases z)
      with Inr write_loop_ok [OF i1 w, of fuel] have h: "keeps c1 w c2 w2" "ok2 = (c_err c2 = 0)" by auto
      note k = keeps_trans [OF g(1) h(1)]
      have i2: "ctx_inv c2" "kernel_ok w2" using k by (simp_all add: keeps_def)
      have e: "redisGetReply fuel c w = (if ok2 then read_loop fuel c2 w2 else Inr (c2, w2, None, False))"
        using \<open>redisGetReplyFromReader c w = Inr y\<close> y True fl Inr z by (simp add: redisGetReply_def)
      show ?thesis
        unfolding e using read_loop_ok [OF i2, of fuel] k h(2)
        by (cases ok2) (auto split: sum.splits dest: keeps_trans)
    qed
  next
    case False
    with Inr y fl g show ?thesis by (auto simp: redisGetReply_def)
  qed
qed

section \<open>Commands\<close>

lemma append_ok:
  assumes inv: "ctx_inv c" and w: "kernel_ok w" and len: "len \<le> length cmd"
  shows "\<exists>c' ok. redisAppendCmd c w cmd len = Inr (c', ok) \<and> ctx_inv c' \<and> c_flags c' = c_flags c \<and> c_fd c' = c_fd c
    \<and> c_reader c' = c_reader c \<and> (ok \<longrightarrow> unsent c' = unsent c @ take len cmd \<and> c_err c' = c_err c)
    \<and> (\<not> ok \<longrightarrow> unsent c' = unsent c \<and> c_err c' \<noteq> 0)"
proof -
  obtain s where s: "c_obuf c = Some s" "sds_inv s" using inv by (auto simp: ctx_inv_def)
  note h = catlen_holds [OF kernel_okD(1) [OF w] s(2) len, of "w_now w", THEN conjunct1]
  show ?thesis
    using h s inv
    by (cases "(sdscatlen (w_alloc w (w_now w)) s cmd len, sds_str s @ take len cmd)" rule: holds.cases)
      (auto simp: redisAppendCmd_def with_obuf_def ctx_inv_def unsent_def redisSetError_def REDIS_ERR_OOM_def)
qed

definition appended :: "redisContext \<Rightarrow> string \<Rightarrow> redisContext \<times> bool \<Rightarrow> bool" where
  "appended c x y \<longleftrightarrow> (case y of (c', ok) \<Rightarrow> ctx_inv c' \<and> c_flags c' = c_flags c \<and> c_fd c' = c_fd c
     \<and> c_reader c' = c_reader c \<and> (ok \<longrightarrow> unsent c' = unsent c @ x \<and> c_err c' = c_err c)
     \<and> (\<not> ok \<longrightarrow> unsent c' = unsent c \<and> c_err c' \<noteq> 0))"

lemma append_command_ok:
  assumes inv: "ctx_inv c" and w: "kernel_ok w" and f: "NUL \<notin> set f" "fmt_args f ap [] False [] = Some args"
  shows "\<exists>y. redisvAppendCommand pf c w (f @ [NUL]) ap = Inr y \<and> appended c (encode (command_reply args)) y"
proof -
  let ?x = "command_bytes args"
  have "redisvFormatCommand (w_alloc w (w_now w)) (w_objects w (w_now w)) pf True (f @ [NUL]) ap
      \<in> {Inr None, Inr (Some (?x @ [NUL], length ?x))}"
    using vFormat_ok [OF kernel_okD(1) [OF w] f, of "w_now w" "w_objects w (w_now w)" pf] by (auto split: if_splits)
  moreover from append_ok [OF inv w, of "length ?x" "?x @ [NUL]"]
  have "\<exists>y. redisAppendCmd c w (?x @ [NUL]) (length ?x) = Inr y \<and> appended c ?x y" by (auto simp: appended_def)
  moreover have "\<exists>y. append_formatted c w (Inr None) = Inr y \<and> appended c ?x y"
    using inv by (auto simp: append_formatted_def redisSetError_def appended_def ctx_inv_def unsent_def REDIS_ERR_OOM_def)
  ultimately show ?thesis
    unfolding command_bytes_encode by (auto simp: redisvAppendCommand_def append_formatted_def)
qed

lemma command_ok:
  assumes inv: "ctx_inv c" and w: "kernel_ok w" and f: "NUL \<notin> set f" "fmt_args f ap [] False [] = Some args"
  shows "case redisCommand fuel pf c w (f @ [NUL]) ap of
      Inl e \<Rightarrow> e \<in> {NullDeref, OutOfFuel}
    | Inr (c', w', x) \<Rightarrow> ctx_inv c' \<and> kernel_ok w' \<and> c_flags c' = c_flags c \<and> c_fd c' = c_fd c
        \<and> (x = None \<longrightarrow> c_flags c AND REDIS_BLOCK \<noteq> 0 \<longrightarrow> c_err c' \<noteq> 0)
        \<and> (wire w' @ unsent c' = wire w @ unsent c @ encode (command_reply args)
           \<or> x = None \<and> c_err c' \<noteq> 0 \<and> wire w' = wire w \<and> unsent c' = unsent c)"
proof -
  obtain c1 ok where a: "redisvAppendCommand pf c w (f @ [NUL]) ap = Inr (c1, ok)"
    "appended c (encode (command_reply args)) (c1, ok)" using append_command_ok [OF assms, of pf] by auto
  then have i1: "ctx_inv c1" "c_flags c1 = c_flags c" "c_fd c1 = c_fd c" by (auto simp: appended_def)
  show ?thesis
  proof (cases "ok \<and> c_flags c AND REDIS_BLOCK \<noteq> 0")
    case True
    with a have u: "unsent c1 = unsent c @ encode (command_reply args)" by (auto simp: appended_def)
    have e: "redisCommand fuel pf c w (f @ [NUL]) ap = bind_res (redisGetReply fuel c1 w)
        (\<lambda>(c1, w1, x, ok). if \<not> ok then Inr (c1, w1, None) else Inr (c1, w1, x))"
      using True a(1) i1(2) by (simp add: redisCommand_def redisvCommand_def redisBlockForReply_def)
    show ?thesis
      unfolding e using getreply_ctx_ok [OF i1(1) w, of fuel] i1 u
      by (cases "redisGetReply fuel c1 w") (auto simp: keeps_def)
  next
    case False
    with a i1 w show ?thesis
      by (auto simp: redisCommand_def redisvCommand_def redisBlockForReply_def appended_def)
  qed
qed

section \<open>A request and its reply\<close>

text \<open>A reader between replies, and a blocking context whose reader is.\<close>

definition idle :: "reader \<Rightarrow> bool" where
  "idle r \<longleftrightarrow> reader_inv r \<and> r_err r = 0 \<and> ridx (r_tasks r) = -1 \<and> unread r = []"

definition ctx_idle :: "redisContext \<Rightarrow> bool" where
  "ctx_idle c \<longleftrightarrow> ctx_inv c \<and> c_err c = 0 \<and> c_flags c AND REDIS_BLOCK \<noteq> 0 \<and> (\<exists>r. c_reader c = Some r \<and> idle r)"

text \<open>No allocation fails.\<close>

definition memory_ok :: "world \<Rightarrow> bool" where
  "memory_ok w \<longleftrightarrow> (\<forall>k. good_alloc (w_alloc w k) \<and> al_total (w_alloc w k) \<and> w_objects w k = (\<lambda>_. True))"

lemma memory_kernel: "memory_ok w \<Longrightarrow> kernel_ok w"
  by (simp add: memory_ok_def kernel_ok_def al_total_def)

lemma parse_nothing: "ready ts \<Longrightarrow> parse [] ts = Inr (Need [] ts)"
  using parse_unfold [of ts "[]"] get_task_ok [of ts] by (auto simp: ready_def item_spec_def ts_ok_def)

lemma idle_wait:
  assumes "idle r"
  shows "\<exists>r'. redisReaderGetReply (\<lambda>_. True) r = Inr (r', None, True) \<and> reader_inv r' \<and> r_err r' = 0"
proof -
  have r: "reader_inv r" "r_err r = 0" "ridx (r_tasks r) = -1" "unread r = []" using assms by (auto simp: idle_def)
  have ok: "ts_ok (r_tasks r)" using r by (simp add: reader_inv_def)
  note st = start_root_ok [OF ok]
  have "ridx (start_root (r_tasks r)) = 0" "t_type (rstack (start_root (r_tasks r)) ! 0) = -1"
    using ok r(3) by (auto simp: start_root_def fresh_task_def ts_ok_def)
  then have "ready (start_root (r_tasks r))" using st by (simp add: ready_def vector_missing_def)
  from getreply_view [OF r(1,2)] parse_nothing [OF this] r(4)
  have "\<exists>v. seen (redisReaderGetReply (\<lambda>_. True) r) = Inr (v, None, True)" by (cases "view r") (simp add: answer_def)
  then obtain r' where "redisReaderGetReply (\<lambda>_. True) r = Inr (r', None, True)" by (auto simp: seen_def)
  with getreply_ok [OF r(1), of "\<lambda>_. True"] show ?thesis by auto
qed

lemma reply_closes: "redisReaderGetReply mem r = Inr (r', Some x, ok) \<Longrightarrow> ridx (r_tasks r') = -1"
  by (auto simp: redisReaderGetReply_def split: if_splits)

lemma feed_total:
  assumes "reader_inv r" "r_err r = 0" "good_alloc al" "al_total al"
  shows "\<exists>r'. redisReaderFeed al r x (length x) = Inr (r', True)"
proof -
  have a1: "al 1 \<noteq> None" using assms(4) by (simp add: al_total_def)
  from feed_ok [OF assms(1,3) a1, of "length x" x] obtain r' ok where
    f: "redisReaderFeed al r x (length x) = Inr (r', ok)" by blast
  have e: "sdsempty al \<noteq> Inr None" using empty_total [OF assms(4,3)] .
  from assms(1,2) obtain b where b: "r_buf r = Some b" "sds_inv b" by (auto simp: reader_inv_def rd_ok_def)
  have s: "sds_inv s1" if "sdsempty al = Inr (Some s1)" for s1
    using empty_holds [OF assms(3)] that by simp
  have ok
    using f assms(2) b e s catlen_total [OF assms(4,3), of _ "length x" x]
    by (auto simp: redisReaderFeed_def split: if_splits option.splits)
  with f show ?thesis by auto
qed

lemma idle_answer:
  assumes r: "idle r" and al: "good_alloc al" "al_total al" and x: "wire_ok 8 x"
    and g: "redisReaderGetReply (\<lambda>_. True) r = Inr (r2, None, True)"
    and f: "redisReaderFeed al r2 (encode x) (length (encode x)) = Inr (r3, True)"
  shows "\<exists>r4. redisReaderGetReply (\<lambda>_. True) r3 = Inr (r4, Some x, True) \<and> idle r4"
proof -
  have r': "reader_inv r" "r_err r = 0" "ridx (r_tasks r) = -1" "unread r = []" using r by (auto simp: idle_def)
  have a1: "al 1 \<noteq> None" using al(2) by (simp add: al_total_def)
  obtain s where s: "redisReaderFeed al r (encode x @ []) (length (encode x @ [])) = Inr (s, True)"
    using feed_total [OF r'(1,2) al] by blast
  then have s': "redisReaderFeed al r ([] @ encode x) (length ([] @ encode x)) = Inr (s, True)" by simp
  have f0: "redisReaderFeed al r [] (length []) = Inr (r, True)" using r'(2) by (simp add: redisReaderFeed_def)
  from roundtrip_ok [OF r' al(1) a1 x s] obtain s2 where
    s2: "redisReaderGetReply (\<lambda>_. True) s = Inr (s2, Some x, True)" "unread s2 = []" by blast
  from chunks_ok [OF r'(1) al(1) a1 f0 g f s'] s2(1) obtain r4 where
    r4: "redisReaderGetReply (\<lambda>_. True) r3 = Inr (r4, Some x, True)" "view r4 = view s2"
    by (auto simp: seen_def)
  have i2: "reader_inv r2" using getreply_ok [OF r'(1), of "\<lambda>_. True"] g by simp
  have "reader_inv r3" using feed_ok [OF i2 al(1) a1, of "length (encode x)" "encode x"] f by auto
  from getreply_ok [OF this, of "\<lambda>_. True"] r4(1) have "reader_inv r4 \<and> r_err r4 = 0" by simp
  with r4 s2(2) reply_closes [OF r4(1)] show ?thesis by (auto simp: idle_def view_def)
qed

lemma buffer_write_all:
  assumes inv: "ctx_inv c" and w: "kernel_ok w" and e: "c_err c = 0" and u: "unsent c \<noteq> []"
    and r: "int (length (unsent c)) \<le> next_ret w"
  shows "\<exists>c' call. redisBufferWrite c w = Inr (c', sys call w, True, True) \<and> ctx_inv c' \<and> c_err c' = 0 \<and> unsent c' = []
    \<and> c_flags c' = c_flags c \<and> c_fd c' = c_fd c \<and> c_reader c' = c_reader c \<and> wire (sys call w) = wire w @ unsent c"
proof -
  obtain s where s: "c_obuf c = Some s" "sds_inv s" using inv by (auto simp: ctx_inv_def)
  have us: "unsent c = sds_str s" using s(1) by (simp add: unsent_def)
  have l: "length (sds_str s) = sds_len s" using s(2) by (rule sds_str_length)
  have n: "next_ret w \<noteq> -1" "min (nat (next_ret w)) (sds_len s) = sds_len s" "sds_len s \<noteq> 0"
    using r u l by (auto simp: us simp flip: length_0_conv)
  obtain s1 where d: "drop_written (w_alloc w (w_now w)) s (sds_len s) = Inr (Some s1)" "sds_inv s1" "sds_str s1 = []"
    using drop_written_ok [OF kernel_okD [OF w] s(2) order_refl] l by auto
  define call where "call = SysWrite (c_fd c) (take (sds_len s) (sds_buf s))"
  have "sds_len s1 = 0" using sds_str_length [OF d(2)] d(3) by simp
  then have "redisBufferWrite c w = Inr (c\<lparr>c_obuf := Some s1\<rparr>, sys call w, True, True)"
    using e s n d(1) by (simp add: redisBufferWrite_def with_obuf_def sdslen_def Let_def call_def)
  moreover have "ctx_inv (c\<lparr>c_obuf := Some s1\<rparr>)" using inv d by (auto simp: ctx_inv_def)
  moreover have "wire (sys call w) = wire w @ unsent c" by (simp add: wire_sys call_def us sds_str_def)
  moreover have "unsent (c\<lparr>c_obuf := Some s1\<rparr>) = []" by (simp add: unsent_def d(3))
  ultimately show ?thesis using e by (intro exI [of _ "c\<lparr>c_obuf := Some s1\<rparr>"] exI [of _ call]) simp
qed

lemma append_total:
  assumes inv: "ctx_inv c" and w: "memory_ok w" and f: "NUL \<notin> set f" "fmt_args f ap [] False [] = Some args"
  shows "\<exists>c'. redisvAppendCommand pf c w (f @ [NUL]) ap = Inr (c', True) \<and> appended c (encode (command_reply args)) (c', True)"
proof -
  let ?x = "command_bytes args"
  have al: "good_alloc (w_alloc w (w_now w))" "al_total (w_alloc w (w_now w))" "w_objects w (w_now w) = (\<lambda>_. True)"
    using w by (simp_all add: memory_ok_def)
  have v: "redisvFormatCommand (w_alloc w (w_now w)) (w_objects w (w_now w)) pf True (f @ [NUL]) ap
      = Inr (Some (?x @ [NUL], length ?x))"
    using vFormat_ok [OF al(1) f, of "w_objects w (w_now w)" pf] al by simp
  obtain s where s: "c_obuf c = Some s" "sds_inv s" using inv by (auto simp: ctx_inv_def)
  from catlen_total [OF al(2,1) s(2), of "length ?x" "?x @ [NUL]"] obtain c' ok where
    a: "redisAppendCmd c w (?x @ [NUL]) (length ?x) = Inr (c', ok)" "appended c ?x (c', ok)"
    using append_ok [OF inv memory_kernel [OF w], of "length ?x" "?x @ [NUL]"] by (auto simp: appended_def)
  have ok
    using a(1) s(1) catlen_total [OF al(2,1) s(2), of "length ?x" "?x @ [NUL]"]
    by (auto simp: redisAppendCmd_def with_obuf_def redisSetError_def split: option.splits)
  with a v show ?thesis
    unfolding command_bytes_encode by (auto simp: redisvAppendCommand_def append_formatted_def)
qed

lemma buffer_read_some:
  assumes "ctx_inv c" "c_err c = 0" "c_reader c = Some r" "next_ret w \<noteq> -1" "next_bytes w = x" "x \<noteq> []" "length x \<le> 16384"
    and "redisReaderFeed (w_alloc w (w_now w)) r x (length x) = Inr (r', True)"
  shows "redisBufferRead c w = Inr (c\<lparr>c_reader := Some r'\<rparr>, sys (SysRead (c_fd c)) w, True)"
  using assms by (simp add: redisBufferRead_def with_reader_def Let_def)

text \<open>Up to its first system call a request queues its command and finds no reply waiting.\<close>

lemma request_queued:
  assumes c: "ctx_idle c" and w: "memory_ok w" and f: "NUL \<notin> set f" "fmt_args f ap [] False [] = Some args"
  shows "\<exists>c2 r r2. ctx_inv c2 \<and> c_err c2 = 0 \<and> c_flags c2 = c_flags c \<and> c_fd c2 = c_fd c
    \<and> unsent c2 = unsent c @ encode (command_reply args) \<and> c_reader c2 = Some r2 \<and> idle r
    \<and> redisReaderGetReply (\<lambda>_. True) r = Inr (r2, None, True) \<and> reader_inv r2 \<and> r_err r2 = 0
    \<and> (\<forall>fuel. redisCommand fuel pf c w (f @ [NUL]) ap = bind_res (write_loop fuel c2 w)
          (\<lambda>(c3, w3, ok). if \<not> ok then Inr (c3, w3, None)
             else bind_res (read_loop fuel c3 w3) (\<lambda>(c4, w4, x, ok). Inr (c4, w4, if ok then x else None))))"
proof -
  have ci: "ctx_inv c" "c_err c = 0" "c_flags c AND REDIS_BLOCK \<noteq> 0" using c by (simp_all add: ctx_idle_def)
  obtain r where r: "c_reader c = Some r" "idle r" using c by (auto simp: ctx_idle_def)
  obtain c1 where a: "redisvAppendCommand pf c w (f @ [NUL]) ap = Inr (c1, True)"
    "appended c (encode (command_reply args)) (c1, True)" using append_total [OF ci(1) w f] by blast
  then have c1: "ctx_inv c1" "c_err c1 = 0" "c_flags c1 = c_flags c" "c_reader c1 = Some r" "c_fd c1 = c_fd c"
    "unsent c1 = unsent c @ encode (command_reply args)" using ci r by (auto simp: appended_def)
  obtain r2 where r2: "redisReaderGetReply (\<lambda>_. True) r = Inr (r2, None, True)" "reader_inv r2" "r_err r2 = 0"
    using idle_wait [OF r(2)] by blast
  define c2 where "c2 = c1\<lparr>c_reader := Some r2\<rparr>"
  have g0: "redisGetReplyFromReader c1 w = Inr (c2, None, True)"
    using c1(4) r2(1) w by (simp add: redisGetReplyFromReader_def with_reader_def memory_ok_def c2_def)
  have c2: "ctx_inv c2" "c_err c2 = 0" "c_flags c2 = c_flags c" "unsent c2 = unsent c1" "c_fd c2 = c_fd c"
    "c_reader c2 = Some r2"
    using c1 r2 by (auto simp: c2_def ctx_inv_def unsent_def)
  have "redisCommand fuel pf c w (f @ [NUL]) ap = bind_res (write_loop fuel c2 w)
      (\<lambda>(c3, w3, ok). if \<not> ok then Inr (c3, w3, None)
         else bind_res (read_loop fuel c3 w3) (\<lambda>(c4, w4, x, ok). Inr (c4, w4, if ok then x else None)))" for fuel
    using a(1) c1(3) c2(3) ci(3) g0
    by (auto simp: redisCommand_def redisvCommand_def redisBlockForReply_def redisGetReply_def bind_res_assoc
        intro!: bind_res_cong)
  with c2 c1(6) r2 r(2) show ?thesis by (intro exI [of _ c2] exI [of _ r] exI [of _ r2]) simp
qed

lemma request_reply_ok:
  assumes c: "ctx_idle c" and w: "memory_ok w" and f: "NUL \<notin> set f" "fmt_args f ap [] False [] = Some args"
    and wr: "int (length (unsent c @ encode (command_reply args))) \<le> fst (w_ret w (w_now w))"
    and rd: "fst (w_ret w (Suc (w_now w))) \<noteq> -1" "snd (snd (w_ret w (Suc (w_now w)))) = encode x"
      "length (encode x) \<le> 16384"
    and x: "wire_ok 8 x"
  shows "\<exists>c' w'. redisCommand (Suc n) pf c w (f @ [NUL]) ap = Inr (c', w', Some x) \<and> ctx_idle c' \<and> memory_ok w'
    \<and> unsent c' = [] \<and> c_fd c' = c_fd c \<and> wire w' = wire w @ unsent c @ encode (command_reply args)
    \<and> w_ret w' = w_ret w \<and> w_now w' = Suc (Suc (w_now w))"
proof -
  have ci: "c_flags c AND REDIS_BLOCK \<noteq> 0" using c by (simp add: ctx_idle_def)
  obtain c2 r r2 where q: "ctx_inv c2" "c_err c2 = 0" "c_flags c2 = c_flags c" "c_fd c2 = c_fd c"
    "unsent c2 = unsent c @ encode (command_reply args)" "c_reader c2 = Some r2" "idle r"
    "redisReaderGetReply (\<lambda>_. True) r = Inr (r2, None, True)" "reader_inv r2" "r_err r2 = 0"
    and run: "\<forall>fuel. redisCommand fuel pf c w (f @ [NUL]) ap = bind_res (write_loop fuel c2 w)
          (\<lambda>(c3, w3, ok). if \<not> ok then Inr (c3, w3, None)
             else bind_res (read_loop fuel c3 w3) (\<lambda>(c4, w4, x, ok). Inr (c4, w4, if ok then x else None)))"
    using request_queued [OF c w f, of pf] by (elim exE conjE) (rule that)
  obtain c3 call where b: "redisBufferWrite c2 w = Inr (c3, sys call w, True, True)" "ctx_inv c3" "c_err c3 = 0"
    "unsent c3 = []" "c_flags c3 = c_flags c2" "c_fd c3 = c_fd c2" "c_reader c3 = c_reader c2"
    "wire (sys call w) = wire w @ unsent c2"
    using buffer_write_all [OF q(1) memory_kernel [OF w] q(2)] wr by (auto simp: q(5) next_ret_def)
  define w1 where "w1 = sys call w"
  have w1: "memory_ok w1" "w_ret w1 = w_ret w" "w_now w1 = Suc (w_now w)"
    using w by (simp_all add: w1_def sys_def memory_ok_def)
  obtain r3 where r3: "redisReaderFeed (w_alloc w1 (w_now w1)) r2 (encode x) (length (encode x)) = Inr (r3, True)"
    using feed_total [OF q(9,10), of "w_alloc w1 (w_now w1)" "encode x"] w1(1) by (auto simp: memory_ok_def)
  define c4 where "c4 = c3\<lparr>c_reader := Some r3\<rparr>"
  define w2 where "w2 = sys (SysRead (c_fd c3)) w1"
  have br: "redisBufferRead c3 w1 = Inr (c4, w2, True)"
    unfolding c4_def w2_def
    by (rule buffer_read_some [OF b(2,3), of r2 w1 "encode x"])
      (use b(7) q(6) rd r3 w1(2,3) in \<open>simp_all add: next_ret_def next_bytes_def\<close>)
  obtain r4 where r4: "redisReaderGetReply (\<lambda>_. True) r3 = Inr (r4, Some x, True)" "idle r4"
    using idle_answer [OF q(7) _ _ x q(8) r3] w1(1) by (auto simp: memory_ok_def)
  define c5 where "c5 = c4\<lparr>c_reader := Some r4\<rparr>"
  have w2: "memory_ok w2" "wire w2 = wire w1" "w_ret w2 = w_ret w1" "w_now w2 = Suc (w_now w1)"
    using w1(1) by (simp_all add: w2_def sys_def memory_ok_def)
  have g1: "redisGetReplyFromReader c4 w2 = Inr (c5, Some x, True)"
    using r4(1) w2(1) by (simp add: redisGetReplyFromReader_def with_reader_def memory_ok_def c4_def c5_def)
  have "redisCommand (Suc n) pf c w (f @ [NUL]) ap = Inr (c5, w2, Some x)"
    unfolding run [rule_format] using b(1) br g1 by (simp add: w1_def)
  moreover have "ctx_idle c5"
    using b q(3) ci r4(2) by (auto simp: ctx_idle_def c5_def c4_def ctx_inv_def idle_def)
  moreover have "unsent c5 = []" using b(4) by (simp add: c5_def c4_def unsent_def)
  moreover have "wire w2 = wire w @ unsent c @ encode (command_reply args)"
    using w2(2) b(8) q(5) by (simp add: w1_def)
  moreover have "c_fd c5 = c_fd c" using b(6) q(4) by (simp add: c5_def c4_def)
  moreover have "w_ret w2 = w_ret w" "w_now w2 = Suc (Suc (w_now w))" using w1(2,3) w2(3,4) by simp_all
  ultimately show ?thesis using w2(1) by blast
qed

text \<open>A request whose command cannot be written returns NULL.\<close>

lemma request_write_fails:
  assumes c: "ctx_idle c" and w: "memory_ok w" and f: "NUL \<notin> set f" "fmt_args f ap [] False [] = Some args"
    and wr: "fst (w_ret w (w_now w)) = -1"
  shows "\<exists>c' w'. redisCommand (Suc n) pf c w (f @ [NUL]) ap = Inr (c', w', None) \<and> c_err c' = REDIS_ERR_IO"
proof -
  have ci: "c_flags c AND REDIS_BLOCK \<noteq> 0" using c by (simp add: ctx_idle_def)
  obtain c2 where q: "ctx_inv c2" "c_err c2 = 0" "c_flags c2 = c_flags c"
    "unsent c2 = unsent c @ encode (command_reply args)"
    and run: "\<forall>fuel. redisCommand fuel pf c w (f @ [NUL]) ap = bind_res (write_loop fuel c2 w)
          (\<lambda>(c3, w3, ok). if \<not> ok then Inr (c3, w3, None)
             else bind_res (read_loop fuel c3 w3) (\<lambda>(c4, w4, x, ok). Inr (c4, w4, if ok then x else None)))"
    using request_queued [OF c w f, of pf] by (elim exE conjE) (rule that)
  obtain s where s: "c_obuf c2 = Some s" "sds_inv s" using q(1) by (auto simp: ctx_inv_def)
  have "sdslen s \<noteq> 0"
    using q(4) s sds_str_length [OF s(2)] by (auto simp: unsent_def command_reply_def sdslen_def)
  define w1 where "w1 = sys (SysWrite (c_fd c2) []) w"
  have k: "kernel_ok w1" using memory_kernel [OF w] by (simp add: w1_def)
  obtain c3 where "redisSetError w1 c2 REDIS_ERR_IO None = Inr c3" "c_err c3 = REDIS_ERR_IO"
    using set_error_keeps [OF q(1) k, of REDIS_ERR_IO None w1] by (auto simp: REDIS_ERR_IO_def)
  with q(2,3) ci s(1) wr \<open>sdslen s \<noteq> 0\<close> show ?thesis
    unfolding run [rule_format] by (simp add: redisBufferWrite_def with_obuf_def would_block_def next_ret_def w1_def)
qed

section \<open>Properties\<close>

text \<open>C27: whatever the kernel and the server do, \<open>redisCommand\<close> keeps the context well-formed and hands the
  bytes of the command to the socket in order, without losing, repeating or reordering any byte that was
  waiting; if it returns NULL on a blocking context, the error field is set. The only faults left are
  the reader's NULL vector and rounds that never end.\<close>

theorem redis_command_integrity:
  assumes "ctx_inv c" "kernel_ok w" "NUL \<notin> set f" "fmt_args f ap [] False [] = Some args"
  shows "case redisCommand fuel pf c w (f @ [NUL]) ap of
      Inl e \<Rightarrow> e \<in> {NullDeref, OutOfFuel}
    | Inr (c', w', x) \<Rightarrow> ctx_inv c' \<and> kernel_ok w'
        \<and> (x = None \<longrightarrow> c_flags c AND REDIS_BLOCK \<noteq> 0 \<longrightarrow> c_err c' \<noteq> 0)
        \<and> (wire w' @ unsent c' = wire w @ unsent c @ encode (command_reply args)
           \<or> x = None \<and> c_err c' \<noteq> 0 \<and> wire w' = wire w \<and> unsent c' = unsent c)"
  using command_ok [OF assms, of fuel pf] by (auto split: sum.splits)

lemma demo_idle: "ctx_idle demo_context"
  by (auto simp: ctx_idle_def ctx_inv_def demo_context_def idle_def idle_reader_inv REDIS_BLOCK_def)
    (simp add: idle_reader_def no_tasks_def)

lemma demo_memory: "memory_ok (demo_world rs)"
  by (simp add: memory_ok_def demo_world_def zero_alloc_total)

lemma demo_facts: "unsent demo_context = []" "wire (demo_world rs) = []" "w_calls (demo_world rs) = []"
  by (simp_all add: unsent_def demo_context_def demo_world_def)

text \<open>C6: a request on an idle blocking connection whose kernel takes the whole command and delivers the
  server's answer returns exactly the reply the server encoded, puts exactly the encoded command on the
  wire, and leaves the connection idle for the next request.\<close>

theorem redis_request_reply:
  assumes "ctx_idle c" "memory_ok w" "NUL \<notin> set f" "fmt_args f ap [] False [] = Some args"
    and "int (length (unsent c @ encode (command_reply args))) \<le> fst (w_ret w (w_now w))"
    and "fst (w_ret w (Suc (w_now w))) \<noteq> -1" "snd (snd (w_ret w (Suc (w_now w)))) = encode x"
    and "length (encode x) \<le> 16384" "wire_ok 8 x"
  shows "\<exists>c' w'. redisCommand (Suc n) pf c w (f @ [NUL]) ap = Inr (c', w', Some x) \<and> ctx_idle c' \<and> memory_ok w'
    \<and> unsent c' = [] \<and> wire w' = wire w @ unsent c @ encode (command_reply args)"
  using request_reply_ok [OF assms] by blast

theorem redis_request_reply_witness:
  "\<exists>c' w'. redisCommand 1 (\<lambda>_ _. []) demo_context (demo_world [(100, 0, []), (4, 0, '':7'' @ CRLF)]) (''GET %s'' @ [NUL])
        [VStr (''a b'' @ [NUL])] = Inr (c', w', Some (RInteger 7))
     \<and> wire w' = ''*2'' @ CRLF @ ''$3'' @ CRLF @ ''GET'' @ CRLF @ ''$3'' @ CRLF @ ''a b'' @ CRLF"
proof -
  let ?w = "demo_world [(100, 0, []), (4, 0, '':7'' @ CRLF)]"
  have f: "fmt_args ''GET %s'' [VStr (''a b'' @ [NUL])] [] False [] = Some [''GET'', ''a b'']" by code_simp
  have e: "encode (command_reply [''GET'', ''a b''])
      = ''*2'' @ CRLF @ ''$3'' @ CRLF @ ''GET'' @ CRLF @ ''$3'' @ CRLF @ ''a b'' @ CRLF" by code_simp
  have x: "encode (RInteger 7) = '':7'' @ CRLF" by code_simp
  have "w_ret ?w (w_now ?w) = (100, 0, [])" "w_ret ?w (Suc (w_now ?w)) = (4, 0, '':7'' @ CRLF)"
    by (simp_all add: demo_world_def)
  then show ?thesis
    using redis_request_reply [OF demo_idle demo_memory _ f, of "[(100, 0, []), (4, 0, '':7'' @ CRLF)]" "RInteger 7" 0 "\<lambda>_ _. []"]
    by (simp add: demo_facts e x del: encode.simps) auto
qed

theorem redis_command_integrity_witness:
  "\<exists>c' w' x. redisCommand 1 (\<lambda>_ _. []) demo_context (demo_world [(100, 0, []), (4, 0, '':7'' @ CRLF)]) (''GET %s'' @ [NUL])
        [VStr (''a b'' @ [NUL])] = Inr (c', w', x) \<and> ctx_inv c'
     \<and> wire w' @ unsent c' = encode (command_reply [''GET'', ''a b''])"
proof -
  let ?w = "demo_world [(100, 0, []), (4, 0, '':7'' @ CRLF)]"
  have f: "fmt_args ''GET %s'' [VStr (''a b'' @ [NUL])] [] False [] = Some [''GET'', ''a b'']" by code_simp
  have x: "encode (RInteger 7) = '':7'' @ CRLF" by code_simp
  have e: "length (encode (command_reply [''GET'', ''a b''])) = 22" by code_simp
  have "w_ret ?w (w_now ?w) = (100, 0, [])" "w_ret ?w (Suc (w_now ?w)) = (4, 0, '':7'' @ CRLF)"
    by (simp_all add: demo_world_def)
  then obtain c' w' where r: "redisCommand 1 (\<lambda>_ _. []) demo_context ?w (''GET %s'' @ [NUL]) [VStr (''a b'' @ [NUL])]
      = Inr (c', w', Some (RInteger 7))"
    using request_reply_ok [OF demo_idle demo_memory _ f, of "[(100, 0, []), (4, 0, '':7'' @ CRLF)]" "RInteger 7" 0 "\<lambda>_ _. []"]
    by (simp add: demo_facts e x del: encode.simps) auto
  have "ctx_inv demo_context" using demo_idle by (simp add: ctx_idle_def)
  from redis_command_integrity [OF this memory_kernel [OF demo_memory] _ f, of "[(100, 0, []), (4, 0, '':7'' @ CRLF)]" 1 "\<lambda>_ _. []"] r show ?thesis
    by (auto simp: demo_facts)
qed

end
