(* ===== verification/Yaul.thy ===== *)
theory Yaul
  imports Redis_Context Config Hash Hashtable_Itr
begin

text \<open>
  \<open>yaul.c\<close> and \<open>yaul.h\<close>: the logger. Its globals are a record; every handler is a function on it, with the choices of
  the C library and the clock as an argument. Blocks of memory and streams can be dangling, so uses of freed
  handle buffers and closed streams are faults. Writing to a file succeeds; what stdio holds back is
  kept apart from what the file contains.
\<close>

unbundle bit_operations_syntax

section \<open>The state\<close>

text \<open>
  A \<open>handlebuffer\<close> is a heap block at an address; the keys of the table are the pointers to its \<open>name\<close>
  field, that is to the block itself, together with the C string there (which never changes while the
  key is in the table). The caller's \<open>name\<close> buffer is address 0. A stream is an open \<open>FILE\<close> in append mode:
  its path and what stdio still holds; \<open>disk\<close> is what the files contain.
\<close>

record handlebuffer =
  hb_name :: string
  hb_file :: "nat option"

type_synonym fkey = "nat \<times> string"

record stream =
  st_path :: string
  st_pending :: string

record logger =
  config :: yaulConfig
  handles :: "(fkey, nat) hashtable"
  heap :: "nat \<Rightarrow> handlebuffer option"
  next_addr :: nat
  lastfile :: "nat option"
  streams :: "nat \<Rightarrow> stream option"
  next_stream :: nat
  disk :: "string \<Rightarrow> string"
  stat_messages_handled :: u32
  stat_files_opened :: u32
  stat_files_closed :: u32
  stat_files_switched :: u32
  stat_start_time :: int
  redis_context :: "redisContext option"
  kernel :: world
  sys_log :: "string list"
  exited :: "int option"

text \<open>
  What the C library and the clock answer during one event: the outcome of \<open>malloc\<close> for a block, for the
  hash table and for an iterator; whether \<open>fopen\<close> succeeds; the numbers \<open>rand\<close> returns; how many bytes a
  full stdio buffer writes early; the texts of \<open>strftime\<close>, \<open>time(NULL)\<close>, the text \<open>%f\<close> prints for the
  average, the other \<open>printf\<close> texts, how the Redis host resolves, and the rounds of the Redis loops.
\<close>

record env =
  e_malloc :: bool
  e_fopen :: bool
  e_iter :: bool
  e_ht :: ht_mem
  e_rand :: "nat list"
  e_spill :: nat
  e_loctime :: string
  e_logtime :: string
  e_now :: int
  e_average :: string
  e_pf :: "string \<Rightarrow> va \<Rightarrow> string"
  e_resolved :: "string + nat"
  e_rounds :: nat

definition cmpKeys :: "fkey \<Rightarrow> fkey \<Rightarrow> bool" where
  "cmpKeys a b \<longleftrightarrow> snd a = snd b"

definition key_hash :: "fkey \<Rightarrow> u32" where
  "key_hash k = (case djb2Hash (snd k @ [NUL]) of Some h \<Rightarrow> h | None \<Rightarrow> 0)"

section \<open>Memory and files\<close>

definition deref :: "logger \<Rightarrow> nat \<Rightarrow> handlebuffer res" where
  "deref st a = (case heap st a of None \<Rightarrow> Inl UseAfterFree | Some hb \<Rightarrow> Inr hb)"

definition deref_ptr :: "logger \<Rightarrow> nat option \<Rightarrow> handlebuffer res" where
  "deref_ptr st p = (case p of None \<Rightarrow> Inl NullDeref | Some a \<Rightarrow> deref st a)"

definition free_block :: "nat \<Rightarrow> logger \<Rightarrow> logger res" where
  "free_block a st = (case heap st a of None \<Rightarrow> Inl DoubleFree | Some hb \<Rightarrow> Inr (st\<lparr>heap := (heap st)(a := None)\<rparr>))"

definition free_ptr :: "nat option \<Rightarrow> logger \<Rightarrow> logger res" where
  "free_ptr p st = (case p of None \<Rightarrow> Inr st | Some a \<Rightarrow> free_block a st)"

definition with_stream :: "logger \<Rightarrow> nat option \<Rightarrow> (nat \<Rightarrow> stream \<Rightarrow> 'a) \<Rightarrow> 'a res" where
  "with_stream st f k =
     (case f of
        None \<Rightarrow> Inl NullDeref
      | Some i \<Rightarrow> (case streams st i of None \<Rightarrow> Inl UseAfterFree | Some s \<Rightarrow> Inr (k i s)))"

definition append_disk :: "string \<Rightarrow> string \<Rightarrow> logger \<Rightarrow> logger" where
  "append_disk p x st = st\<lparr>disk := (disk st)(p := disk st p @ x)\<rparr>"

definition fflush :: "logger \<Rightarrow> nat option \<Rightarrow> logger res" where
  "fflush st f = with_stream st f
     (\<lambda>i s. append_disk (st_path s) (st_pending s) (st\<lparr>streams := (streams st)(i \<mapsto> s\<lparr>st_pending := []\<rparr>)\<rparr>))"

definition fclose :: "logger \<Rightarrow> nat option \<Rightarrow> logger res" where
  "fclose st f = with_stream st f
     (\<lambda>i s. append_disk (st_path s) (st_pending s) (st\<lparr>streams := (streams st)(i := None)\<rparr>))"

definition fprint :: "nat \<Rightarrow> logger \<Rightarrow> nat option \<Rightarrow> string \<Rightarrow> logger res" where
  "fprint spill st f x = with_stream st f
     (\<lambda>i s. let p = st_pending s @ x
            in append_disk (st_path s) (take spill p)
                 (st\<lparr>streams := (streams st)(i \<mapsto> s\<lparr>st_pending := drop spill p\<rparr>)\<rparr>))"

definition fopen_append :: "bool \<Rightarrow> string \<Rightarrow> logger \<Rightarrow> logger \<times> nat option" where
  "fopen_append ok fname st =
     (if ok then (st\<lparr>streams := (streams st)(next_stream st \<mapsto> \<lparr>st_path = fname, st_pending = []\<rparr>),
                     next_stream := Suc (next_stream st)\<rparr>, Some (next_stream st))
      else (st, None))"

definition log_line :: "string \<Rightarrow> logger \<Rightarrow> logger" where
  "log_line x st = st\<lparr>sys_log := sys_log st @ [x]\<rparr>"

section \<open>Closing files\<close>

text \<open>The loop of \<open>closeRandomFile\<close> that picks a file other than the last used one; it ends when \<open>rand\<close> hits one.\<close>

fun pick_file :: "bool \<Rightarrow> logger \<Rightarrow> nat list \<Rightarrow> nat res" where
  "pick_file it st [] = Inl OutOfFuel"
| "pick_file it st (r # rs) =
     (case hashtable_iterator it (handles st) of
        None \<Rightarrow> Inl NullDeref
      | Some itr \<Rightarrow>
          bind_res (hashtable_iterator_value
            (advance_n (r mod unat (hashtable_count (handles st))) (handles st) itr))
          (\<lambda>handle. bind_res (deref st handle)
          (\<lambda>hb. bind_res (deref_ptr st (lastfile st))
          (\<lambda>lb. if hb_name hb = hb_name lb then pick_file it st rs else Inr handle))))"

definition closeRandomFile :: "env \<Rightarrow> logger \<Rightarrow> logger res" where
  "closeRandomFile env st =
     (if opt_redis (config st) = 0 \<and> 1 < hashtable_count (handles st) then
        bind_res (pick_file (e_iter env) st (e_rand env))
        (\<lambda>handle. bind_res (deref st handle)
        (\<lambda>hb. bind_res (fclose st (hb_file hb))
        (\<lambda>st1.
           let (h', removed) = hashtable_remove (handles st1) (handle, hb_name hb);
               st2 = st1\<lparr>stat_files_closed := stat_files_closed st1 + 1, handles := h'\<rparr>
           in case removed of None \<Rightarrow> Inr st2 | Some (v, k0) \<Rightarrow> free_block (fst k0) st2)))
      else Inr st)"

text \<open>The loop of \<open>closeAllFiles\<close>; the number of entries is enough fuel.\<close>

fun close_loop :: "nat \<Rightarrow> (fkey, nat) hashtable_itr \<Rightarrow> logger \<Rightarrow> logger res" where
  "close_loop 0 itr st = Inl OutOfFuel"
| "close_loop (Suc fuel) itr st =
     bind_res (hashtable_iterator_value itr)
     (\<lambda>handle. bind_res (deref st handle)
     (\<lambda>hb. bind_res (fclose st (hb_file hb))
     (\<lambda>st1. bind_res (hashtable_iterator_remove (handles st1) itr)
     (\<lambda>(h', itr', ret, k).
        bind_res (free_block (fst k) (st1\<lparr>stat_files_closed := stat_files_closed st1 + 1, handles := h'\<rparr>))
        (\<lambda>st2. if ret \<noteq> 0 then close_loop fuel itr' st2 else Inr st2)))))"

definition closeAllFiles :: "env \<Rightarrow> logger \<Rightarrow> logger res" where
  "closeAllFiles env st =
     (if opt_redis (config st) = 0 \<and> 0 < hashtable_count (handles st) then
        (case hashtable_iterator (e_iter env) (handles st) of
           None \<Rightarrow> Inl NullDeref
         | Some itr \<Rightarrow> close_loop (unat (hashtable_count (handles st))) itr st)
      else Inr st)"

text \<open>\<open>hashtable_destroy\<close> passes every key and, on request, every value to \<open>free\<close>.\<close>

fun free_all :: "(fkey, nat) freed list \<Rightarrow> logger \<Rightarrow> logger res" where
  "free_all [] st = Inr st"
| "free_all (FreeKey k # fs) st = bind_res (free_block (fst k) st) (free_all fs)"
| "free_all (FreeValue v # fs) st = bind_res (free_block v st) (free_all fs)"
| "free_all (_ # fs) st = free_all fs st"

definition shutdownServer :: "env \<Rightarrow> logger \<Rightarrow> logger res" where
  "shutdownServer env st =
     bind_res (closeAllFiles env (log_line ''exiting'' st))
     (\<lambda>st1. bind_res (free_all (hashtable_destroy (handles st1) True) st1)
     (\<lambda>st2. Inr (st2\<lparr>exited := Some 0\<rparr>)))"

definition sig_hup :: "env \<Rightarrow> logger \<Rightarrow> logger res" where
  "sig_hup env st = closeAllFiles env (log_line ''caught SIGHUP'' st)"

definition sig_int :: "env \<Rightarrow> logger \<Rightarrow> logger res" where
  "sig_int env st = shutdownServer env (log_line ''caught SIGINT'' st)"

definition sig_term :: "env \<Rightarrow> logger \<Rightarrow> logger res" where
  "sig_term env st = shutdownServer env (log_line ''caught SIGTERM'' st)"

text \<open>\<open>hashtableDump\<close>: the lines it prints.\<close>

fun dump_loop :: "nat \<Rightarrow> (fkey, nat) hashtable_itr \<Rightarrow> logger \<Rightarrow> string list res" where
  "dump_loop 0 itr st = Inl OutOfFuel"
| "dump_loop (Suc fuel) itr st =
     bind_res (hashtable_iterator_value itr)
     (\<lambda>handle. bind_res (hashtable_iterator_key itr)
     (\<lambda>key. bind_res (deref st (fst key))
     (\<lambda>_. bind_res (deref st handle)
     (\<lambda>hb.
        let ln = ''Key '' @ snd key @ '': Filename '' @ hb_name hb @ [LF];
            (itr', ret) = hashtable_iterator_advance (handles st) itr
        in if ret \<noteq> 0 then bind_res (dump_loop fuel itr' st) (\<lambda>lns. Inr (ln # lns)) else Inr [ln]))))"

definition hashtableDump :: "bool \<Rightarrow> logger \<Rightarrow> string list res" where
  "hashtableDump it st =
     (if 0 < hashtable_count (handles st) then
        (case hashtable_iterator it (handles st) of
           None \<Rightarrow> Inl NullDeref
         | Some itr \<Rightarrow> bind_res (dump_loop (unat (hashtable_count (handles st))) itr st)
                         (\<lambda>lns. Inr (([LF] @ ''Begin dump'' @ [LF]) # lns)))
      else Inr [])"

section \<open>Logging to files\<close>

definition log_path :: "yaulConfig \<Rightarrow> string \<Rightarrow> string" where
  "log_path c name = logpath c @ ''/'' @ name @ ''.log''"

text \<open>A file that is not in the table: make room, allocate, build the path, open. The new block becomes
  \<open>lastfile\<close> in every case; when \<open>fopen\<close> fails it has been freed, and so has the old \<open>lastfile\<close>.\<close>

definition open_new :: "env \<Rightarrow> string \<Rightarrow> logger \<Rightarrow> logger res" where
  "open_new env name st0 =
     bind_res (if maxhandles (config st0) \<le> hashtable_count (handles st0) then closeRandomFile env st0 else Inr st0)
     (\<lambda>st.
        let fname = log_path (config st) name; a = next_addr st
        in if \<not> e_malloc env then Inl NullDeref
           else if PATHLENGTH < length fname + 1 then Inl OutOfBounds
           else
             case fopen_append (e_fopen env) fname st of
               (st1, None) \<Rightarrow>
                 bind_res (free_ptr (lastfile st1) (st1\<lparr>next_addr := Suc a\<rparr>))
                   (\<lambda>st2. Inr (st2\<lparr>lastfile := Some a\<rparr>))
             | (st1, Some f) \<Rightarrow>
                 if NAMELENGTH < length name + 1 then Inl OutOfBounds
                 else
                   bind_res (hashtable_insert (e_ht env) (handles st1) (a, name) a)
                   (\<lambda>(h', r). Inr (st1\<lparr>heap := (heap st1)(a \<mapsto> \<lparr>hb_name = name, hb_file = Some f\<rparr>),
                        next_addr := Suc a, handles := h',
                        stat_files_opened := stat_files_opened st1 + 1,
                        stat_files_switched := stat_files_switched st1 + 1,
                        lastfile := Some a\<rparr>)))"

text \<open>The result is the \<open>FILE\<close> pointer.\<close>

definition openLogfile :: "env \<Rightarrow> string \<Rightarrow> logger \<Rightarrow> (logger \<times> nat option) res" where
  "openLogfile env name st =
     bind_res
       (case lastfile st of
          None \<Rightarrow> Inr True
        | Some a \<Rightarrow> bind_res (deref st a) (\<lambda>hb. Inr (hb_name hb \<noteq> name)))
     (\<lambda>switch. bind_res
       (if switch then
          bind_res
            (case lastfile st of
               None \<Rightarrow> Inr st
             | Some a \<Rightarrow>
                 if 1 < opt_flush (config st) then
                   bind_res (deref st a) (\<lambda>hb. if hb_file hb \<noteq> None then fflush st (hb_file hb) else Inr st)
                 else Inr st)
          (\<lambda>st1. case hashtable_search (handles st1) (0, name) of
                   None \<Rightarrow> open_new env name st1
                 | Some a \<Rightarrow> Inr (st1\<lparr>stat_files_switched := stat_files_switched st1 + 1, lastfile := Some a\<rparr>))
        else Inr st)
     (\<lambda>st2. bind_res (deref_ptr st2 (lastfile st2)) (\<lambda>hb. Inr (st2, hb_file hb))))"

definition logMessageFile :: "env \<Rightarrow> string \<Rightarrow> string \<Rightarrow> logger \<Rightarrow> logger res" where
  "logMessageFile env name message st =
     bind_res (openLogfile env name st)
     (\<lambda>(st1, fp).
        if fp \<noteq> None then
          bind_res (fprint (e_spill env) st1 fp (message @ [LF]))
          (\<lambda>st2.
             let st3 = st2\<lparr>stat_messages_handled := stat_messages_handled st2 + 1\<rparr>
             in if opt_flush (config st3) = 0 then Inl DivByZero
                else if stat_messages_handled st3 mod opt_flush (config st3) = 0 then fflush st3 fp
                else Inr st3)
        else Inr (log_line (''Cannot open logfile: '' @ name) (st1\<lparr>exited := Some 1\<rparr>)))"

section \<open>Logging to Redis\<close>

text \<open>The old context is overwritten, not freed.\<close>

definition openRedis :: "env \<Rightarrow> logger \<Rightarrow> logger res" where
  "openRedis env st =
     bind_res (redisConnectWithTimeout (kernel st) (e_resolved env) (1, 500000))
     (\<lambda>(c, w).
        let st1 = st\<lparr>redis_context := Some c, kernel := w\<rparr>
        in Inr (if c_err c \<noteq> 0 then log_line (''Redis connection error: '' @ c_errstr c) st1 else st1))"

definition redis_call :: "env \<Rightarrow> string \<Rightarrow> va list \<Rightarrow> logger \<Rightarrow> (logger \<times> reply option) res" where
  "redis_call env format args st =
     (case redis_context st of
        None \<Rightarrow> Inl NullDeref
      | Some c \<Rightarrow>
          bind_res (redisCommand (e_rounds env) (e_pf env) c (kernel st) (format @ [NUL]) args)
          (\<lambda>(c', w', x). Inr (st\<lparr>redis_context := Some c', kernel := w'\<rparr>, x)))"

definition logMessageRedis :: "env \<Rightarrow> string \<Rightarrow> string \<Rightarrow> logger \<Rightarrow> logger res" where
  "logMessageRedis env name message st =
     bind_res (redis_call env ''LPUSH %s.%s %s''
                 [VStr (name @ [NUL]), VStr (e_logtime env @ [NUL]), VStr (message @ [NUL])] st)
     (\<lambda>(st1, reply).
        let st2 = st1\<lparr>stat_messages_handled := stat_messages_handled st1 + 1\<rparr>
        in if reply \<noteq> None then
             bind_res (free_reply reply)
             (\<lambda>_. if 0 < redis_ttl (config st2) then
                    bind_res (redis_call env ''EXPIRE %s.%s %u''
                      [VStr (name @ [NUL]), VStr (e_logtime env @ [NUL]), VInt (redis_ttl (config st2))] st2)
                    (\<lambda>(st3, reply2). bind_res (free_reply reply2) (\<lambda>_. Inr st3))
                  else Inr st2)
           else
             openRedis env
               (log_line (''Logging to redis failed at server '' @ redis_ip (config st2) @ '':''
                  @ dec (nat (redis_port (config st2) mod 2 ^ 32))) st2))"

section \<open>Messages\<close>

text \<open>The scan \<open>[%[a-zA-Z0-9.]]%[^\n]\<close> of a NUL-free text: the number of conversions and their texts.\<close>

definition name_char :: "char \<Rightarrow> bool" where
  "name_char c \<longleftrightarrow>
     (let n = (of_char c :: nat)
      in 97 \<le> n \<and> n \<le> 122 \<or> 65 \<le> n \<and> n \<le> 90 \<or> 48 \<le> n \<and> n \<le> 57 \<or> n = 46)"

definition scan_line :: "string \<Rightarrow> nat \<times> string \<times> string" where
  "scan_line s =
     (case s of
        [] \<Rightarrow> (0, [], [])
      | c # t \<Rightarrow>
          if c \<noteq> CHR ''['' then (0, [], [])
          else
            let nm = takeWhile name_char t; r = dropWhile name_char t
            in if nm = [] then (0, [], [])
               else case r of
                      [] \<Rightarrow> (1, nm, [])
                    | d # u \<Rightarrow>
                        if d \<noteq> CHR '']'' then (1, nm, [])
                        else let msg = takeWhile (\<lambda>x. x \<noteq> LF) u
                             in if msg = [] then (1, nm, []) else (2, nm, msg))"

text \<open>
  \<open>logMessage\<close> on the memory \<open>buffer\<close> points to. The scan writes the name into an array of \<open>NAMELENGTH\<close> bytes
  without a limit, and the message over the start of the buffer it is reading, which leaves the message
  there. The log line must fit \<open>MAXLENGTH\<close> bytes.
\<close>

definition log_text :: "string \<Rightarrow> string \<Rightarrow> u32 \<Rightarrow> string \<Rightarrow> string" where
  "log_text loctime addr prt body = loctime @ '' ['' @ addr @ '':'' @ dec (unat prt) @ ''] '' @ body"

definition logMessage :: "env \<Rightarrow> string \<Rightarrow> string \<Rightarrow> u32 \<Rightarrow> logger \<Rightarrow> logger res" where
  "logMessage env buffer addr prt st =
     (if NUL \<notin> set buffer then Inl OutOfBounds
      else
        let (conversions, nm, msg) = scan_line (cstr buffer)
        in if NAMELENGTH < length nm + 1 then Inl OutOfBounds
           else
             let name = (if conversions = 2 then nm else ''yaul'');
                 body = (if conversions = 2 then msg else cstr buffer);
                 message = log_text (e_loctime env) addr prt body
             in if MAXLENGTH < length message + 1 then Inl OutOfBounds
                else if opt_redis (config st) \<noteq> 0 then logMessageRedis env name message st
                else logMessageFile env name message st)"

text \<open>\<open>(unsigned int) time(NULL) - stat_start_time\<close> is a \<open>long\<close> printed by \<open>%lu\<close>; \<open>%f2\<close> prints the average and
  a 2.\<close>

definition statistics_text :: "env \<Rightarrow> logger \<Rightarrow> string" where
  "statistics_text env st =
     ''[yaul.stat]messages:'' @ dec (unat (stat_messages_handled st))
       @ '' opened:'' @ dec (unat (stat_files_opened st))
       @ '' closed:'' @ dec (unat (stat_files_closed st))
       @ '' switched:'' @ dec (unat (stat_files_switched st))
       @ '' running:'' @ dec (nat ((e_now env mod 2 ^ 32 - stat_start_time st) mod 2 ^ 64))
       @ '' sec average/s:'' @ e_average env @ ''2'' @ [LF]"

definition statistics :: "env \<Rightarrow> logger \<Rightarrow> logger res" where
  "statistics env st =
     (let text = statistics_text env st
      in if BUF < length text + 1 then Inl OutOfBounds
         else logMessage env (text @ [NUL]) (address (config st)) (port (config st)) st)"

section \<open>The server\<close>

text \<open>What happens at the socket: a datagram with its sender, an error of \<open>recvfrom\<close>, or a signal, which
  is taken to arrive while the server waits.\<close>

datatype event = Datagram string string "16 word" | RecvError | Sighup | Sigint | Sigterm

definition received :: "string \<Rightarrow> string" where
  "received data = take BUF data @ replicate (BUF - length data) NUL"

definition serverLoop_step :: "env \<Rightarrow> env \<Rightarrow> event \<Rightarrow> logger \<Rightarrow> logger res" where
  "serverLoop_step env env2 what st =
     (case what of
        RecvError \<Rightarrow> Inr (log_line ''cannot receive data'' st)
      | Sighup \<Rightarrow> sig_hup env st
      | Sigint \<Rightarrow> sig_int env st
      | Sigterm \<Rightarrow> sig_term env st
      | Datagram data addr prt \<Rightarrow>
          bind_res (logMessage env (received data) addr (ucast prt) st)
          (\<lambda>st1. if exited st1 \<noteq> None then Inr st1
             else if 0 < opt_statistics (config st1)
                     \<and> stat_messages_handled st1 mod opt_statistics (config st1) = 0
             then statistics env2 st1 else Inr st1))"

fun serverLoop :: "(env \<times> env \<times> event) list \<Rightarrow> logger \<Rightarrow> logger res" where
  "serverLoop [] st = Inr st"
| "serverLoop ((env, env2, what) # evs) st =
     (if exited st \<noteq> None then Inr st
      else bind_res (serverLoop_step env env2 what st) (serverLoop evs))"

text \<open>
  \<open>daemonize_server\<close>: the results of \<open>pipe\<close>, \<open>fork\<close> (the child sees 0) and \<open>read\<close> with the byte it delivers, and
  of the three calls to \<open>signal\<close>. The value is the exit code of the process if it exits.
\<close>

record daemon_env =
  d_pipe :: int
  d_fork :: int
  d_read :: int
  d_retcode :: int
  d_signal :: "int list"

definition EXIT_FAILURE :: int where "EXIT_FAILURE = 1"
definition SIG_ERR :: int where "SIG_ERR = -1"

definition daemonize_server :: "daemon_env \<Rightarrow> logger \<Rightarrow> logger" where
  "daemonize_server d st =
     (if d_pipe d = -1 then st\<lparr>exited := Some EXIT_FAILURE\<rparr>
      else if d_fork d < 0 then st\<lparr>exited := Some EXIT_FAILURE\<rparr>
      else if d_fork d \<noteq> 0 then
        (if d_read d \<noteq> 1 then st\<lparr>exited := Some EXIT_FAILURE\<rparr> else st\<lparr>exited := Some (d_retcode d)\<rparr>)
      else if SIG_ERR \<in> set (d_signal d) then st\<lparr>exited := Some EXIT_FAILURE\<rparr>
      else log_line (''address '' @ address (config st) @ '', port '' @ dec_int (sint (port (config st)))) st)"

text \<open>\<open>initServer\<close>: the allocations of the table (whose failure is not checked, so the first use of the table is
  a NULL dereference), the results of \<open>socket\<close>, \<open>inet_pton\<close> and \<open>bind\<close>.\<close>

record init_env =
  i_malloc_h :: bool
  i_malloc_t :: bool
  i_socket :: int
  i_pton :: int
  i_bind :: int
  i_daemon :: daemon_env
  i_env :: env

definition initServer :: "init_env \<Rightarrow> logger \<Rightarrow> logger res" where
  "initServer i st =
     (case create_hashtable (i_malloc_h i) (i_malloc_t i) (maxhandles (config st)) key_hash cmpKeys of
        None \<Rightarrow> Inl NullDeref
      | Some h \<Rightarrow>
          let st1 = st\<lparr>handles := h\<rparr>
          in if i_socket i < 0 then Inr (st1\<lparr>exited := Some EXIT_FAILURE\<rparr>)
             else if i_pton i = 0 then Inr (st1\<lparr>exited := Some EXIT_FAILURE\<rparr>)
             else if i_bind i < 0 then Inr (st1\<lparr>exited := Some EXIT_FAILURE\<rparr>)
             else
               bind_res (if opt_redis (config st1) \<noteq> 0 then openRedis (i_env i) st1 else Inr st1)
               (\<lambda>st2.
                  if opt_redis (config st1) \<noteq> 0
                     \<and> (case redis_context st2 of None \<Rightarrow> False | Some c \<Rightarrow> c_err c \<noteq> 0)
                  then Inr (st2\<lparr>exited := Some EXIT_FAILURE\<rparr>)
                  else
                    let st3 = (if opt_daemonize (config st2) = 1 then daemonize_server (i_daemon i) st2 else st2)
                    in Inr (if exited st3 = None then log_line ''Server started'' st3 else st3)))"

text \<open>The globals before \<open>main\<close>, with the table not yet created, and \<open>main\<close> on the parsed options.\<close>

definition no_table :: "(fkey, nat) hashtable" where
  "no_table = \<lparr>tablelength = 0, table = [], entrycount = 0, loadlimit = 0, primeindex = 0,
     hashfn = key_hash, eqfn = cmpKeys\<rparr>"

definition initial :: "yaulConfig \<Rightarrow> world \<Rightarrow> (string \<Rightarrow> string) \<Rightarrow> logger" where
  "initial c w d =
     \<lparr>config = c, handles = no_table, heap = (\<lambda>_. None), next_addr = 1, lastfile = None,
      streams = (\<lambda>_. None), next_stream = 0, disk = d,
      stat_messages_handled = 0, stat_files_opened = 0, stat_files_closed = 0, stat_files_switched = 0,
      stat_start_time = 0, redis_context = None, kernel = w, sys_log = [], exited = None\<rparr>"

definition yaul_main ::
  "(char \<times> string) list \<Rightarrow> int \<Rightarrow> init_env \<Rightarrow> (env \<times> env \<times> event) list \<Rightarrow> world \<Rightarrow> (string \<Rightarrow> string) \<Rightarrow> logger res" where
  "yaul_main opts now i evs w d =
     bind_res (readOptions opts)
     (\<lambda>c. case c of
            None \<Rightarrow> Inr ((initial setDefaultOptions w d)\<lparr>exited := Some 0\<rparr>)
          | Some cfg \<Rightarrow>
              bind_res (initServer i ((initial cfg w d)\<lparr>stat_start_time := now\<rparr>))
                (serverLoop evs))"

end
