(* ===== verification/Yaul_Tables.thy ===== *)
theory Yaul_Tables
  imports Yaul
begin

text \<open>
  The table of open log files: that \<open>djb2Hash\<close> and \<open>cmpKeys\<close> fulfil the contract of the hash table, what its
  operations do to the entries, how much text of a path is logged (on disk or still in a stdio buffer), the
  invariant \<open>tables_ok\<close> between the table, the heap and the streams, and that \<open>closeRandomFile\<close> keeps it
  and closes a file other than the last used one.
\<close>

section \<open>Keys of the table of handles\<close>

lemma key_hash_contract: "key_contract key_hash cmpKeys"
  unfolding key_contract_def
proof
  show "equivp cmpKeys" by (rule equivpI) (auto simp: reflp_def symp_def transp_def cmpKeys_def)
qed (simp add: cmpKeys_def key_hash_def)

abbreviation names :: "(fkey, nat) entry list \<Rightarrow> string list" where
  "names es \<equiv> map (\<lambda>e. snd (ek e)) es"

lemma filter_one:
  "distinct (map f xs) \<Longrightarrow> x \<in> set xs \<Longrightarrow> filter (\<lambda>y. f x = f y) xs = [x]"
proof (induction xs)
  case (Cons a xs)
  show ?case
  proof (cases "x = a")
    case True
    with Cons.prems have "filter (\<lambda>y. f a = f y) xs = []" by (auto simp: filter_empty_conv)
    with True show ?thesis by simp
  next
    case False
    with Cons.prems have "x \<in> set xs" "f x \<noteq> f a" by (auto simp: image_iff)
    with Cons show ?thesis by simp
  qed
qed simp

lemma same_name:
  "distinct (names es) \<Longrightarrow> e \<in> set es \<Longrightarrow> e' \<in> set es \<Longrightarrow> snd (ek e) = snd (ek e') \<Longrightarrow> e = e'"
  by (simp add: distinct_map inj_on_def)

lemma unique_names: "unique_keys cmpKeys es \<longleftrightarrow> distinct (names es)"
proof
  assume u: "unique_keys cmpKeys es"
  then show "distinct (names es)"
  proof (induction es)
    case (Cons e es)
    then have "length (filter (\<lambda>x. snd (ek e) = snd (ek x)) (e # es)) = 1"
      by (simp add: unique_keys_def cmpKeys_def)
    then have n: "snd (ek e) \<notin> set (names es)" by (auto simp: filter_empty_conv)
    have "unique_keys cmpKeys es"
      unfolding unique_keys_def
    proof
      fix x assume x: "x \<in> set es"
      then have "length (filter (\<lambda>y. cmpKeys (ek x) (ek y)) (e # es)) = 1"
        using Cons.prems by (simp add: unique_keys_def)
      moreover have "\<not> cmpKeys (ek x) (ek e)" using n x by (auto simp: cmpKeys_def image_iff)
      ultimately show "length (filter (\<lambda>y. cmpKeys (ek x) (ek y)) es) = 1" by simp
    qed
    with Cons.IH n show ?case by simp
  qed simp
next
  assume "distinct (names es)"
  then show "unique_keys cmpKeys es"
    by (simp add: unique_keys_def cmpKeys_def filter_one [of "\<lambda>e. snd (ek e)"])
qed

definition handles_ok :: "(fkey, nat) hashtable \<Rightarrow> bool" where
  "handles_ok h \<longleftrightarrow> ht_inv h \<and> hashfn h = key_hash \<and> eqfn h = cmpKeys \<and> distinct (names (ht_entries h))"

lemma handles_okD:
  assumes "handles_ok h"
  shows "ht_inv h" "ht_ok h" "ht_valid h" "key_contract (hashfn h) (eqfn h)"
    "unat (hashtable_count h) = length (ht_entries h)"
  using assms key_hash_contract
  by (auto simp: handles_ok_def ht_ok_def ht_valid_def unique_names ht_invD(2) hashtable_count_def)

lemma search_handles:
  assumes "handles_ok h"
  shows "hashtable_search h (x, n) = Some a \<longleftrightarrow> (\<exists>e \<in> set (ht_entries h). snd (ek e) = n \<and> ev e = a)"
    and "hashtable_search h (x, n) = None \<longleftrightarrow> n \<notin> set (names (ht_entries h))"
proof -
  have d: "distinct (names (ht_entries h))" and eq: "eqfn h = cmpKeys" using assms by (auto simp: handles_ok_def)
  have s: "hashtable_search h (x, n) = assoc cmpKeys (ht_entries h) (x, n)"
    using search_assoc [OF handles_okD(4) [OF assms] ht_invD(1) [OF handles_okD(1) [OF assms]]] eq by simp
  show none: "hashtable_search h (x, n) = None \<longleftrightarrow> n \<notin> set (names (ht_entries h))"
    unfolding s assoc_None by (auto simp: cmpKeys_def)
  show "hashtable_search h (x, n) = Some a \<longleftrightarrow> (\<exists>e \<in> set (ht_entries h). snd (ek e) = n \<and> ev e = a)"
  proof (cases "n \<in> set (names (ht_entries h))")
    case True
    then obtain e where e: "e \<in> set (ht_entries h)" "snd (ek e) = n" by auto
    have "filter (\<lambda>e. cmpKeys (x, n) (ek e)) (ht_entries h) = [e]"
      using filter_one [OF d e(1)] unfolding cmpKeys_def snd_conv e(2) .
    then have r: "hashtable_search h (x, n) = Some (ev e)" unfolding s assoc_def by simp
    have only: "e' = e" if "e' \<in> set (ht_entries h)" "snd (ek e') = n" for e'
      by (rule same_name [OF d that(1) e(1)]) (simp add: e(2) that(2))
    show ?thesis unfolding r option.inject
    proof
      assume "ev e = a"
      with e show "\<exists>e \<in> set (ht_entries h). snd (ek e) = n \<and> ev e = a" by (intro bexI [of _ e]) simp_all
    next
      assume "\<exists>e \<in> set (ht_entries h). snd (ek e) = n \<and> ev e = a"
      then obtain e' where "e' \<in> set (ht_entries h)" "snd (ek e') = n" "ev e' = a" by (elim bexE) simp
      with only [OF this(1,2)] show "ev e = a" by simp
    qed
  next
    case False
    then have "hashtable_search h (x, n) = None" "\<not> (\<exists>e \<in> set (ht_entries h). snd (ek e) = n \<and> ev e = a)"
      using none by auto
    then show ?thesis by simp
  qed
qed

definition mem_ok :: "ht_mem \<Rightarrow> bool" where
  "mem_ok m \<longleftrightarrow> malloc_table m \<and> malloc_entry m"

lemma insert_handles:
  assumes h: "handles_ok h" and n: "n \<notin> set (names (ht_entries h))" and m: "mem_ok m"
    and room: "length (ht_entries h) < 2 ^ 32 - 1"
  shows "\<exists>h'. hashtable_insert m h (a, n) a = Inr (h', -1) \<and> handles_ok h'
    \<and> mset (ht_entries h') = add_mset \<lparr>ek = (a, n), ev = a, eh = hash h (a, n)\<rparr> (mset (ht_entries h))"
proof -
  obtain h' where h': "hashtable_insert m h (a, n) a = Inr (h', -1)" "ht_inv h'"
    "mset (ht_entries h') = add_mset \<lparr>ek = (a, n), ev = a, eh = hash h (a, n)\<rparr> (mset (ht_entries h))"
    "hashfn h' = hashfn h" "eqfn h' = eqfn h"
    using insert_ok [OF handles_okD(1) [OF h] _ _ room, of m "(a, n)" a] m by (auto simp: mem_ok_def)
  let ?e = "\<lparr>ek = (a, n), ev = a, eh = hash h (a, n)\<rparr>"
  have "distinct (names (?e # ht_entries h))" using h n by (simp add: handles_ok_def)
  moreover have "mset (names (ht_entries h')) = mset (names (?e # ht_entries h))" using h'(3) by simp
  ultimately have "distinct (names (ht_entries h'))" by (metis mset_eq_imp_distinct_iff)
  with h' h show ?thesis by (auto simp: handles_ok_def)
qed

lemma remove_handles:
  assumes h: "handles_ok h" and e: "e \<in> set (ht_entries h)"
  shows "\<exists>h'. hashtable_remove h (x, snd (ek e)) = (h', Some (ev e, ek e)) \<and> handles_ok h'
    \<and> mset (ht_entries h) = add_mset e (mset (ht_entries h'))"
proof -
  have "hashtable_search h (x, snd (ek e)) = Some (ev e)" using search_handles(1) [OF h] e by blast
  from remove_hit [OF handles_okD(1) [OF h] this] obtain h' e' where
    r: "hashtable_remove h (x, snd (ek e)) = (h', Some (ev e', ek e'))" "ht_inv h'"
      "mset (ht_entries h) = add_mset e' (mset (ht_entries h'))" "eqfn h (x, snd (ek e)) (ek e')"
      "hashfn h' = hashfn h" "eqfn h' = eqfn h" by blast
  have d: "distinct (names (ht_entries h))" using h by (simp add: handles_ok_def)
  have e': "e' \<in> set (ht_entries h)" using r(3) by (metis set_mset_mset union_single_eq_member)
  have "snd (ek e) = snd (ek e')" using r(4) h by (simp add: handles_ok_def cmpKeys_def)
  then have "e' = e" using same_name [OF d e e'] by simp
  moreover have "distinct (names (ht_entries h'))"
  proof -
    have "mset (names (ht_entries h)) = mset (names (e' # ht_entries h'))" using r(3) by simp
    with d have "distinct (names (e' # ht_entries h'))" by (metis mset_eq_imp_distinct_iff)
    then show ?thesis by simp
  qed
  ultimately show ?thesis using r h by (auto simp: handles_ok_def)
qed

section \<open>Streams and what is logged\<close>

text \<open>What a file will contain: what is on disk and what stdio holds for it.\<close>

definition pending_of :: "logger \<Rightarrow> string \<Rightarrow> string" where
  "pending_of st p = concat (map (\<lambda>f. case streams st f of
       None \<Rightarrow> [] | Some s \<Rightarrow> if st_path s = p then st_pending s else []) [0..<next_stream st])"

definition logged :: "logger \<Rightarrow> string \<Rightarrow> string" where
  "logged st p = disk st p @ pending_of st p"

definition streams_ok :: "logger \<Rightarrow> bool" where
  "streams_ok st \<longleftrightarrow> (\<forall>f s. streams st f = Some s \<longrightarrow> f < next_stream st) \<and>
     (\<forall>f g s t. streams st f = Some s \<longrightarrow> streams st g = Some t \<longrightarrow> st_path s = st_path t \<longrightarrow> f = g)"

lemma concat_map_one:
  "distinct xs \<Longrightarrow> x \<in> set xs \<Longrightarrow> (\<And>y. y \<in> set xs \<Longrightarrow> y \<noteq> x \<Longrightarrow> g y = []) \<Longrightarrow> concat (map g xs) = g x"
proof (induction xs)
  case (Cons a xs)
  show ?case
  proof (cases "x = a")
    case True
    with Cons.prems have "\<forall>y \<in> set xs. g y = []" by auto
    with True show ?thesis by (simp add: concat_eq_Nil_conv)
  next
    case False
    with Cons show ?thesis by auto
  qed
qed simp

lemma pending_some:
  assumes "streams_ok st" "streams st f = Some s"
  shows "pending_of st (st_path s) = st_pending s"
proof -
  let ?g = "\<lambda>i. case streams st i of None \<Rightarrow> [] | Some t \<Rightarrow> if st_path t = st_path s then st_pending t else []"
  have "concat (map ?g [0..<next_stream st]) = ?g f"
    by (rule concat_map_one) (use assms in \<open>auto simp: streams_ok_def split: option.splits\<close>)
  with assms(2) show ?thesis by (simp add: pending_of_def)
qed

lemma pending_none:
  "(\<And>f s. streams st f = Some s \<Longrightarrow> st_path s \<noteq> p) \<Longrightarrow> pending_of st p = []"
  by (auto simp: pending_of_def concat_eq_Nil_conv split: option.splits)

text \<open>What an update of one stream and of the disk does to the logged text.\<close>

lemma put_stream:
  assumes ok: "streams_ok st" and f: "streams st f = Some s" and p: "st_path s' = st_path s"
    and st': "streams st' = (streams st)(f \<mapsto> s')" "next_stream st' = next_stream st"
      "disk st' = (disk st)(st_path s := disk st (st_path s) @ x)"
  shows "streams_ok st'"
    "logged st' q = (if q = st_path s then disk st (st_path s) @ x @ st_pending s' else logged st q)"
proof -
  show ok': "streams_ok st'"
    using ok f p by (auto simp: streams_ok_def st')
  show "logged st' q = (if q = st_path s then disk st (st_path s) @ x @ st_pending s' else logged st q)"
  proof (cases "q = st_path s")
    case True
    from pending_some [OF ok', of f s'] p True show ?thesis by (simp add: logged_def st')
  next
    case False
    have "pending_of st' q = pending_of st q"
      unfolding pending_of_def st'
      by (rule arg_cong [where f=concat], rule map_cong) (use False f p in \<open>auto split: option.splits\<close>)
    with False show ?thesis by (simp add: logged_def st')
  qed
qed

lemma drop_stream:
  assumes ok: "streams_ok st" and f: "streams st f = Some s"
    and st': "streams st' = (streams st)(f := None)" "next_stream st' = next_stream st"
      "disk st' = (disk st)(st_path s := disk st (st_path s) @ st_pending s)"
  shows "streams_ok st'" "logged st' q = logged st q"
proof -
  show ok': "streams_ok st'" using ok by (auto simp: streams_ok_def st')
  show "logged st' q = logged st q"
  proof (cases "q = st_path s")
    case True
    have "pending_of st' q = []"
      by (rule pending_none) (use ok f True in \<open>auto simp: st' streams_ok_def split: if_splits\<close>)
    with True pending_some [OF ok f] show ?thesis by (simp add: logged_def st')
  next
    case False
    have "pending_of st' q = pending_of st q"
      unfolding pending_of_def st'
      by (rule arg_cong [where f=concat], rule map_cong) (use False f in \<open>auto split: option.splits\<close>)
    with False show ?thesis by (simp add: logged_def st')
  qed
qed

lemma new_stream:
  assumes ok: "streams_ok st" and p: "\<And>f s. streams st f = Some s \<Longrightarrow> st_path s \<noteq> p"
    and st': "streams st' = (streams st)(next_stream st \<mapsto> \<lparr>st_path = p, st_pending = []\<rparr>)"
      "next_stream st' = Suc (next_stream st)" "disk st' = disk st"
  shows "streams_ok st'" "logged st' q = logged st q"
proof -
  show ok': "streams_ok st'"
    using ok p unfolding streams_ok_def st' by (auto simp: less_Suc_eq)
  have n: "streams st (next_stream st) = None" using ok by (auto simp: streams_ok_def)
  have "pending_of st' q = pending_of st q"
    unfolding pending_of_def st'
    by (simp add: n) (rule arg_cong [where f=concat], rule map_cong, auto split: option.splits)
  then show "logged st' q = logged st q" by (simp add: logged_def st')
qed

section \<open>The invariant of the file table\<close>

abbreviation ents :: "logger \<Rightarrow> (fkey, nat) entry list" where
  "ents st \<equiv> ht_entries (handles st)"

text \<open>An entry of the table is keyed by the name in its own block, whose stream is open on its log file.\<close>

definition entry_ok :: "logger \<Rightarrow> (fkey, nat) entry \<Rightarrow> bool" where
  "entry_ok st e \<longleftrightarrow> fst (ek e) = ev e \<and> (\<exists>f s. heap st (ev e) = Some \<lparr>hb_name = snd (ek e), hb_file = Some f\<rparr>
     \<and> streams st f = Some s \<and> st_path s = log_path (config st) (snd (ek e)))"

text \<open>Every block and every stream belongs to an entry: nothing leaks.\<close>

definition tables_ok :: "logger \<Rightarrow> bool" where
  "tables_ok st \<longleftrightarrow> handles_ok (handles st) \<and> streams_ok st \<and> (\<forall>e \<in> set (ents st). entry_ok st e) \<and>
     (\<forall>a hb. heap st a = Some hb \<longrightarrow> a < next_addr st \<and> (\<exists>e \<in> set (ents st). ev e = a)) \<and>
     (\<forall>f s. streams st f = Some s \<longrightarrow> (\<exists>e \<in> set (ents st). \<exists>hb. heap st (ev e) = Some hb \<and> hb_file hb = Some f))"

definition files_ok :: "logger \<Rightarrow> bool" where
  "files_ok st \<longleftrightarrow> opt_redis (config st) = 0 \<and> tables_ok st \<and>
     (case lastfile st of None \<Rightarrow> ents st = [] | Some a \<Rightarrow> heap st a \<noteq> None)"

lemma log_path_inj [simp]: "log_path c n = log_path c m \<longleftrightarrow> n = m"
  by (simp add: log_path_def)

lemma tables_okD:
  assumes "tables_ok st"
  shows "handles_ok (handles st)" "streams_ok st" "distinct (names (ents st))"
    "e \<in> set (ents st) \<Longrightarrow> entry_ok st e"
    "heap st a = Some hb \<Longrightarrow> a < next_addr st \<and> (\<exists>e \<in> set (ents st). ev e = a)"
    "streams st f = Some s \<Longrightarrow> \<exists>e \<in> set (ents st). \<exists>hb. heap st (ev e) = Some hb \<and> hb_file hb = Some f"
  using assms by (auto simp: tables_ok_def handles_ok_def)

lemma same_entry:
  assumes ok: "tables_ok st" and e: "e \<in> set (ents st)" "e' \<in> set (ents st)" and v: "ev e = ev e'"
  shows "e = e'"
proof -
  have "snd (ek e) = snd (ek e')"
    using tables_okD(4) [OF ok e(1)] tables_okD(4) [OF ok e(2)] v by (auto simp: entry_ok_def)
  with same_name [OF tables_okD(3) [OF ok] e] show ?thesis .
qed

lemma entry_files:
  assumes "tables_ok st" "e \<in> set (ents st)"
  shows "\<exists>f s. heap st (ev e) = Some \<lparr>hb_name = snd (ek e), hb_file = Some f\<rparr> \<and> streams st f = Some s
    \<and> st_path s = log_path (config st) (snd (ek e)) \<and> fst (ek e) = ev e"
  using tables_okD(4) [OF assms] by (auto simp: entry_ok_def)

text \<open>A path has a stream exactly when its name has an entry.\<close>

lemma stream_of_path:
  assumes ok: "tables_ok st" and s: "streams st f = Some s" "st_path s = log_path (config st) n"
  shows "n \<in> set (names (ents st))"
proof -
  from tables_okD(6) [OF ok s(1)] obtain e hb where e: "e \<in> set (ents st)" "heap st (ev e) = Some hb" "hb_file hb = Some f"
    by blast
  with entry_files [OF ok e(1)] s show ?thesis by (auto intro!: image_eqI [of _ _ e])
qed

lemma stream_path:
  assumes ok: "tables_ok st" and s: "streams st f = Some s"
  shows "\<exists>n \<in> set (names (ents st)). st_path s = log_path (config st) n"
proof -
  from tables_okD(6) [OF ok s] obtain e hb where e: "e \<in> set (ents st)" "heap st (ev e) = Some hb" "hb_file hb = Some f"
    by blast
  with entry_files [OF ok e(1)] s show ?thesis by auto
qed

subsection \<open>Removing an entry\<close>

lemma drop_entry:
  assumes ok: "tables_ok st" and e: "e \<in> set (ents st)"
    and hb: "heap st (ev e) = Some \<lparr>hb_name = snd (ek e), hb_file = Some f\<rparr>" "streams st f = Some s"
    and h': "handles_ok (handles st')" "mset (ents st) = add_mset e (mset (ents st'))"
    and st': "heap st' = (heap st)(ev e := None)" "streams st' = (streams st)(f := None)"
      "next_addr st' = next_addr st" "next_stream st' = next_stream st" "config st' = config st"
      "disk st' = (disk st)(st_path s := disk st (st_path s) @ st_pending s)"
  shows "tables_ok st'" "logged st' q = logged st q"
proof -
  have set: "set (ents st) = insert e (set (ents st'))" using h'(2) by (metis set_mset_add_mset_insert set_mset_mset)
  have d: "distinct (names (ents st))" using tables_okD(3) [OF ok] .
  have "mset (names (ents st)) = mset (names (e # ents st'))" using h'(2) by simp
  with d have "distinct (names (e # ents st'))" by (metis mset_eq_imp_distinct_iff)
  then have ne: "e' \<noteq> e" if "e' \<in> set (ents st')" for e' using that by auto
  have vne: "ev e' \<noteq> ev e" if "e' \<in> set (ents st')" for e'
    using same_entry [OF ok _ e, of e'] ne that set by auto
  have other: "entry_ok st' e'" if e': "e' \<in> set (ents st')" for e'
  proof -
    from entry_files [OF ok, of e'] e' set obtain f' s' where
      o: "heap st (ev e') = Some \<lparr>hb_name = snd (ek e'), hb_file = Some f'\<rparr>" "streams st f' = Some s'"
      "st_path s' = log_path (config st) (snd (ek e'))" "fst (ek e') = ev e'" by auto
    have "f' \<noteq> f"
    proof
      assume "f' = f"
      moreover from entry_files [OF ok e] hb have "st_path s = log_path (config st) (snd (ek e))" by auto
      ultimately have "snd (ek e') = snd (ek e)" using o hb(2) by simp
      then have "e' = e" using same_name [OF d _ e, of e'] e' set by simp
      with ne [OF e'] show False by blast
    qed
    with o vne [OF e'] show ?thesis by (simp add: entry_ok_def st')
  qed
  have ds: "streams_ok st'" "logged st' q = logged st q"
    using drop_stream [OF tables_okD(2) [OF ok] hb(2), of st'] st' by auto
  have hp: "a < next_addr st' \<and> (\<exists>e \<in> set (ents st'). ev e = a)" if "heap st' a = Some b" for a b
    using that tables_okD(5) [OF ok, of a] set by (auto simp: st' split: if_splits)
  have sp: "\<exists>e \<in> set (ents st'). \<exists>hb. heap st' (ev e) = Some hb \<and> hb_file hb = Some g" if g: "streams st' g = Some t" for g t
  proof -
    have g': "g \<noteq> f" "streams st g = Some t" using g by (auto simp: st' split: if_splits)
    from tables_okD(6) [OF ok g'(2)] obtain e1 b where
      e1: "e1 \<in> set (ents st)" "heap st (ev e1) = Some b" "hb_file b = Some g" by blast
    have "e1 \<noteq> e" using e1 hb(1) g'(1) by auto
    then have "e1 \<in> set (ents st')" using e1(1) set by simp
    with e1 vne show ?thesis by (auto simp: st')
  qed
  show "tables_ok st'" using h'(1) ds(1) other hp sp by (auto simp: tables_ok_def)
  show "logged st' q = logged st q" by (rule ds(2))
qed

subsection \<open>Closing a random file\<close>

lemma nth_entry_value:
  assumes "handles_ok h" "i < length (ht_entries h)"
  shows "\<exists>itr. hashtable_iterator True h = Some itr \<and> hashtable_iterator_value (advance_n i h itr) = Inr (ev (ht_entries h ! i))"
proof -
  note inv = handles_okD(1) [OF assms(1)]
  obtain itr where itr: "hashtable_iterator True h = Some itr" "itr_ok h itr" "remaining h itr = ht_entries h"
    using iterator_start [OF inv] by blast
  have "remaining h (advance_n i h itr) = drop i (ht_entries h)"
    using advance_n_ok [OF ht_shapeD(1) [OF ht_invD(1) [OF inv]] itr(2)] itr(3) by simp
  with iterator_value_ok [of h "advance_n i h itr"] assms(2) itr(1) show ?thesis
    by (simp add: Cons_nth_drop_Suc [symmetric])
qed

lemma pick_file_ok:
  assumes ok: "tables_ok st" and last: "lastfile st = Some l" "heap st l = Some lb"
    and n: "ents st \<noteq> []" and ex: "\<exists>r \<in> set rs. snd (ek (ents st ! (r mod length (ents st)))) \<noteq> hb_name lb"
  shows "\<exists>e \<in> set (ents st). pick_file True st rs = Inr (ev e) \<and> snd (ek e) \<noteq> hb_name lb"
  using ex
proof (induction rs)
  case (Cons r rs)
  let ?n = "length (ents st)"
  define i where "i = r mod ?n"
  have i: "i < ?n" using n by (simp add: i_def)
  have cnt: "unat (hashtable_count (handles st)) = ?n" using handles_okD(5) [OF tables_okD(1) [OF ok]] .
  obtain itr where itr: "hashtable_iterator True (handles st) = Some itr"
    "hashtable_iterator_value (advance_n i (handles st) itr) = Inr (ev (ents st ! i))"
    using nth_entry_value [OF tables_okD(1) [OF ok] i] by blast
  let ?e = "ents st ! i"
  have e: "?e \<in> set (ents st)" using i by simp
  obtain f where hb: "heap st (ev ?e) = Some \<lparr>hb_name = snd (ek ?e), hb_file = Some f\<rparr>"
    using entry_files [OF ok e] by blast
  have step: "pick_file True st (r # rs) = (if snd (ek ?e) = hb_name lb then pick_file True st rs else Inr (ev ?e))"
    using itr hb last by (simp add: cnt i_def [symmetric] deref_def deref_ptr_def)
  show ?case
  proof (cases "snd (ek ?e) = hb_name lb")
    case True
    with Cons.prems have "\<exists>r \<in> set rs. snd (ek (ents st ! (r mod ?n))) \<noteq> hb_name lb" by (auto simp: i_def)
    from Cons.IH [OF this] show ?thesis unfolding step using True by simp
  next
    case False
    with e show ?thesis unfolding step by (intro bexI [of _ ?e]) simp_all
  qed
qed simp

text \<open>Numbers that hit every residue make the loop end: some entry is not the last file's.\<close>

definition covers :: "nat list \<Rightarrow> nat \<Rightarrow> bool" where
  "covers rs n \<longleftrightarrow> (\<forall>j < n. \<exists>r \<in> set rs. r mod n = j)"

lemma covers_hits:
  assumes "distinct (names es)" "1 < length es" "covers rs (length es)"
  shows "\<exists>r \<in> set rs. snd (ek (es ! (r mod length es))) \<noteq> x"
proof -
  have "snd (ek (es ! 0)) \<noteq> snd (ek (es ! 1))"
  proof
    assume "snd (ek (es ! 0)) = snd (ek (es ! 1))"
    moreover have l: "0 < length es" using assms(2) by linarith
    ultimately have "names es ! 0 = names es ! 1" using assms(2) by simp
    with nth_eq_iff_index_eq [OF assms(1), of 0 1] l assms(2) show False by (simp del: nth_map)
  qed
  then obtain j where j: "j < length es" "snd (ek (es ! j)) \<noteq> x"
    using assms(2) by (metis One_nat_def Suc_lessD)
  with assms(3) obtain r where "r \<in> set rs" "r mod length es = j" by (auto simp: covers_def)
  with j show ?thesis by auto
qed

lemma closeRandom_ok:
  assumes ok: "files_ok st" and n: "1 < length (ents st)" and it: "e_iter env"
    and c: "covers (e_rand env) (length (ents st))"
  shows "\<exists>st' e. closeRandomFile env st = Inr st' \<and> files_ok st' \<and> e \<in> set (ents st)
    \<and> mset (ents st) = add_mset e (mset (ents st')) \<and> lastfile st' = lastfile st \<and> config st' = config st
    \<and> (\<forall>q. logged st' q = logged st q)
    \<and> (case lastfile st of None \<Rightarrow> False | Some l \<Rightarrow> ev e \<noteq> l) \<and> next_addr st' = next_addr st
    \<and> stat_messages_handled st' = stat_messages_handled st
    \<and> stat_files_closed st' = stat_files_closed st + 1 \<and> exited st' = exited st"
proof -
  have t: "tables_ok st" and r: "opt_redis (config st) = 0" using ok by (auto simp: files_ok_def)
  note h = tables_okD(1) [OF t]
  from ok n obtain l lb where l: "lastfile st = Some l" "heap st l = Some lb"
    by (auto simp: files_ok_def split: option.splits)
  have ne: "ents st \<noteq> []" using n by auto
  from pick_file_ok [OF t l ne covers_hits [OF tables_okD(3) [OF t] n c]] obtain e where
    e: "e \<in> set (ents st)" "pick_file True st (e_rand env) = Inr (ev e)" "snd (ek e) \<noteq> hb_name lb" by blast
  obtain f s where hb: "heap st (ev e) = Some \<lparr>hb_name = snd (ek e), hb_file = Some f\<rparr>" "streams st f = Some s"
    "st_path s = log_path (config st) (snd (ek e))" "fst (ek e) = ev e" using entry_files [OF t e(1)] by blast
  define st1 where "st1 = append_disk (st_path s) (st_pending s) (st\<lparr>streams := (streams st)(f := None)\<rparr>)"
  have fc: "fclose st (Some f) = Inr st1" using hb(2) by (simp add: fclose_def with_stream_def st1_def)
  have st1: "handles st1 = handles st" "heap st1 = heap st" by (simp_all add: st1_def append_disk_def)
  obtain h' where h': "hashtable_remove (handles st) (ev e, snd (ek e)) = (h', Some (ev e, ek e))" "handles_ok h'"
    "mset (ht_entries (handles st)) = add_mset e (mset (ht_entries h'))"
    using remove_handles [OF h e(1), of "ev e"] by blast
  define st' where "st' = st1\<lparr>stat_files_closed := stat_files_closed st1 + 1, handles := h', heap := (heap st)(ev e := None)\<rparr>"
  have cnt: "1 < hashtable_count (handles st)" using n handles_okD(5) [OF h] by (simp add: word_less_nat_alt)
  have run: "closeRandomFile env st = Inr st'"
    unfolding closeRandomFile_def
    using r cnt e(2) hb(1,4) fc h'(1) it st1
    by (simp add: deref_def free_block_def st'_def)
  have f': "handles st' = h'" "heap st' = (heap st)(ev e := None)" "streams st' = (streams st)(f := None)"
    "next_addr st' = next_addr st" "next_stream st' = next_stream st" "config st' = config st"
    "disk st' = (disk st)(st_path s := disk st (st_path s) @ st_pending s)" "lastfile st' = lastfile st"
    "stat_messages_handled st' = stat_messages_handled st" "stat_files_closed st' = stat_files_closed st + 1"
    "exited st' = exited st"
    by (simp_all add: st'_def st1_def append_disk_def)
  have t': "tables_ok st'" "logged st' q = logged st q" for q
    using drop_entry [OF t e(1) hb(1,2), of st'] h'(2,3) f' by auto
  have "ev e \<noteq> l" using e(3) hb(1) l(2) by auto
  with t' f' r l ok have "files_ok st'" by (auto simp: files_ok_def)
  with run e(1) h'(3) f' t'(2) l \<open>ev e \<noteq> l\<close> show ?thesis by auto
qed

end
