(* ===== verification/Yaul_Files.thy ===== *)
theory Yaul_Files
  imports Yaul_Tables
begin

text \<open>
  Writing to log files: the invariant \<open>log_inv\<close> of the logger, that opening, switching, writing and flushing
  keep it, that a message is appended to its file, and what \<open>SIGHUP\<close>, the end of the program and a
  failing \<open>fopen\<close> do.
\<close>

section \<open>Opening a file\<close>

text \<open>The table stays within its limit, which is \<open>maxhandles\<close>, but never less than two.\<close>

definition limit :: "logger \<Rightarrow> nat" where
  "limit st = max 2 (unat (maxhandles (config st)))"

definition log_inv :: "logger \<Rightarrow> bool" where
  "log_inv st \<longleftrightarrow> files_ok st \<and> length (ents st) \<le> limit st \<and> unat (maxhandles (config st)) \<le> 2 ^ 30"

text \<open>A benign libc: allocations and \<open>fopen\<close> succeed, and \<open>rand\<close> reaches every residue.\<close>

definition benign :: "env \<Rightarrow> logger \<Rightarrow> bool" where
  "benign env st \<longleftrightarrow> e_malloc env \<and> e_fopen env \<and> e_iter env \<and> mem_ok (e_ht env)
     \<and> (\<forall>k \<le> limit st. covers (e_rand env) k)"

definition name_ok :: "logger \<Rightarrow> string \<Rightarrow> bool" where
  "name_ok st n \<longleftrightarrow> length n < NAMELENGTH \<and> length (log_path (config st) n) < PATHLENGTH"

text \<open>What opening a file keeps.\<close>

definition same_log :: "logger \<Rightarrow> logger \<Rightarrow> bool" where
  "same_log st st' \<longleftrightarrow> config st' = config st \<and> (\<forall>q. logged st' q = logged st q)
     \<and> stat_messages_handled st' = stat_messages_handled st \<and> exited st' = exited st"

lemma make_room_ok:
  assumes inv: "log_inv st" and env: "benign env st"
  shows "\<exists>st'. (if maxhandles (config st) \<le> hashtable_count (handles st) then closeRandomFile env st else Inr st) = Inr st'
    \<and> files_ok st' \<and> same_log st st' \<and> Suc (length (ents st')) \<le> limit st \<and> set (ents st') \<subseteq> set (ents st)
    \<and> lastfile st' = lastfile st"
proof -
  have f: "files_ok st" and l: "length (ents st) \<le> limit st" using inv by (auto simp: log_inv_def)
  have cnt: "unat (hashtable_count (handles st)) = length (ents st)"
    using f handles_okD(5) tables_okD(1) by (auto simp: files_ok_def)
  show ?thesis
  proof (cases "maxhandles (config st) \<le> hashtable_count (handles st) \<and> 1 < length (ents st)")
    case True
    have "covers (e_rand env) (length (ents st))" using env l by (simp add: benign_def)
    from closeRandom_ok [OF f _ _ this] True env obtain st' e where c: "closeRandomFile env st = Inr st'" "files_ok st'"
      "mset (ents st) = add_mset e (mset (ents st'))" "config st' = config st" "\<forall>q. logged st' q = logged st q"
      "stat_messages_handled st' = stat_messages_handled st" "lastfile st' = lastfile st"
      "exited st' = exited st"
      by (auto simp: benign_def)
    have "length (ents st) = Suc (length (ents st'))" using c(3) by (metis size_add_mset size_mset)
    moreover have "set (ents st') \<subseteq> set (ents st)" using c(3) by (metis set_mset_add_mset_insert set_mset_mset subset_insertI)
    ultimately show ?thesis using c True l by (simp add: same_log_def)
  next
    case False
    have "Suc (length (ents st)) \<le> limit st"
      using False cnt by (auto simp: limit_def word_le_nat_alt not_le)
    moreover have "closeRandomFile env st = Inr st" if "length (ents st) \<le> 1"
      using that cnt by (simp add: closeRandomFile_def word_less_nat_alt)
    ultimately show ?thesis using False f by (auto simp: same_log_def)
  qed
qed

lemma add_entry:
  assumes t: "tables_ok st" and n: "n \<notin> set (names (ents st))" and h': "handles_ok (handles st')"
    "mset (ents st') = add_mset \<lparr>ek = (next_addr st, n), ev = next_addr st, eh = hv\<rparr> (mset (ents st))"
    and st': "heap st' = (heap st)(next_addr st \<mapsto> \<lparr>hb_name = n, hb_file = Some (next_stream st)\<rparr>)"
      "streams st' = (streams st)(next_stream st \<mapsto> \<lparr>st_path = log_path (config st) n, st_pending = []\<rparr>)"
      "next_addr st' = Suc (next_addr st)" "next_stream st' = Suc (next_stream st)" "config st' = config st"
      "disk st' = disk st"
  shows "tables_ok st'" "logged st' q = logged st q"
proof -
  let ?e = "\<lparr>ek = (next_addr st, n), ev = next_addr st, eh = hv\<rparr>"
  have set: "set (ents st') = insert ?e (set (ents st))" using h'(2) by (metis set_mset_add_mset_insert set_mset_mset)
  have p: "st_path s \<noteq> log_path (config st) n" if "streams st f = Some s" for f s
    using stream_of_path [OF t that] n by auto
  have sn: "streams_ok st'" "logged st' q = logged st q"
    using new_stream [OF tables_okD(2) [OF t] p st'(2,4,6)] by auto
  have sf: "f < next_stream st" if "streams st f = Some s" for f s
    using tables_okD(2) [OF t] that by (auto simp: streams_ok_def)
  have eo: "entry_ok st' e'" if "e' \<in> set (ents st)" for e'
  proof -
    from entry_files [OF t that] obtain f s where
      o: "heap st (ev e') = Some \<lparr>hb_name = snd (ek e'), hb_file = Some f\<rparr>" "streams st f = Some s"
      "st_path s = log_path (config st) (snd (ek e'))" "fst (ek e') = ev e'" by auto
    have "ev e' \<noteq> next_addr st" "f \<noteq> next_stream st"
      using tables_okD(5) [OF t o(1)] sf [OF o(2)] by auto
    with o show ?thesis by (auto simp: entry_ok_def st')
  qed
  have en: "entry_ok st' ?e" by (simp add: entry_ok_def st')
  have hp: "a < next_addr st' \<and> (\<exists>e \<in> set (ents st'). ev e = a)" if "heap st' a = Some b" for a b
    using that tables_okD(5) [OF t, of a] by (auto simp: st' set less_Suc_eq split: if_splits)
  have sp: "\<exists>e \<in> set (ents st'). \<exists>hb. heap st' (ev e) = Some hb \<and> hb_file hb = Some g" if g: "streams st' g = Some t'" for g t'
  proof (cases "g = next_stream st")
    case True
    then show ?thesis by (auto simp: set st')
  next
    case False
    then have "streams st g = Some t'" using g by (simp add: st')
    from tables_okD(6) [OF t this] obtain e1 b where e1: "e1 \<in> set (ents st)" "heap st (ev e1) = Some b" "hb_file b = Some g"
      by blast
    moreover have "ev e1 \<noteq> next_addr st" using tables_okD(5) [OF t e1(2)] by auto
    ultimately show ?thesis by (auto simp: set st')
  qed
  show "tables_ok st'" using h'(1) sn(1) eo en hp sp by (auto simp: tables_ok_def set)
  show "logged st' q = logged st q" by (rule sn(2))
qed

text \<open>After opening, \<open>lastfile\<close> is the block of the name, open on its stream.\<close>

definition current :: "logger \<Rightarrow> string \<Rightarrow> nat \<Rightarrow> bool" where
  "current st n f \<longleftrightarrow> (\<exists>a s. lastfile st = Some a \<and> heap st a = Some \<lparr>hb_name = n, hb_file = Some f\<rparr>
     \<and> streams st f = Some s \<and> st_path s = log_path (config st) n)"

lemma open_new_ok:
  assumes inv: "log_inv st" and env: "benign env st" and n: "name_ok st n" "n \<notin> set (names (ents st))"
  shows "\<exists>st' f. open_new env n st = Inr st' \<and> log_inv st' \<and> same_log st st' \<and> current st' n f"
proof -
  obtain st1 where r: "(if maxhandles (config st) \<le> hashtable_count (handles st) then closeRandomFile env st else Inr st) = Inr st1"
    "files_ok st1" "same_log st st1" "Suc (length (ents st1)) \<le> limit st" "set (ents st1) \<subseteq> set (ents st)"
    using make_room_ok [OF inv env] by blast
  have t: "tables_ok st1" and c: "config st1 = config st" using r(2,3) by (auto simp: files_ok_def same_log_def)
  have n1: "n \<notin> set (names (ents st1))" using n(2) r(5) by auto
  let ?a = "next_addr st1" and ?f = "next_stream st1"
  have "limit st \<le> 2 ^ 30" using inv by (simp add: log_inv_def limit_def)
  then have room: "length (ents st1) < 2 ^ 32 - 1" using r(4) by simp
  have m: "mem_ok (e_ht env)" using env by (simp add: benign_def)
  obtain h' where h': "hashtable_insert (e_ht env) (handles st1) (?a, n) ?a = Inr (h', -1)" "handles_ok h'"
    "mset (ht_entries h') = add_mset \<lparr>ek = (?a, n), ev = ?a, eh = hash (handles st1) (?a, n)\<rparr> (mset (ents st1))"
    using insert_handles [OF tables_okD(1) [OF t] n1 m room] by blast
  define st' where "st' = st1\<lparr>streams := (streams st1)(?f \<mapsto> \<lparr>st_path = log_path (config st1) n, st_pending = []\<rparr>),
      next_stream := Suc ?f, heap := (heap st1)(?a \<mapsto> \<lparr>hb_name = n, hb_file = Some ?f\<rparr>),
      next_addr := Suc ?a, handles := h',
      stat_files_opened := stat_files_opened st1 + 1, stat_files_switched := stat_files_switched st1 + 1,
      lastfile := Some ?a\<rparr>"
  have lim: "\<not> PATHLENGTH < length (log_path (config st1) n) + 1" "\<not> NAMELENGTH < length n + 1"
    using n(1) c by (simp_all add: name_ok_def)
  have "open_new env n st = Inr st'"
    unfolding open_new_def r(1) bind_res.simps using env h'(1) lim
    by (simp add: Let_def fopen_append_def benign_def st'_def)
  moreover have t': "tables_ok st'" "logged st' q = logged st1 q" for q
    using add_entry [OF t n1, of st' "hash (handles st1) (?a, n)"] h'(2,3) by (simp_all add: st'_def)
  moreover have "length (ents st') = Suc (length (ents st1))"
    using h'(3) by (simp add: st'_def) (metis size_add_mset size_mset)
  moreover have "current st' n ?f" by (simp add: current_def st'_def)
  moreover have "config st' = config st" "stat_messages_handled st' = stat_messages_handled st1"
    "exited st' = exited st1" "lastfile st' = Some ?a" "heap st' ?a \<noteq> None" by (simp_all add: st'_def c)
  ultimately show ?thesis
    using r(2-4) inv by (intro exI [of _ st'] exI [of _ ?f]) (auto simp: log_inv_def files_ok_def same_log_def limit_def)
qed

text \<open>Putting a stream: flushing and printing.\<close>

lemma put_stream_inv:
  assumes inv: "log_inv st" and f: "streams st f = Some s" and p: "st_path s' = st_path s"
    and st': "st' = append_disk (st_path s) x (st\<lparr>streams := (streams st)(f \<mapsto> s')\<rparr>)"
  shows "log_inv st'"
    "logged st' q = (if q = st_path s then disk st (st_path s) @ x @ st_pending s' else logged st q)"
proof -
  have t: "tables_ok st" using inv by (auto simp: log_inv_def files_ok_def)
  have fs: "handles st' = handles st" "heap st' = heap st" "next_addr st' = next_addr st" "config st' = config st"
    "lastfile st' = lastfile st" "streams st' = (streams st)(f \<mapsto> s')" "next_stream st' = next_stream st"
    "disk st' = (disk st)(st_path s := disk st (st_path s) @ x)"
    by (simp_all add: st' append_disk_def)
  note put = put_stream [OF tables_okD(2) [OF t] f p fs(6-8)]
  have "entry_ok st' e" if "e \<in> set (ents st)" for e
    using tables_okD(4) [OF t that] f p by (auto simp: entry_ok_def fs)
  moreover have "\<exists>e \<in> set (ents st). \<exists>hb. heap st (ev e) = Some hb \<and> hb_file hb = Some g" if "streams st' g = Some t'" for g t'
    using that tables_okD(6) [OF t, of g] tables_okD(6) [OF t f] by (auto simp: fs split: if_splits)
  ultimately have "tables_ok st'"
    using t put(1) tables_okD(1,5) [OF t] by (auto simp: tables_ok_def fs)
  with inv show "log_inv st'" by (auto simp: log_inv_def files_ok_def fs limit_def split: option.splits)
  show "logged st' q = (if q = st_path s then disk st (st_path s) @ x @ st_pending s' else logged st q)"
    by (rule put(2))
qed

lemma logged_path:
  assumes "log_inv st" "streams st f = Some s"
  shows "logged st (st_path s) = disk st (st_path s) @ st_pending s"
  using assms pending_some tables_okD(2) by (auto simp: log_inv_def files_ok_def logged_def)

lemma flush_ok:
  assumes inv: "log_inv st" and f: "streams st f = Some s"
  shows "\<exists>st'. fflush st (Some f) = Inr st' \<and> log_inv st' \<and> same_log st st' \<and> lastfile st' = lastfile st \<and> heap st' = heap st
    \<and> handles st' = handles st \<and> disk st' (st_path s) = logged st (st_path s)
    \<and> streams st' = (streams st)(f \<mapsto> s\<lparr>st_pending := []\<rparr>)"
proof -
  define st' where "st' = append_disk (st_path s) (st_pending s) (st\<lparr>streams := (streams st)(f \<mapsto> s\<lparr>st_pending := []\<rparr>)\<rparr>)"
  have run: "fflush st (Some f) = Inr st'" using f by (simp add: fflush_def with_stream_def st'_def)
  note p = put_stream_inv [OF inv f _ st'_def]
  have "logged st' q = logged st q" for q
    using p(2) [of q] logged_path [OF inv f] by simp
  with run p(1) logged_path [OF inv f] show ?thesis
    by (intro exI [of _ st']) (simp add: same_log_def st'_def append_disk_def)
qed

section \<open>Logging one message\<close>

lemma log_invD:
  assumes "log_inv st"
  shows "tables_ok st" "opt_redis (config st) = 0" "lastfile st = Some a \<Longrightarrow> heap st a \<noteq> None"
    "lastfile st = None \<Longrightarrow> ents st = []"
  using assms by (auto simp: log_inv_def files_ok_def split: option.splits)

lemma same_log_refl [simp]: "same_log st st"
  by (simp add: same_log_def)

lemma same_log_trans: "same_log a b \<Longrightarrow> same_log b c \<Longrightarrow> same_log a c"
  by (simp add: same_log_def)

lemma same_log_env: "same_log st st' \<Longrightarrow> benign env st' = benign env st \<and> name_ok st' n = name_ok st n"
  by (simp add: same_log_def benign_def limit_def name_ok_def)

lemma block_entry:
  assumes t: "tables_ok st" and a: "heap st a = Some hb"
  shows "\<exists>n f s. hb = \<lparr>hb_name = n, hb_file = Some f\<rparr> \<and> n \<in> set (names (ents st)) \<and> streams st f = Some s
    \<and> st_path s = log_path (config st) n"
proof -
  from tables_okD(5) [OF t a] obtain e where e: "e \<in> set (ents st)" "ev e = a" by blast
  with entry_files [OF t e(1)] a show ?thesis by auto
qed

text \<open>Switching to an open file, or opening a new one.\<close>

lemma switch_ok:
  assumes inv: "log_inv st" and env: "benign env st" and n: "name_ok st n"
  shows "\<exists>st' f. (case hashtable_search (handles st) (0, n) of
        None \<Rightarrow> open_new env n st
      | Some a \<Rightarrow> Inr (st\<lparr>stat_files_switched := stat_files_switched st + 1, lastfile := Some a\<rparr>)) = Inr st'
    \<and> log_inv st' \<and> same_log st st' \<and> current st' n f"
proof (cases "hashtable_search (handles st) (0, n)")
  case None
  then have "n \<notin> set (names (ents st))"
    using search_handles(2) [OF tables_okD(1) [OF log_invD(1) [OF inv]]] by blast
  from open_new_ok [OF inv env n this] None show ?thesis by simp
next
  case (Some a)
  then obtain e where e: "e \<in> set (ents st)" "snd (ek e) = n" "ev e = a"
    using search_handles(1) [OF tables_okD(1) [OF log_invD(1) [OF inv]]] by blast
  from entry_files [OF log_invD(1) [OF inv] e(1)] e(2,3) obtain f s where
    f: "heap st a = Some \<lparr>hb_name = n, hb_file = Some f\<rparr>" "streams st f = Some s" "st_path s = log_path (config st) n"
    by blast
  let ?st = "st\<lparr>stat_files_switched := stat_files_switched st + 1, lastfile := Some a\<rparr>"
  have "tables_ok ?st"
    using log_invD(1) [OF inv] by (simp add: tables_ok_def entry_ok_def streams_ok_def)
  then have "log_inv ?st" using inv f(1) by (auto simp: log_inv_def files_ok_def limit_def)
  moreover have "same_log st ?st" by (simp add: same_log_def logged_def pending_of_def)
  moreover have "current ?st n f" using f by (simp add: current_def)
  ultimately show ?thesis using Some by auto
qed

lemma open_ok:
  assumes inv: "log_inv st" and env: "benign env st" and n: "name_ok st n"
  shows "\<exists>st' f. openLogfile env n st = Inr (st', Some f) \<and> log_inv st' \<and> same_log st st' \<and> current st' n f"
proof -
  have fin: "\<exists>st' f. bind_res (m :: logger res) (\<lambda>st2. bind_res (deref_ptr st2 (lastfile st2)) (\<lambda>hb. Inr (st2, hb_file hb)))
      = Inr (st', Some f) \<and> log_inv st' \<and> same_log st st' \<and> current st' n f"
    if "\<exists>st' f. m = Inr st' \<and> log_inv st' \<and> same_log st st' \<and> current st' n f" for m
  proof -
    from that obtain st' f where m: "m = Inr st'" "log_inv st'" "same_log st st'" "current st' n f" by blast
    then show ?thesis by (auto simp: current_def deref_ptr_def deref_def)
  qed
  show ?thesis
  proof (cases "lastfile st")
    case None
    with switch_ok [OF inv env n] fin show ?thesis by (simp add: openLogfile_def)
  next
    case (Some a)
    from log_invD(3) [OF inv Some] obtain hb where hb: "heap st a = Some hb" by blast
    from block_entry [OF log_invD(1) [OF inv] hb] obtain n1 f s where
      b: "hb = \<lparr>hb_name = n1, hb_file = Some f\<rparr>" "streams st f = Some s" "st_path s = log_path (config st) n1" by blast
    have d: "deref st a = Inr hb" using hb by (simp add: deref_def)
    show ?thesis
    proof (cases "n1 = n")
      case True
      with Some hb b inv have "current st n f" by (simp add: current_def)
      with Some d b(1) True inv show ?thesis
        by (intro exI [of _ st] exI [of _ f]) (simp add: openLogfile_def deref_ptr_def)
    next
      case False
      define m where "m = (if 1 < opt_flush (config st) then
          bind_res (deref st a) (\<lambda>hb. if hb_file hb \<noteq> None then fflush st (hb_file hb) else Inr st) else Inr st)"
      have m: "m = (if 1 < opt_flush (config st) then fflush st (Some f) else Inr st)"
        by (simp add: m_def d b(1))
      obtain st1 where st1: "m = Inr st1" "log_inv st1" "same_log st st1"
        using flush_ok [OF inv b(2)] inv unfolding m by (cases "1 < opt_flush (config st)") auto
      have e1: "benign env st1" "name_ok st1 n" using same_log_env [OF st1(3)] env n by auto
      have sw: "\<exists>st' f. (case hashtable_search (handles st1) (0, n) of
            None \<Rightarrow> open_new env n st1
          | Some a \<Rightarrow> Inr (st1\<lparr>stat_files_switched := stat_files_switched st1 + 1, lastfile := Some a\<rparr>)) = Inr st'
          \<and> log_inv st' \<and> same_log st st' \<and> current st' n f"
        using switch_ok [OF st1(2) e1] same_log_trans [OF st1(3)] by blast
      have "openLogfile env n st = bind_res (case hashtable_search (handles st1) (0, n) of
            None \<Rightarrow> open_new env n st1
          | Some a \<Rightarrow> Inr (st1\<lparr>stat_files_switched := stat_files_switched st1 + 1, lastfile := Some a\<rparr>))
          (\<lambda>st2. bind_res (deref_ptr st2 (lastfile st2)) (\<lambda>hb. Inr (st2, hb_file hb)))"
        using Some d b(1) False st1(1) by (simp add: openLogfile_def m_def)
      with fin [OF sw] show ?thesis by simp
    qed
  qed
qed

lemma message_file_ok:
  assumes inv: "log_inv st" and env: "benign env st" and n: "name_ok st n" and fl: "opt_flush (config st) \<noteq> 0"
  shows "\<exists>st'. logMessageFile env n x st = Inr st' \<and> log_inv st' \<and> config st' = config st \<and> exited st' = exited st
    \<and> (\<forall>q. logged st' q = logged st q @ (if q = log_path (config st) n then x @ [LF] else []))
    \<and> stat_messages_handled st' = stat_messages_handled st + 1
    \<and> (stat_messages_handled st' mod opt_flush (config st) = 0 \<longrightarrow>
         disk st' (log_path (config st) n) = logged st' (log_path (config st) n))"
proof -
  let ?p = "log_path (config st) n"
  from open_ok [OF inv env n] obtain st1 f where
    o: "openLogfile env n st = Inr (st1, Some f)" "log_inv st1" "same_log st st1" "current st1 n f" by blast
  have c: "config st1 = config st" "stat_messages_handled st1 = stat_messages_handled st" "exited st1 = exited st"
    using o(3) by (simp_all add: same_log_def)
  from o(4) obtain s where s: "streams st1 f = Some s" "st_path s = ?p" by (auto simp: current_def c)
  define t where "t = st_pending s @ x @ [LF]"
  define s' where "s' = s\<lparr>st_pending := drop (e_spill env) t\<rparr>"
  define st2 where "st2 = append_disk (st_path s) (take (e_spill env) t) (st1\<lparr>streams := (streams st1)(f \<mapsto> s')\<rparr>)"
  have pr: "fprint (e_spill env) st1 (Some f) (x @ [LF]) = Inr st2"
    using s(1) by (simp add: fprint_def with_stream_def st2_def t_def s'_def Let_def)
  have "st_path s' = st_path s" by (simp add: s'_def)
  note p = put_stream_inv [OF o(2) s(1) this st2_def]
  have l2: "logged st2 q = logged st q @ (if q = ?p then x @ [LF] else [])" for q
  proof -
    have t: "take (e_spill env) t @ st_pending s' = st_pending s @ x @ [LF]"
      unfolding s'_def by (simp add: t_def [symmetric])
    show ?thesis
      using p(2) [of q] logged_path [OF o(2) s(1)] o(3) by (auto simp: s(2) t same_log_def)
  qed
  define st3 where "st3 = st2\<lparr>stat_messages_handled := stat_messages_handled st2 + 1\<rparr>"
  have st3: "config st3 = config st" "stat_messages_handled st3 = stat_messages_handled st + 1" "exited st3 = exited st"
    "streams st3 f = Some s'" "st_path s' = ?p"
    using c s(2) by (simp_all add: st3_def st2_def append_disk_def s'_def)
  have c2: "config st2 = config st" using c by (simp add: st2_def append_disk_def)
  have i3: "log_inv st3"
    using p(1) by (auto simp: log_inv_def files_ok_def tables_ok_def entry_ok_def streams_ok_def limit_def st3_def split: option.splits)
  have l3: "logged st3 q = logged st2 q" for q by (simp add: st3_def logged_def pending_of_def)
  show ?thesis
  proof (cases "stat_messages_handled st3 mod opt_flush (config st3) = 0")
    case True
    obtain st4 where f4: "fflush st3 (Some f) = Inr st4" "log_inv st4" "same_log st3 st4" "disk st4 ?p = logged st3 ?p"
      using flush_ok [OF i3 st3(4)] st3(5) by auto
    have "logMessageFile env n x st = Inr st4"
      using o(1) pr fl st3(1) True f4(1) c2 by (simp add: logMessageFile_def Let_def st3_def [symmetric])
    with f4 st3 l2 l3 show ?thesis by (intro exI [of _ st4]) (simp add: same_log_def)
  next
    case False
    then have "logMessageFile env n x st = Inr st3"
      using o(1) pr fl st3(1) c2 by (simp add: logMessageFile_def Let_def st3_def [symmetric])
    with i3 st3 l2 l3 False show ?thesis by (intro exI [of _ st3]) simp
  qed
qed

section \<open>Closing everything\<close>

lemma close_loop_ok:
  assumes "tables_ok st" "itr_ok (handles st) itr" "remaining (handles st) itr = ents st" "ents st \<noteq> []"
    and "length (ents st) \<le> fuel"
  shows "\<exists>st'. close_loop fuel itr st = Inr st' \<and> tables_ok st' \<and> ents st' = [] \<and> (\<forall>q. logged st' q = logged st q)
    \<and> config st' = config st \<and> lastfile st' = lastfile st \<and> exited st' = exited st
    \<and> stat_messages_handled st' = stat_messages_handled st
    \<and> stat_files_closed st' = stat_files_closed st + of_nat (length (ents st))"
  using assms
proof (induction fuel arbitrary: itr st)
  case (Suc fuel)
  note t = Suc.prems(1) and h = tables_okD(1) [OF Suc.prems(1)]
  obtain e es where es: "ents st = e # es" using Suc.prems(4) by (cases "ents st") auto
  have e: "e \<in> set (ents st)" using es by simp
  obtain f s where hb: "heap st (ev e) = Some \<lparr>hb_name = snd (ek e), hb_file = Some f\<rparr>" "streams st f = Some s"
    "st_path s = log_path (config st) (snd (ek e))" "fst (ek e) = ev e" using entry_files [OF t e] by blast
  have val: "hashtable_iterator_value itr = Inr (ev e)"
    using iterator_value_ok [of "handles st" itr] Suc.prems(3) es by simp
  have ne: "itr_e itr \<noteq> []" using Suc.prems(3,4) remaining_Nil by metis
  then obtain e1 nxt where n: "itr_e itr = e1 # nxt" by (cases "itr_e itr") auto
  have e1: "e1 = e" using Suc.prems(3) n es by (simp add: remaining_def)
  have vis: "visited (handles st) itr = []"
    using visited_remaining [OF Suc.prems(2)] Suc.prems(3) by simp
  obtain h' itr' r where rm: "hashtable_iterator_remove (handles st) itr = Inr (h', itr', r, ek e)" "ht_inv h'"
    "itr_ok h' itr'" "remaining h' itr' = es" "ht_entries h' = es" "r \<noteq> 0 \<longleftrightarrow> es \<noteq> []"
    "hashfn h' = hashfn (handles st)" "eqfn h' = eqfn (handles st)"
    using iterator_remove_ok [OF handles_okD(1) [OF h] Suc.prems(2) n] vis Suc.prems(3) es by (auto simp: e1)
  define st1 where "st1 = append_disk (st_path s) (st_pending s) (st\<lparr>streams := (streams st)(f := None)\<rparr>)"
  have fc: "fclose st (Some f) = Inr st1" using hb(2) by (simp add: fclose_def with_stream_def st1_def)
  have st1: "handles st1 = handles st" "heap st1 = heap st" by (simp_all add: st1_def append_disk_def)
  define st2 where "st2 = st1\<lparr>stat_files_closed := stat_files_closed st1 + 1, handles := h', heap := (heap st)(ev e := None)\<rparr>"
  have f2: "handles st2 = h'" "heap st2 = (heap st)(ev e := None)" "streams st2 = (streams st)(f := None)"
    "next_addr st2 = next_addr st" "next_stream st2 = next_stream st" "config st2 = config st"
    "disk st2 = (disk st)(st_path s := disk st (st_path s) @ st_pending s)" "lastfile st2 = lastfile st"
    "stat_files_closed st2 = stat_files_closed st + 1" "exited st2 = exited st"
    "stat_messages_handled st2 = stat_messages_handled st"
    by (simp_all add: st2_def st1_def append_disk_def)
  have h2: "handles_ok (handles st2)" "mset (ents st) = add_mset e (mset (ents st2))"
    using rm h tables_okD(3) [OF t] es by (auto simp: handles_ok_def f2)
  note d = drop_entry [OF t e hb(1,2) h2 f2(2-7)]
  have step: "close_loop (Suc fuel) itr st = (if es \<noteq> [] then close_loop fuel itr' st2 else Inr st2)"
    using val hb(1,4) fc st1 rm(1,6) by (simp add: deref_def free_block_def st2_def)
  show ?case
  proof (cases "es = []")
    case True
    with step d f2 rm(5) es show ?thesis by (intro exI [of _ st2]) simp
  next
    case False
    have e2: "ents st2 = es" using rm(5) by (simp add: f2)
    have "itr_ok (handles st2) itr'" "remaining (handles st2) itr' = ents st2" "ents st2 \<noteq> []" "length (ents st2) \<le> fuel"
      using rm(3,4) e2 f2(1) False Suc.prems(5) es by simp_all
    from Suc.IH [OF d(1) this] obtain st' where c: "close_loop fuel itr' st2 = Inr st'" "tables_ok st'" "ents st' = []"
      "\<forall>q. logged st' q = logged st2 q" "config st' = config st2" "lastfile st' = lastfile st2" "exited st' = exited st2"
      "stat_messages_handled st' = stat_messages_handled st2"
      "stat_files_closed st' = stat_files_closed st2 + of_nat (length (ents st2))" by blast
    with step False d(2) f2 e2 es show ?thesis by (intro exI [of _ st']) (simp add: algebra_simps)
  qed
qed simp

text \<open>An empty table owns nothing: no block, no stream, and everything logged is on disk.\<close>

lemma empty_tables:
  assumes "tables_ok st" "ents st = []"
  shows "heap st a = None" "streams st f = None" "logged st q = disk st q"
proof -
  show "heap st a = None" using tables_okD(5) [OF assms(1), of a] assms(2) by (cases "heap st a") auto
  have s: "streams st f = None" for f using tables_okD(6) [OF assms(1), of f] assms(2) by (cases "streams st f") auto
  then show "streams st f = None" .
  from s show "logged st q = disk st q" using pending_none [of st q] by (simp add: logged_def)
qed

lemma closeAll_ok:
  assumes t: "tables_ok st" and r: "opt_redis (config st) = 0" and it: "e_iter env"
  shows "\<exists>st'. closeAllFiles env st = Inr st' \<and> tables_ok st' \<and> ents st' = [] \<and> (\<forall>q. logged st' q = logged st q)
    \<and> config st' = config st \<and> lastfile st' = lastfile st \<and> exited st' = exited st
    \<and> stat_messages_handled st' = stat_messages_handled st
    \<and> stat_files_closed st' = stat_files_closed st + of_nat (length (ents st))"
proof (cases "ents st = []")
  case True
  with handles_okD(5) [OF tables_okD(1) [OF t]] have "hashtable_count (handles st) = 0" by (simp add: unat_eq_0)
  with t True show ?thesis by (simp add: closeAllFiles_def)
next
  case False
  note h = tables_okD(1) [OF t]
  have cnt: "unat (hashtable_count (handles st)) = length (ents st)" using handles_okD(5) [OF h] .
  obtain itr where itr: "hashtable_iterator True (handles st) = Some itr" "itr_ok (handles st) itr"
    "remaining (handles st) itr = ents st" using iterator_start [OF handles_okD(1) [OF h]] by blast
  have "0 < hashtable_count (handles st)" using cnt False by (simp add: word_less_nat_alt)
  with close_loop_ok [OF t itr(2,3) False, of "length (ents st)"] r it itr(1) cnt
  show ?thesis by (simp add: closeAllFiles_def)
qed

lemma log_line_simps [simp]:
  "handles (log_line x st) = handles st" "heap (log_line x st) = heap st" "streams (log_line x st) = streams st"
  "next_addr (log_line x st) = next_addr st" "next_stream (log_line x st) = next_stream st"
  "config (log_line x st) = config st" "disk (log_line x st) = disk st" "lastfile (log_line x st) = lastfile st"
  "exited (log_line x st) = exited st" "stat_messages_handled (log_line x st) = stat_messages_handled st"
  "stat_files_closed (log_line x st) = stat_files_closed st"
  by (simp_all add: log_line_def)

lemma log_line_inv [simp]:
  "tables_ok (log_line x st) = tables_ok st" "log_inv (log_line x st) = log_inv st" "logged (log_line x st) q = logged st q"
  by (simp_all add: tables_ok_def entry_ok_def streams_ok_def log_inv_def files_ok_def limit_def logged_def
      pending_of_def cong: option.case_cong)

lemma destroy_empty: "ht_entries h = [] \<Longrightarrow> hashtable_destroy h True = [FreeTable, FreeStruct]"
  by (auto simp: ht_entries_def hashtable_destroy_def concat_eq_Nil_conv)

lemma shutdown_ok:
  assumes t: "tables_ok st" and r: "opt_redis (config st) = 0" and it: "e_iter env"
  shows "\<exists>st'. shutdownServer env st = Inr st' \<and> exited st' = Some 0 \<and> ents st' = []
    \<and> (\<forall>a. heap st' a = None) \<and> (\<forall>f. streams st' f = None) \<and> (\<forall>q. disk st' q = logged st q)
    \<and> stat_files_closed st' = stat_files_closed st + of_nat (length (ents st))"
proof -
  obtain st1 where st1: "closeAllFiles env (log_line ''exiting'' st) = Inr st1" "tables_ok st1" "ents st1 = []"
    "\<forall>q. logged st1 q = logged st q" "stat_files_closed st1 = stat_files_closed st + of_nat (length (ents st))"
    using closeAll_ok [of "log_line ''exiting'' st" env] assms by auto
  note e = empty_tables [OF st1(2,3)]
  have "shutdownServer env st = Inr (st1\<lparr>exited := Some 0\<rparr>)"
    using st1(1) destroy_empty [OF st1(3)] by (simp add: shutdownServer_def)
  with st1 e show ?thesis by (intro exI [of _ "st1\<lparr>exited := Some 0\<rparr>"]) simp
qed

section \<open>Dangling blocks\<close>

lemma dangling_last:
  assumes "lastfile st = Some a" "heap st a = None"
  shows "logMessageFile env n x st = Inl UseAfterFree"
  using assms by (simp add: logMessageFile_def openLogfile_def deref_def)

lemma hup_dangles:
  assumes inv: "log_inv st" and it: "e_iter env" and l: "lastfile st \<noteq> None"
  shows "\<exists>st'. sig_hup env st = Inr st' \<and> (\<forall>q. disk st' q = logged st q) \<and> (\<forall>env' n x. logMessageFile env' n x st' = Inl UseAfterFree)"
proof -
  obtain st1 where st1: "sig_hup env st = Inr st1" "tables_ok st1" "ents st1 = []" "lastfile st1 = lastfile st"
    "\<forall>q. logged st1 q = logged st q"
    using closeAll_ok [of "log_line ''caught SIGHUP'' st" env] log_invD(1,2) [OF inv] it by (auto simp: sig_hup_def)
  from l obtain a where "lastfile st1 = Some a" using st1(4) by auto
  with dangling_last [of st1 a] empty_tables [OF st1(2,3)] st1 show ?thesis by auto
qed

lemma open_failure:
  assumes inv: "log_inv st" and env: "benign env' st" "env = env'\<lparr>e_fopen := False\<rparr>"
    and n: "name_ok st n" "n \<notin> set (names (ents st))"
  shows "logMessageFile env n x st = Inl UseAfterFree"
proof -
  have new: "bind_res (open_new env n st1) (\<lambda>st2. bind_res (deref_ptr st2 (lastfile st2)) (\<lambda>hb. Inr (st2, hb_file hb)))
      = Inl UseAfterFree" if i1: "log_inv st1" "same_log st st1" "n \<notin> set (names (ents st1))" for st1
  proof -
    have b1: "benign env' st1" "name_ok st1 n" using same_log_env [OF i1(2)] env n by auto
    have ce: "closeRandomFile env st1 = closeRandomFile env' st1"
      using env(2) by (simp add: closeRandomFile_def)
    obtain st2 where r: "(if maxhandles (config st1) \<le> hashtable_count (handles st1) then closeRandomFile env' st1 else Inr st1) = Inr st2"
      "files_ok st2" "same_log st1 st2" using make_room_ok [OF i1(1) b1(1)] by blast
    have f: "tables_ok st2" "config st2 = config st1" using r(2,3) by (auto simp: files_ok_def same_log_def)
    have fresh: "heap st2 (next_addr st2) = None"
      using tables_okD(5) [OF f(1), of "next_addr st2"] by (cases "heap st2 (next_addr st2)") auto
    obtain st3 where st3: "free_ptr (lastfile st2) (st2\<lparr>next_addr := Suc (next_addr st2)\<rparr>) = Inr st3" "heap st3 (next_addr st2) = None"
      using r(2) fresh by (cases "lastfile st2") (auto simp: files_ok_def free_ptr_def free_block_def)
    have e: "e_malloc env" "\<not> e_fopen env" using env by (simp_all add: benign_def)
    have p: "\<not> PATHLENGTH < length (log_path (config st2) n) + 1" using b1(2) f(2) by (simp add: name_ok_def)
    have "open_new env n st1 = Inr (st3\<lparr>lastfile := Some (next_addr st2)\<rparr>)"
      unfolding open_new_def ce r(1) bind_res.simps using e p st3(1)
      by (simp add: Let_def fopen_append_def)
    with st3(2) show ?thesis by (simp add: deref_ptr_def deref_def)
  qed
  have srch: "hashtable_search (handles st1) (0, n) = None" if "log_inv st1" "n \<notin> set (names (ents st1))" for st1
    using search_handles(2) [OF tables_okD(1) [OF log_invD(1) [OF that(1)]]] that(2) by blast
  have "openLogfile env n st = Inl UseAfterFree"
  proof (cases "lastfile st")
    case None
    then show ?thesis using new [OF inv _ n(2)] srch [OF inv n(2)] by (simp add: openLogfile_def)
  next
    case (Some a)
    from log_invD(3) [OF inv Some] obtain hb where hb: "heap st a = Some hb" by blast
    from block_entry [OF log_invD(1) [OF inv] hb] obtain n1 f s where
      b: "hb = \<lparr>hb_name = n1, hb_file = Some f\<rparr>" "n1 \<in> set (names (ents st))" "streams st f = Some s" by blast
    have d: "deref st a = Inr hb" using hb by (simp add: deref_def)
    have nn: "n1 \<noteq> n" using b(2) n(2) by auto
    define m where "m = (if 1 < opt_flush (config st) then fflush st (Some f) else Inr st)"
    obtain st1 where st1: "m = Inr st1" "log_inv st1" "same_log st st1" "handles st1 = handles st"
      using flush_ok [OF inv b(3)] inv unfolding m_def by (cases "1 < opt_flush (config st)") auto
    have n1: "n \<notin> set (names (ents st1))" using n(2) st1(4) by simp
    have "(if 1 < opt_flush (config st) then
        bind_res (deref st a) (\<lambda>hb. if hb_file hb \<noteq> None then fflush st (hb_file hb) else Inr st) else Inr st) = Inr st1"
      using st1(1) by (simp add: m_def d b(1) split: if_splits)
    then show ?thesis
      using Some d b(1) nn srch [OF st1(2) n1] new [OF st1(2,3) n1] by (simp add: openLogfile_def)
  qed
  then show ?thesis by (simp add: logMessageFile_def)
qed

end
