(* ===== verification/Yaul_Server.thy ===== *)
theory Yaul_Server
  imports Yaul_Files
begin

text \<open>
  The server: which datagrams name a file, that \<open>logMessage\<close> appends the line of a datagram to the file it names,
  that statistics go to \<open>yaul.stat\<close>, the abstract logger \<open>spec_log\<close> that \<open>serverLoop\<close> implements, and the state
  \<open>initServer\<close> leaves.
\<close>

section \<open>What a datagram means\<close>

lemma takeWhile_until: "(\<And>x. x \<in> set a \<Longrightarrow> P x) \<Longrightarrow> r = [] \<or> \<not> P (hd r) \<Longrightarrow> takeWhile P (a @ r) = a \<and> dropWhile P (a @ r) = r"
  by (cases r) (auto simp: takeWhile_append2 dropWhile_append2)

lemma not_name_char [simp]: "\<not> name_char CHR '']''"
  by (simp add: name_char_def)

text \<open>The scan recognises exactly a bracketed name followed by a message on the same line.\<close>

lemma scan_spec:
  "scan_line s = (2, nm, msg) \<longleftrightarrow> nm \<noteq> [] \<and> msg \<noteq> [] \<and> (\<forall>c \<in> set nm. name_char c) \<and> LF \<notin> set msg
     \<and> (\<exists>r. s = CHR ''['' # nm @ CHR '']'' # msg @ r \<and> (r = [] \<or> hd r = LF))"
proof
  assume a: "scan_line s = (2, nm, msg)"
  obtain c t where ct: "s = c # t" using a by (cases s) (auto simp: scan_line_def)
  have s: "s = CHR ''['' # t" using a ct by (simp add: scan_line_def split: if_splits)
  obtain n1 r1 where n1: "takeWhile name_char t = n1" "dropWhile name_char t = r1" by blast
  have e: "(if n1 = [] then (0, [], []) else case r1 of [] \<Rightarrow> (1, n1, [])
      | d # u \<Rightarrow> if d \<noteq> CHR '']'' then (1, n1, [])
                 else if takeWhile (\<lambda>x. x \<noteq> LF) u = [] then (1, n1, []) else (2, n1, takeWhile (\<lambda>x. x \<noteq> LF) u)) = (2 :: nat, nm, msg)"
    using a unfolding s scan_line_def list.case Let_def n1 by simp
  then have n: "n1 \<noteq> []" by auto
  with e obtain u where u: "r1 = CHR '']'' # u" by (auto split: list.splits if_splits)
  have nm: "nm = takeWhile name_char t" "msg = takeWhile (\<lambda>x. x \<noteq> LF) u" "msg \<noteq> []"
    using e n by (auto simp: u n1 Let_def split: if_splits)
  note u = u [folded n1(2)]
  note n = n [folded n1(1)]
  have "t = nm @ CHR '']'' # u" using takeWhile_dropWhile_id [of name_char t] u nm(1) by simp
  moreover have "u = msg @ dropWhile (\<lambda>x. x \<noteq> LF) u" using nm(2) by simp
  moreover have "dropWhile (\<lambda>x. x \<noteq> LF) u = [] \<or> hd (dropWhile (\<lambda>x. x \<noteq> LF) u) = LF"
    using hd_dropWhile [of "\<lambda>x. x \<noteq> LF" u] by auto
  moreover define r where "r = dropWhile (\<lambda>x. x \<noteq> LF) u"
  ultimately have "s = CHR ''['' # nm @ CHR '']'' # msg @ r" "r = [] \<or> hd r = LF" unfolding s by simp_all
  moreover have ne: "nm \<noteq> []" using n nm(1) by simp
  moreover have "\<forall>c \<in> set nm. name_char c" "LF \<notin> set msg" unfolding nm(1,2) by (auto dest: set_takeWhileD)
  ultimately show "nm \<noteq> [] \<and> msg \<noteq> [] \<and> (\<forall>c \<in> set nm. name_char c) \<and> LF \<notin> set msg
     \<and> (\<exists>r. s = CHR ''['' # nm @ CHR '']'' # msg @ r \<and> (r = [] \<or> hd r = LF))"
    using nm(3) ne by blast
next
  assume a: "nm \<noteq> [] \<and> msg \<noteq> [] \<and> (\<forall>c \<in> set nm. name_char c) \<and> LF \<notin> set msg
     \<and> (\<exists>r. s = CHR ''['' # nm @ CHR '']'' # msg @ r \<and> (r = [] \<or> hd r = LF))"
  then obtain r where s: "s = CHR ''['' # nm @ CHR '']'' # msg @ r" "r = [] \<or> hd r = LF" by blast
  have "takeWhile name_char (nm @ CHR '']'' # msg @ r) = nm \<and> dropWhile name_char (nm @ CHR '']'' # msg @ r) = CHR '']'' # msg @ r"
    by (rule takeWhile_until) (use a in auto)
  moreover have "takeWhile (\<lambda>x. x \<noteq> LF) (msg @ r) = msg \<and> dropWhile (\<lambda>x. x \<noteq> LF) (msg @ r) = r"
    by (rule takeWhile_until) (use a s in auto)
  ultimately show "scan_line s = (2, nm, msg)" using a by (simp add: s scan_line_def)
qed

lemma scan_named:
  assumes "nm \<noteq> []" "\<forall>c \<in> set nm. name_char c" "body \<noteq> []" "hd body \<noteq> LF"
  shows "scan_line (CHR ''['' # nm @ CHR '']'' # body) = (2, nm, takeWhile (\<lambda>x. x \<noteq> LF) body)"
proof -
  have "takeWhile name_char (nm @ CHR '']'' # body) = nm \<and> dropWhile name_char (nm @ CHR '']'' # body) = CHR '']'' # body"
    by (rule takeWhile_until) (use assms in auto)
  moreover have "takeWhile (\<lambda>x. x \<noteq> LF) body \<noteq> []" using assms(3,4) by (cases body) auto
  ultimately show ?thesis using assms(1) by (simp add: scan_line_def)
qed

text \<open>Where a text goes and what is logged of it.\<close>

definition dest :: "string \<Rightarrow> string \<times> string" where
  "dest s = (case scan_line s of (k, nm, msg) \<Rightarrow> if k = 2 then (nm, msg) else (''yaul'', s))"

definition fits_log :: "logger \<Rightarrow> string \<Rightarrow> bool" where
  "fits_log st s \<longleftrightarrow> NUL \<notin> set s \<and> length (fst (snd (scan_line s))) < NAMELENGTH \<and> name_ok st (fst (dest s))"

definition the_line :: "env \<Rightarrow> string \<Rightarrow> u32 \<Rightarrow> string \<Rightarrow> string" where
  "the_line env addr prt s = log_text (e_loctime env) addr prt (snd (dest s)) @ [LF]"

lemma logMessage_ok:
  assumes inv: "log_inv st" and env: "benign env st" and fl: "opt_flush (config st) \<noteq> 0"
    and b: "NUL \<in> set buffer" "cstr buffer = s" and s: "fits_log st s"
    and len: "length (log_text (e_loctime env) addr prt (snd (dest s))) < MAXLENGTH"
  shows "\<exists>st'. logMessage env buffer addr prt st = Inr st' \<and> log_inv st' \<and> config st' = config st \<and> exited st' = exited st
    \<and> (\<forall>q. logged st' q = logged st q @ (if q = log_path (config st) (fst (dest s)) then the_line env addr prt s else []))
    \<and> stat_messages_handled st' = stat_messages_handled st + 1
    \<and> (stat_messages_handled st' mod opt_flush (config st) = 0 \<longrightarrow>
         disk st' (log_path (config st) (fst (dest s))) = logged st' (log_path (config st) (fst (dest s))))"
proof -
  obtain k nm msg where sc: "scan_line s = (k, nm, msg)" by (cases "scan_line s")
  let ?x = "log_text (e_loctime env) addr prt (snd (dest s))"
  have "logMessage env buffer addr prt st = logMessageFile env (fst (dest s)) ?x st"
    using b s len sc log_invD(2) [OF inv]
    by (cases "k = 2") (simp_all add: logMessage_def fits_log_def dest_def Let_def)
  with message_file_ok [OF inv env _ fl, of "fst (dest s)" ?x] s show ?thesis
    by (fastforce simp: fits_log_def the_line_def)
qed

subsection \<open>Bounds\<close>

lemma dec_u32: "length (dec (unat (w :: u32))) \<le> 10"
  by (rule dec_length) (use unsigned_less [of w, where 'a=nat] in simp_all)

lemma dec_u16: "length (dec (unat (ucast (w :: 16 word) :: u32))) \<le> 5"
proof -
  have w: "unat w < 2 ^ 16" using unsigned_less [of w, where 'a=nat] by simp
  then have "unat (ucast w :: u32) = unat w" by (simp add: unsigned_ucast_eq take_bit_nat_eq_self)
  moreover have "length (dec (unat w)) \<le> 5" by (rule dec_length) (use w in simp_all)
  ultimately show ?thesis by simp
qed

lemma dest_length: "length (snd (dest s)) \<le> length s"
proof (cases "scan_line s")
  case (fields k nm msg)
  show ?thesis
  proof (cases "k = 2")
    case True
    with fields have "scan_line s = (2, nm, msg)" by simp
    then show ?thesis unfolding scan_spec using fields True by (auto simp: dest_def)
  qed (simp add: dest_def fields)
qed

lemma received_ok:
  assumes "NUL \<notin> set data" "length data < BUF"
  shows "NUL \<in> set (received data)" "cstr (received data) = data"
proof -
  have "received data = data @ NUL # replicate (BUF - length data - 1) NUL"
    using assms(2) by (simp add: received_def replicate_Suc [symmetric] del: replicate_Suc)
  then show "NUL \<in> set (received data)" "cstr (received data) = data" using assms(1) by auto
qed

text \<open>A line of a datagram with an IPv4 sender and the 19 characters of the time stays well below its buffer.\<close>

lemma line_fits:
  assumes "length loctime \<le> 19" "length addr \<le> 15" "length s < BUF"
  shows "length (log_text loctime addr (ucast (prt :: 16 word)) (snd (dest s))) < MAXLENGTH"
  using assms dec_u16 [of prt] dest_length [of s] by (simp add: log_text_def BUF_def MAXLENGTH_def)

subsection \<open>Statistics\<close>

lemma statistics_scan:
  "\<exists>body. scan_line (statistics_text env st) = (2, ''yaul.stat'', body) \<and> length body \<le> length (statistics_text env st)"
proof -
  let ?body = "''messages:'' @ dec (unat (stat_messages_handled st))
       @ '' opened:'' @ dec (unat (stat_files_opened st))
       @ '' closed:'' @ dec (unat (stat_files_closed st))
       @ '' switched:'' @ dec (unat (stat_files_switched st))
       @ '' running:'' @ dec (nat ((e_now env mod 2 ^ 32 - stat_start_time st) mod 2 ^ 64))
       @ '' sec average/s:'' @ e_average env @ ''2'' @ [LF]"
  have t: "statistics_text env st = CHR ''['' # ''yaul.stat'' @ CHR '']'' # ?body" by (simp add: statistics_text_def)
  have "scan_line (statistics_text env st) = (2, ''yaul.stat'', takeWhile (\<lambda>x. x \<noteq> LF) ?body)"
    unfolding t by (rule scan_named) (simp_all add: name_char_def)
  moreover have "length (takeWhile (\<lambda>x. x \<noteq> LF) ?body) \<le> length (statistics_text env st)"
    unfolding t using length_takeWhile_le [of "\<lambda>x. x \<noteq> LF" ?body] by (simp only: length_Cons length_append)
  ultimately show ?thesis by blast
qed

section \<open>The server loop\<close>

text \<open>Statistics go to \<open>yaul.stat\<close>; the address and the printed average are of ordinary length.\<close>

definition server_ok :: "logger \<Rightarrow> bool" where
  "server_ok st \<longleftrightarrow> opt_flush (config st) \<noteq> 0 \<and> length (address (config st)) \<le> 64 \<and> name_ok st ''yaul.stat''"

definition acceptable :: "logger \<Rightarrow> env \<times> env \<times> event \<Rightarrow> bool" where
  "acceptable st x \<longleftrightarrow> (case x of (env, env2, what) \<Rightarrow>
     benign env st \<and> benign env2 st \<and> length (e_loctime env) \<le> 19 \<and> length (e_loctime env2) \<le> 19 \<and>
     length (e_average env2) \<le> 350 \<and> NUL \<notin> set (e_average env2) \<and>
     (case what of
        Datagram data addr prt \<Rightarrow> fits_log st data \<and> length data < BUF \<and> length addr \<le> 15
      | RecvError \<Rightarrow> True
      | _ \<Rightarrow> False))"

lemma statistics_length:
  assumes "length (e_average env) \<le> 350"
  shows "length (statistics_text env st) \<le> 500"
proof -
  have "length (dec (nat ((e_now env mod 2 ^ 32 - stat_start_time st) mod 2 ^ 64))) \<le> 20"
    by (rule dec_length) (simp_all add: nat_less_iff)
  then show ?thesis
    using dec_u32 [of "stat_messages_handled st"] dec_u32 [of "stat_files_opened st"]
      dec_u32 [of "stat_files_closed st"] dec_u32 [of "stat_files_switched st"] assms
    by (simp add: statistics_text_def)
qed

lemma statistics_ok:
  assumes inv: "log_inv st" and ok: "server_ok st" and env: "benign env st" "length (e_loctime env) \<le> 19"
    "length (e_average env) \<le> 350" "NUL \<notin> set (e_average env)"
  shows "\<exists>st'. statistics env st = Inr st' \<and> log_inv st' \<and> config st' = config st \<and> exited st' = exited st
    \<and> (\<forall>q. q \<noteq> log_path (config st) ''yaul.stat'' \<longrightarrow> logged st' q = logged st q)"
proof -
  let ?t = "statistics_text env st"
  note len = statistics_length [OF env(3), of st]
  obtain body where sc: "scan_line ?t = (2, ''yaul.stat'', body)" "length body \<le> length ?t"
    using statistics_scan by blast
  have nul: "NUL \<notin> set ?t" using env(4) dec_NUL by (simp add: statistics_text_def)
  have d: "dest ?t = (''yaul.stat'', body)" by (simp add: dest_def sc(1))
  have f: "fits_log st ?t" using nul sc(1) ok d by (simp add: fits_log_def server_ok_def NAMELENGTH_def)
  have l: "length (log_text (e_loctime env) (address (config st)) (port (config st)) (snd (dest ?t))) < MAXLENGTH"
    using len sc(2) ok env(2) dec_u32 [of "port (config st)"] by (simp add: d log_text_def server_ok_def MAXLENGTH_def)
  have b: "NUL \<in> set (?t @ [NUL])" "cstr (?t @ [NUL]) = ?t" using nul by auto
  have fl: "opt_flush (config st) \<noteq> 0" using ok by (simp add: server_ok_def)
  have "statistics env st = logMessage env (?t @ [NUL]) (address (config st)) (port (config st)) st"
    using len by (simp add: statistics_def Let_def BUF_def)
  with logMessage_ok [OF inv env(1) fl b f l] d show ?thesis by auto
qed

text \<open>The abstract logger: one text per path, to which every datagram appends its line.\<close>

fun spec_log :: "yaulConfig \<Rightarrow> (env \<times> env \<times> event) list \<Rightarrow> (string \<Rightarrow> string) \<Rightarrow> string \<Rightarrow> string" where
  "spec_log c [] L = L"
| "spec_log c ((env, env2, what) # evs) L =
     spec_log c evs
       (case what of
          Datagram data addr prt \<Rightarrow>
            L(log_path c (fst (dest data)) := L (log_path c (fst (dest data))) @ the_line env addr (ucast prt) data)
        | _ \<Rightarrow> L)"

lemma spec_log_cong: "L q = L' q \<Longrightarrow> spec_log c evs L q = spec_log c evs L' q"
proof (induction evs arbitrary: L L')
  case (Cons x evs)
  obtain env env2 what where x: "x = (env, env2, what)" by (cases x)
  show ?case unfolding x spec_log.simps by (rule Cons.IH) (use Cons.prems in \<open>cases what; auto simp: fun_upd_def\<close>)
qed simp

definition stat_path :: "logger \<Rightarrow> string \<Rightarrow> bool" where
  "stat_path st q \<longleftrightarrow> q = log_path (config st) ''yaul.stat'' \<and> 0 < opt_statistics (config st)"

lemma step_ok:
  assumes inv: "log_inv st" and ok: "server_ok st" and ex: "exited st = None" and acc: "acceptable st (env, env2, what)"
  shows "\<exists>st'. serverLoop_step env env2 what st = Inr (st' :: logger) \<and> log_inv st' \<and> config st' = config st \<and> exited st' = None
    \<and> (\<forall>q. \<not> stat_path st q \<longrightarrow> logged st' q = spec_log (config st) [(env, env2, what)] (logged st) q)"
proof (cases what)
  case (Datagram data addr prt)
  have a: "benign env st" "benign env2 st" "length (e_loctime env) \<le> 19" "length (e_loctime env2) \<le> 19"
    "length (e_average env2) \<le> 350" "NUL \<notin> set (e_average env2)" "fits_log st data" "length data < BUF" "length addr \<le> 15"
    using acc by (auto simp: acceptable_def Datagram)
  have fl: "opt_flush (config st) \<noteq> 0" using ok by (simp add: server_ok_def)
  have n: "NUL \<notin> set data" using a(7) by (simp add: fits_log_def)
  obtain st1 where
    s1: "logMessage env (received data) addr (ucast prt) st = Inr st1" "log_inv st1" "config st1 = config st"
      "exited st1 = exited st"
      "\<forall>q. logged st1 q = logged st q @ (if q = log_path (config st) (fst (dest data)) then the_line env addr (ucast prt) data else [])"
    using logMessage_ok [OF inv a(1) fl received_ok [OF n a(8)] a(7) line_fits [OF a(3,9,8), where prt = prt]]
    by (elim exE conjE) (rule that)
  have sp: "spec_log (config st) [(env, env2, what)] (logged st) q = logged st1 q" for q
    using s1(5) by (simp add: Datagram)
  show ?thesis
  proof (cases "0 < opt_statistics (config st) \<and> stat_messages_handled st1 mod opt_statistics (config st) = 0")
    case True
    have "server_ok st1" "benign env2 st1"
      using ok a(2) s1(3) by (simp_all add: server_ok_def benign_def name_ok_def limit_def)
    from statistics_ok [OF s1(2) this a(4-6)] obtain st2 where
      s2: "statistics env2 st1 = Inr st2" "log_inv st2" "config st2 = config st1" "exited st2 = exited st1"
        "\<forall>q. q \<noteq> log_path (config st1) ''yaul.stat'' \<longrightarrow> logged st2 q = logged st1 q"
      by (elim exE conjE) (rule that)
    have "serverLoop_step env env2 what st = Inr st2"
      unfolding serverLoop_step_def Datagram using s1(1,3,4) s2(1) True ex by simp
    moreover have "\<forall>q. \<not> stat_path st q \<longrightarrow> logged st2 q = spec_log (config st) [(env, env2, what)] (logged st) q"
      using s2(5) True unfolding sp s1(3) stat_path_def by simp
    ultimately show ?thesis using s1(3,4) s2(2-4) ex by (intro exI [of _ st2]) simp
  next
    case False
    then have "serverLoop_step env env2 what st = Inr st1"
      unfolding serverLoop_step_def Datagram using s1(1,3) by auto
    then show ?thesis using s1(2-4) sp ex by (intro exI [of _ st1]) (simp del: spec_log.simps)
  qed
next
  case RecvError
  with inv ex show ?thesis by (simp add: serverLoop_step_def)
qed (use acc in \<open>auto simp: acceptable_def\<close>)

lemma acceptable_config: "config st' = config st \<Longrightarrow> acceptable st' x = acceptable st x \<and> server_ok st' = server_ok st
    \<and> stat_path st' q = stat_path st q"
  by (simp add: acceptable_def benign_def limit_def fits_log_def name_ok_def server_ok_def stat_path_def
      split: prod.split event.split)

lemma serve_ok:
  assumes "log_inv st" "server_ok st" "exited st = None" "\<forall>x \<in> set evs. acceptable st x"
  shows "\<exists>st'. serverLoop evs st = Inr st' \<and> log_inv st' \<and> config st' = config st \<and> exited st' = None
    \<and> (\<forall>q. \<not> stat_path st q \<longrightarrow> logged st' q = spec_log (config st) evs (logged st) q)"
  using assms
proof (induction evs arbitrary: st)
  case (Cons x evs)
  obtain env env2 what where x: "x = (env, env2, what)" by (cases x)
  with step_ok [OF Cons.prems(1-3), of env env2 what] Cons.prems(4) obtain st1 where
    s1: "serverLoop_step env env2 what st = Inr st1" "log_inv st1" "config st1 = config st" "exited st1 = None"
      "\<forall>q. \<not> stat_path st q \<longrightarrow> logged st1 q = spec_log (config st) [x] (logged st) q" by auto
  note ac = acceptable_config [OF s1(3)]
  have "server_ok st1" "\<forall>x \<in> set evs. acceptable st1 x" using Cons.prems(2,4) ac by auto
  from Cons.IH [OF s1(2) this(1) s1(4) this(2)] obtain st2 where
    s2: "serverLoop evs st1 = Inr st2" "log_inv st2" "config st2 = config st1" "exited st2 = None"
      "\<forall>q. \<not> stat_path st1 q \<longrightarrow> logged st2 q = spec_log (config st1) evs (logged st1) q" by blast
  have "logged st2 q = spec_log (config st) (x # evs) (logged st) q" if "\<not> stat_path st q" for q
  proof -
    have "logged st2 q = spec_log (config st) evs (logged st1) q" using s2(5) that ac s1(3) by simp
    also have "\<dots> = spec_log (config st) evs (spec_log (config st) [x] (logged st)) q"
      by (rule spec_log_cong) (use s1(5) that in blast)
    finally show ?thesis by (simp add: x)
  qed
  with s1 s2 Cons.prems(3) x show ?case by (intro exI [of _ st2]) auto
qed simp

section \<open>Start\<close>

text \<open>The calls of the start-up succeed; a server in the background is the child of its fork.\<close>

definition starts :: "init_env \<Rightarrow> yaulConfig \<Rightarrow> bool" where
  "starts i c \<longleftrightarrow> i_malloc_h i \<and> i_malloc_t i \<and> 0 \<le> i_socket i \<and> i_pton i \<noteq> 0 \<and> 0 \<le> i_bind i
     \<and> maxhandles c \<le> 2 ^ 30
     \<and> (opt_daemonize c = 1 \<longrightarrow> d_pipe (i_daemon i) \<noteq> -1 \<and> d_fork (i_daemon i) = 0 \<and> SIG_ERR \<notin> set (d_signal (i_daemon i)))"

lemma init_runs:
  assumes "starts i c" "opt_redis c = 0"
  shows "\<exists>st. initServer i ((initial c w d)\<lparr>stat_start_time := now\<rparr>) = Inr st \<and> exited st = None"
proof -
  obtain h :: "(fkey, nat) hashtable" where h: "create_hashtable (i_malloc_h i) (i_malloc_t i) (maxhandles c) key_hash cmpKeys = Some h"
    using create_total [of "i_malloc_h i" "i_malloc_t i" "maxhandles c" key_hash cmpKeys] assms(1)
    by (fastforce simp: starts_def)
  with assms show ?thesis
    by (simp add: initServer_def initial_def starts_def daemonize_server_def Let_def)
qed

lemma init_ok:
  assumes "initServer i ((initial c w d)\<lparr>stat_start_time := now\<rparr>) = Inr st" "exited st = None" "opt_redis c = 0"
  shows "log_inv st \<and> config st = c \<and> (\<forall>q. logged st q = d q) \<and> ents st = [] \<and> lastfile st = None"
proof -
  obtain h :: "(fkey, nat) hashtable" where h: "create_hashtable (i_malloc_h i) (i_malloc_t i) (maxhandles c) key_hash cmpKeys = Some h"
    using assms(1) by (cases "create_hashtable (i_malloc_h i) (i_malloc_t i) (maxhandles c) key_hash cmpKeys :: (fkey, nat) hashtable option")
      (simp_all add: initServer_def initial_def)
  note co = create_ok [OF h]
  have small: "unat (maxhandles c) \<le> 2 ^ 30"
  proof -
    have "maxhandles c \<le> 2 ^ 30" using create_total h by (metis not_less option.discI)
    then show ?thesis by (simp add: word_le_nat_alt)
  qed
  define st0 where "st0 = (initial c w d)\<lparr>stat_start_time := now, handles := h\<rparr>"
  have hk: "handles_ok h" using co by (simp add: handles_ok_def ht_ok_def)
  have t0: "tables_ok st0" using hk co by (simp add: tables_ok_def st0_def initial_def streams_ok_def)
  have l0: "log_inv st0"
    using t0 co assms(3) small by (simp add: log_inv_def files_ok_def st0_def initial_def limit_def)
  have g0: "logged st0 q = d q" for q
    using pending_none [of st0 q] by (simp add: logged_def st0_def initial_def)
  have e: "st = st0 \<or> (\<exists>x. st = log_line x st0) \<or> (\<exists>x y. st = log_line x (log_line y st0))"
    using assms h unfolding initServer_def
    by (auto simp: Let_def st0_def initial_def daemonize_server_def split: if_splits)
  have f: "config st0 = c" "ents st0 = []" "lastfile st0 = None" using co by (simp_all add: st0_def initial_def)
  from e l0 g0 f show ?thesis by auto
qed

section \<open>The running server\<close>

text \<open>
  The states of a server from its start on. It handles datagrams that fit its buffers, errors of
  \<open>recvfrom\<close> and signals; memory, \<open>fopen\<close> and \<open>rand\<close> behave as \<open>acceptable\<close> says.
\<close>

definition handled :: "logger \<Rightarrow> env \<times> env \<times> event \<Rightarrow> bool" where
  "handled st x \<longleftrightarrow> acceptable st x \<or> (snd (snd x) \<in> {Sighup, Sigint, Sigterm} \<and> e_iter (fst x))"

inductive reachable :: "yaulConfig \<Rightarrow> logger \<Rightarrow> bool" for c where
  start: "initServer i ((initial c w d)\<lparr>stat_start_time := now\<rparr>) = Inr st \<Longrightarrow> exited st = None \<Longrightarrow> reachable c st"
| event: "reachable c st \<Longrightarrow> exited st = None \<Longrightarrow> handled st (env, env2, what) \<Longrightarrow>
    serverLoop_step env env2 what st = Inr st' \<Longrightarrow> reachable c st'"

text \<open>The invariant of all of them, also of those that \<open>SIGHUP\<close> left with a dangling \<open>lastfile\<close>.\<close>

definition dangling :: "logger \<Rightarrow> bool" where
  "dangling st \<longleftrightarrow> (\<exists>a. lastfile st = Some a \<and> heap st a = None)"

definition open_inv :: "yaulConfig \<Rightarrow> logger \<Rightarrow> bool" where
  "open_inv c st \<longleftrightarrow> config st = c \<and> exited st = None \<and> tables_ok st \<and> length (ents st) \<le> limit st
     \<and> (log_inv st \<or> dangling st)"

definition stopped :: "logger \<Rightarrow> bool" where
  "stopped st \<longleftrightarrow> exited st = Some 0 \<and> (\<forall>a. heap st a = None) \<and> (\<forall>f. streams st f = None)"

lemma log_open_inv: "log_inv st \<Longrightarrow> config st = c \<Longrightarrow> exited st = None \<Longrightarrow> open_inv c st"
  by (auto simp: open_inv_def log_inv_def files_ok_def)

lemma hup_ok:
  assumes inv: "open_inv c st" and r: "opt_redis c = 0" and it: "e_iter env"
  shows "\<exists>st'. sig_hup env st = Inr st' \<and> open_inv c st'"
proof -
  from inv have t: "tables_ok st" and c: "config st = c" and ex: "exited st = None" by (auto simp: open_inv_def)
  obtain st1 where st1: "sig_hup env st = Inr st1" "tables_ok st1" "ents st1 = []" "config st1 = c"
    "lastfile st1 = lastfile st" "exited st1 = None"
    using closeAll_ok [of "log_line ''caught SIGHUP'' st" env] t c r it ex by (auto simp: sig_hup_def)
  have "log_inv st1 \<or> dangling st1"
  proof (cases "lastfile st")
    case None
    then have "log_inv st" using inv by (simp add: open_inv_def dangling_def)
    with None st1 c r show ?thesis by (simp add: log_inv_def files_ok_def limit_def)
  next
    case (Some a)
    with st1 empty_tables(1) [OF st1(2,3)] show ?thesis by (simp add: dangling_def)
  qed
  with st1 show ?thesis by (simp add: open_inv_def)
qed

lemma stop_ok:
  assumes inv: "open_inv c st" and r: "opt_redis c = 0" and it: "e_iter env"
  shows "\<exists>st'. shutdownServer env (log_line x st) = Inr st' \<and> stopped st'"
  using shutdown_ok [of "log_line x st" env] inv r it by (auto simp: open_inv_def stopped_def)

text \<open>With a dangling \<open>lastfile\<close> the server survives no datagram.\<close>

lemma dangling_datagram:
  assumes d: "dangling st" and r: "opt_redis (config st) = 0" and a: "acceptable st (env, env2, Datagram data addr prt)"
  shows "serverLoop_step env env2 (Datagram data addr prt) st = Inl UseAfterFree"
proof -
  have b: "length (e_loctime env) \<le> 19" "length addr \<le> 15" "length data < BUF" "fits_log st data"
    using a by (simp_all add: acceptable_def)
  then have n: "NUL \<notin> set data" by (simp add: fits_log_def)
  note rc = received_ok [OF n b(3)] and ln = line_fits [OF b(1-3), of prt]
  have msg: "logMessageFile env nm x st = Inl UseAfterFree" for nm x
    using d dangling_last by (auto simp: dangling_def)
  have "logMessage env (received data) addr (ucast prt) st = Inl UseAfterFree"
    using rc ln b(4) msg r
    by (auto simp: logMessage_def fits_log_def dest_def NAMELENGTH_def MAXLENGTH_def split: prod.splits)
  then show ?thesis by (simp add: serverLoop_step_def)
qed

lemma step_open:
  assumes inv: "open_inv c st" and c: "opt_redis c = 0" "server_ok st" and h: "handled st (env, env2, what)"
    and run: "serverLoop_step env env2 what st = Inr st'"
  shows "open_inv c st' \<or> stopped st'"
proof (cases "what \<in> {Sighup, Sigint, Sigterm}")
  case True
  then have it: "e_iter env" using h by (auto simp: handled_def acceptable_def)
  note stop = stop_ok [OF inv c(1) it, of "''caught SIGINT''"] stop_ok [OF inv c(1) it, of "''caught SIGTERM''"]
  from hup_ok [OF inv c(1) it] stop True run show ?thesis
    by (auto simp: serverLoop_step_def sig_int_def sig_term_def)
next
  case False
  then have a: "acceptable st (env, env2, what)" using h by (auto simp: handled_def)
  have i: "config st = c" "exited st = None" "log_inv st \<or> dangling st" using inv by (auto simp: open_inv_def)
  show ?thesis
  proof (cases "log_inv st")
    case True
    from step_ok [OF True c(2) i(2) a] run i(1) log_open_inv show ?thesis by auto
  next
    case nl: False
    with i(3) have d: "dangling st" by simp
    show ?thesis
    proof (cases what)
      case (Datagram data addr prt)
      with dangling_datagram [OF d] a c(1) i(1) run show ?thesis by simp
    next
      case RecvError
      with run have "st' = log_line ''cannot receive data'' st" by (simp add: serverLoop_step_def)
      with inv show ?thesis by (auto simp: open_inv_def limit_def dangling_def)
    qed (use False in auto)
  qed
qed

lemma reachable_open:
  assumes "reachable c st" "opt_redis c = 0" "server_ok (initial c w d)"
  shows "open_inv c st \<or> stopped st"
  using assms
proof (induction rule: reachable.induct)
  case (start i w d now st)
  from init_ok [OF start(1,2) start(3)] start(2) log_open_inv show ?case by blast
next
  case (event st env env2 what st')
  have i: "open_inv c st" using event.IH [OF event.prems] event.hyps(2) by (auto simp: stopped_def)
  then have "config st = c" by (simp add: open_inv_def)
  then have "server_ok st" using event.prems(2) by (simp add: server_ok_def name_ok_def initial_def)
  from step_open [OF i event.prems(1) this event.hyps(3,4)] show ?case .
qed

text \<open>The streams are the files of the entries, one each.\<close>

lemma streams_card:
  assumes t: "tables_ok st"
  shows "card {f. streams st f \<noteq> None} = length (ents st)" "card {a. heap st a \<noteq> None} = length (ents st)"
proof -
  let ?E = "set (ents st)"
  have d: "card ?E = length (ents st)" using tables_okD(3) [OF t] by (simp add: distinct_card distinct_map)
  define fil where "fil e = the (hb_file (the (heap st (ev e))))" for e :: "(fkey, nat) entry"
  have f: "\<exists>s. streams st (fil e) = Some s \<and> st_path s = log_path (config st) (snd (ek e))
      \<and> heap st (ev e) = Some \<lparr>hb_name = snd (ek e), hb_file = Some (fil e)\<rparr>" if "e \<in> ?E" for e
    using entry_files [OF t that] by (auto simp: fil_def)
  have "{f. streams st f \<noteq> None} = fil ` ?E"
    using f tables_okD(6) [OF t] by (force simp: fil_def)
  moreover have "inj_on fil ?E"
  proof (rule inj_onI)
    fix e e' assume e: "e \<in> ?E" "e' \<in> ?E" "fil e = fil e'"
    with f [OF e(1)] f [OF e(2)] have "snd (ek e) = snd (ek e')" by auto
    with same_name [OF tables_okD(3) [OF t] e(1,2)] show "e = e'" by blast
  qed
  ultimately show "card {f. streams st f \<noteq> None} = length (ents st)" using d by (simp add: card_image)
  have "{a. heap st a \<noteq> None} = ev ` ?E" using f tables_okD(5) [OF t] by force
  moreover have "inj_on ev ?E" by (rule inj_onI) (rule same_entry [OF t])
  ultimately show "card {a. heap st a \<noteq> None} = length (ents st)" using d by (simp add: card_image)
qed

lemma one_stream_per_path:
  assumes t: "tables_ok st" and f: "streams st f = Some s" "streams st g = Some s'" "st_path s = st_path s'"
  shows "f = g"
proof -
  obtain e hb where e: "e \<in> set (ents st)" "heap st (ev e) = Some hb" "hb_file hb = Some f"
    using tables_okD(6) [OF t f(1)] by blast
  obtain e' hb' where e': "e' \<in> set (ents st)" "heap st (ev e') = Some hb'" "hb_file hb' = Some g"
    using tables_okD(6) [OF t f(2)] by blast
  have "snd (ek e) = snd (ek e')" using entry_files [OF t e(1)] entry_files [OF t e'(1)] e e' f by auto
  with same_name [OF tables_okD(3) [OF t] e(1) e'(1)] e e' show ?thesis by auto
qed

end
