(* ===== verification/Yaul_Statistics.thy ===== *)
theory Yaul_Statistics imports Yaul_Server begin

text \<open>
  The reports of statistics: \<open>full_log\<close> is the abstract logger with the reports to \<open>yaul.stat\<close>, which the server loop
  implements on all files. What a report says of opened, closed and switched files is left open, as it depends on the
  random choice of the files that are closed.
\<close>

section \<open>What keeps the time of the start\<close>

lemma stream_start:
  "fflush st f = Inr st' \<Longrightarrow> stat_start_time st' = stat_start_time st"
  "fclose st f = Inr st' \<Longrightarrow> stat_start_time st' = stat_start_time st"
  "fprint n st f x = Inr st' \<Longrightarrow> stat_start_time st' = stat_start_time st"
  by (auto simp: fflush_def fclose_def fprint_def with_stream_def append_disk_def Let_def split: option.splits)

lemma free_start:
  "free_block a st = Inr st' \<Longrightarrow> stat_start_time st' = stat_start_time st"
  "free_ptr p st = Inr st' \<Longrightarrow> stat_start_time st' = stat_start_time st"
  by (auto simp: free_ptr_def free_block_def split: option.splits)

lemma close_random_start: "closeRandomFile env st = Inr st' \<Longrightarrow> stat_start_time st' = stat_start_time st"
  by (auto simp: closeRandomFile_def Let_def case_prod_beta split: if_splits option.splits dest!: stream_start free_start)

lemma open_new_start: "open_new env name st = Inr st' \<Longrightarrow> stat_start_time st' = stat_start_time st"
  by (auto simp: open_new_def Let_def fopen_append_def split: if_splits dest!: close_random_start free_start)

lemma open_start: "openLogfile env name st = Inr (st', f) \<Longrightarrow> stat_start_time st' = stat_start_time st"
  by (auto simp: openLogfile_def split: if_splits option.splits dest!: stream_start open_new_start)

lemma message_file_start: "logMessageFile env name x st = Inr st' \<Longrightarrow> stat_start_time st' = stat_start_time st"
  by (auto simp: logMessageFile_def Let_def log_line_def split: if_splits dest!: stream_start open_start)

lemma report_message_start: "logMessage env buffer addr prt st = Inr st' \<Longrightarrow> opt_redis (config st) = 0 \<Longrightarrow> stat_start_time st' = stat_start_time st"
  by (auto simp: logMessage_def Let_def case_prod_beta split: if_splits dest!: message_file_start)

section \<open>The logger with its reports\<close>

text \<open>When a report is due, and its line, for given counts of files.\<close>

definition due :: "yaulConfig \<Rightarrow> u32 \<Rightarrow> bool" where
  "due c m \<longleftrightarrow> 0 < opt_statistics c \<and> m mod opt_statistics c = 0"

definition with_counts :: "logger \<Rightarrow> u32 \<Rightarrow> u32 \<times> u32 \<times> u32 \<Rightarrow> logger" where
  "with_counts st n k = (case k of (op, cl, sw) \<Rightarrow>
     st\<lparr>stat_messages_handled := n, stat_files_opened := op, stat_files_closed := cl, stat_files_switched := sw\<rparr>)"

definition report_line :: "logger \<Rightarrow> env \<Rightarrow> u32 \<Rightarrow> u32 \<times> u32 \<times> u32 \<Rightarrow> string" where
  "report_line st env n k = the_line env (address (config st)) (port (config st)) (statistics_text env (with_counts st n k))"

definition add_line :: "string \<Rightarrow> string \<Rightarrow> (string \<Rightarrow> string) \<Rightarrow> string \<Rightarrow> string" where
  "add_line p x L = L(p := L p @ x)"

text \<open>\<open>n\<close> messages have been handled before; \<open>ks\<close> are the counts in the reports to come.\<close>

fun full_log :: "logger \<Rightarrow> (env \<times> env \<times> event) list \<Rightarrow> u32 \<Rightarrow> (u32 \<times> u32 \<times> u32) list \<Rightarrow> (string \<Rightarrow> string) \<Rightarrow> string \<Rightarrow> string" where
  "full_log st [] n ks L = L"
| "full_log st ((env, env2, what) # evs) n ks L =
     (case what of
        Datagram data addr prt \<Rightarrow>
          let L1 = add_line (log_path (config st) (fst (dest data))) (the_line env addr (ucast prt) data) L
          in if due (config st) (n + 1)
             then full_log st evs (n + 2) (tl ks)
                    (add_line (log_path (config st) ''yaul.stat'') (report_line st env2 (n + 1) (hd ks)) L1)
             else full_log st evs (n + 1) ks L1
      | _ \<Rightarrow> full_log st evs n ks L)"

fun report_count :: "yaulConfig \<Rightarrow> (env \<times> env \<times> event) list \<Rightarrow> u32 \<Rightarrow> nat" where
  "report_count c [] n = 0"
| "report_count c ((env, env2, what) # evs) n =
     (case what of
        Datagram data addr prt \<Rightarrow> if due c (n + 1) then Suc (report_count c evs (n + 2)) else report_count c evs (n + 1)
      | _ \<Rightarrow> report_count c evs n)"

lemma full_log_cong:
  assumes "config st' = config st" "stat_start_time st' = stat_start_time st"
  shows "full_log st' evs n ks L = full_log st evs n ks L"
proof (induction evs arbitrary: n ks L)
  case (Cons x evs)
  obtain env env2 what where x: "x = (env, env2, what)" by (cases x)
  have "report_line st' env2 m k = report_line st env2 m k" for m k
    using assms by (simp add: report_line_def with_counts_def statistics_text_def split: prod.split)
  then show ?case unfolding x using Cons.IH assms(1) by (simp add: Let_def split: event.split)
qed simp

section \<open>The server implements it\<close>

lemma report_ok:
  assumes inv: "log_inv st" and ok: "server_ok st" and env: "benign env st" "length (e_loctime env) \<le> 19"
    "length (e_average env) \<le> 350" "NUL \<notin> set (e_average env)"
  shows "\<exists>st'. statistics env st = Inr st' \<and> log_inv st' \<and> config st' = config st \<and> exited st' = exited st
    \<and> logged st' = add_line (log_path (config st) ''yaul.stat'')
        (the_line env (address (config st)) (port (config st)) (statistics_text env st)) (logged st)
    \<and> stat_messages_handled st' = stat_messages_handled st + 1 \<and> stat_start_time st' = stat_start_time st"
proof -
  let ?t = "statistics_text env st"
  note len = statistics_length [OF env(3), of st]
  obtain body where sc: "scan_line ?t = (2, ''yaul.stat'', body)" "length body \<le> length ?t"
    using statistics_scan by blast
  have nul: "NUL \<notin> set ?t" using env(4) dec_NUL by (simp add: statistics_text_def)
  have d: "dest ?t = (''yaul.stat'', body)" by (simp add: dest_def sc(1))
  have f: "fits_log st ?t" using nul sc(1) ok d by (simp add: fits_log_def server_ok_def NAMELENGTH_def)
  have l: "length (log_text (e_loctime env) (address (config st)) (port (config st)) (snd (dest ?t))) < MAXLENGTH"
    using len sc(2) ok env(2) dec_u32 [of "port (config st)"] by (simp add: d log_text_def server_ok_def MAXLENGTH_def)
  have b: "NUL \<in> set (?t @ [NUL])" "cstr (?t @ [NUL]) = ?t" using nul by auto
  have fl: "opt_flush (config st) \<noteq> 0" using ok by (simp add: server_ok_def)
  have e: "statistics env st = logMessage env (?t @ [NUL]) (address (config st)) (port (config st)) st"
    using len by (simp add: statistics_def Let_def BUF_def)
  obtain st' where st': "logMessage env (?t @ [NUL]) (address (config st)) (port (config st)) st = Inr st'" "log_inv st'"
      "config st' = config st" "exited st' = exited st"
      "\<forall>q. logged st' q = logged st q @ (if q = log_path (config st) (fst (dest ?t))
         then the_line env (address (config st)) (port (config st)) ?t else [])"
      "stat_messages_handled st' = stat_messages_handled st + 1"
    using logMessage_ok [OF inv env(1) fl b f l] by (elim exE conjE) (rule that)
  have "logged st' = add_line (log_path (config st) ''yaul.stat'') (the_line env (address (config st)) (port (config st)) ?t) (logged st)"
    using st'(5) by (auto simp: add_line_def d)
  with st' e report_message_start [OF st'(1) log_invD(2) [OF inv]] show ?thesis by auto
qed

lemma full_step_ok:
  assumes inv: "log_inv st" and ok: "server_ok st" and ex: "exited st = None" and acc: "acceptable st (env, env2, what)"
  shows "\<exists>st' m ks1. serverLoop_step env env2 what st = Inr st' \<and> log_inv st' \<and> config st' = config st \<and> exited st' = None
    \<and> stat_start_time st' = stat_start_time st \<and> stat_messages_handled st' = stat_messages_handled st + m
    \<and> (\<forall>evs ks. full_log st ((env, env2, what) # evs) (stat_messages_handled st) (ks1 @ ks) (logged st)
          = full_log st evs (stat_messages_handled st + m) ks (logged st'))
    \<and> (\<forall>evs. report_count (config st) ((env, env2, what) # evs) (stat_messages_handled st)
          = length ks1 + report_count (config st) evs (stat_messages_handled st + m))"
proof (cases what)
  case (Datagram data addr prt)
  have a: "benign env st" "benign env2 st" "length (e_loctime env) \<le> 19" "length (e_loctime env2) \<le> 19"
    "length (e_average env2) \<le> 350" "NUL \<notin> set (e_average env2)" "fits_log st data" "length data < BUF" "length addr \<le> 15"
    using acc by (auto simp: acceptable_def Datagram)
  have fl: "opt_flush (config st) \<noteq> 0" using ok by (simp add: server_ok_def)
  have n: "NUL \<notin> set data" using a(7) by (simp add: fits_log_def)
  let ?x = "the_line env addr (ucast prt) data" and ?n = "stat_messages_handled st"
  obtain st1 where
    s1: "logMessage env (received data) addr (ucast prt) st = Inr st1" "log_inv st1" "config st1 = config st" "exited st1 = exited st"
      "\<forall>q. logged st1 q = logged st q @ (if q = log_path (config st) (fst (dest data)) then ?x else [])"
      "stat_messages_handled st1 = ?n + 1"
    using logMessage_ok [OF inv a(1) fl received_ok [OF n a(8)] a(7) line_fits [OF a(3,9,8), where prt = prt]]
    by (elim exE conjE) (rule that)
  have l1: "logged st1 = add_line (log_path (config st) (fst (dest data))) ?x (logged st)"
    using s1(5) by (auto simp: add_line_def)
  note t1 = report_message_start [OF s1(1) log_invD(2) [OF inv]]
  show ?thesis
  proof (cases "due (config st) (?n + 1)")
    case True
    have "server_ok st1" "benign env2 st1"
      using ok a(2) s1(3) by (simp_all add: server_ok_def benign_def name_ok_def limit_def)
    from report_ok [OF s1(2) this a(4-6)] obtain st2 where
      s2: "statistics env2 st1 = Inr st2" "log_inv st2" "config st2 = config st1" "exited st2 = exited st1"
        "logged st2 = add_line (log_path (config st1) ''yaul.stat'')
          (the_line env2 (address (config st1)) (port (config st1)) (statistics_text env2 st1)) (logged st1)"
        "stat_messages_handled st2 = stat_messages_handled st1 + 1" "stat_start_time st2 = stat_start_time st1"
      by (elim exE conjE) (rule that)
    let ?k = "(stat_files_opened st1, stat_files_closed st1, stat_files_switched st1)"
    have r: "report_line st env2 (?n + 1) ?k
        = the_line env2 (address (config st1)) (port (config st1)) (statistics_text env2 st1)"
      using s1(3,6) t1 by (simp add: report_line_def with_counts_def statistics_text_def)
    have "serverLoop_step env env2 what st = Inr st2"
      unfolding serverLoop_step_def Datagram using s1(1,3,4,6) s2(1) True ex by (simp add: due_def)
    moreover have "full_log st ((env, env2, what) # evs) ?n ([?k] @ ks) (logged st) = full_log st evs (?n + 2) ks (logged st2)" for evs ks
      using True unfolding Datagram s2(5) l1 s1(3) r [symmetric, unfolded s1(3)] by (simp add: Let_def)
    ultimately show ?thesis using s1(3,4,6) s2(2-4,6,7) ex t1 True
      by (intro exI [of _ st2] exI [of _ 2] exI [of _ "[?k]"]) (simp add: Datagram)
  next
    case False
    then have "serverLoop_step env env2 what st = Inr st1"
      unfolding serverLoop_step_def Datagram using s1(1,3,4,6) ex by (auto simp: due_def)
    then show ?thesis using s1(2-4,6) t1 l1 False ex
      by (intro exI [of _ st1] exI [of _ 1] exI [of _ "[]"]) (simp add: Datagram Let_def)
  qed
next
  case RecvError
  have "stat_start_time (log_line y st) = stat_start_time st" "stat_messages_handled (log_line y st) = stat_messages_handled st" for y
    by (simp_all add: log_line_def)
  moreover have "logged (log_line y st) = logged st" for y by (rule ext) simp
  ultimately have "log_inv (log_line y st) \<and> logged (log_line y st) = logged st \<and> stat_start_time (log_line y st) = stat_start_time st" for y
    using inv by simp
  with inv ex RecvError show ?thesis
    by (intro exI [of _ "log_line ''cannot receive data'' st"] exI [of _ 0] exI [of _ "[]"]) (simp add: serverLoop_step_def)
qed (use acc in \<open>auto simp: acceptable_def\<close>)

lemma full_serve_ok:
  assumes "log_inv st" "server_ok st" "exited st = None" "\<forall>x \<in> set evs. acceptable st x"
  shows "\<exists>st' ks. serverLoop evs st = Inr st' \<and> log_inv st' \<and> config st' = config st \<and> exited st' = None
    \<and> length ks = report_count (config st) evs (stat_messages_handled st)
    \<and> logged st' = full_log st evs (stat_messages_handled st) ks (logged st)"
  using assms
proof (induction evs arbitrary: st)
  case (Cons x evs)
  obtain env env2 what where x: "x = (env, env2, what)" by (cases x)
  have "acceptable st (env, env2, what)" using Cons.prems(4) x by simp
  from full_step_ok [OF Cons.prems(1-3) this] obtain st1 m ks1 where
    s1: "serverLoop_step env env2 what st = Inr st1" "log_inv st1" "config st1 = config st" "exited st1 = None"
      "stat_start_time st1 = stat_start_time st" "stat_messages_handled st1 = stat_messages_handled st + m"
      "\<forall>evs ks. full_log st ((env, env2, what) # evs) (stat_messages_handled st) (ks1 @ ks) (logged st)
          = full_log st evs (stat_messages_handled st + m) ks (logged st1)"
      "\<forall>evs. report_count (config st) ((env, env2, what) # evs) (stat_messages_handled st)
          = length ks1 + report_count (config st) evs (stat_messages_handled st + m)"
    by (elim exE conjE) (rule that)
  note s7 = s1(7) [rule_format, folded x] and s8 = s1(8) [rule_format, folded x]
  note ac = acceptable_config [OF s1(3)]
  have "server_ok st1" "\<forall>x \<in> set evs. acceptable st1 x" using Cons.prems(2,4) ac by auto
  from Cons.IH [OF s1(2) this(1) s1(4) this(2)] obtain st2 ks2 where
    s2: "serverLoop evs st1 = Inr st2" "log_inv st2" "config st2 = config st1" "exited st2 = None"
      "length ks2 = report_count (config st1) evs (stat_messages_handled st1)"
      "logged st2 = full_log st1 evs (stat_messages_handled st1) ks2 (logged st1)" by blast
  have "logged st2 = full_log st (x # evs) (stat_messages_handled st) (ks1 @ ks2) (logged st)"
    unfolding s7 s2(6) s1(6) full_log_cong [OF s1(3,5)] ..
  moreover have "length (ks1 @ ks2) = report_count (config st) (x # evs) (stat_messages_handled st)"
    unfolding s8 using s2(5) s1(3,6) by simp
  moreover have "serverLoop (x # evs) st = Inr st2" using s1(1) s2(1) Cons.prems(3) by (simp add: x)
  moreover have "config st2 = config st" using s1(3) s2(3) by simp
  ultimately show ?case using s2(2,4) by blast
qed simp

section \<open>The whole program\<close>

lemma serverLoop_append: "serverLoop (xs @ ys) st = bind_res (serverLoop xs st) (serverLoop ys)"
proof (induction xs arbitrary: st)
  case Nil
  show ?case by simp
next
  case (Cons x xs)
  obtain env env2 what where "x = (env, env2, what)" by (cases x)
  moreover have "exited st \<noteq> None \<Longrightarrow> serverLoop ys st = Inr st" by (cases ys rule: list.exhaust) (auto split: prod.splits)
  ultimately show ?case using Cons.IH by (cases "serverLoop_step env env2 what st") auto
qed

lemma init_counts:
  assumes "initServer i ((initial c w d)\<lparr>stat_start_time := now\<rparr>) = Inr st" "opt_redis c = 0"
  shows "stat_messages_handled st = 0" "stat_start_time st = now"
  using assms by (auto simp: initServer_def initial_def daemonize_server_def log_line_def Let_def split: option.splits if_splits)

lemma main_reports_ok:
  assumes "readOptions opts = Inr (Some c)" "opt_redis c = 0" "starts i c" "server_ok (initial c w d)"
    and "\<forall>x \<in> set evs. acceptable (initial c w d) x" "e_iter env"
  shows "\<exists>st ks. yaul_main opts now i (evs @ [(env, env2, Sigterm)]) w d = Inr st \<and> exited st = Some 0
    \<and> (\<forall>a. heap st a = None) \<and> (\<forall>f. streams st f = None) \<and> length ks = report_count c evs 0
    \<and> disk st = full_log ((initial c w d)\<lparr>stat_start_time := now\<rparr>) evs 0 ks d"
proof -
  obtain st0 where st0: "initServer i ((initial c w d)\<lparr>stat_start_time := now\<rparr>) = Inr st0" "exited st0 = None"
    using init_runs [OF assms(3,2)] by blast
  from init_ok [OF st0 assms(2)] have l0: "log_inv st0" "config st0 = c" "logged st0 = d" by auto
  note n0 = init_counts [OF st0(1) assms(2)]
  have ac: "config st0 = config (initial c w d)" by (simp add: l0 initial_def)
  note ac = acceptable_config [OF ac]
  have "server_ok st0" "\<forall>x \<in> set evs. acceptable st0 x" using assms(4,5) ac by auto
  from full_serve_ok [OF l0(1) this(1) st0(2) this(2)] obtain st1 ks where
    st1: "serverLoop evs st0 = Inr st1" "log_inv st1" "config st1 = c" "exited st1 = None" "length ks = report_count c evs 0"
      "logged st1 = full_log st0 evs 0 ks d"
    unfolding l0(2,3) n0 by (elim exE conjE) (rule that)
  have f: "full_log st0 evs 0 ks d = full_log ((initial c w d)\<lparr>stat_start_time := now\<rparr>) evs 0 ks d"
    by (rule full_log_cong) (simp_all add: l0 n0 initial_def)
  obtain st2 where st2: "sig_term env st1 = Inr st2" "exited st2 = Some 0" "\<forall>a. heap st2 a = None"
    "\<forall>f. streams st2 f = None" "\<forall>q. disk st2 q = logged st1 q"
    using shutdown_ok [of "log_line ''caught SIGTERM'' st1" env] log_invD(1,2) [OF st1(2)] assms(6)
    by (auto simp: sig_term_def)
  have "serverLoop (evs @ [(env, env2, Sigterm)]) st0 = Inr st2"
    using st1(1,4) st2(1) by (simp add: serverLoop_append serverLoop_step_def)
  moreover have "disk st2 = full_log ((initial c w d)\<lparr>stat_start_time := now\<rparr>) evs 0 ks d"
    using st2(5) st1(6) f by auto
  ultimately show ?thesis
    using st0(1) assms(1) st2 st1(5) by (intro exI [of _ st2] exI [of _ ks]) (simp add: yaul_main_def)
qed

end
