(* ===== verification/Connect.thy ===== *)
theory Connect
  imports Redis_Context
begin

text \<open>
  What connecting leaves behind: a well-formed context without output, idle if there is no error, and a kernel
  that will answer as before.
\<close>

unbundle bit_operations_syntax

section \<open>Connecting a socket\<close>

text \<open>Connecting changes neither what allocator and kernel will answer nor what has been written.\<close>

definition same_memory :: "world \<Rightarrow> world \<Rightarrow> bool" where
  "same_memory w w' \<longleftrightarrow> w_alloc w' = w_alloc w \<and> w_objects w' = w_objects w \<and> w_ret w' = w_ret w
     \<and> wire w' = wire w"

lemma same_memory_ok: "memory_ok w \<Longrightarrow> same_memory w w' \<Longrightarrow> memory_ok w'"
  by (simp add: memory_ok_def same_memory_def)

lemma same_memory_errno [simp]: "same_memory w (w'\<lparr>w_errno := e\<rparr>) = same_memory w w'"
  by (simp add: same_memory_def)

lemma same_memory_trans: "same_memory a b \<Longrightarrow> same_memory b c \<Longrightarrow> same_memory a c"
  by (simp add: same_memory_def)

abbreviation keeps_memory :: "world \<Rightarrow> conn \<Rightarrow> bool" where
  "keeps_memory w m \<equiv> (case m of (c, w', ok) \<Rightarrow> same_memory w w')"

lemma keeps_memory_then:
  "keeps_memory w m \<Longrightarrow> (\<And>c w'. keeps_memory w' (f c w')) \<Longrightarrow> keeps_memory w (and_then m f)"
proof -
  assume m: "keeps_memory w m" and f: "\<And>c w'. keeps_memory w' (f c w')"
  obtain c w' ok where e: "m = (c, w', ok)" by (cases m)
  from f [of w' c] m show ?thesis
    by (cases "f c w'") (auto simp: e and_then_def dest: same_memory_trans)
qed

lemma socket_memory:
  "keeps_memory w (redisSetBlocking c w s b)" "keeps_memory w (redisSetTcpNoDelay c w s)"
  "keeps_memory w (redisCheckSocketError c w s)" "keeps_memory w (redisContextWaitReady c w s t)"
  by (simp_all add: redisSetBlocking_def redisSetTcpNoDelay_def redisCheckSocketError_def redisContextWaitReady_def
      fail_close_def Let_def same_memory_def sys_def)

lemma connect_memory: "keeps_memory w (snd (connect_socket c w s b sk t))"
  using socket_memory(4) [of "sys (SysConnect s) w" c s t]
  by (auto simp: connect_socket_def Let_def same_memory_def sys_def split: prod.splits)

lemma try_memory: "keeps_memory w (snd (try_address c w s b t))"
proof -
  obtain c1 w1 ok1 where b: "redisSetBlocking c w s False = (c1, w1, ok1)" by (cases "redisSetBlocking c w s False")
  have m1: "same_memory w w1" using socket_memory(1) [of w c s False] b by simp
  obtain sk m where k: "connect_socket c1 w1 s b True t = (sk, m)" by (cases "connect_socket c1 w1 s b True t")
  have m2: "keeps_memory w1 m" using connect_memory [of w1 c1 s b True t] k by simp
  have ad: "keeps_memory w2 (adopt c2 w2 s b)" for c2 w2
    unfolding adopt_def
    by (intro keeps_memory_then) (use socket_memory in \<open>auto simp: same_memory_def\<close>)
  have "keeps_memory w1 (and_then m (\<lambda>c w. adopt c w s b))" by (rule keeps_memory_then [OF m2 ad])
  with b k m1 m2 show ?thesis
    by (cases m; cases "and_then m (\<lambda>c w. adopt c w s b)") (auto simp: try_address_def dest: same_memory_trans)
qed

lemma loop_memory: "keeps_memory w (connect_loop c w b t n)"
proof (induction n arbitrary: c w)
  case (Suc n)
  let ?s = "next_ret w"
  let ?w1 = "sys (SysSocket ?s) w"
  obtain sk c2 w2 ok where k: "try_address c ?w1 ?s b t = (sk, c2, w2, ok)" by (cases "try_address c ?w1 ?s b t") auto
  have m2: "same_memory ?w1 w2" using try_memory [of ?w1 c ?s b t] k by simp
  then have m: "same_memory w w2" by (simp add: same_memory_def sys_def)
  have e: "connect_loop c w b t (Suc n) = (if ?s = -1 then connect_loop c ?w1 b t n
      else if sk then connect_loop c2 w2 b t n else (c2, w2, ok))" using k by (simp add: Let_def)
  have i1: "keeps_memory w (connect_loop c ?w1 b t n)"
    using Suc [of ?w1 c] by (auto simp: same_memory_def sys_def split: prod.splits)
  have i2: "keeps_memory w (connect_loop c2 w2 b t n)"
    using Suc [of w2 c2] m by (auto dest: same_memory_trans split: prod.splits)
  show ?case unfolding e using i1 i2 m by (cases "?s = -1"; cases sk) (simp_all only: if_True if_False prod.case simp_thms)
qed (simp add: same_memory_def)

text \<open>What connecting makes of a context without a socket.\<close>

lemma block_bit: "x AND REDIS_BLOCK \<noteq> 0 \<longleftrightarrow> bit x 0"
proof -
  have "x AND REDIS_BLOCK = of_bool (bit x 0)" unfolding REDIS_BLOCK_def by (simp add: and_one_eq odd_iff_mod_2_eq_one bit_0)
  then show ?thesis by simp
qed

lemma connected_bit: "bit (x OR REDIS_CONNECTED) 0 = bit x 0"
  by (simp add: REDIS_CONNECTED_def bit_or_iff)

lemma connect_ctx:
  assumes c: "ctx_inv c" "c_reader c = Some r" "r_err r = 0"
    and m: "redisContextConnectTcp c w resolved t = (c', w', ok)"
  shows "ctx_inv c'" "bit (c_flags c') 0 = bit (c_flags c) 0" "same_memory w w'" "c_reader c' = Some r" "unsent c' = unsent c"
proof -
  have d: "c_obuf c' = c_obuf c \<and> c_reader c' = c_reader c \<and> bit (c_flags c') 0 = bit (c_flags c) 0 \<and> same_memory w w'"
  proof (cases resolved)
    case (Inl msg)
    with m c show ?thesis by (auto simp: redisContextConnectTcp_def same_memory_def)
  next
    case (Inr n)
    with m have e: "connect_loop c w (c_flags c AND REDIS_BLOCK \<noteq> 0) t n = (c', w', ok)"
      by (simp add: redisContextConnectTcp_def)
    from loop_adopts [of w c "c_flags c AND REDIS_BLOCK \<noteq> 0" t n] loop_memory [of w c "c_flags c AND REDIS_BLOCK \<noteq> 0" t n]
    show ?thesis unfolding e by (auto simp: adopts_def connected_bit split: if_splits)
  qed
  with c show "ctx_inv c'" "bit (c_flags c') 0 = bit (c_flags c) 0" "same_memory w w'" "c_reader c' = Some r" "unsent c' = unsent c"
    by (auto simp: unsent_def ctx_inv_def)
qed

lemma memory_now:
  assumes "memory_ok w"
  shows "good_alloc (w_alloc w (w_now w))" "al_total (w_alloc w (w_now w))" "w_objects w (w_now w) = (\<lambda>_. True)"
  using assms by (simp_all add: memory_ok_def)

lemma new_reader:
  assumes w: "memory_ok w"
  shows "\<exists>r. redisReaderCreate (w_objects w (w_now w) 1) (w_alloc w (w_now w)) = Inr (Some r)
    \<and> reader_inv r \<and> r_err r = 0 \<and> ridx (r_tasks r) = -1 \<and> unread r = []"
proof -
  note mem = memory_now [OF w]
  obtain b where b: "sdsempty (w_alloc w (w_now w)) = Inr (Some b)" "sds_inv b" "sds_str b = []"
    using empty_total [OF mem(2,1)] empty_holds [OF mem(1)]
    by (cases "(sdsempty (w_alloc w (w_now w)), [] :: string)" rule: holds.cases) auto
  have "sds_len b = 0" using sds_str_length [OF b(2)] b(3) by simp
  then have "reader_inv \<lparr>r_err = 0, r_errstr = [], r_buf = Some b, r_pos = 0, r_len = 0, r_maxbuf = REDIS_READER_MAX_BUF,
      r_tasks = no_tasks\<rparr>"
    using b(2) by (simp add: reader_inv_def rd_ok_def no_tasks_def ts_ok_def)
  then show ?thesis
    using b mem(3) by (simp add: redisReaderCreate_def no_tasks_def unread_def)
qed

lemma new_context:
  assumes w: "memory_ok w"
  shows "\<exists>c r. redisContextInit w = Inr (Some c) \<and> ctx_inv c \<and> c_flags c = 0 \<and> c_err c = 0 \<and> unsent c = []
    \<and> c_reader c = Some r \<and> reader_inv r \<and> r_err r = 0 \<and> ridx (r_tasks r) = -1 \<and> unread r = []"
proof -
  note mem = memory_now [OF w]
  obtain b where b: "sdsempty (w_alloc w (w_now w)) = Inr (Some b)" "sds_inv b" "sds_str b = []"
    using empty_total [OF mem(2,1)] empty_holds [OF mem(1)]
    by (cases "(sdsempty (w_alloc w (w_now w)), [] :: string)" rule: holds.cases) auto
  from new_reader [OF w] obtain r where
    r: "redisReaderCreate (w_objects w (w_now w) 1) (w_alloc w (w_now w)) = Inr (Some r)"
    "reader_inv r" "r_err r = 0" "ridx (r_tasks r) = -1" "unread r = []" by blast
  with b mem(3) show ?thesis
    by (auto simp: redisContextInit_def ctx_inv_def unsent_def)
qed

text \<open>A blocking connection either reports an error or is ready for requests.\<close>

lemma blocking_connect_ok:
  assumes w: "memory_ok w"
  shows "\<exists>c w'. redisConnectWithTimeout w resolved tv = Inr (c, w') \<and> memory_ok w' \<and> same_memory w w'
    \<and> (c_err c = 0 \<longrightarrow> ctx_idle c \<and> unsent c = [])"
proof -
  from new_context [OF w] obtain c r where
    c: "redisContextInit w = Inr (Some c)" "ctx_inv c" "c_flags c = 0" "c_err c = 0" "unsent c = []" "c_reader c = Some r"
    and r: "reader_inv r" "r_err r = 0" "ridx (r_tasks r) = -1" "unread r = []" by blast
  let ?c = "c\<lparr>c_flags := c_flags c OR REDIS_BLOCK\<rparr>"
  have i: "ctx_inv ?c" "c_reader ?c = Some r" "unsent ?c = []" "bit (c_flags ?c) 0"
    using c by (simp_all add: ctx_inv_def unsent_def REDIS_BLOCK_def bit_0)
  obtain c' w' ok where m: "redisContextConnectTcp ?c w resolved (Some tv) = (c', w', ok)"
    by (cases "redisContextConnectTcp ?c w resolved (Some tv)")
  note k = connect_ctx [OF i(1,2) r(2) m]
  have "redisConnectWithTimeout w resolved tv = Inr (c', w')"
    unfolding redisConnectWithTimeout_def init_and_connect_def c(1) using m by simp
  moreover have "ctx_idle c'" if "c_err c' = 0"
    using that k(1,2,4) i(4) r by (simp add: ctx_idle_def idle_def block_bit)
  ultimately show ?thesis using k(3,5) i(3) same_memory_ok [OF w k(3)] by auto
qed

end
