(* ===== verification/Yaul_Redis.thy ===== *)
theory Yaul_Redis
  imports Yaul_Statistics Connect
begin

text \<open>
  Logging to Redis: the commands each datagram means, that the server sends exactly these, and the whole program on
  a Redis server that answers.
\<close>

section \<open>One message\<close>

text \<open>An idle connection, and a server that takes a command in system call \<open>k\<close> and answers in the next.\<close>

definition redis_idle :: "logger \<Rightarrow> bool" where
  "redis_idle st \<longleftrightarrow> memory_ok (kernel st) \<and> (\<exists>c. redis_context st = Some c \<and> ctx_idle c \<and> unsent c = [])"

definition serves :: "world \<Rightarrow> nat \<Rightarrow> string list \<Rightarrow> reply \<Rightarrow> bool" where
  "serves w k args x \<longleftrightarrow> int (length (encode (command_reply args))) \<le> fst (w_ret w k) \<and> fst (w_ret w (Suc k)) \<noteq> -1
     \<and> snd (snd (w_ret w (Suc k))) = encode x \<and> length (encode x) \<le> 16384 \<and> wire_ok 8 x"

definition log_key :: "env \<Rightarrow> string \<Rightarrow> string" where
  "log_key env name = name @ ''.'' @ e_logtime env"

lemma lpush_args:
  assumes "NUL \<notin> set name" "NUL \<notin> set (e_logtime env)" "NUL \<notin> set message"
  shows "fmt_args ''LPUSH %s.%s %s'' [VStr (name @ [NUL]), VStr (e_logtime env @ [NUL]), VStr (message @ [NUL])] [] False []
    = Some [''LPUSH'', log_key env name, message]"
  using assms by (simp add: log_key_def)

lemma expire_args:
  assumes "NUL \<notin> set name" "NUL \<notin> set (e_logtime env)"
  shows "fmt_args ''EXPIRE %s.%s %u'' [VStr (name @ [NUL]), VStr (e_logtime env @ [NUL]), VInt t] [] False []
    = Some [''EXPIRE'', log_key env name, dec (nat (t mod 2 ^ 32))]"
  using assms by (simp add: log_key_def int_conv_def)

lemma redis_call_ok:
  assumes st: "redis_idle st" and n: "e_rounds env \<noteq> 0" and f: "NUL \<notin> set f" "fmt_args f ap [] False [] = Some args"
    and s: "serves (kernel st) (w_now (kernel st)) args x"
  shows "\<exists>c' w'. redis_call env f ap st = Inr (st\<lparr>redis_context := Some c', kernel := w'\<rparr>, Some x)
    \<and> memory_ok w' \<and> ctx_idle c' \<and> unsent c' = [] \<and> wire w' = wire (kernel st) @ encode (command_reply args)
    \<and> w_ret w' = w_ret (kernel st) \<and> w_now w' = Suc (Suc (w_now (kernel st)))"
proof -
  obtain c where c: "redis_context st = Some c" "ctx_idle c" "unsent c = []" and w: "memory_ok (kernel st)"
    using st by (auto simp: redis_idle_def)
  obtain m where m: "e_rounds env = Suc m" using n by (cases "e_rounds env") auto
  from s have s': "int (length (unsent c @ encode (command_reply args))) \<le> fst (w_ret (kernel st) (w_now (kernel st)))"
    "fst (w_ret (kernel st) (Suc (w_now (kernel st)))) \<noteq> -1"
    "snd (snd (w_ret (kernel st) (Suc (w_now (kernel st))))) = encode x" "length (encode x) \<le> 16384" "wire_ok 8 x"
    by (auto simp: serves_def c)
  from request_reply_ok [OF c(2) w f s', of m "e_pf env"] c(1,3) m show ?thesis
    by (auto simp: redis_call_def)
qed

text \<open>The commands for one message, and a server that answers a list of commands.\<close>

definition push_commands :: "yaulConfig \<Rightarrow> env \<Rightarrow> string \<Rightarrow> string \<Rightarrow> string list list" where
  "push_commands c env name message =
     [''LPUSH'', log_key env name, message]
     # (if 0 < redis_ttl c then [[''EXPIRE'', log_key env name, dec (nat (redis_ttl c mod 2 ^ 32))]] else [])"

fun serves_all :: "world \<Rightarrow> nat \<Rightarrow> string list list \<Rightarrow> bool" where
  "serves_all w k [] \<longleftrightarrow> True"
| "serves_all w k (cmd # cmds) \<longleftrightarrow> (\<exists>x. serves w k cmd x) \<and> serves_all w (Suc (Suc k)) cmds"

definition on_wire :: "string list list \<Rightarrow> string" where
  "on_wire cmds = concat (map (\<lambda>c. encode (command_reply c)) cmds)"

lemma on_wire_simps [simp]:
  "on_wire [] = []" "on_wire (c # cs) = encode (command_reply c) @ on_wire cs"
  "on_wire (cs @ ds) = on_wire cs @ on_wire ds"
  by (simp_all add: on_wire_def)

lemma serves_all_append [simp]:
  "serves_all w k (cs @ ds) \<longleftrightarrow> serves_all w k cs \<and> serves_all w (k + 2 * length cs) ds"
  by (induction cs arbitrary: k) (auto simp: add.commute)

lemma serves_cong: "w_ret w = w_ret w' \<Longrightarrow> serves w k c x = serves w' k c x"
  by (simp add: serves_def)

lemma serves_all_cong: "w_ret w = w_ret w' \<Longrightarrow> serves_all w k cs = serves_all w' k cs"
proof (induction cs arbitrary: k)
  case (Cons c cs)
  have "serves w k c = serves w' k c" by (rule ext) (rule serves_cong, rule Cons.prems)
  with Cons show ?case by simp
qed simp

text \<open>What successful exchanges change: the connection, the kernel, the count of messages by \<open>n\<close>, the system log.\<close>

definition sent :: "string list list \<Rightarrow> u32 \<Rightarrow> logger \<Rightarrow> logger \<Rightarrow> bool" where
  "sent cmds n st st' \<longleftrightarrow> redis_idle st'
     \<and> (\<exists>c w l. st' = st\<lparr>redis_context := c, kernel := w, stat_messages_handled := stat_messages_handled st + n, sys_log := l\<rparr>)
     \<and> wire (kernel st') = wire (kernel st) @ on_wire cmds
     \<and> w_ret (kernel st') = w_ret (kernel st) \<and> w_now (kernel st') = w_now (kernel st) + 2 * length cmds"

lemma sentI:
  assumes "redis_idle st'" "st' = st\<lparr>redis_context := c, kernel := w, stat_messages_handled := stat_messages_handled st + n\<rparr>"
    "wire w = wire (kernel st) @ on_wire cmds" "w_ret w = w_ret (kernel st)" "w_now w = w_now (kernel st) + 2 * length cmds"
  shows "sent cmds n st st'"
proof -
  have "st' = st\<lparr>redis_context := c, kernel := w, stat_messages_handled := stat_messages_handled st + n, sys_log := sys_log st\<rparr>"
    unfolding assms(2) by (cases st) simp
  then have "\<exists>c w l. st' = st\<lparr>redis_context := c, kernel := w, stat_messages_handled := stat_messages_handled st + n, sys_log := l\<rparr>"
    by blast
  with assms show ?thesis unfolding sent_def by simp
qed

lemma sent_trans:
  assumes "sent cs n st st1" "sent ds m st1 st2"
  shows "sent (cs @ ds) (n + m) st st2"
proof -
  obtain c w l d v k where
    "st1 = st\<lparr>redis_context := c, kernel := w, stat_messages_handled := stat_messages_handled st + n, sys_log := l\<rparr>"
    "st2 = st1\<lparr>redis_context := d, kernel := v, stat_messages_handled := stat_messages_handled st1 + m, sys_log := k\<rparr>"
    using assms by (auto simp: sent_def)
  then have "st2 = st\<lparr>redis_context := d, kernel := v, stat_messages_handled := stat_messages_handled st + (n + m), sys_log := k\<rparr>"
    by (simp add: add.assoc)
  then have "\<exists>c w l. st2 = st\<lparr>redis_context := c, kernel := w, stat_messages_handled := stat_messages_handled st + (n + m), sys_log := l\<rparr>"
    by blast
  with assms show ?thesis by (simp add: sent_def)
qed

lemma sent_fields:
  assumes "sent cs n st st'"
  shows "redis_idle st'" "config st' = config st" "exited st' = exited st"
    "stat_messages_handled st' = stat_messages_handled st + n" "wire (kernel st') = wire (kernel st) @ on_wire cs"
    "w_ret (kernel st') = w_ret (kernel st)" "w_now (kernel st') = w_now (kernel st) + 2 * length cs"
    "st'\<lparr>redis_context := c, kernel := w, stat_messages_handled := m, sys_log := l\<rparr>
      = st\<lparr>redis_context := c, kernel := w, stat_messages_handled := m, sys_log := l\<rparr>"
  using assms by (auto simp: sent_def)

lemma sent_log:
  assumes "redis_idle st"
  shows "sent [] 0 st (log_line x st)"
proof -
  have "log_line x st = st\<lparr>redis_context := redis_context st, kernel := kernel st,
      stat_messages_handled := stat_messages_handled st + 0, sys_log := sys_log (log_line x st)\<rparr>"
    by (cases st) (simp add: log_line_def)
  then have "\<exists>c w l. log_line x st = st\<lparr>redis_context := c, kernel := w, stat_messages_handled := stat_messages_handled st + 0,
      sys_log := l\<rparr>" by blast
  moreover have "redis_idle (log_line x st)" "kernel (log_line x st) = kernel st"
    using assms by (simp_all add: redis_idle_def log_line_def)
  ultimately show ?thesis unfolding sent_def by simp
qed

lemma sent_none: "redis_idle st \<Longrightarrow> sent [] 0 st st"
  by (rule sentI [where c = "redis_context st" and w = "kernel st"]) (auto intro: logger.equality)

lemma redis_message_ok:
  assumes st: "redis_idle st" and n: "e_rounds env \<noteq> 0"
    and z: "NUL \<notin> set name" "NUL \<notin> set (e_logtime env)" "NUL \<notin> set message"
    and s: "serves_all (kernel st) (w_now (kernel st)) (push_commands (config st) env name message)"
  shows "\<exists>st'. logMessageRedis env name message st = Inr st' \<and> sent (push_commands (config st) env name message) 1 st st'"
proof -
  have nul: "NUL \<notin> set ''LPUSH %s.%s %s''" "NUL \<notin> set ''EXPIRE %s.%s %u''" by simp_all
  from s obtain x where x: "serves (kernel st) (w_now (kernel st)) [''LPUSH'', log_key env name, message] x"
    unfolding push_commands_def serves_all.simps by blast
  from redis_call_ok [OF st n nul(1) lpush_args [OF z] x] obtain c1 w1 where
    l: "redis_call env ''LPUSH %s.%s %s'' [VStr (name @ [NUL]), VStr (e_logtime env @ [NUL]), VStr (message @ [NUL])] st
      = Inr (st\<lparr>redis_context := Some c1, kernel := w1\<rparr>, Some x)" "memory_ok w1" "ctx_idle c1" "unsent c1 = []"
    "wire w1 = wire (kernel st) @ encode (command_reply [''LPUSH'', log_key env name, message])"
    "w_ret w1 = w_ret (kernel st)" "w_now w1 = Suc (Suc (w_now (kernel st)))"
    by blast
  define st2 where "st2 = st\<lparr>redis_context := Some c1, kernel := w1, stat_messages_handled := stat_messages_handled st + 1\<rparr>"
  have i2: "redis_idle st2" using l(2-4) by (simp add: redis_idle_def st2_def)
  have w2: "kernel st2 = w1" by (simp add: st2_def)
  let ?ex = "[''EXPIRE'', log_key env name, dec (nat (redis_ttl (config st) mod 2 ^ 32))]"
  show ?thesis
  proof (cases "0 < redis_ttl (config st)")
    case False
    then have p: "push_commands (config st) env name message = [[''LPUSH'', log_key env name, message]]"
      by (simp add: push_commands_def)
    have "logMessageRedis env name message st = Inr st2"
      using l(1) False by (simp add: logMessageRedis_def free_reply_def st2_def)
    moreover have "sent [[''LPUSH'', log_key env name, message]] 1 st st2"
      by (rule sentI [OF i2 st2_def]) (simp_all add: l(5-7) del: encode.simps)
    ultimately show ?thesis unfolding p by blast
  next
    case True
    then have p: "push_commands (config st) env name message = [[''LPUSH'', log_key env name, message], ?ex]"
      by (simp add: push_commands_def)
    obtain y where "serves (kernel st) (Suc (Suc (w_now (kernel st)))) ?ex y"
      using s unfolding p serves_all.simps by blast
    then have "serves (kernel st2) (w_now (kernel st2)) ?ex y"
      unfolding w2 l(7) using serves_cong [OF l(6)] by blast
    from redis_call_ok [OF i2 n nul(2) expire_args [OF z(1,2)] this] obtain c3 w3 where
      e: "redis_call env ''EXPIRE %s.%s %u'' [VStr (name @ [NUL]), VStr (e_logtime env @ [NUL]), VInt (redis_ttl (config st))] st2
        = Inr (st2\<lparr>redis_context := Some c3, kernel := w3\<rparr>, Some y)" "memory_ok w3" "ctx_idle c3" "unsent c3 = []"
      "wire w3 = wire w1 @ encode (command_reply ?ex)" "w_ret w3 = w_ret w1" "w_now w3 = Suc (Suc (w_now w1))"
      unfolding w2 by blast
    have "logMessageRedis env name message st = Inr (st2\<lparr>redis_context := Some c3, kernel := w3\<rparr>)"
    proof -
      have "config st2 = config st" by (simp add: st2_def)
      with l(1) e(1) True show ?thesis
        by (simp add: logMessageRedis_def free_reply_def Let_def st2_def [symmetric] del: encode.simps)
    qed
    moreover have "redis_idle (st2\<lparr>redis_context := Some c3, kernel := w3\<rparr>)" using e(2-4) by (simp add: redis_idle_def)
    then have "sent [[''LPUSH'', log_key env name, message], ?ex] 1 st (st2\<lparr>redis_context := Some c3, kernel := w3\<rparr>)"
      by (rule sentI [where c = "Some c3" and w = w3]) (simp_all add: l(5-7) e(5-7) st2_def del: encode.simps)
    ultimately show ?thesis unfolding p by blast
  qed
qed

section \<open>The server loop\<close>

text \<open>The commands for a text: where it goes, and the line with its time and sender.\<close>

definition message_commands :: "yaulConfig \<Rightarrow> env \<Rightarrow> string \<Rightarrow> u32 \<Rightarrow> string \<Rightarrow> string list list" where
  "message_commands c env addr prt s = push_commands c env (fst (dest s)) (log_text (e_loctime env) addr prt (snd (dest s)))"

text \<open>Texts without a NUL, and a wait for replies of at least one round.\<close>

definition redis_env :: "env \<Rightarrow> bool" where
  "redis_env env \<longleftrightarrow> e_rounds env \<noteq> 0 \<and> NUL \<notin> set (e_loctime env) \<and> NUL \<notin> set (e_logtime env) \<and> length (e_loctime env) \<le> 19"

lemma dest_nul: "NUL \<notin> set s \<Longrightarrow> NUL \<notin> set (fst (dest s)) \<and> NUL \<notin> set (snd (dest s))"
proof -
  assume s: "NUL \<notin> set s"
  obtain k nm msg where sc: "scan_line s = (k, nm, msg)" by (cases "scan_line s")
  show ?thesis
  proof (cases "k = 2")
    case True
    with sc have "scan_line s = (2, nm, msg)" by simp
    then show ?thesis using s sc True unfolding scan_spec by (auto simp: dest_def)
  qed (use s sc in \<open>simp add: dest_def\<close>)
qed

lemma redis_log_ok:
  assumes st: "redis_idle st" "opt_redis (config st) \<noteq> 0" and env: "redis_env env"
    and b: "NUL \<in> set buffer" "cstr buffer = s" and s: "NUL \<notin> set s" "length (fst (snd (scan_line s))) < NAMELENGTH"
    and a: "NUL \<notin> set addr" and len: "length (log_text (e_loctime env) addr prt (snd (dest s))) < MAXLENGTH"
    and k: "serves_all (kernel st) (w_now (kernel st)) (message_commands (config st) env addr prt s)"
  shows "\<exists>st'. logMessage env buffer addr prt st = Inr st' \<and> sent (message_commands (config st) env addr prt s) 1 st st'"
proof -
  obtain k nm msg where sc: "scan_line s = (k, nm, msg)" by (cases "scan_line s")
  let ?x = "log_text (e_loctime env) addr prt (snd (dest s))"
  have e: "logMessage env buffer addr prt st = logMessageRedis env (fst (dest s)) ?x st"
    using b s len sc st(2)
    by (cases "k = 2") (simp_all add: logMessage_def dest_def Let_def)
  have r: "e_rounds env \<noteq> 0" "NUL \<notin> set (e_logtime env)" using env by (simp_all add: redis_env_def)
  have "NUL \<notin> set ?x" using a env dest_nul [OF s(1)] dec_NUL by (simp add: redis_env_def log_text_def)
  from redis_message_ok [OF st(1) r(1) _ r(2) this, of "fst (dest s)"] dest_nul [OF s(1)] k
  show ?thesis unfolding e message_commands_def by blast
qed

text \<open>
  What a server in state \<open>st\<close> that has handled \<open>n\<close> messages sends: the commands of every datagram and, whenever the
  count becomes a multiple of the interval, those of the statistics. A receive error or \<open>SIGHUP\<close> sends nothing.
\<close>

definition report_commands :: "logger \<Rightarrow> env \<Rightarrow> u32 \<Rightarrow> string list list" where
  "report_commands st env m = message_commands (config st) env (address (config st)) (port (config st))
     (statistics_text env (st\<lparr>stat_messages_handled := m\<rparr>))"

fun redis_log :: "logger \<Rightarrow> (env \<times> env \<times> event) list \<Rightarrow> u32 \<Rightarrow> string list list" where
  "redis_log st [] n = []"
| "redis_log st ((env, env2, what) # evs) n =
     (case what of
        Datagram data addr prt \<Rightarrow>
          message_commands (config st) env addr (ucast prt) data
          @ (if due (config st) (n + 1) then report_commands st env2 (n + 1) @ redis_log st evs (n + 2)
             else redis_log st evs (n + 1))
      | _ \<Rightarrow> redis_log st evs n)"

definition redis_accepts :: "env \<times> env \<times> event \<Rightarrow> bool" where
  "redis_accepts x \<longleftrightarrow> (case x of (env, env2, what) \<Rightarrow>
     redis_env env \<and> redis_env env2 \<and> length (e_average env2) \<le> 350 \<and> NUL \<notin> set (e_average env2) \<and>
     (case what of
        Datagram data addr prt \<Rightarrow> NUL \<notin> set data \<and> length data < BUF \<and> length (fst (snd (scan_line data))) < NAMELENGTH
          \<and> NUL \<notin> set addr \<and> length addr \<le> 15
      | RecvError \<Rightarrow> True
      | Sighup \<Rightarrow> True
      | _ \<Rightarrow> False))"

definition redis_config :: "yaulConfig \<Rightarrow> bool" where
  "redis_config c \<longleftrightarrow> opt_redis c \<noteq> 0 \<and> length (address c) \<le> 64 \<and> NUL \<notin> set (address c)"

lemma redis_statistics_ok:
  assumes st: "redis_idle st" "redis_config (config st)" and env: "redis_env env" "length (e_average env) \<le> 350" "NUL \<notin> set (e_average env)"
    and k: "serves_all (kernel st) (w_now (kernel st)) (message_commands (config st) env (address (config st)) (port (config st)) (statistics_text env st))"
  shows "\<exists>st'. statistics env st = Inr st'
    \<and> sent (message_commands (config st) env (address (config st)) (port (config st)) (statistics_text env st)) 1 st st'"
proof -
  let ?t = "statistics_text env st"
  note len = statistics_length [OF env(2), of st]
  obtain body where sc: "scan_line ?t = (2, ''yaul.stat'', body)" "length body \<le> length ?t"
    using statistics_scan by blast
  have nul: "NUL \<notin> set ?t" using env(3) dec_NUL by (simp add: statistics_text_def)
  have d: "dest ?t = (''yaul.stat'', body)" by (simp add: dest_def sc(1))
  have f: "length (fst (snd (scan_line ?t))) < NAMELENGTH" using sc(1) by (simp add: NAMELENGTH_def)
  have o: "opt_redis (config st) \<noteq> 0" "NUL \<notin> set (address (config st))" "length (address (config st)) \<le> 64"
    using st(2) by (simp_all add: redis_config_def)
  have l: "length (log_text (e_loctime env) (address (config st)) (port (config st)) (snd (dest ?t))) < MAXLENGTH"
    using len sc(2) o(3) env(1) dec_u32 [of "port (config st)"] by (simp add: d log_text_def redis_env_def MAXLENGTH_def)
  have b: "NUL \<in> set (?t @ [NUL])" "cstr (?t @ [NUL]) = ?t" using nul by auto
  have "statistics env st = logMessage env (?t @ [NUL]) (address (config st)) (port (config st)) st"
    using len by (simp add: statistics_def Let_def BUF_def)
  with redis_log_ok [OF st(1) o(1) env(1) b nul f o(2) l k] show ?thesis by simp
qed

lemma redis_step_ok:
  assumes st: "redis_idle st" "redis_config (config st)" "exited st = None" and acc: "redis_accepts (env, env2, what)"
    and k: "serves_all (kernel st) (w_now (kernel st)) (redis_log st [(env, env2, what)] (stat_messages_handled st))"
  shows "\<exists>st' n. serverLoop_step env env2 what st = Inr st' \<and> sent (redis_log st [(env, env2, what)] (stat_messages_handled st)) n st st'
    \<and> (\<forall>evs. redis_log st ((env, env2, what) # evs) (stat_messages_handled st)
         = redis_log st [(env, env2, what)] (stat_messages_handled st) @ redis_log st evs (stat_messages_handled st + n))"
proof (cases what)
  case (Datagram data addr prt)
  have a: "redis_env env" "redis_env env2" "length (e_average env2) \<le> 350" "NUL \<notin> set (e_average env2)"
    "NUL \<notin> set data" "length data < BUF" "length (fst (snd (scan_line data))) < NAMELENGTH" "NUL \<notin> set addr" "length addr \<le> 15"
    using acc by (auto simp: redis_accepts_def Datagram)
  have lt: "length (e_loctime env) \<le> 19" using a(1) by (simp add: redis_env_def)
  have o: "opt_redis (config st) \<noteq> 0" using st(2) by (simp add: redis_config_def)
  let ?c = "message_commands (config st) env addr (ucast prt) data" and ?m = "stat_messages_handled st + 1"
  have k1: "serves_all (kernel st) (w_now (kernel st)) ?c" using k by (auto simp: Datagram split: if_splits)
  obtain st1 where s1: "logMessage env (received data) addr (ucast prt) st = Inr st1" "sent ?c 1 st st1"
    using redis_log_ok [OF st(1) o a(1) received_ok [OF a(5,6)] a(5,7,8) line_fits [OF lt a(9,6), of prt] k1] by blast
  note f1 = sent_fields [OF s1(2)]
  show ?thesis
  proof (cases "due (config st) ?m")
    case True
    have t: "statistics_text env2 st1 = statistics_text env2 (st\<lparr>stat_messages_handled := ?m\<rparr>)"
      using s1(2) by (auto simp: sent_def statistics_text_def)
    have r: "report_commands st env2 ?m
        = message_commands (config st1) env2 (address (config st1)) (port (config st1)) (statistics_text env2 st1)"
      unfolding report_commands_def t f1(2) ..
    have "serves_all (kernel st) (w_now (kernel st) + 2 * length ?c) (report_commands st env2 ?m)"
      using k True by (simp add: Datagram)
    then have "serves_all (kernel st1) (w_now (kernel st1)) (report_commands st env2 ?m)"
      unfolding f1(7) serves_all_cong [OF f1(6)] .
    with redis_statistics_ok [OF f1(1) _ a(2-4)] st(2) obtain st2 where
      s2: "statistics env2 st1 = Inr st2" "sent (report_commands st env2 ?m) 1 st1 st2"
      unfolding r f1(2) by blast
    have "serverLoop_step env env2 what st = Inr st2"
      using s1(1) s2(1) True st(3) unfolding serverLoop_step_def Datagram by (simp add: f1(2-4) due_def)
    moreover have "sent (?c @ report_commands st env2 ?m) (1 + 1) st st2" by (rule sent_trans [OF s1(2) s2(2)])
    ultimately show ?thesis using True by (intro exI [of _ st2] exI [of _ "1 + 1"]) (simp add: Datagram)
  next
    case False
    then have "serverLoop_step env env2 what st = Inr st1"
      using s1(1) st(3) unfolding serverLoop_step_def Datagram by (auto simp: f1(2-4) due_def)
    with s1(2) False show ?thesis by (intro exI [of _ st1] exI [of _ 1]) (simp add: Datagram)
  qed
next
  case RecvError
  with sent_log [OF st(1)] show ?thesis
    by (intro exI [of _ "log_line ''cannot receive data'' st"] exI [of _ 0]) (simp add: serverLoop_step_def)
next
  case Sighup
  have "opt_redis (config (log_line ''caught SIGHUP'' st)) \<noteq> 0" using st(2) by (simp add: redis_config_def)
  with Sighup sent_log [OF st(1)] show ?thesis
    by (intro exI [of _ "log_line ''caught SIGHUP'' st"] exI [of _ 0]) (simp add: serverLoop_step_def sig_hup_def closeAllFiles_def)
qed (use acc in \<open>auto simp: redis_accepts_def\<close>)

text \<open>What is sent depends on the configuration, the counts of files and the time of the start only.\<close>

lemma redis_log_cong:
  assumes "config st' = config st" "stat_files_opened st' = stat_files_opened st" "stat_files_closed st' = stat_files_closed st"
    "stat_files_switched st' = stat_files_switched st" "stat_start_time st' = stat_start_time st"
  shows "redis_log st' evs m = redis_log st evs m"
proof (induction evs arbitrary: m)
  case (Cons x evs)
  obtain env env2 what where x: "x = (env, env2, what)" by (cases x)
  have "statistics_text env2 (st'\<lparr>stat_messages_handled := k\<rparr>) = statistics_text env2 (st\<lparr>stat_messages_handled := k\<rparr>)" for k
    using assms by (simp add: statistics_text_def)
  then show ?case unfolding x using Cons.IH
    by (simp add: report_commands_def assms(1) split: event.split)
qed simp

lemma redis_log_sent: "sent cs n st st' \<Longrightarrow> redis_log st' evs m = redis_log st evs m"
  by (rule redis_log_cong) (auto simp: sent_def)

lemma redis_serve_ok:
  assumes "redis_idle st" "redis_config (config st)" "exited st = None" "\<forall>x \<in> set evs. redis_accepts x"
    and "serves_all (kernel st) (w_now (kernel st)) (redis_log st evs (stat_messages_handled st))"
  shows "\<exists>st' n. serverLoop evs st = Inr st' \<and> sent (redis_log st evs (stat_messages_handled st)) n st st'"
  using assms
proof (induction evs arbitrary: st)
  case Nil
  then show ?case using sent_none by auto
next
  case (Cons x evs)
  obtain env env2 what where x: "x = (env, env2, what)" by (cases x)
  let ?n = "stat_messages_handled st"
  have "serves_all (kernel st) (w_now (kernel st)) (redis_log st [x] ?n)"
    using Cons.prems(5) by (auto simp: x split: event.splits if_splits)
  with redis_step_ok [OF Cons.prems(1-3), of env env2 what] Cons.prems(4) x obtain st1 n where
    s1: "serverLoop_step env env2 what st = Inr st1" "sent (redis_log st [x] ?n) n st st1"
      "redis_log st (x # evs) ?n = redis_log st [x] ?n @ redis_log st evs (?n + n)"
    by auto
  note f1 = sent_fields [OF s1(2)]
  have "serves_all (kernel st1) (w_now (kernel st1)) (redis_log st1 evs (stat_messages_handled st1))"
    using Cons.prems(5) unfolding s1(3) serves_all_append f1(4,7) redis_log_sent [OF s1(2)] serves_all_cong [OF f1(6)] by blast
  moreover have "redis_config (config st1)" "exited st1 = None" using Cons.prems(2,3) f1 by simp_all
  ultimately obtain st2 m where s2: "serverLoop evs st1 = Inr st2" "sent (redis_log st1 evs (stat_messages_handled st1)) m st1 st2"
    using Cons.IH [OF f1(1)] Cons.prems(4) by auto
  have "sent (redis_log st (x # evs) ?n) (n + m) st st2"
    using sent_trans [OF s1(2) s2(2) [unfolded f1(4) redis_log_sent [OF s1(2)]]] unfolding s1(3) .
  moreover have "serverLoop (x # evs) st = Inr st2" using s1(1) s2(1) Cons.prems(3) by (simp add: x)
  ultimately show ?case by blast
qed

section \<open>The whole program\<close>

text \<open>The connection \<open>initServer\<close> makes, if there is no error; connecting itself writes nothing.\<close>

definition connects :: "env \<Rightarrow> world \<Rightarrow> redisContext \<Rightarrow> world \<Rightarrow> bool" where
  "connects env w x w' \<longleftrightarrow> redisConnectWithTimeout w (e_resolved env) (1, 500000) = Inr (x, w') \<and> c_err x = 0"

lemma connects_ok:
  assumes "memory_ok w" "connects env w x w'"
  shows "memory_ok w' \<and> ctx_idle x \<and> unsent x = [] \<and> wire w' = wire w"
  using blocking_connect_ok [OF assms(1), of "e_resolved env" "(1, 500000)"] assms(2)
  by (auto simp: connects_def same_memory_def)

lemma redis_start_ok:
  assumes i: "starts i c" "opt_redis c \<noteq> 0" and w: "memory_ok w" "connects (i_env i) w x w'"
  shows "\<exists>st. initServer i ((initial c w d)\<lparr>stat_start_time := now\<rparr>) = Inr st \<and> redis_idle st \<and> exited st = None
    \<and> config st = c \<and> kernel st = w' \<and> stat_messages_handled st = 0 \<and> ht_entries (handles st) = []
    \<and> (\<forall>evs m. redis_log st evs m = redis_log ((initial c w d)\<lparr>stat_start_time := now\<rparr>) evs m)"
proof -
  obtain h :: "(fkey, nat) hashtable" where h: "create_hashtable (i_malloc_h i) (i_malloc_t i) (maxhandles c) key_hash cmpKeys = Some h"
    using create_total [of "i_malloc_h i" "i_malloc_t i" "maxhandles c" key_hash cmpKeys] i(1)
    by (fastforce simp: starts_def)
  have e: "ht_entries h = []" using create_ok [OF h] by simp
  let ?st = "(initial c w d)\<lparr>stat_start_time := now, handles := h, redis_context := Some x, kernel := w'\<rparr>"
  have o: "openRedis (i_env i) ((initial c w d)\<lparr>stat_start_time := now, handles := h\<rparr>) = Inr ?st"
    using w(2) by (simp add: openRedis_def connects_def initial_def)
  have x: "c_err x = 0" using w(2) by (simp add: connects_def)
  have "\<exists>l. initServer i ((initial c w d)\<lparr>stat_start_time := now\<rparr>) = Inr (?st\<lparr>sys_log := l\<rparr>)"
    using i h o x by (simp add: initServer_def initial_def starts_def daemonize_server_def Let_def log_line_def)
  then obtain l where l: "initServer i ((initial c w d)\<lparr>stat_start_time := now\<rparr>) = Inr (?st\<lparr>sys_log := l\<rparr>)" by blast
  have "redis_idle (?st\<lparr>sys_log := l\<rparr>)" using connects_ok [OF w] by (simp add: redis_idle_def)
  moreover have "redis_log (?st\<lparr>sys_log := l\<rparr>) evs m = redis_log ((initial c w d)\<lparr>stat_start_time := now\<rparr>) evs m" for evs m
    by (rule redis_log_cong) simp_all
  ultimately show ?thesis using l e by (intro exI [of _ "?st\<lparr>sys_log := l\<rparr>"]) (simp add: initial_def)
qed

lemma redis_shutdown:
  assumes "opt_redis (config st) \<noteq> 0" "ht_entries (handles st) = []"
  shows "shutdownServer env st = Inr ((log_line ''exiting'' st)\<lparr>exited := Some 0\<rparr>)"
  using assms destroy_empty [of "handles st"] by (simp add: shutdownServer_def closeAllFiles_def log_line_def)

lemma redis_main_ok:
  assumes "readOptions opts = Inr (Some c)" "redis_config c" "starts i c" "memory_ok w" "connects (i_env i) w x w'"
    and "\<forall>x \<in> set evs. redis_accepts x"
    and "cmds = redis_log ((initial c w d)\<lparr>stat_start_time := now\<rparr>) evs 0" "serves_all w' (w_now w') cmds"
  shows "\<exists>st. yaul_main opts now i (evs @ [(env, env2, Sigterm)]) w d = Inr st \<and> exited st = Some 0
    \<and> wire (kernel st) = wire w @ on_wire cmds"
proof -
  have o: "opt_redis c \<noteq> 0" using assms(2) by (simp add: redis_config_def)
  from redis_start_ok [OF assms(3) o assms(4,5), of now d] obtain st0 where
    st0: "initServer i ((initial c w d)\<lparr>stat_start_time := now\<rparr>) = Inr st0" "redis_idle st0" "exited st0 = None"
      "config st0 = c" "kernel st0 = w'" "stat_messages_handled st0 = 0" "ht_entries (handles st0) = []"
      "\<And>evs m. redis_log st0 evs m = redis_log ((initial c w d)\<lparr>stat_start_time := now\<rparr>) evs m" by blast
  have cm: "cmds = redis_log st0 evs 0" using assms(7) st0(8) by simp
  from redis_serve_ok [OF st0(2), unfolded st0(4-6), OF assms(2) st0(3) assms(6)] assms(8) obtain st1 n where
    st1: "serverLoop evs st0 = Inr st1" "sent cmds n st0 st1" unfolding cm by blast
  note f1 = sent_fields [OF st1(2)]
  let ?st = "log_line ''caught SIGTERM'' st1"
  have h: "ht_entries (handles ?st) = []" "opt_redis (config ?st) \<noteq> 0" "exited st1 = None"
    using st0(3,4,7) st1(2) o by (auto simp: sent_def log_line_def)
  have "serverLoop (evs @ [(env, env2, Sigterm)]) st0 = Inr ((log_line ''exiting'' ?st)\<lparr>exited := Some 0\<rparr>)"
    using st1(1) h(3) redis_shutdown [OF h(2,1), of env] by (simp add: serverLoop_append serverLoop_step_def sig_term_def)
  moreover have "wire (kernel st1) = wire w @ on_wire cmds"
    using f1(5) st0(5) connects_ok [OF assms(4,5)] by simp
  ultimately show ?thesis using st0(1) assms(1)
    by (intro exI [of _ "(log_line ''exiting'' ?st)\<lparr>exited := Some 0\<rparr>"]) (simp add: yaul_main_def log_line_def)
qed

end
