(* ===== verification/Yaul_Properties.thy ===== *)
theory Yaul_Properties
  imports Yaul_Redis
begin

text \<open>
  The properties of the logger, with a small server on which each is evaluated: what the running server and the whole
  program write, the bound on open files, single messages, Redis, and the inputs and failures the code does
  not survive.
\<close>

section \<open>A small server\<close>

definition demo_config :: yaulConfig where
  "demo_config = setDefaultOptions\<lparr>maxhandles := 2\<rparr>"

definition demo_env :: env where
  "demo_env = \<lparr>e_malloc = True, e_fopen = True, e_iter = True,
     e_ht = \<lparr>malloc_table = True, realloc_table = True, malloc_entry = True\<rparr>, e_rand = [1, 0, 1], e_spill = 0,
     e_loctime = ''09:30:00'', e_logtime = ''2014-02-01'', e_now = 0, e_average = ''0.5'',
     e_pf = (\<lambda>_ _. []), e_resolved = Inr 1, e_rounds = 1\<rparr>"

definition demo_init :: init_env where
  "demo_init = \<lparr>i_malloc_h = True, i_malloc_t = True, i_socket = 3, i_pton = 1, i_bind = 0,
     i_daemon = \<lparr>d_pipe = 0, d_fork = 0, d_read = 1, d_retcode = 0, d_signal = []\<rparr>, i_env = demo_env\<rparr>"

abbreviation demo_start :: logger where
  "demo_start \<equiv> initial demo_config (demo_world []) (\<lambda>_. [])"

definition demo_event :: "string \<Rightarrow> env \<times> env \<times> event" where
  "demo_event s = (demo_env, demo_env, Datagram s ''10.0.0.7'' 514)"

lemma demo_starts: "starts demo_init demo_config" "opt_redis demo_config = 0" "maxhandles demo_config = 2"
    "opt_flush demo_config = 1" "opt_statistics demo_config = 0" "config demo_start = demo_config"
    "logpath demo_config = ''/var/log/yaul''"
  by (simp_all add: starts_def demo_init_def demo_config_def setDefaultOptions_def FLUSH_def initial_def LOGPATH_def)

lemma demo_server: "server_ok demo_start"
  by (simp add: server_ok_def demo_starts name_ok_def log_path_def NAMELENGTH_def PATHLENGTH_def)
    (simp add: demo_config_def setDefaultOptions_def ADDRESS_def)

lemma benign_two: "maxhandles (config st) = 2 \<Longrightarrow> benign demo_env st"
proof -
  have "covers [1, 0, 1] k" if "k \<le> 2" for k
  proof -
    from that consider "k = 0" | "k = 1" | "k = 2" by linarith
    then show ?thesis by cases (auto simp: covers_def less_Suc_eq numeral_2_eq_2)
  qed
  moreover assume "maxhandles (config st) = 2"
  ultimately show ?thesis by (simp add: benign_def demo_env_def mem_ok_def limit_def)
qed

lemma demo_benign: "config st = demo_config \<Longrightarrow> benign demo_env st"
  by (rule benign_two) (simp add: demo_starts)

text \<open>A running server, before its first datagram.\<close>

definition demo_running :: logger where
  "demo_running = log_line ''Server started''
     (demo_start\<lparr>handles := the (create_hashtable True True 2 key_hash cmpKeys)\<rparr>)"

lemma demo_running_run: "initServer demo_init (demo_start\<lparr>stat_start_time := 0\<rparr>) = Inr demo_running"
proof -
  obtain h :: "(fkey, nat) hashtable" where h: "create_hashtable True True 2 key_hash cmpKeys = Some h"
    using create_total [of True True 2 key_hash cmpKeys] by fastforce
  have "opt_daemonize demo_config = 0" by (simp add: demo_config_def setDefaultOptions_def)
  with h show ?thesis
    by (simp add: initServer_def demo_running_def initial_def demo_init_def demo_starts Let_def log_line_def)
qed

lemma demo_running_facts: "log_inv demo_running" "config demo_running = demo_config" "logged demo_running q = []"
    "lastfile demo_running = None" "exited demo_running = None" "ents demo_running = []"
proof -
  show ex: "exited demo_running = None" by (simp add: demo_running_def initial_def)
  from init_ok [OF demo_running_run ex demo_starts(2)]
  show "log_inv demo_running" "config demo_running = demo_config" "logged demo_running q = []"
    "lastfile demo_running = None" "ents demo_running = []" by blast+
qed

lemma demo_fits:
  assumes "config st = demo_config" "NUL \<notin> set s" "length (fst (snd (scan_line s))) < 255" "length (fst (dest s)) \<le> 255"
    "length s < 1500"
  shows "acceptable st (demo_event s)" "fits_log st s"
proof -
  show f: "fits_log st s" using assms by (auto simp: fits_log_def name_ok_def log_path_def NAMELENGTH_def PATHLENGTH_def
        demo_starts dest_def split: prod.splits if_splits)
  show "acceptable st (demo_event s)"
    using f demo_benign [OF assms(1)] assms(5)
    by (simp add: acceptable_def demo_event_def BUF_def) (simp add: demo_env_def)
qed

section \<open>Properties\<close>

text \<open>The server implements the abstract logger: for every sequence of datagrams that fit its buffers
  (and receive errors) it runs without any fault, keeps its invariant, and the text logged under each
  path is what \<open>spec_log\<close> says: every message, with the time and the sender, once, in order, at the end
  of the file its tag names, whatever files the limit of open files makes it close in between.\<close>

theorem server_appends:
  assumes "log_inv st" "server_ok st" "exited st = None" "\<forall>x \<in> set evs. acceptable st x"
  shows "\<exists>st'. serverLoop evs st = Inr st' \<and> log_inv st' \<and> exited st' = None
    \<and> (\<forall>q. \<not> stat_path st q \<longrightarrow> logged st' q = spec_log (config st) evs (logged st) q)"
  using serve_ok [OF assms] by auto

definition demo_events :: "(env \<times> env \<times> event) list" where
  "demo_events = map demo_event [''[a]x'', ''[b]y'', ''[c]z'', ''[a]again'', ''plain'']"

lemma demo_events_ok: "config st = demo_config \<Longrightarrow> \<forall>x \<in> set demo_events. acceptable st x"
proof -
  have "\<forall>s \<in> set [''[a]x'', ''[b]y'', ''[c]z'', ''[a]again'', ''plain'']. NUL \<notin> set s
      \<and> length (fst (snd (scan_line s))) < 255 \<and> length (fst (dest s)) \<le> 255 \<and> length s < 1500" by code_simp
  then show "config st = demo_config \<Longrightarrow> ?thesis" using demo_fits(1) by (auto simp: demo_events_def)
qed

lemma demo_log: "spec_log demo_config demo_events (\<lambda>_. []) ''/var/log/yaul/a.log''
    = ''09:30:00 [10.0.0.7:514] x'' @ [LF] @ ''09:30:00 [10.0.0.7:514] again'' @ [LF]"
  by code_simp

theorem server_appends_witness:
  "\<exists>st'. serverLoop demo_events demo_running = Inr st' \<and> log_inv st'
    \<and> logged st' ''/var/log/yaul/a.log''
      = ''09:30:00 [10.0.0.7:514] x'' @ [LF] @ ''09:30:00 [10.0.0.7:514] again'' @ [LF]"
proof -
  have "logged demo_running = (\<lambda>_. [])" using demo_running_facts(3) by blast
  moreover have "server_ok demo_running"
    using demo_server demo_running_facts(2) demo_starts(6) acceptable_config by metis
  moreover have "\<not> stat_path demo_running ''/var/log/yaul/a.log''"
    by (simp add: stat_path_def demo_running_facts demo_starts)
  ultimately show ?thesis
    using server_appends [OF demo_running_facts(1) _ demo_running_facts(5) demo_events_ok [OF demo_running_facts(2)]]
      demo_log demo_running_facts(2) by fastforce
qed

text \<open>The whole program, from its command line to \<open>SIGTERM\<close>: it starts, logs every acceptable datagram,
  exits with status 0, has by then written every logged line to the file on disk, closed every file and
  freed every block.\<close>

theorem main_logs:
  assumes "readOptions opts = Inr (Some c)" "opt_redis c = 0" "starts i c" "server_ok (initial c w d)"
    and "\<forall>x \<in> set evs. acceptable (initial c w d) x" "e_iter env"
  shows "\<exists>st. yaul_main opts now i (evs @ [(env, env2, Sigterm)]) w d = Inr st \<and> exited st = Some 0
    \<and> (\<forall>a. heap st a = None) \<and> (\<forall>f. streams st f = None)
    \<and> (\<forall>q. \<not> stat_path (initial c w d) q \<longrightarrow> disk st q = spec_log c evs d q)"
proof -
  obtain st0 where st0: "initServer i ((initial c w d)\<lparr>stat_start_time := now\<rparr>) = Inr st0" "exited st0 = None"
    using init_runs [OF assms(3,2)] by blast
  from init_ok [OF st0 assms(2)] have l0: "log_inv st0" "config st0 = c" "logged st0 = d" by auto
  have ac: "config st0 = config (initial c w d)" by (simp add: l0 initial_def)
  note ac = acceptable_config [OF ac]
  have "server_ok st0" "\<forall>x \<in> set evs. acceptable st0 x" using assms(4,5) ac by auto
  from serve_ok [OF l0(1) this(1) st0(2) this(2)] obtain st1 where
    st1: "serverLoop evs st0 = Inr st1" "log_inv st1" "config st1 = c" "exited st1 = None"
      "\<forall>q. \<not> stat_path st0 q \<longrightarrow> logged st1 q = spec_log c evs d q"
    unfolding l0(2,3) by (elim exE conjE) (rule that)
  obtain st2 where st2: "sig_term env st1 = Inr st2" "exited st2 = Some 0" "\<forall>a. heap st2 a = None"
    "\<forall>f. streams st2 f = None" "\<forall>q. disk st2 q = logged st1 q"
    using shutdown_ok [of "log_line ''caught SIGTERM'' st1" env] log_invD(1,2) [OF st1(2)] assms(6)
    by (auto simp: sig_term_def)
  have "serverLoop (evs @ [(env, env2, Sigterm)]) st0 = Inr st2"
    using st1(1,4) st2(1) by (simp add: serverLoop_append serverLoop_step_def)
  then show ?thesis
    using st0(1) assms(1) st2 st1(5) ac by (intro exI [of _ st2]) (simp add: yaul_main_def)
qed

theorem main_logs_witness:
  "\<exists>st. yaul_main [(CHR ''m'', ''2'')] 0 demo_init (demo_events @ [(demo_env, demo_env, Sigterm)]) (demo_world []) (\<lambda>_. [])
      = Inr st \<and> exited st = Some 0
    \<and> disk st ''/var/log/yaul/a.log''
      = ''09:30:00 [10.0.0.7:514] x'' @ [LF] @ ''09:30:00 [10.0.0.7:514] again'' @ [LF]"
proof -
  have o: "readOptions [(CHR ''m'', ''2'')] = Inr (Some demo_config)" by code_simp
  have it: "e_iter demo_env" by (simp add: demo_env_def)
  have ns: "\<not> stat_path demo_start ''/var/log/yaul/a.log''"
    by (simp add: stat_path_def demo_starts)
  from main_logs [OF o demo_starts(2,1) demo_server demo_events_ok [OF demo_starts(6)] it, of 0 demo_env] ns demo_log
  show ?thesis by fastforce
qed


lemma demo_running_start: "stat_messages_handled demo_running = 0" "stat_start_time demo_running = 0"
  using init_counts [OF demo_running_run demo_starts(2)] by simp_all






text \<open>One message: it is appended as one line with its time and sender, to the file its tag names, and to
  no other; it is counted; and whenever the count is a multiple of the flush interval, everything
  logged to that file so far is on disk when \<open>logMessage\<close> returns, so with an interval of 1 always.\<close>

theorem log_message_appends:
  assumes "log_inv st" "benign env st" "opt_flush (config st) \<noteq> 0" "NUL \<in> set buffer" "fits_log st (cstr buffer)"
    and "length (log_text (e_loctime env) addr prt (snd (dest (cstr buffer)))) < MAXLENGTH"
  shows "\<exists>st'. logMessage env buffer addr prt st = Inr st' \<and> log_inv st'
    \<and> (\<forall>q. logged st' q = logged st q
          @ (if q = log_path (config st) (fst (dest (cstr buffer))) then the_line env addr prt (cstr buffer) else []))
    \<and> stat_messages_handled st' = stat_messages_handled st + 1
    \<and> (stat_messages_handled st' mod opt_flush (config st) = 0 \<longrightarrow>
         disk st' (log_path (config st) (fst (dest (cstr buffer))))
           = logged st' (log_path (config st) (fst (dest (cstr buffer)))))"
  using logMessage_ok [OF assms(1-4) refl assms(5,6)] by blast

theorem log_message_appends_witness:
  "\<exists>st'. logMessage demo_env (''[app]hello'' @ [NUL]) ''10.0.0.7'' 514 demo_running = Inr st'
    \<and> disk st' ''/var/log/yaul/app.log'' = ''09:30:00 [10.0.0.7:514] hello'' @ [LF]"
proof -
  let ?b = "''[app]hello'' @ [NUL]"
  have c: "cstr ?b = ''[app]hello''" "NUL \<in> set ?b" by code_simp+
  have s: "length (fst (snd (scan_line ''[app]hello''))) < 255" "length (fst (dest ''[app]hello'')) \<le> 255"
    "NUL \<notin> set ''[app]hello''" by code_simp+
  have d: "dest ''[app]hello'' = (''app'', ''hello'')" by code_simp
  have l: "length (log_text (e_loctime demo_env) ''10.0.0.7'' 514 ''hello'') < MAXLENGTH"
    "the_line demo_env ''10.0.0.7'' 514 ''[app]hello'' = ''09:30:00 [10.0.0.7:514] hello'' @ [LF]" by code_simp+
  note f = demo_fits(2) [OF demo_running_facts(2) s(3,1,2)]
  have fl: "opt_flush (config demo_running) \<noteq> 0" by (simp add: demo_running_facts demo_starts)
  from log_message_appends [OF demo_running_facts(1) demo_benign [OF demo_running_facts(2)] fl c(2), unfolded c(1) d fst_conv snd_conv,
      OF f l(1)] show ?thesis
    using l(2) by (auto simp: demo_running_facts demo_starts log_path_def)
qed

text \<open>Which datagrams name a file: exactly those that start with a non-empty bracketed name of letters,
  digits and dots, followed by at least one character that is not a line feed; the message is the rest
  of the line.\<close>

theorem scan_line_spec:
  "scan_line s = (2, nm, msg) \<longleftrightarrow> nm \<noteq> [] \<and> msg \<noteq> [] \<and> (\<forall>c \<in> set nm. name_char c) \<and> LF \<notin> set msg
     \<and> (\<exists>r. s = CHR ''['' # nm @ CHR '']'' # msg @ r \<and> (r = [] \<or> hd r = LF))"
  by (rule scan_spec)

theorem scan_line_spec_witness:
  "scan_line (''[a.b]x]y'' @ [LF] @ ''z'') = (2, ''a.b'', ''x]y'')"
  unfolding scan_line_spec by (auto simp: name_char_def)

text \<open>C38: \<open>SIGHUP\<close> closes every file, with everything logged so far on disk, but leaves \<open>lastfile\<close> pointing to a
  freed block: any later message reads it.\<close>

theorem sighup_dangles:
  assumes "log_inv st" "e_iter env" "lastfile st \<noteq> None"
  shows "\<exists>st'. sig_hup env st = Inr st' \<and> (\<forall>q. disk st' q = logged st q)
    \<and> (\<forall>env' n x. logMessageFile env' n x st' = Inl UseAfterFree)"
  using assms by (rule hup_dangles)

lemma written_lastfile:
  assumes "logMessageFile env n x st = Inr st'"
  shows "lastfile st' \<noteq> None"
proof -
  have open_last: "openLogfile env n st = Inr (st1, fp) \<Longrightarrow> lastfile st1 \<noteq> None" for st1 fp
    by (auto simp: openLogfile_def deref_ptr_def split: option.splits)
  obtain st1 fp where o: "openLogfile env n st = Inr (st1, fp)" using assms by (auto simp: logMessageFile_def)
  have fl: "fflush s f = Inr s' \<Longrightarrow> lastfile s' = lastfile s" "fprint k s f y = Inr s' \<Longrightarrow> lastfile s' = lastfile s"
    for s f s' k y
    by (auto simp: fflush_def fprint_def with_stream_def append_disk_def Let_def split: option.splits)
  from assms o have "lastfile st' = lastfile st1"
    by (auto simp: logMessageFile_def Let_def log_line_def dest!: fl split: if_splits)
  with open_last [OF o] show ?thesis by simp
qed

lemma demo_written: "\<exists>st. logMessageFile demo_env ''app'' ''hello'' demo_running = Inr st \<and> log_inv st
    \<and> logged st ''/var/log/yaul/app.log'' = ''hello'' @ [LF] \<and> lastfile st \<noteq> None \<and> config st = demo_config"
proof -
  have n: "name_ok demo_running ''app''" "opt_flush (config demo_running) \<noteq> 0"
    by (simp_all add: name_ok_def NAMELENGTH_def PATHLENGTH_def log_path_def demo_running_facts demo_starts)
  from message_file_ok [OF demo_running_facts(1) demo_benign [OF demo_running_facts(2)] n, of "''hello''"] obtain st where
    "logMessageFile demo_env ''app'' ''hello'' demo_running = Inr st" "log_inv st" "config st = demo_config"
    "logged st ''/var/log/yaul/app.log'' = ''hello'' @ [LF]"
    by (auto simp: demo_running_facts demo_starts log_path_def)
  with written_lastfile show ?thesis by blast
qed

theorem sighup_dangles_witness:
  "\<exists>st st'. logMessageFile demo_env ''app'' ''hello'' demo_running = Inr st \<and> sig_hup demo_env st = Inr st'
    \<and> disk st' ''/var/log/yaul/app.log'' = ''hello'' @ [LF]
    \<and> logMessageFile demo_env ''app'' ''again'' st' = Inl UseAfterFree"
proof -
  obtain st where st: "logMessageFile demo_env ''app'' ''hello'' demo_running = Inr st" "log_inv st"
    "logged st ''/var/log/yaul/app.log'' = ''hello'' @ [LF]" "lastfile st \<noteq> None" using demo_written by blast
  have "e_iter demo_env" by (simp add: demo_env_def)
  from sighup_dangles [OF st(2) this st(4)] st(1,3) show ?thesis by metis
qed

text \<open>When \<open>fopen\<close> fails for a name without an open file, the new block and the old \<open>lastfile\<close> have been freed
  and the function still reads the block: the error message for this case is never reached.\<close>

theorem fopen_failure_faults:
  assumes "log_inv st" "benign env' st" "env = env'\<lparr>e_fopen := False\<rparr>" "name_ok st n" "n \<notin> set (names (ents st))"
  shows "logMessageFile env n x st = Inl UseAfterFree"
  using assms by (rule open_failure)

theorem fopen_failure_faults_witness:
  "logMessageFile (demo_env\<lparr>e_fopen := False\<rparr>) ''app'' ''hello'' demo_running = Inl UseAfterFree"
proof -
  have n: "name_ok demo_running ''app''"
    by (simp add: name_ok_def NAMELENGTH_def PATHLENGTH_def log_path_def demo_running_facts demo_starts)
  show ?thesis
    by (rule fopen_failure_faults [OF demo_running_facts(1) demo_benign [OF demo_running_facts(2)] refl n])
      (simp add: demo_running_facts)
qed

text \<open>With a flush interval of zero, which \<open>-f 0\<close> sets, every message ends in a division by zero.\<close>

theorem flush_zero_faults:
  assumes "log_inv st" "benign env st" "name_ok st n" "opt_flush (config st) = 0"
  shows "logMessageFile env n x st = Inl DivByZero"
proof -
  from open_ok [OF assms(1-3)] obtain st' f where st': "openLogfile env n st = Inr (st', Some f)" "same_log st st'"
    "current st' n f" by blast
  with assms(4) show ?thesis
    by (auto simp: logMessageFile_def current_def same_log_def fprint_def with_stream_def Let_def append_disk_def)
qed

theorem flush_zero_faults_witness:
  "\<exists>c st. readOptions [(CHR ''m'', ''2''), (CHR ''f'', ''0'')] = Inr (Some c)
     \<and> initServer demo_init ((initial c (demo_world []) (\<lambda>_. []))\<lparr>stat_start_time := 0\<rparr>) = Inr st
     \<and> logMessageFile demo_env ''app'' ''hello'' st = Inl DivByZero"
proof -
  let ?c = "demo_config\<lparr>opt_flush := 0\<rparr>"
  have o: "readOptions [(CHR ''m'', ''2''), (CHR ''f'', ''0'')] = Inr (Some ?c)" by code_simp
  have c: "starts demo_init ?c" "opt_redis ?c = 0" using demo_starts by (simp_all add: starts_def)
  from init_runs [OF this, where w = "demo_world []" and d = "\<lambda>_. []" and now = 0] obtain st where
    st: "initServer demo_init ((initial ?c (demo_world []) (\<lambda>_. []))\<lparr>stat_start_time := 0\<rparr>) = Inr st" "exited st = None"
    by blast
  from init_ok [OF st c(2)] have l: "log_inv st" "config st = ?c" by auto
  have "benign demo_env st" "name_ok st ''app''" "opt_flush (config st) = 0"
    by (auto simp: l(2) demo_starts name_ok_def log_path_def NAMELENGTH_def PATHLENGTH_def intro: benign_two)
  from flush_zero_faults [OF l(1) this] o st(1) show ?thesis by blast
qed

text \<open>The scan has no width for the name: a datagram whose name has 255 characters or more, though all
  of it fits the receive buffer, is written past the end of the name array.\<close>

theorem long_name_overflows:
  assumes "255 \<le> length nm" "\<forall>c \<in> set nm. name_char c" "NUL \<in> set buffer" "cstr buffer = CHR ''['' # nm @ r"
    and "r = [] \<or> \<not> name_char (hd r)"
  shows "logMessage env buffer addr prt st = Inl OutOfBounds"
proof -
  have "takeWhile name_char (nm @ r) = nm" using takeWhile_until [of nm name_char r] assms(2,5) by blast
  moreover have "nm \<noteq> []" using assms(1) by auto
  ultimately have "fst (snd (scan_line (cstr buffer))) = nm"
    by (simp add: assms(4) scan_line_def Let_def split: list.split)
  then obtain k msg where "scan_line (cstr buffer) = (k, nm, msg)" by (metis prod.collapse)
  with assms(1,3) show ?thesis by (simp add: logMessage_def NAMELENGTH_def)
qed

theorem long_name_overflows_witness:
  "logMessage demo_env (received (''['' @ replicate 300 CHR ''a'' @ '']hello'')) ''10.0.0.7'' 514 demo_running = Inl OutOfBounds"
proof -
  have n: "NUL \<notin> set (''['' @ replicate 300 CHR ''a'' @ '']hello'')" by simp
  have l: "length (''['' @ replicate 300 CHR ''a'' @ '']hello'') < BUF" by (simp add: BUF_def)
  show ?thesis
    by (rule long_name_overflows [where nm = "replicate 300 CHR ''a''" and r = "'']hello''"])
      (simp_all add: received_ok [OF n l, simplified] name_char_def)
qed



subsection \<open>Redis\<close>

text \<open>A message logged to Redis: exactly one LPUSH of the message onto the list of its tag and date, and
  after its reply one EXPIRE of that list if a time to live is set; whatever bytes tag and message
  contain, they stay one argument each, so no message can smuggle in a command of its own.\<close>

theorem redis_logs_message:
  assumes "redis_idle st" "e_rounds env \<noteq> 0" "NUL \<notin> set name" "NUL \<notin> set (e_logtime env)" "NUL \<notin> set message"
    and "serves (kernel st) (w_now (kernel st)) [''LPUSH'', log_key env name, message] x"
    and "0 < redis_ttl (config st) \<longrightarrow> serves (kernel st) (Suc (Suc (w_now (kernel st))))
      [''EXPIRE'', log_key env name, dec (nat (redis_ttl (config st) mod 2 ^ 32))] y"
  shows "\<exists>st'. logMessageRedis env name message st = Inr st' \<and> redis_idle st'
    \<and> stat_messages_handled st' = stat_messages_handled st + 1
    \<and> wire (kernel st') = wire (kernel st) @ encode (command_reply [''LPUSH'', log_key env name, message])
        @ (if 0 < redis_ttl (config st)
           then encode (command_reply [''EXPIRE'', log_key env name, dec (nat (redis_ttl (config st) mod 2 ^ 32))]) else [])"
proof -
  let ?cmds = "push_commands (config st) env name message"
  have "serves_all (kernel st) (w_now (kernel st)) ?cmds"
    using assms(6,7) unfolding push_commands_def by (cases "0 < redis_ttl (config st)") (auto simp del: encode.simps)
  from redis_message_ok [OF assms(1-5) this] obtain st' where
    st': "logMessageRedis env name message st = Inr st'" "sent ?cmds 1 st st'" by blast
  have "on_wire ?cmds = encode (command_reply [''LPUSH'', log_key env name, message])
      @ (if 0 < redis_ttl (config st)
         then encode (command_reply [''EXPIRE'', log_key env name, dec (nat (redis_ttl (config st) mod 2 ^ 32))]) else [])"
    by (simp add: push_commands_def del: encode.simps)
  with st'(1) sent_fields(1,4,5) [OF st'(2)] show ?thesis by metis
qed

definition demo_redis :: "(int \<times> int \<times> string) list \<Rightarrow> logger" where
  "demo_redis rs = demo_running\<lparr>redis_context := Some demo_context, kernel := demo_world rs,
     config := demo_config\<lparr>opt_redis := 1, redis_ttl := 60\<rparr>\<rparr>"

lemma demo_redis_facts: "redis_idle (demo_redis rs)" "redis_ttl (config (demo_redis rs)) = 60"
    "kernel (demo_redis rs) = demo_world rs"
  by (simp_all add: demo_redis_def redis_idle_def demo_memory demo_idle demo_facts)

lemma demo_serves:
  assumes "fst (w_ret w k) = 200" "w_ret w (Suc k) = (4, 0, '':1'' @ CRLF)" "length (encode (command_reply args)) \<le> 200"
  shows "serves w k args (RInteger 1)"
proof -
  have "encode (RInteger 1) = '':1'' @ CRLF" by code_simp
  then show ?thesis using assms by (simp add: serves_def del: encode.simps)
qed

lemma demo_commands: "log_key demo_env ''app'' = ''app.2014-02-01''"
  "length (encode (command_reply [''LPUSH'', ''app.2014-02-01'', ''hello'']))  \<le> 200"
  "length (encode (command_reply [''EXPIRE'', ''app.2014-02-01'', ''60''])) \<le> 200"
  "dec (nat (60 mod 2 ^ 32)) = ''60''" "e_loctime demo_env = ''09:30:00''" "e_rounds demo_env = 1"
  "NUL \<notin> set ''app''" "NUL \<notin> set (e_logtime demo_env)" "NUL \<notin> set ''hello''"
  by code_simp+

theorem redis_logs_message_witness:
  "\<exists>st'. logMessageRedis demo_env ''app'' ''hello''
      (demo_redis [(200, 0, []), (4, 0, '':1'' @ CRLF), (200, 0, []), (4, 0, '':1'' @ CRLF)]) = Inr st'
    \<and> wire (kernel st') = encode (command_reply [''LPUSH'', ''app.2014-02-01'', ''hello''])
        @ encode (command_reply [''EXPIRE'', ''app.2014-02-01'', ''60''])"
proof -
  let ?rs = "[(200, 0, []), (4, 0, '':1'' @ CRLF), (200, 0, []), (4, 0, '':1'' @ CRLF)]"
  have w: "w_now (demo_world ?rs) = 0" "fst (w_ret (demo_world ?rs) 0) = 200" "fst (w_ret (demo_world ?rs) (Suc (Suc 0))) = 200"
    "w_ret (demo_world ?rs) (Suc 0) = (4, 0, '':1'' @ CRLF)" "w_ret (demo_world ?rs) (Suc (Suc (Suc 0))) = (4, 0, '':1'' @ CRLF)"
    by (simp_all add: demo_world_def)
  have s: "serves (kernel (demo_redis ?rs)) (w_now (kernel (demo_redis ?rs))) [''LPUSH'', log_key demo_env ''app'', ''hello''] (RInteger 1)"
    "0 < redis_ttl (config (demo_redis ?rs)) \<longrightarrow> serves (kernel (demo_redis ?rs)) (Suc (Suc (w_now (kernel (demo_redis ?rs)))))
      [''EXPIRE'', log_key demo_env ''app'', dec (nat (redis_ttl (config (demo_redis ?rs)) mod 2 ^ 32))] (RInteger 1)"
    unfolding demo_redis_facts w(1) demo_commands(1,4)
    using demo_serves [OF w(2,4) demo_commands(2)] demo_serves [OF w(3,5) demo_commands(3)] by blast+
  from redis_logs_message [OF demo_redis_facts(1) _ demo_commands(7-9) s] show ?thesis
    unfolding demo_redis_facts demo_commands demo_facts by auto
qed

text \<open>When the EXPIRE that follows a successful LPUSH gets no reply, the NULL is passed to
  \<open>freeReplyObject\<close>, which reads through it.\<close>

theorem expire_failure_faults:
  assumes "redis_idle st" "e_rounds env \<noteq> 0" "NUL \<notin> set name" "NUL \<notin> set (e_logtime env)" "NUL \<notin> set message"
    and "serves (kernel st) (w_now (kernel st)) [''LPUSH'', log_key env name, message] x"
    and "0 < redis_ttl (config st)" "fst (w_ret (kernel st) (Suc (Suc (w_now (kernel st))))) = -1"
  shows "logMessageRedis env name message st = Inl NullDeref"
proof -
  have nul: "NUL \<notin> set ''LPUSH %s.%s %s''" "NUL \<notin> set ''EXPIRE %s.%s %u''" by simp_all
  from redis_call_ok [OF assms(1,2) nul(1) lpush_args [OF assms(3-5)] assms(6)] obtain c1 w1 where
    l: "redis_call env ''LPUSH %s.%s %s'' [VStr (name @ [NUL]), VStr (e_logtime env @ [NUL]), VStr (message @ [NUL])] st
      = Inr (st\<lparr>redis_context := Some c1, kernel := w1\<rparr>, Some x)" "memory_ok w1" "ctx_idle c1"
    "w_ret w1 = w_ret (kernel st)" "w_now w1 = Suc (Suc (w_now (kernel st)))"
    by blast
  obtain m where m: "e_rounds env = Suc m" using assms(2) by (cases "e_rounds env") auto
  from request_write_fails [OF l(3,2) nul(2) expire_args [OF assms(3,4), of "redis_ttl (config st)"], of m "e_pf env"] l(4,5) assms(8) obtain c3 w3 where
    e: "redisCommand (Suc m) (e_pf env) c1 w1 (''EXPIRE %s.%s %u'' @ [NUL])
      [VStr (name @ [NUL]), VStr (e_logtime env @ [NUL]), VInt (redis_ttl (config st))] = Inr (c3, w3, None)"
    by auto
  show ?thesis
    using l(1) e assms(7) m by (simp add: logMessageRedis_def redis_call_def [of env "''EXPIRE %s.%s %u''"] free_reply_def)
qed

theorem expire_failure_faults_witness:
  "logMessageRedis demo_env ''app'' ''hello'' (demo_redis [(200, 0, []), (4, 0, '':1'' @ CRLF), (-1, 32, [])]) = Inl NullDeref"
proof -
  let ?rs = "[(200, 0, []), (4, 0, '':1'' @ CRLF), (-1, 32, [])]"
  have w: "w_now (demo_world ?rs) = 0" "fst (w_ret (demo_world ?rs) 0) = 200"
    "w_ret (demo_world ?rs) (Suc 0) = (4, 0, '':1'' @ CRLF)" "fst (w_ret (demo_world ?rs) (Suc (Suc 0))) = -1"
    by (simp_all add: demo_world_def)
  have s: "serves (kernel (demo_redis ?rs)) (w_now (kernel (demo_redis ?rs))) [''LPUSH'', log_key demo_env ''app'', ''hello''] (RInteger 1)"
    unfolding demo_redis_facts w(1) demo_commands(1) using demo_serves [OF w(2,3) demo_commands(2)] .
  have r: "e_rounds demo_env \<noteq> 0" "0 < redis_ttl (config (demo_redis ?rs))"
    "fst (w_ret (kernel (demo_redis ?rs)) (Suc (Suc (w_now (kernel (demo_redis ?rs)))))) = -1"
    unfolding demo_redis_facts w(1) demo_commands using w(4) by simp_all
  show ?thesis by (rule expire_failure_faults [OF demo_redis_facts(1) r(1) demo_commands(7-9) s r(2,3)])
qed


definition demo_answers :: "(int \<times> int \<times> string) list" where
  "demo_answers = (7, 0, []) # replicate 6 (0, 0, []) @ concat (replicate 4 [(200, 0, []), (4, 0, '':1'' @ CRLF)])"

lemma demo_answer_list:
  "demo_answers = [(7, 0, []), (0, 0, []), (0, 0, []), (0, 0, []), (0, 0, []), (0, 0, []), (0, 0, []),
     (200, 0, []), (4, 0, '':1'' @ CRLF), (200, 0, []), (4, 0, '':1'' @ CRLF),
     (200, 0, []), (4, 0, '':1'' @ CRLF), (200, 0, []), (4, 0, '':1'' @ CRLF)]"
  by (simp add: demo_answers_def numeral_eq_Suc)

lemma demo_connect: "\<exists>x w'. connects demo_env (demo_world demo_answers) x w' \<and> w_now w' = 7 \<and> w_ret w' = w_ret (demo_world demo_answers)"
proof -
  let ?w = "demo_world demo_answers"
  from new_context [OF demo_memory] obtain c where c: "redisContextInit ?w = Inr (Some c)" "c_flags c = 0" "c_err c = 0" by blast
  let ?m = "redisContextConnectTcp (c\<lparr>c_flags := c_flags c OR REDIS_BLOCK\<rparr>) ?w (Inr 1) (Some (1, 500000))"
  have "c_err (fst ?m) = 0 \<and> w_now (fst (snd ?m)) = 7 \<and> w_ret (fst (snd ?m)) = w_ret ?w"
    using c(2,3) by (simp add: eval_defs demo_answer_list)
  moreover have "e_resolved demo_env = Inr 1" by (simp add: demo_env_def)
  ultimately show ?thesis using c(1)
    by (cases ?m) (auto simp: connects_def redisConnectWithTimeout_def init_and_connect_def)
qed


end
