(* ===== verification/Callback_List.thy ===== *)
theory Callback_List
  imports Prelude
begin

text \<open>
  The lists of callbacks of \<open>hiredis/async.c\<close>, with their cells on the heap, and the interface \<open>fifo\<close> they provide: a list holds a
  sequence, pushing appends to it, shifting takes its head.
\<close>

section \<open>The list\<close>

text \<open>
  \<open>redisCallback\<close> without its link, which is in the cell. A callback without a function, or with
  the content of memory nobody has written, is possible: \<open>cb_fn\<close> is an option, and a
  \<open>redisCallback option\<close> is a variable of that type, \<open>None\<close> before it is written.
\<close>

record redisCallback =
  cb_fn :: "nat option"
  cb_privdata :: nat

record cell =
  cell_next :: "nat option"
  cell_cb :: "redisCallback option"

text \<open>
  \<open>redisCallbackList\<close> with the heap cells it owns: no other pointer into them exists. \<open>l_fresh\<close> is the
  address of the next block \<open>malloc\<close> gives.
\<close>

record redisCallbackList =
  l_head :: "nat option"
  l_tail :: "nat option"
  l_cells :: "nat \<Rightarrow> cell option"
  l_fresh :: nat

definition empty_list :: redisCallbackList where
  "empty_list = \<lparr>l_head = None, l_tail = None, l_cells = (\<lambda>_. None), l_fresh = 0\<rparr>"

text \<open>\<open>malloc\<close> is not checked. Every caller passes a \<open>source\<close>.\<close>

definition redisPushCallback :: "bool \<Rightarrow> redisCallbackList \<Rightarrow> redisCallback option \<Rightarrow> redisCallbackList res" where
  "redisPushCallback mem list source =
     (if \<not> mem then Inl NullDeref
      else
        let cb = l_fresh list;
            cells = (l_cells list)(cb := Some \<lparr>cell_next = None, cell_cb = source\<rparr>);
            head = (if l_head list = None then Some cb else l_head list)
        in bind_res
             (case l_tail list of
                None \<Rightarrow> Inr cells
              | Some t \<Rightarrow> (case cells t of
                  None \<Rightarrow> Inl UseAfterFree
                | Some c \<Rightarrow> Inr (cells(t := Some (c\<lparr>cell_next := Some cb\<rparr>)))))
             (\<lambda>cells1. Inr (list\<lparr>l_head := head, l_tail := Some cb, l_cells := cells1, l_fresh := Suc cb\<rparr>)))"

text \<open>The second component is \<open>None\<close> for \<open>REDIS_ERR\<close> and otherwise what \<open>*target\<close> receives.\<close>

definition redisShiftCallback ::
  "redisCallbackList \<Rightarrow> (redisCallbackList \<times> redisCallback option option) res" where
  "redisShiftCallback list =
     (case l_head list of
        None \<Rightarrow> Inr (list, None)
      | Some cb \<Rightarrow> (case l_cells list cb of
          None \<Rightarrow> Inl UseAfterFree
        | Some c \<Rightarrow>
            Inr (list\<lparr>l_head := cell_next c, l_tail := (if l_tail list = Some cb then None else l_tail list),
                      l_cells := (l_cells list)(cb := None)\<rparr>,
                 Some (cell_cb c))))"

section \<open>A list of cells is a queue\<close>

text \<open>The cells from an address on, and the list that holds exactly the cells \<open>ps\<close> with the values \<open>xs\<close>.\<close>

fun chain :: "(nat \<Rightarrow> cell option) \<Rightarrow> nat option \<Rightarrow> nat list \<Rightarrow> redisCallback option list \<Rightarrow> bool" where
  "chain h p [] [] \<longleftrightarrow> p = None"
| "chain h p (a # as) (x # xs) \<longleftrightarrow>
     p = Some a \<and> (\<exists>n. h a = Some \<lparr>cell_next = n, cell_cb = x\<rparr> \<and> chain h n as xs)"
| "chain h p _ _ \<longleftrightarrow> False"

definition list_holds :: "redisCallbackList \<Rightarrow> redisCallback option list \<Rightarrow> bool" where
  "list_holds l xs \<longleftrightarrow> (\<exists>ps. chain (l_cells l) (l_head l) ps xs \<and> distinct ps \<and> dom (l_cells l) = set ps
     \<and> (\<forall>p \<in> set ps. p < l_fresh l) \<and> l_tail l = (if ps = [] then None else Some (last ps)))"

lemma chain_length: "chain h p ps xs \<Longrightarrow> length ps = length xs"
  by (induction h p ps xs rule: chain.induct) auto

lemma chain_other: "chain h p ps xs \<Longrightarrow> a \<notin> set ps \<Longrightarrow> chain (h(a := c)) p ps xs"
  by (induction h p ps xs rule: chain.induct) auto

lemma chain_snoc:
  "chain h p ps xs \<Longrightarrow> ps \<noteq> [] \<Longrightarrow> distinct ps \<Longrightarrow> a \<notin> set ps \<Longrightarrow> h a = Some \<lparr>cell_next = None, cell_cb = x\<rparr> \<Longrightarrow>
    \<exists>c. h (last ps) = Some c \<and> chain (h(last ps := Some (c\<lparr>cell_next := Some a\<rparr>))) p (ps @ [a]) (xs @ [x])"
proof (induction h p ps xs rule: chain.induct)
  case (2 h p b as y ys)
  then obtain n where n: "p = Some b" "h b = Some \<lparr>cell_next = n, cell_cb = y\<rparr>" "chain h n as ys" by auto
  show ?case
  proof (cases "as = []")
    case True
    with n 2(6,3,5) show ?thesis by (cases ys) auto
  next
    case False
    have "distinct as" "a \<notin> set as" using 2(4,5) by auto
    from 2(1) [OF n(3) False this 2(6)] obtain c where
      c: "h (last as) = Some c" "chain (h(last as := Some (c\<lparr>cell_next := Some a\<rparr>))) n (as @ [a]) (ys @ [x])" by blast
    moreover have "last as \<noteq> b" using 2(4) False by auto
    ultimately show ?thesis using False n(1,2) by (auto simp: fun_upd_def)
  qed
qed auto

lemma push_holds:
  assumes "list_holds l xs"
  shows "\<exists>l'. redisPushCallback True l x = Inr l' \<and> list_holds l' (xs @ [x])"
proof -
  obtain ps where ps: "chain (l_cells l) (l_head l) ps xs" "distinct ps" "dom (l_cells l) = set ps"
    "\<forall>p \<in> set ps. p < l_fresh l" "l_tail l = (if ps = [] then None else Some (last ps))"
    using assms by (auto simp: list_holds_def)
  let ?a = "l_fresh l"
  let ?h = "(l_cells l)(?a := Some \<lparr>cell_next = None, cell_cb = x\<rparr>)"
  have a: "?a \<notin> set ps" using ps(4) by auto
  show ?thesis
  proof (cases "ps = []")
    case True
    with ps show ?thesis
      by (cases xs) (auto simp: redisPushCallback_def Let_def list_holds_def intro!: exI [of _ "[?a]"])
  next
    case False
    have hd: "l_head l \<noteq> None" using ps(1) False by (cases ps; cases xs) auto
    from chain_snoc [OF chain_other [OF ps(1) a] False ps(2) a] obtain c where
      c: "?h (last ps) = Some c" "chain (?h(last ps := Some (c\<lparr>cell_next := Some ?a\<rparr>))) (l_head l) (ps @ [?a]) (xs @ [x])"
      by auto
    have "dom (?h(last ps := Some (c\<lparr>cell_next := Some ?a\<rparr>))) = set (ps @ [?a])"
      using ps(3) False by auto
    with c hd False ps a show ?thesis
      by (auto simp: redisPushCallback_def Let_def list_holds_def less_Suc_eq intro!: exI [of _ "ps @ [?a]"])
  qed
qed

lemma shift_holds:
  assumes "list_holds l xs"
  shows "redisShiftCallback l = Inr (l, None) \<and> xs = [] \<or>
    (\<exists>l' x ys. redisShiftCallback l = Inr (l', Some x) \<and> xs = x # ys \<and> list_holds l' ys)"
proof -
  obtain ps where ps: "chain (l_cells l) (l_head l) ps xs" "distinct ps" "dom (l_cells l) = set ps"
    "\<forall>p \<in> set ps. p < l_fresh l" "l_tail l = (if ps = [] then None else Some (last ps))"
    using assms by (auto simp: list_holds_def)
  show ?thesis
  proof (cases ps)
    case Nil
    with ps(1) show ?thesis by (cases xs) (auto simp: redisShiftCallback_def)
  next
    case (Cons a as)
    with ps(1) obtain x ys n where x: "xs = x # ys" "l_head l = Some a" "l_cells l a = Some \<lparr>cell_next = n, cell_cb = x\<rparr>"
      "chain (l_cells l) n as ys" by (cases xs) auto
    have na: "a \<notin> set as" using ps(2) Cons by simp
    have t: "(if l_tail l = Some a then None else l_tail l) = (if as = [] then None else Some (last as))"
      using ps(5) Cons na by (auto dest: last_in_set)
    have "list_holds (l\<lparr>l_head := n, l_tail := (if l_tail l = Some a then None else l_tail l),
        l_cells := (l_cells l)(a := None)\<rparr>) ys"
      unfolding list_holds_def t using chain_other [OF x(4) na, of None] ps(2-4) Cons na by (auto intro!: exI [of _ as])
    with x show ?thesis by (simp add: redisShiftCallback_def)
  qed
qed

lemma empty_holds_list: "list_holds empty_list []"
  by (auto simp: list_holds_def empty_list_def)

lemma chain_unique: "chain h p ps xs \<Longrightarrow> chain h p qs ys \<Longrightarrow> ps = qs \<and> xs = ys"
proof (induction h p ps xs arbitrary: qs ys rule: chain.induct)
  case (1 h p)
  then show ?case by (cases "(h, p, qs, ys)" rule: chain.cases) auto
next
  case (2 h p a as x xs)
  then show ?case by (cases "(h, p, qs, ys)" rule: chain.cases) auto
qed auto

section \<open>The interface of a queue\<close>

text \<open>What the context uses of its lists: the contents, putting behind and taking in front.\<close>

locale fifo =
  fixes holds :: "'q \<Rightarrow> 'a list \<Rightarrow> bool"
    and push :: "'q \<Rightarrow> 'a \<Rightarrow> 'q res"
    and shift :: "'q \<Rightarrow> ('q \<times> 'a option) res"
  assumes push_law: "holds q xs \<Longrightarrow> \<exists>q'. push q x = Inr q' \<and> holds q' (xs @ [x])"
    and shift_law: "holds q xs \<Longrightarrow> shift q = Inr (q, None) \<and> xs = [] \<or>
      (\<exists>q' x ys. shift q = Inr (q', Some x) \<and> xs = x # ys \<and> holds q' ys)"
    and one_content: "holds q xs \<Longrightarrow> holds q ys \<Longrightarrow> xs = ys"
begin

lemma shift_empty: "holds q [] \<Longrightarrow> shift q = Inr (q, None)"
  using shift_law [of q "[]"] by auto

lemma shift_front: "holds q (x # xs) \<Longrightarrow> \<exists>q'. shift q = Inr (q', Some x) \<and> holds q' xs"
  using shift_law [of q "x # xs"] by auto

primrec push_all :: "'q \<Rightarrow> 'a list \<Rightarrow> 'q res" where
  "push_all q [] = Inr q"
| "push_all q (x # xs) = bind_res (push q x) (\<lambda>q1. push_all q1 xs)"

primrec drain :: "nat \<Rightarrow> 'q \<Rightarrow> ('q \<times> 'a list) res" where
  "drain 0 q = Inr (q, [])"
| "drain (Suc n) q = bind_res (shift q)
     (\<lambda>(q1, x). case x of None \<Rightarrow> Inr (q1, []) | Some y \<Rightarrow> bind_res (drain n q1) (\<lambda>(q2, ys). Inr (q2, y # ys)))"

lemma push_all_holds: "holds q xs \<Longrightarrow> \<exists>q'. push_all q ys = Inr q' \<and> holds q' (xs @ ys)"
proof (induction ys arbitrary: q xs)
  case (Cons y ys)
  from push_law [OF Cons.prems, of y] obtain q1 where "push q y = Inr q1" "holds q1 (xs @ [y])" by blast
  with Cons.IH [of q1 "xs @ [y]"] show ?case by simp
qed simp

lemma drain_holds: "holds q xs \<Longrightarrow> length xs \<le> n \<Longrightarrow> \<exists>q'. drain n q = Inr (q', xs) \<and> holds q' []"
proof (induction n arbitrary: q xs)
  case (Suc n)
  show ?case
  proof (cases xs)
    case Nil
    with Suc.prems shift_empty show ?thesis by auto
  next
    case (Cons x ys)
    with shift_front Suc.prems obtain q' where "shift q = Inr (q', Some x)" "holds q' ys" by blast
    with Suc.IH [of q' ys] Suc.prems(2) Cons show ?thesis by auto
  qed
qed auto

text \<open>What was put in comes out in the same order, behind what was there.\<close>

lemma push_drain:
  assumes "holds q xs" "length xs + length ys \<le> n"
  shows "\<exists>q1 q2. push_all q ys = Inr q1 \<and> drain n q1 = Inr (q2, xs @ ys) \<and> holds q2 []"
proof -
  from push_all_holds [OF assms(1), of ys] obtain q1 where "push_all q ys = Inr q1" "holds q1 (xs @ ys)" by blast
  with drain_holds [of q1 "xs @ ys" n] assms(2) show ?thesis by auto
qed

end

interpretation cq: fifo list_holds "redisPushCallback True" redisShiftCallback
proof unfold_locales
  fix q xs and x :: "redisCallback option"
  assume h: "list_holds q xs"
  then show "\<exists>q'. redisPushCallback True q x = Inr q' \<and> list_holds q' (xs @ [x])" by (rule push_holds)
  show "redisShiftCallback q = Inr (q, None) \<and> xs = [] \<or>
      (\<exists>q' x ys. redisShiftCallback q = Inr (q', Some x) \<and> xs = x # ys \<and> list_holds q' ys)"
    using h by (rule shift_holds)
  fix ys
  assume "list_holds q ys"
  with h show "xs = ys" unfolding list_holds_def using chain_unique by blast
qed

end
