(* ===== verification/Dict.thy ===== *)
theory Dict
  imports Key_Table
begin

text \<open>
  \<open>hiredis/dict.c\<close> and \<open>dict.h\<close>: the chained dictionary with sizes that are powers of two, whose functions for
  hashing, copying, comparing and freeing come from a \<open>dictType\<close>. Sizes, the mask and the count keep their
  widths. Allocations are not checked by the code, so their failure is a fault.
\<close>

unbundle bit_operations_syntax

section \<open>The structures\<close>

text \<open>
  The functions of a \<open>dictType\<close> that may be NULL are options; a destructor is only recorded as present, and
  what it is called on is part of the results. Without a comparison function keys are compared as pointers.
\<close>

record ('k, 'v) dictEntry =
  de_key :: 'k
  de_val :: 'v

record ('k, 'v) dictType =
  hashFunction :: "'k \<Rightarrow> u32"
  keyDup :: "('k \<Rightarrow> 'k) option"
  valDup :: "('v \<Rightarrow> 'v) option"
  keyCompare :: "('k \<Rightarrow> 'k \<Rightarrow> bool) option"
  keyDestructor :: bool
  valDestructor :: bool

record ('k, 'v) dict =
  d_table :: "('k, 'v) dictEntry list list option"
  d_type :: "('k, 'v) dictType"
  d_size :: u64
  d_sizemask :: u64
  d_used :: u64

text \<open>Outcomes of the allocations of an insertion: the table, the entry, the copy of the value. None is checked.\<close>

record dict_mem =
  dm_table :: bool
  dm_entry :: bool
  dm_value :: bool

datatype ('k, 'v) dict_freed = FreedKey 'k | FreedVal 'v | FreedEntry | FreedTable

definition DICT_HT_INITIAL_SIZE :: u64 where "DICT_HT_INITIAL_SIZE = 4"

definition dictHashKey :: "('k, 'v) dict \<Rightarrow> 'k \<Rightarrow> u32" where
  "dictHashKey d k = hashFunction (d_type d) k"

definition dictCompareHashKeys :: "('k, 'v) dict \<Rightarrow> 'k \<Rightarrow> 'k \<Rightarrow> bool" where
  "dictCompareHashKeys d k1 k2 = (case keyCompare (d_type d) of Some f \<Rightarrow> f k1 k2 | None \<Rightarrow> k1 = k2)"

definition dictSetHashKey :: "('k, 'v) dict \<Rightarrow> 'k \<Rightarrow> 'k" where
  "dictSetHashKey d k = (case keyDup (d_type d) of Some f \<Rightarrow> f k | None \<Rightarrow> k)"

definition dictSetHashVal :: "dict_mem \<Rightarrow> ('k, 'v) dict \<Rightarrow> 'v \<Rightarrow> 'v res" where
  "dictSetHashVal mem d v =
     (case valDup (d_type d) of
        Some f \<Rightarrow> if dm_value mem then Inr (f v) else Inl NullDeref
      | None \<Rightarrow> Inr v)"

definition dictFreeEntryKey :: "('k, 'v) dict \<Rightarrow> 'k \<Rightarrow> ('k, 'v) dict_freed list" where
  "dictFreeEntryKey d k = (if keyDestructor (d_type d) then [FreedKey k] else [])"

definition dictFreeEntryVal :: "('k, 'v) dict \<Rightarrow> 'v \<Rightarrow> ('k, 'v) dict_freed list" where
  "dictFreeEntryVal d v = (if valDestructor (d_type d) then [FreedVal v] else [])"

section \<open>Hashing\<close>

text \<open>The buffer is of unsigned characters.\<close>

fun dictGenHash_loop :: "u32 \<Rightarrow> string \<Rightarrow> u32" where
  "dictGenHash_loop h [] = h"
| "dictGenHash_loop h (c # cs) = dictGenHash_loop (push_bit 5 h + h + word_of_nat (of_char c)) cs"

definition dictGenHashFunction :: "string \<Rightarrow> nat \<Rightarrow> u32 res" where
  "dictGenHashFunction buf len =
     (if len \<le> length buf then Inr (dictGenHash_loop 5381 (take len buf)) else Inl OutOfBounds)"

section \<open>Creation and growth\<close>

definition dictReset :: "('k, 'v) dict \<Rightarrow> ('k, 'v) dict" where
  "dictReset d = d\<lparr>d_table := None, d_size := 0, d_sizemask := 0, d_used := 0\<rparr>"

definition dictInit :: "('k, 'v) dictType \<Rightarrow> ('k, 'v) dict" where
  "dictInit ty = dictReset \<lparr>d_table = None, d_type = ty, d_size = 0, d_sizemask = 0, d_used = 0\<rparr>"

definition dictCreate :: "bool \<Rightarrow> ('k, 'v) dictType \<Rightarrow> ('k, 'v) dict res" where
  "dictCreate mem ty = (if mem then Inr (dictInit ty) else Inl NullDeref)"

partial_function (option) power_loop :: "u64 \<Rightarrow> u64 \<Rightarrow> u64 option" where
  "power_loop sz i = (if sz \<le> i then Some i else power_loop sz (i * 2))"

declare power_loop.simps [code]

definition dictNextPower :: "u64 \<Rightarrow> u64 option" where
  "dictNextPower sz = (if 2 ^ 63 - 1 \<le> sz then Some (2 ^ 63 - 1) else power_loop sz DICT_HT_INITIAL_SIZE)"

text \<open>The slot of a key, an \<open>unsigned int\<close>.\<close>

definition slot :: "('k \<Rightarrow> u32) \<Rightarrow> u64 \<Rightarrow> 'k \<Rightarrow> u32" where
  "slot hf msk k = ucast (ucast (hf k) AND msk)"

fun move_chain ::
  "('k \<Rightarrow> u32) \<Rightarrow> u64 \<Rightarrow> ('k, 'v) dictEntry list list option \<Rightarrow> ('k, 'v) dictEntry list \<Rightarrow> u64 \<Rightarrow>
     (('k, 'v) dictEntry list list option \<times> u64) res" where
  "move_chain hf msk tab [] used = Inr (tab, used)"
| "move_chain hf msk tab (e # es) used =
     (let h = unat (slot hf msk (de_key e))
      in case tab of
           None \<Rightarrow> Inl NullDeref
         | Some t \<Rightarrow> if length t \<le> h then Inl OutOfBounds
                     else move_chain hf msk (Some (t[h := e # t ! h])) es (used - 1))"

fun move_table ::
  "('k \<Rightarrow> u32) \<Rightarrow> u64 \<Rightarrow> ('k, 'v) dictEntry list list option \<Rightarrow> ('k, 'v) dictEntry list list \<Rightarrow> u64 \<Rightarrow>
     (('k, 'v) dictEntry list list option \<times> u64) res" where
  "move_table hf msk tab [] used = Inr (tab, used)"
| "move_table hf msk tab (c # cs) used =
     (if used = 0 then Inr (tab, used)
      else bind_res (move_chain hf msk tab c used) (\<lambda>(tab1, used1). move_table hf msk tab1 cs used1))"

text \<open>The buckets a loop over the table reads: none if it does not run.\<close>

definition dict_slots :: "('k, 'v) dict \<Rightarrow> ('k, 'v) dictEntry list list res" where
  "dict_slots d =
     (if d_size d = 0 \<or> d_used d = 0 then Inr []
      else case d_table d of
             None \<Rightarrow> Inl NullDeref
           | Some t \<Rightarrow> if length t < unat (d_size d) then Inl OutOfBounds else Inr (take (unat (d_size d)) t))"

definition dictExpand :: "dict_mem \<Rightarrow> ('k, 'v) dict \<Rightarrow> u64 \<Rightarrow> (('k, 'v) dict \<times> bool) res" where
  "dictExpand mem d sz =
     (case dictNextPower sz of
        None \<Rightarrow> Inl OutOfFuel
      | Some realsize \<Rightarrow>
          if sz < d_used d then Inr (d, False)
          else
            let newtable = (if dm_table mem then Some (replicate (unat realsize) []) else None)
            in bind_res (dict_slots d)
               (\<lambda>old. bind_res (move_table (hashFunction (d_type d)) (realsize - 1) newtable old (d_used d))
               (\<lambda>(tab, left). if left \<noteq> 0 then Inl AssertFailed
                  else Inr (d\<lparr>d_table := tab, d_size := realsize, d_sizemask := realsize - 1\<rparr>, True))))"

definition dictExpandIfNeeded :: "dict_mem \<Rightarrow> ('k, 'v) dict \<Rightarrow> (('k, 'v) dict \<times> bool) res" where
  "dictExpandIfNeeded mem d =
     (if d_size d = 0 then dictExpand mem d DICT_HT_INITIAL_SIZE
      else if d_used d = d_size d then dictExpand mem d (d_size d * 2)
      else Inr (d, True))"

section \<open>Operations\<close>

text \<open>The chain of a slot.\<close>

definition chain_at :: "('k, 'v) dict \<Rightarrow> nat \<Rightarrow> ('k, 'v) dictEntry list res" where
  "chain_at d h =
     (case d_table d of
        None \<Rightarrow> Inl NullDeref
      | Some t \<Rightarrow> if h < length t then Inr (t ! h) else Inl OutOfBounds)"

fun find_chain :: "('k \<Rightarrow> 'k \<Rightarrow> bool) \<Rightarrow> 'k \<Rightarrow> ('k, 'v) dictEntry list \<Rightarrow> ('k, 'v) dictEntry option" where
  "find_chain cmp k [] = None"
| "find_chain cmp k (e # es) = (if cmp k (de_key e) then Some e else find_chain cmp k es)"

text \<open>The slot becomes a signed \<open>int\<close>, and -1 stands for a key that is there.\<close>

definition dictKeyIndex :: "dict_mem \<Rightarrow> ('k, 'v) dict \<Rightarrow> 'k \<Rightarrow> (('k, 'v) dict \<times> int) res" where
  "dictKeyIndex mem d key =
     bind_res (dictExpandIfNeeded mem d)
     (\<lambda>(d1, ok). if \<not> ok then Inr (d1, -1)
        else let h = slot (hashFunction (d_type d1)) (d_sizemask d1) key
             in bind_res (chain_at d1 (unat h))
                (\<lambda>c. if find_chain (dictCompareHashKeys d1) key c \<noteq> None then Inr (d1, -1)
                   else Inr (d1, sint h)))"

definition dictAdd :: "dict_mem \<Rightarrow> ('k, 'v) dict \<Rightarrow> 'k \<Rightarrow> 'v \<Rightarrow> (('k, 'v) dict \<times> bool) res" where
  "dictAdd mem d key val =
     bind_res (dictKeyIndex mem d key)
     (\<lambda>(d1, index).
        if index = -1 then Inr (d1, False)
        else if \<not> dm_entry mem then Inl NullDeref
        else if index < 0 then Inl OutOfBounds
        else bind_res (chain_at d1 (nat index))
             (\<lambda>c. bind_res (dictSetHashVal mem d1 val)
             (\<lambda>v. let e = \<lparr>de_key = dictSetHashKey d1 key, de_val = v\<rparr>
                  in Inr (d1\<lparr>d_table := map_option (\<lambda>t. t[nat index := e # c]) (d_table d1),
                            d_used := d_used d1 + 1\<rparr>, True))))"

definition dictFind :: "('k, 'v) dict \<Rightarrow> 'k \<Rightarrow> ('k, 'v) dictEntry option res" where
  "dictFind d key =
     (if d_size d = 0 then Inr None
      else bind_res (chain_at d (unat (slot (hashFunction (d_type d)) (d_sizemask d) key)))
           (\<lambda>c. Inr (find_chain (dictCompareHashKeys d) key c)))"

fun set_val_chain :: "('k \<Rightarrow> 'k \<Rightarrow> bool) \<Rightarrow> 'k \<Rightarrow> 'v \<Rightarrow> ('k, 'v) dictEntry list \<Rightarrow> ('k, 'v) dictEntry list" where
  "set_val_chain cmp k v [] = []"
| "set_val_chain cmp k v (e # es) = (if cmp k (de_key e) then e\<lparr>de_val := v\<rparr> # es else e # set_val_chain cmp k v es)"

text \<open>The result is 1 for a new key and 0 for an update, with the value the update freed.\<close>

definition dictReplace :: "dict_mem \<Rightarrow> ('k, 'v) dict \<Rightarrow> 'k \<Rightarrow> 'v \<Rightarrow> (('k, 'v) dict \<times> int \<times> ('k, 'v) dict_freed list) res" where
  "dictReplace mem d key val =
     bind_res (dictAdd mem d key val)
     (\<lambda>(d1, ok). if ok then Inr (d1, 1, [])
        else bind_res (dictFind d1 key)
        (\<lambda>f. case f of
               None \<Rightarrow> Inl NullDeref
             | Some entry \<Rightarrow>
                 bind_res (dictSetHashVal mem d1 val)
                 (\<lambda>v. let h = unat (slot (hashFunction (d_type d1)) (d_sizemask d1) key)
                      in Inr (d1\<lparr>d_table := map_option
                                  (\<lambda>t. t[h := set_val_chain (dictCompareHashKeys d1) key v (t ! h)]) (d_table d1)\<rparr>,
                              0, dictFreeEntryVal d1 (de_val entry)))))"

fun delete_chain :: "('k \<Rightarrow> 'k \<Rightarrow> bool) \<Rightarrow> 'k \<Rightarrow> ('k, 'v) dictEntry list \<Rightarrow>
    (('k, 'v) dictEntry \<times> ('k, 'v) dictEntry list) option" where
  "delete_chain cmp k [] = None"
| "delete_chain cmp k (e # es) =
     (if cmp k (de_key e) then Some (e, es)
      else case delete_chain cmp k es of None \<Rightarrow> None | Some (e', es') \<Rightarrow> Some (e', e # es'))"

definition dictDelete :: "('k, 'v) dict \<Rightarrow> 'k \<Rightarrow> (('k, 'v) dict \<times> bool \<times> ('k, 'v) dict_freed list) res" where
  "dictDelete d key =
     (if d_size d = 0 then Inr (d, False, [])
      else
        let h = unat (slot (hashFunction (d_type d)) (d_sizemask d) key)
        in bind_res (chain_at d h)
           (\<lambda>c. case delete_chain (dictCompareHashKeys d) key c of
                  None \<Rightarrow> Inr (d, False, [])
                | Some (de, c') \<Rightarrow>
                    Inr (d\<lparr>d_table := map_option (\<lambda>t. t[h := c']) (d_table d), d_used := d_used d - 1\<rparr>, True,
                         dictFreeEntryKey d (de_key de) @ dictFreeEntryVal d (de_val de) @ [FreedEntry])))"

fun clear_chain :: "('k, 'v) dict \<Rightarrow> ('k, 'v) dictEntry list \<Rightarrow> u64 \<Rightarrow> ('k, 'v) dict_freed list \<times> u64" where
  "clear_chain d [] used = ([], used)"
| "clear_chain d (e # es) used =
     (let (fs, used1) = clear_chain d es (used - 1)
      in (dictFreeEntryKey d (de_key e) @ dictFreeEntryVal d (de_val e) @ [FreedEntry] @ fs, used1))"

fun clear_table :: "('k, 'v) dict \<Rightarrow> ('k, 'v) dictEntry list list \<Rightarrow> u64 \<Rightarrow> ('k, 'v) dict_freed list" where
  "clear_table d [] used = []"
| "clear_table d (c # cs) used =
     (if used = 0 then [] else let (fs, used1) = clear_chain d c used in fs @ clear_table d cs used1)"

definition dictClear :: "('k, 'v) dict \<Rightarrow> (('k, 'v) dict \<times> ('k, 'v) dict_freed list) res" where
  "dictClear d =
     bind_res (dict_slots d)
     (\<lambda>cs. Inr (dictReset d, clear_table d cs (d_used d) @ (if d_table d = None then [] else [FreedTable])))"

definition dictRelease :: "('k, 'v) dict \<Rightarrow> ('k, 'v) dict_freed list res" where
  "dictRelease d = bind_res (dictClear d) (\<lambda>(d1, fs). Inr fs)"

section \<open>Iteration\<close>

text \<open>
  An iterator holds the index of its slot and the rest of the chain from its current entry on; the head
  is \<open>entry\<close>, the next one \<open>nextEntry\<close>.
\<close>

record ('k, 'v) dictIterator =
  it_index :: int
  it_rest :: "('k, 'v) dictEntry list"

definition dictGetIterator :: "bool \<Rightarrow> ('k, 'v) dictIterator res" where
  "dictGetIterator mem = (if mem then Inr \<lparr>it_index = -1, it_rest = []\<rparr> else Inl NullDeref)"

fun scan_slots :: "('k, 'v) dictEntry list list \<Rightarrow> int \<Rightarrow> int \<times> ('k, 'v) dictEntry list" where
  "scan_slots [] i = (i, [])"
| "scan_slots (c # cs) i = (if c = [] then scan_slots cs (i + 1) else (i, c))"

definition dictNext ::
  "('k, 'v) dict \<Rightarrow> ('k, 'v) dictIterator \<Rightarrow> (('k, 'v) dictIterator \<times> ('k, 'v) dictEntry option) res" where
  "dictNext d it =
     (case tl (it_rest it) of
        e # es \<Rightarrow> Inr (it\<lparr>it_rest := e # es\<rparr>, Some e)
      | [] \<Rightarrow>
          let i = it_index it + 1
          in if sint (d_size d) \<le> i then Inr (\<lparr>it_index = i, it_rest = []\<rparr>, None)
             else case d_table d of
                    None \<Rightarrow> Inl NullDeref
                  | Some t \<Rightarrow>
                      let (j, c) = scan_slots (drop (nat i) (take (unat (d_size d)) t)) i
                      in Inr (\<lparr>it_index = j, it_rest = c\<rparr>, (case c of [] \<Rightarrow> None | e # _ \<Rightarrow> Some e)))"

text \<open>The loop of the clients: the entries \<open>dictNext\<close> returns until NULL.\<close>

fun dict_entries_loop :: "nat \<Rightarrow> ('k, 'v) dict \<Rightarrow> ('k, 'v) dictIterator \<Rightarrow> ('k, 'v) dictEntry list res" where
  "dict_entries_loop 0 d it = Inl OutOfFuel"
| "dict_entries_loop (Suc n) d it =
     bind_res (dictNext d it)
     (\<lambda>(it1, e). case e of None \<Rightarrow> Inr [] | Some de \<Rightarrow> bind_res (dict_entries_loop n d it1) (\<lambda>es. Inr (de # es)))"

end
