(* ===== verification/Dict_Facts.thy ===== *)
theory Dict_Facts
  imports Dict
begin

text \<open>
  What the operations of the dictionary do to its entries: the invariant between size, mask, slots and count, that
  growing moves every entry, that finding, adding, replacing and deleting work on the slot of the key, that
  clearing frees everything once, and what is still to come from an iterator.
\<close>

section \<open>The invariant\<close>

definition dents :: "('k, 'v) dict \<Rightarrow> ('k, 'v) dictEntry list" where
  "dents d = concat (case d_table d of None \<Rightarrow> [] | Some t \<Rightarrow> t)"

text \<open>Copies equal their originals, and keys that compare equal hash equally.\<close>

definition type_ok :: "('k, 'v) dict \<Rightarrow> bool" where
  "type_ok d \<longleftrightarrow> equivp (dictCompareHashKeys d)
     \<and> (\<forall>k k'. dictCompareHashKeys d k k' \<longrightarrow> hashFunction (d_type d) k = hashFunction (d_type d) k')
     \<and> (\<forall>k. dictCompareHashKeys d (dictSetHashKey d k) k)
     \<and> (case valDup (d_type d) of None \<Rightarrow> True | Some f \<Rightarrow> \<forall>v. f v = v)"

definition in_slots :: "('k \<Rightarrow> u32) \<Rightarrow> u64 \<Rightarrow> ('k, 'v) dictEntry list list \<Rightarrow> bool" where
  "in_slots hf m t \<longleftrightarrow> (\<forall>i < length t. \<forall>e \<in> set (t ! i). unat (slot hf m (de_key e)) = i)"

definition shape :: "('k, 'v) dict \<Rightarrow> bool" where
  "shape d \<longleftrightarrow> (d_size d = 0 \<and> d_table d = None) \<or>
     (\<exists>k t. 2 \<le> k \<and> k \<le> 31 \<and> d_size d = 2 ^ k \<and> d_sizemask d = 2 ^ k - 1 \<and> d_table d = Some t \<and> length t = 2 ^ k
        \<and> in_slots (hashFunction (d_type d)) (2 ^ k - 1) t)"

definition dict_inv :: "('k, 'v) dict \<Rightarrow> bool" where
  "dict_inv d \<longleftrightarrow> type_ok d \<and> shape d \<and> unat (d_used d) = length (dents d) \<and> d_used d \<le> d_size d
     \<and> one_per_class (dictCompareHashKeys d) de_key (dents d)"

lemma cmp_type: "d_type d' = d_type d \<Longrightarrow> dictCompareHashKeys d' = dictCompareHashKeys d"
  by (intro ext) (simp add: dictCompareHashKeys_def)

lemma type_ok_type: "d_type d' = d_type d \<Longrightarrow> type_ok d' = type_ok d"
  by (simp add: type_ok_def cmp_type [of d' d] dictSetHashKey_def)

lemma find_chain_match: "find_chain cmp k es = first_match cmp de_key es k"
  by (induction es) auto

section \<open>Slots and sizes\<close>

lemma pow_unat:
  assumes "k \<le> 63"
  shows "unat (2 ^ k :: u64) = 2 ^ k"
proof -
  have "(2 :: nat) ^ k < 2 ^ 64" using assms by (intro power_strict_increasing) auto
  moreover have "unat (word_of_nat (2 ^ k) :: u64) = 2 ^ k mod 2 ^ 64" by (subst unat_of_nat) simp
  ultimately show ?thesis by simp
qed

lemma slot_take: "slot hf (2 ^ k - 1) key = ucast (take_bit k (ucast (hf key) :: u64))"
  by (simp add: slot_def take_bit_eq_mask mask_eq_exp_minus_1)

lemma slot_less: "unat (slot hf (2 ^ k - 1) key) < 2 ^ k"
proof -
  have "unat (slot hf (2 ^ k - 1) key) \<le> take_bit k (unat (ucast (hf key) :: u64))"
    unfolding slot_take by (simp add: unsigned_ucast_eq unsigned_take_bit_eq take_bit_nat_less_eq_self)
  then show ?thesis using take_bit_nat_less_exp [of k] le_less_trans by blast
qed

lemma slot_sint:
  assumes "k \<le> 31"
  shows "sint (slot hf (2 ^ k - 1) key) = int (unat (slot hf (2 ^ k - 1) key))"
proof -
  let ?w = "slot hf (2 ^ k - 1) key"
  have l: "unat ?w < 2 ^ 31"
    using slot_less [of hf k key] power_increasing [OF assms, of "2::nat"] by simp
  have "sint ?w = sint (word_of_int (int (unat ?w)) :: u32)" by simp
  also have "\<dots> = (int (unat ?w) + 2 ^ 31) mod 2 ^ 32 - 2 ^ 31" by (subst int_word_sint) simp
  also have "\<dots> = int (unat ?w)"
  proof -
    have "n < 2 ^ 31 \<Longrightarrow> (int n + 2 ^ 31) mod 2 ^ 32 - 2 ^ 31 = int n" for n
      by (simp add: mod_pos_pos_trivial)
    with l show ?thesis by blast
  qed
  finally show ?thesis .
qed

lemma power_loop_ok: "j \<le> k \<Longrightarrow> k \<le> 62 \<Longrightarrow> power_loop (2 ^ k) (2 ^ j) = Some (2 ^ k)"
proof (induction "k - j" arbitrary: j)
  case 0
  then show ?case by (subst power_loop.simps) simp
next
  case (Suc n)
  have "unat (2 ^ j :: u64) < unat (2 ^ k :: u64)"
    using Suc.hyps(2) Suc.prems by (simp add: pow_unat)
  then have "\<not> (2 ^ k :: u64) \<le> 2 ^ j" by (simp add: word_le_nat_alt)
  moreover have "power_loop (2 ^ k) (2 ^ Suc j) = Some (2 ^ k)" by (rule Suc.hyps(1)) (use Suc in auto)
  ultimately show ?case by (subst power_loop.simps) (simp add: mult.commute)
qed

lemma next_power_ok:
  assumes "2 \<le> k" "k \<le> 31"
  shows "dictNextPower (2 ^ k) = Some (2 ^ k)"
proof -
  have "unat (2 ^ k :: u64) < unat (2 ^ 63 - 1 :: u64)"
    using power_increasing [OF assms(2), of "2::nat"] assms(2) by (simp add: pow_unat)
  then have "\<not> (2 ^ 63 - 1 :: u64) \<le> 2 ^ k" by (simp add: word_le_nat_alt)
  moreover have "power_loop (2 ^ k) (2 ^ 2) = Some (2 ^ k)" using assms by (intro power_loop_ok) auto
  ultimately show ?thesis by (simp add: dictNextPower_def DICT_HT_INITIAL_SIZE_def)
qed

section \<open>Growing\<close>

lemma in_slots_cons:
  "in_slots hf m t \<Longrightarrow> i < length t \<Longrightarrow> unat (slot hf m (de_key e)) = i \<Longrightarrow> in_slots hf m (t[i := e # t ! i])"
  by (auto simp: in_slots_def nth_list_update)

lemma in_slots_empty: "in_slots hf m (replicate n [])"
  by (simp add: in_slots_def)

lemma move_chain_ok:
  assumes "k \<le> 31" "length t = 2 ^ k" "in_slots hf (2 ^ k - 1) t"
  shows "\<exists>t'. move_chain hf (2 ^ k - 1) (Some t) es used = Inr (Some t', used - of_nat (length es))
    \<and> length t' = 2 ^ k \<and> in_slots hf (2 ^ k - 1) t' \<and> mset (concat t') = mset es + mset (concat t)"
  using assms
proof (induction es arbitrary: t used)
  case (Cons e es)
  let ?h = "unat (slot hf (2 ^ k - 1) (de_key e))"
  have h: "?h < length t" using slot_less [of hf k] Cons.prems(2) by simp
  let ?t = "t[?h := e # t ! ?h]"
  from Cons.IH [of ?t "used - 1"] Cons.prems in_slots_cons [OF Cons.prems(3) h refl] obtain t' where
    "move_chain hf (2 ^ k - 1) (Some ?t) es (used - 1) = Inr (Some t', used - 1 - of_nat (length es))"
    "length t' = 2 ^ k" "in_slots hf (2 ^ k - 1) t'" "mset (concat t') = mset es + mset (concat ?t)" by auto
  with h mset_concat_cons [OF h, of e] show ?case by (simp add: Let_def diff_diff_eq add.commute)
qed simp

lemma move_table_ok:
  assumes "k \<le> 31" "length t = 2 ^ k" "in_slots hf (2 ^ k - 1) t" "unat used = length (concat cs)"
  shows "\<exists>t'. move_table hf (2 ^ k - 1) (Some t) cs used = Inr (Some t', 0)
    \<and> length t' = 2 ^ k \<and> in_slots hf (2 ^ k - 1) t' \<and> mset (concat t') = mset (concat cs) + mset (concat t)"
  using assms
proof (induction cs arbitrary: t used)
  case Nil
  then show ?case by (simp add: unat_eq_0)
next
  case (Cons c cs)
  show ?case
  proof (cases "used = 0")
    case True
    with Cons.prems show ?thesis by auto
  next
    case False
    obtain t1 where t1: "move_chain hf (2 ^ k - 1) (Some t) c used = Inr (Some t1, used - of_nat (length c))"
      "length t1 = 2 ^ k" "in_slots hf (2 ^ k - 1) t1" "mset (concat t1) = mset c + mset (concat t)"
      using move_chain_ok [OF Cons.prems(1-3)] by blast
    have l: "unat (of_nat (length c) :: u64) = length c"
      using Cons.prems(4) unsigned_less [of used, where 'a=nat] by (simp add: unat_of_nat)
    then have "of_nat (length c) \<le> used" using Cons.prems(4) by (simp add: word_le_nat_alt)
    then have "unat (used - of_nat (length c)) = length (concat cs)"
      using l Cons.prems(4) by (simp add: unat_sub)
    from Cons.IH [OF Cons.prems(1) t1(2,3) this] t1 False show ?thesis by auto
  qed
qed

lemma slots_ok:
  assumes "dict_inv d"
  shows "\<exists>cs. dict_slots d = Inr cs \<and> concat cs = dents d"
proof (cases "d_size d = 0 \<or> d_used d = 0")
  case True
  then have "dents d = []" using assms by (auto simp: dict_inv_def shape_def dents_def)
  with True show ?thesis by (auto simp: dict_slots_def)
next
  case False
  then obtain k t where "k \<le> 31" "d_size d = 2 ^ k" "d_table d = Some t" "length t = 2 ^ k"
    using assms by (auto simp: dict_inv_def shape_def)
  with False show ?thesis by (simp add: dict_slots_def pow_unat dents_def)
qed

lemma dict_expand_ok:
  assumes inv: "dict_inv d" and m: "dm_table mem" and k: "2 \<le> k" "k \<le> 31" "d_used d \<le> 2 ^ k"
  shows "\<exists>d'. dictExpand mem d (2 ^ k) = Inr (d', True) \<and> shape d' \<and> d_type d' = d_type d \<and> d_used d' = d_used d
    \<and> d_size d' = 2 ^ k \<and> mset (dents d') = mset (dents d)"
proof -
  obtain cs where cs: "dict_slots d = Inr cs" "concat cs = dents d" using slots_ok [OF inv] by blast
  have u: "unat (d_used d) = length (concat cs)" using inv cs(2) by (simp add: dict_inv_def)
  obtain t where t: "move_table (hashFunction (d_type d)) (2 ^ k - 1) (Some (replicate (2 ^ k) [])) cs (d_used d) = Inr (Some t, 0)"
    "length t = 2 ^ k" "in_slots (hashFunction (d_type d)) (2 ^ k - 1) t" "mset (concat t) = mset (dents d)"
    using move_table_ok [OF k(2) _ in_slots_empty u, of "2 ^ k" "hashFunction (d_type d)"] cs(2) by auto
  have "\<not> (2 ^ k < d_used d)" using k(3) by simp
  with cs(1) t m k show ?thesis
    by (auto simp: dictExpand_def next_power_ok pow_unat shape_def dents_def)
qed

section \<open>Finding\<close>

abbreviation lookup_entry :: "('k, 'v) dict \<Rightarrow> 'k \<Rightarrow> ('k, 'v) dictEntry option" where
  "lookup_entry d \<equiv> first_match (dictCompareHashKeys d) de_key (dents d)"

text \<open>The table of a dictionary that has one, and the slot of a key in it.\<close>

abbreviation key_slot :: "('k, 'v) dict \<Rightarrow> 'k \<Rightarrow> u32" where
  "key_slot d k \<equiv> slot (hashFunction (d_type d)) (d_sizemask d) k"

lemma dict_table:
  assumes "dict_inv d" "d_size d \<noteq> 0"
  obtains k t where "2 \<le> k" "k \<le> 31" "d_size d = 2 ^ k" "d_sizemask d = 2 ^ k - 1" "d_table d = Some t" "length t = 2 ^ k"
    "in_slots (hashFunction (d_type d)) (d_sizemask d) t" "dents d = concat t"
    "\<And>key. unat (key_slot d key) < length t" "\<And>key. sint (key_slot d key) = int (unat (key_slot d key))"
proof -
  from assms obtain k t where t: "2 \<le> k" "k \<le> 31" "d_size d = 2 ^ k" "d_sizemask d = 2 ^ k - 1" "d_table d = Some t"
    "length t = 2 ^ k" "in_slots (hashFunction (d_type d)) (2 ^ k - 1) t"
    by (auto simp: dict_inv_def shape_def)
  show thesis
    by (rule that [OF t(1-6)]) (use t slot_less slot_sint in \<open>auto simp: dents_def\<close>)
qed

lemma match_in_slot:
  assumes inv: "dict_inv d" and t: "d_table d = Some t" "unat (key_slot d key) < length t"
    and s: "in_slots (hashFunction (d_type d)) (d_sizemask d) t"
  shows "first_match (dictCompareHashKeys d) de_key (t ! unat (key_slot d key)) key = lookup_entry d key"
proof -
  have "filter (\<lambda>e. dictCompareHashKeys d key (de_key e)) (concat t)
      = filter (\<lambda>e. dictCompareHashKeys d key (de_key e)) (t ! unat (key_slot d key))"
  proof (rule filter_concat_single [OF t(2)])
    fix j e assume j: "j < length t" "e \<in> set (t ! j)" "dictCompareHashKeys d key (de_key e)"
    with inv have "hashFunction (d_type d) key = hashFunction (d_type d) (de_key e)"
      by (auto simp: dict_inv_def type_ok_def)
    then have "slot (hashFunction (d_type d)) (d_sizemask d) (de_key e) = key_slot d key" by (simp add: slot_def)
    moreover have "unat (key_slot d (de_key e)) = j" using j(1,2) s by (simp add: in_slots_def)
    ultimately show "j = unat (key_slot d key)" by metis
  qed
  with t(1) show ?thesis by (simp add: first_match_def dents_def)
qed

lemma chain_at_ok:
  assumes "dict_inv d" "d_size d \<noteq> 0"
  shows "\<exists>c. chain_at d (unat (key_slot d key)) = Inr c \<and> find_chain (dictCompareHashKeys d) key c = lookup_entry d key"
proof -
  obtain t where t: "d_table d = Some t" "unat (key_slot d key) < length t"
    "in_slots (hashFunction (d_type d)) (d_sizemask d) t" using dict_table [OF assms] by metis
  with match_in_slot [OF assms(1) t] show ?thesis by (simp add: chain_at_def find_chain_match)
qed

lemma find_ok:
  assumes "dict_inv d"
  shows "dictFind d key = Inr (lookup_entry d key)"
proof (cases "d_size d = 0")
  case True
  with assms have "dents d = []" by (auto simp: dict_inv_def shape_def dents_def)
  with True show ?thesis by (simp add: dictFind_def)
next
  case False
  with chain_at_ok [OF assms False, of key] show ?thesis by (auto simp: dictFind_def)
qed

section \<open>Adding\<close>

definition mem_good :: "dict_mem \<Rightarrow> bool" where
  "mem_good mem \<longleftrightarrow> dm_table mem \<and> dm_entry mem \<and> dm_value mem"

text \<open>Two dictionaries with the same type and the same entries.\<close>

definition same_dict :: "('k, 'v) dict \<Rightarrow> ('k, 'v) dict \<Rightarrow> bool" where
  "same_dict d d' \<longleftrightarrow> d_type d' = d_type d \<and> d_used d' = d_used d \<and> mset (dents d') = mset (dents d)"

lemma same_dict_lookup:
  assumes "dict_inv d" "same_dict d d'"
  shows "lookup_entry d' = lookup_entry d"
proof -
  have c: "dictCompareHashKeys d' = dictCompareHashKeys d" using assms(2) by (auto simp: same_dict_def intro: cmp_type)
  have "equivp (dictCompareHashKeys d)" "one_per_class (dictCompareHashKeys d) de_key (dents d)"
    using assms(1) by (auto simp: dict_inv_def type_ok_def)
  from first_match_mset [OF this, of "dents d'"] assms(2) show ?thesis unfolding c by (simp add: same_dict_def)
qed

lemma same_dict_inv:
  assumes "dict_inv d" "same_dict d d'" "shape d'" "d_used d' \<le> d_size d'"
  shows "dict_inv d'"
proof -
  have c: "dictCompareHashKeys d' = dictCompareHashKeys d" "type_ok d' = type_ok d"
    using assms(2) cmp_type [of d' d] type_ok_type [of d' d] by (simp_all add: same_dict_def)
  have "length (dents d') = length (dents d)" using assms(2) by (metis same_dict_def size_mset)
  moreover have "one_per_class (dictCompareHashKeys d') de_key (dents d')"
    using assms(1,2) one_per_class_mset [of "dents d'" "dents d" "dictCompareHashKeys d" de_key] unfolding c(1) by (simp add: dict_inv_def same_dict_def)
  ultimately show ?thesis using assms c(2) by (simp add: dict_inv_def same_dict_def)
qed

lemma expand_if_needed_ok:
  assumes inv: "dict_inv d" and m: "dm_table mem" and u: "unat (d_used d) < 2 ^ 31"
  shows "\<exists>d'. dictExpandIfNeeded mem d = Inr (d', True) \<and> dict_inv d' \<and> same_dict d d' \<and> d_used d' < d_size d'"
proof -
  have grow: ?thesis if k: "2 \<le> k" "k \<le> 31" "d_used d < 2 ^ k" "dictExpandIfNeeded mem d = dictExpand mem d (2 ^ k)" for k
  proof -
    obtain d' where d': "dictExpand mem d (2 ^ k) = Inr (d', True)" "shape d'" "d_type d' = d_type d" "d_used d' = d_used d"
      "d_size d' = 2 ^ k" "mset (dents d') = mset (dents d)"
      using dict_expand_ok [OF inv m k(1,2) less_imp_le [OF k(3)]] by blast
    have s: "same_dict d d'" using d' by (simp add: same_dict_def)
    have "d_used d' < d_size d'" using d'(4,5) k(3) by simp
    with same_dict_inv [OF inv s d'(2)] s d'(1) k(4) show ?thesis by auto
  qed
  show ?thesis
  proof (cases "d_size d = 0")
    case True
    then have "d_used d = 0" using inv by (simp add: dict_inv_def)
    with True show ?thesis by (intro grow [of 2]) (simp_all add: dictExpandIfNeeded_def DICT_HT_INITIAL_SIZE_def)
  next
    case sz: False
    then obtain k t where k: "2 \<le> k" "k \<le> 31" "d_size d = 2 ^ k" using dict_table [OF inv sz] by metis
    show ?thesis
    proof (cases "d_used d = d_size d")
      case True
      then have "(2::nat) ^ k < 2 ^ 31" using k u by (simp add: pow_unat)
      then have k': "k < 31" by (rule power_less_imp_less_exp [rotated]) simp
      have "unat (2 ^ k :: u64) < unat (2 ^ Suc k :: u64)" using k' pow_unat [of k] pow_unat [of "Suc k"] by simp
      then have "(2 ^ k :: u64) < 2 ^ Suc k" by (simp only: word_less_nat_alt)
      with True k sz k' show ?thesis
        by (intro grow [of "Suc k"]) (simp_all add: dictExpandIfNeeded_def mult.commute)
    next
      case False
      then have "d_used d < d_size d" using inv by (simp add: dict_inv_def order_less_le)
      with inv sz False show ?thesis by (simp add: dictExpandIfNeeded_def same_dict_def)
    qed
  qed
qed

lemma key_index_ok:
  assumes inv: "dict_inv d" and m: "dm_table mem" and u: "unat (d_used d) < 2 ^ 31"
  shows "\<exists>d'. dictKeyIndex mem d key = Inr (d', if lookup_entry d key = None then int (unat (key_slot d' key)) else -1)
    \<and> dict_inv d' \<and> same_dict d d' \<and> d_used d' < d_size d'"
proof -
  obtain d' where d': "dictExpandIfNeeded mem d = Inr (d', True)" "dict_inv d'" "same_dict d d'" "d_used d' < d_size d'"
    using expand_if_needed_ok [OF assms] by blast
  have n: "d_size d' \<noteq> 0" using d'(4) by (metis word_not_simps(1))
  obtain c where c: "chain_at d' (unat (key_slot d' key)) = Inr c" "find_chain (dictCompareHashKeys d') key c = lookup_entry d' key"
    using chain_at_ok [OF d'(2) n] by blast
  have "sint (key_slot d' key) = int (unat (key_slot d' key))" using dict_table [OF d'(2) n] by metis
  with d' c same_dict_lookup [OF inv d'(3)] show ?thesis
    by (intro exI [of _ d']) (simp add: dictKeyIndex_def Let_def)
qed

lemma in_slots_upd:
  assumes "in_slots hf m t" "\<And>e. e \<in> set c \<Longrightarrow> unat (slot hf m (de_key e)) = i"
  shows "in_slots hf m (t[i := c])"
  using assms unfolding in_slots_def by (metis length_list_update nth_list_update nth_list_update_neq)

lemma add_ok:
  assumes inv: "dict_inv d" and m: "mem_good mem" and u: "unat (d_used d) < 2 ^ 31"
  shows "lookup_entry d key \<noteq> None \<Longrightarrow> \<exists>d'. dictAdd mem d key val = Inr (d', False) \<and> dict_inv d' \<and> same_dict d d'"
    and "lookup_entry d key = None \<Longrightarrow> \<exists>d'. dictAdd mem d key val = Inr (d', True) \<and> dict_inv d' \<and> d_type d' = d_type d
      \<and> d_used d' = d_used d + 1
      \<and> mset (dents d') = add_mset \<lparr>de_key = dictSetHashKey d key, de_val = val\<rparr> (mset (dents d))"
proof -
  have tb: "dm_table mem" using m by (simp add: mem_good_def)
  obtain d1 where d1: "dictKeyIndex mem d key = Inr (d1, if lookup_entry d key = None then int (unat (key_slot d1 key)) else -1)"
    "dict_inv d1" "same_dict d d1" "d_used d1 < d_size d1" using key_index_ok [OF inv tb u] by blast
  show "\<exists>d'. dictAdd mem d key val = Inr (d', False) \<and> dict_inv d' \<and> same_dict d d'" if "lookup_entry d key \<noteq> None"
    using d1 that by (simp add: dictAdd_def)
  assume none: "lookup_entry d key = None"
  have sz: "d_size d1 \<noteq> 0" using d1(4) by (metis word_not_simps(1))
  obtain k t where t: "2 \<le> k" "k \<le> 31" "d_size d1 = 2 ^ k" "d_sizemask d1 = 2 ^ k - 1" "d_table d1 = Some t" "length t = 2 ^ k"
    "in_slots (hashFunction (d_type d1)) (d_sizemask d1) t" "dents d1 = concat t" "unat (key_slot d1 key) < length t"
    using dict_table [OF d1(2) sz] by metis
  define h where "h = unat (key_slot d1 key)"
  let ?e = "\<lparr>de_key = dictSetHashKey d key, de_val = val\<rparr>"
  have ty: "d_type d1 = d_type d" "d_used d1 = d_used d" using d1(3) by (auto simp: same_dict_def)
  have tok: "type_ok d" "type_ok d1" using inv d1(2) by (auto simp: dict_inv_def)
  have dk: "dictSetHashKey d1 key = dictSetHashKey d key" using ty by (simp add: dictSetHashKey_def)
  have same_hash: "hashFunction (d_type d1) (dictSetHashKey d key) = hashFunction (d_type d1) key"
    using tok(1) ty by (auto simp: type_ok_def)
  have v: "dictSetHashVal mem d1 val = Inr val"
    using tok(2) m by (auto simp: dictSetHashVal_def type_ok_def mem_good_def split: option.splits)
  define d' where "d' = d1\<lparr>d_table := Some (t[h := ?e # t ! h]), d_used := d_used d1 + 1\<rparr>"
  have t9: "h < length t" using t(9) by (simp add: h_def)
  have idx: "dictKeyIndex mem d key = Inr (d1, int h)" using d1(1) none by (simp add: h_def)
  have run: "dictAdd mem d key val = Inr (d', True)"
    using idx m t(5) t9 v dk by (simp add: dictAdd_def chain_at_def mem_good_def d'_def)
  have ms: "mset (dents d') = add_mset ?e (mset (dents d))"
    using mset_concat_cons [OF t9, of ?e] d1(3) t(8) by (simp add: d'_def dents_def same_dict_def)
  have cmp: "dictCompareHashKeys d' = dictCompareHashKeys d" by (rule cmp_type) (simp add: d'_def ty)
  have eq: "equivp (dictCompareHashKeys d)" using tok(1) by (simp add: type_ok_def)
  have "dictCompareHashKeys d (dictSetHashKey d key) key" using tok(1) by (simp add: type_ok_def)
  then have "lookup_entry d (dictSetHashKey d key) = None" using first_match_class [OF eq] none by metis
  then have "one_per_class (dictCompareHashKeys d) de_key (?e # dents d)"
    using inv one_per_class_Cons [OF eq, of de_key ?e "dents d"] by (simp add: dict_inv_def)
  then have opc: "one_per_class (dictCompareHashKeys d') de_key (dents d')"
    using one_per_class_mset [of "dents d'" "?e # dents d" "dictCompareHashKeys d" de_key] ms cmp by simp
  have un: "unat (d_used d') = Suc (unat (d_used d))"
    using u by (simp add: d'_def ty unat_word_ariths unat_of_nat)
  have len: "length (dents d') = Suc (length (dents d))" using ms by (metis size_mset size_add_mset)
  have le: "d_used d' \<le> d_size d'"
    using d1(4) un ty by (simp add: d'_def word_le_nat_alt word_less_nat_alt)
  have "in_slots (hashFunction (d_type d1)) (d_sizemask d1) (t[h := ?e # t ! h])"
    by (rule in_slots_cons [OF t(7) t9]) (simp add: slot_def same_hash h_def)
  then have "shape d'" unfolding shape_def using t by (intro disjI2 exI [of _ k]) (simp add: d'_def)
  with opc un len le inv tok(2) type_ok_type [of d' d1] have "dict_inv d'" by (simp add: dict_inv_def d'_def)
  with run ms un ty show "\<exists>d'. dictAdd mem d key val = Inr (d', True) \<and> dict_inv d' \<and> d_type d' = d_type d
      \<and> d_used d' = d_used d + 1 \<and> mset (dents d') = add_mset ?e (mset (dents d))"
    by (intro exI [of _ d']) (simp add: d'_def)
qed

section \<open>Replacing and deleting\<close>

lemma delete_chain_match:
  "delete_chain cmp k c = None \<longleftrightarrow> first_match cmp de_key c k = None"
  "delete_chain cmp k c = Some (e, c') \<Longrightarrow>
     first_match cmp de_key c k = Some e \<and> mset c = add_mset e (mset c')"
  by (induction c arbitrary: c') (auto split: if_splits option.splits)

lemma set_val_keys: "map de_key (set_val_chain cmp k v c) = map de_key c"
  by (induction c) auto

lemma set_val_mset:
  "first_match cmp de_key c k = Some e \<Longrightarrow> mset (set_val_chain cmp k v c) + {#e#} = add_mset (e\<lparr>de_val := v\<rparr>) (mset c)"
  by (induction c) (auto split: if_splits)

lemma one_per_class_map: "one_per_class eq key es = one_per_class eq (\<lambda>k. k) (map key es)"
  by (auto simp: one_per_class_def filter_map comp_def)

lemma one_per_class_keys:
  "map de_key es' = map de_key es \<Longrightarrow> one_per_class eq de_key es' = one_per_class eq de_key es"
  unfolding one_per_class_map [of eq de_key] by simp

text \<open>Replacing the chain of one slot.\<close>

lemma with_chain:
  assumes inv: "dict_inv d" and sz: "d_size d \<noteq> 0"
  obtains t where "d_table d = Some t" "chain_at d (unat (key_slot d key)) = Inr (t ! unat (key_slot d key))"
    "first_match (dictCompareHashKeys d) de_key (t ! unat (key_slot d key)) key = lookup_entry d key"
    "dents d = concat t" "unat (key_slot d key) < length t"
    "\<And>c n. (\<forall>e \<in> set c. \<exists>e' \<in> set (t ! unat (key_slot d key)). de_key e = de_key e') \<Longrightarrow>
       shape (d\<lparr>d_table := Some (t[unat (key_slot d key) := c]), d_used := n\<rparr>)"
proof -
  obtain k t where t: "2 \<le> k" "k \<le> 31" "d_size d = 2 ^ k" "d_sizemask d = 2 ^ k - 1" "d_table d = Some t" "length t = 2 ^ k"
    "in_slots (hashFunction (d_type d)) (d_sizemask d) t" "dents d = concat t" "unat (key_slot d key) < length t"
    using dict_table [OF inv sz] by metis
  let ?h = "unat (key_slot d key)"
  have "shape (d\<lparr>d_table := Some (t[?h := c]), d_used := n\<rparr>)"
    if "\<forall>e \<in> set c. \<exists>e' \<in> set (t ! ?h). de_key e = de_key e'" for c n
  proof -
    have "in_slots (hashFunction (d_type d)) (d_sizemask d) (t[?h := c])"
      by (rule in_slots_upd [OF t(7)]) (use that t(7,9) in \<open>auto simp: in_slots_def\<close>)
    then show ?thesis unfolding shape_def using t by (intro disjI2 exI [of _ k]) simp
  qed
  with t match_in_slot [OF inv t(5,9,7)] show thesis by (intro that [of t]) (auto simp: chain_at_def)
qed

lemma no_size_no_entries: "dict_inv d \<Longrightarrow> d_size d = 0 \<Longrightarrow> dents d = []"
  by (auto simp: dict_inv_def shape_def dents_def)

lemma delete_ok:
  assumes inv: "dict_inv d"
  shows "lookup_entry d key = None \<Longrightarrow> dictDelete d key = Inr (d, False, [])"
    and "lookup_entry d key = Some e \<Longrightarrow> \<exists>d'. dictDelete d key =
        Inr (d', True, dictFreeEntryKey d (de_key e) @ dictFreeEntryVal d (de_val e) @ [FreedEntry])
      \<and> dict_inv d' \<and> d_type d' = d_type d \<and> d_used d' = d_used d - 1 \<and> mset (dents d) = add_mset e (mset (dents d'))"
proof -
  show "dictDelete d key = Inr (d, False, [])" if n: "lookup_entry d key = None"
  proof (cases "d_size d = 0")
    case False
    obtain t where t: "chain_at d (unat (key_slot d key)) = Inr (t ! unat (key_slot d key))"
      "first_match (dictCompareHashKeys d) de_key (t ! unat (key_slot d key)) key = lookup_entry d key"
      using with_chain [OF inv False, of key] by metis
    with n have "delete_chain (dictCompareHashKeys d) key (t ! unat (key_slot d key)) = None"
      by (simp add: delete_chain_match(1))
    with False t show ?thesis by (simp add: dictDelete_def)
  qed (simp add: dictDelete_def)
  assume hit: "lookup_entry d key = Some e"
  then have sz: "d_size d \<noteq> 0" using no_size_no_entries [OF inv] by auto
  obtain t where t: "d_table d = Some t" "chain_at d (unat (key_slot d key)) = Inr (t ! unat (key_slot d key))"
    "first_match (dictCompareHashKeys d) de_key (t ! unat (key_slot d key)) key = lookup_entry d key"
    "dents d = concat t" "unat (key_slot d key) < length t"
    and sh: "\<And>c n. (\<forall>e \<in> set c. \<exists>e' \<in> set (t ! unat (key_slot d key)). de_key e = de_key e') \<Longrightarrow>
       shape (d\<lparr>d_table := Some (t[unat (key_slot d key) := c]), d_used := n\<rparr>)"
    using with_chain [OF inv sz, of key] by blast
  define h where "h = unat (key_slot d key)"
  obtain de c where dc: "delete_chain (dictCompareHashKeys d) key (t ! h) = Some (de, c)"
    using t(3) hit delete_chain_match(1) [of "dictCompareHashKeys d" key "t ! h"] by (auto simp: h_def)
  from delete_chain_match(2) [OF dc] t(3) hit have de: "de = e" and mc: "mset (t ! h) = add_mset e (mset c)"
    by (simp_all add: h_def)
  define d' where "d' = d\<lparr>d_table := Some (t[h := c]), d_used := d_used d - 1\<rparr>"
  have run: "dictDelete d key = Inr (d', True, dictFreeEntryKey d (de_key e) @ dictFreeEntryVal d (de_val e) @ [FreedEntry])"
    using sz t(1,2) dc de by (simp add: dictDelete_def d'_def Let_def h_def)
  have "set c \<subseteq> set (t ! h)" using mc by (metis set_mset_add_mset_insert set_mset_mset subset_insertI)
  then have s: "shape d'" unfolding d'_def h_def by (intro sh) (auto simp: h_def)
  have ms: "mset (dents d) = add_mset e (mset (dents d'))"
    using mset_concat_update [of h t c] t(4,5) mc by (simp add: d'_def dents_def h_def)
  then have len: "length (dents d) = Suc (length (dents d'))" by (metis size_mset size_add_mset)
  then have "d_used d \<noteq> 0" using inv by (auto simp: dict_inv_def)
  then have u: "unat (d_used d') = length (dents d')" "d_used d' \<le> d_size d'"
    using inv len by (auto simp: dict_inv_def d'_def unat_minus_one word_le_nat_alt)
  have eq: "equivp (dictCompareHashKeys d)" using inv by (simp add: dict_inv_def type_ok_def)
  have "one_per_class (dictCompareHashKeys d) de_key (e # dents d')"
    using inv one_per_class_mset [of "dents d" "e # dents d'" "dictCompareHashKeys d" de_key] ms by (simp add: dict_inv_def)
  then have "one_per_class (dictCompareHashKeys d) de_key (dents d')"
    using one_per_class_Cons [OF eq, of de_key e "dents d'"] by simp
  moreover have ty: "d_type d' = d_type d" by (simp add: d'_def)
  ultimately have "dict_inv d'" using inv s u by (simp add: dict_inv_def cmp_type [OF ty] type_ok_type [OF ty])
  with run ms ty show "\<exists>d'. dictDelete d key =
        Inr (d', True, dictFreeEntryKey d (de_key e) @ dictFreeEntryVal d (de_val e) @ [FreedEntry])
      \<and> dict_inv d' \<and> d_type d' = d_type d \<and> d_used d' = d_used d - 1 \<and> mset (dents d) = add_mset e (mset (dents d'))"
    by (intro exI [of _ d']) (simp add: d'_def)
qed

lemma replace_ok:
  assumes inv: "dict_inv d" and m: "mem_good mem" and u: "unat (d_used d) < 2 ^ 31"
  shows "lookup_entry d key = Some e \<Longrightarrow> \<exists>d'. dictReplace mem d key val = Inr (d', 0, dictFreeEntryVal d (de_val e))
      \<and> dict_inv d' \<and> d_type d' = d_type d \<and> d_used d' = d_used d
      \<and> mset (dents d') + {#e#} = add_mset (e\<lparr>de_val := val\<rparr>) (mset (dents d))"
    and "lookup_entry d key = None \<Longrightarrow> \<exists>d'. dictReplace mem d key val = Inr (d', 1, []) \<and> dict_inv d' \<and> d_type d' = d_type d
      \<and> d_used d' = d_used d + 1
      \<and> mset (dents d') = add_mset \<lparr>de_key = dictSetHashKey d key, de_val = val\<rparr> (mset (dents d))"
proof -
  have fresh: "dictReplace mem d key val = Inr (d', 1, [])" if "dictAdd mem d key val = Inr (d', True)" for d'
    using that by (simp add: dictReplace_def)
  show "lookup_entry d key = None \<Longrightarrow> \<exists>d'. dictReplace mem d key val = Inr (d', 1, []) \<and> dict_inv d' \<and> d_type d' = d_type d
      \<and> d_used d' = d_used d + 1
      \<and> mset (dents d') = add_mset \<lparr>de_key = dictSetHashKey d key, de_val = val\<rparr> (mset (dents d))"
    using add_ok(2) [OF assms, of key val] fresh by blast
  assume hit: "lookup_entry d key = Some e"
  obtain d1 where d1: "dictAdd mem d key val = Inr (d1, False)" "dict_inv d1" "same_dict d d1"
    using add_ok(1) [OF assms, of key val] hit by (metis option.discI)
  have ty: "d_type d1 = d_type d" "d_used d1 = d_used d" using d1(3) by (auto simp: same_dict_def)
  have hit1: "lookup_entry d1 key = Some e" using same_dict_lookup [OF inv d1(3)] hit by simp
  then have sz: "d_size d1 \<noteq> 0" using no_size_no_entries [OF d1(2)] by auto
  obtain t where t: "d_table d1 = Some t" "chain_at d1 (unat (key_slot d1 key)) = Inr (t ! unat (key_slot d1 key))"
    "first_match (dictCompareHashKeys d1) de_key (t ! unat (key_slot d1 key)) key = lookup_entry d1 key"
    "dents d1 = concat t" "unat (key_slot d1 key) < length t"
    and sh: "\<And>c n. (\<forall>e \<in> set c. \<exists>e' \<in> set (t ! unat (key_slot d1 key)). de_key e = de_key e') \<Longrightarrow>
       shape (d1\<lparr>d_table := Some (t[unat (key_slot d1 key) := c]), d_used := n\<rparr>)"
    using with_chain [OF d1(2) sz, of key] by blast
  define h where "h = unat (key_slot d1 key)"
  define c where "c = set_val_chain (dictCompareHashKeys d1) key val (t ! h)"
  define d' where "d' = d1\<lparr>d_table := Some (t[h := c])\<rparr>"
  have tok: "type_ok d1" using d1(2) by (simp add: dict_inv_def)
  have v: "dictSetHashVal mem d1 val = Inr val"
    using tok m by (auto simp: dictSetHashVal_def type_ok_def mem_good_def split: option.splits)
  have run: "dictReplace mem d key val = Inr (d', 0, dictFreeEntryVal d (de_val e))"
    using d1(1) find_ok [OF d1(2), of key] hit1 v t(1) ty
    by (simp add: dictReplace_def d'_def c_def h_def Let_def dictFreeEntryVal_def)
  have keys: "map de_key c = map de_key (t ! h)" by (simp add: c_def set_val_keys)
  have "de_key ` set c = de_key ` set (t ! h)" using keys by (metis list.set_map)
  then have "\<forall>x \<in> set c. \<exists>e' \<in> set (t ! h). de_key x = de_key e'" by (blast elim: equalityE)
  from sh [OF this [unfolded h_def], of "d_used d1"] have s: "shape d'" by (simp add: d'_def h_def)
  have mc: "mset c + {#e#} = add_mset (e\<lparr>de_val := val\<rparr>) (mset (t ! h))"
    unfolding c_def by (rule set_val_mset) (use t(3) hit1 in \<open>simp add: h_def\<close>)
  have "mset (dents d') + mset (t ! h) = mset (dents d1) + mset c"
    using mset_concat_update [of h t c] t(4,5) by (simp add: d'_def dents_def h_def)
  then have "mset (dents d') + {#e#} + mset (t ! h) = mset (dents d1) + (mset c + {#e#})" by (simp add: add.assoc)
  then have ms: "mset (dents d') + {#e#} = add_mset (e\<lparr>de_val := val\<rparr>) (mset (dents d))"
    using d1(3) unfolding mc same_dict_def by simp
  have "map de_key (dents d') = map de_key (dents d1)"
    using keys t(4,5) by (simp add: d'_def dents_def nth_concat_split concat_split_nth [of h t] h_def)
  note k = this arg_cong [OF this, of length, simplified]
  have ty': "d_type d' = d_type d1" and sm: "d_used d' = d_used d1" "d_size d' = d_size d1" by (simp_all add: d'_def)
  have "dict_inv d'"
    using d1(2) s k(2) one_per_class_keys [OF k(1), of "dictCompareHashKeys d1"]
    by (simp add: dict_inv_def cmp_type [OF ty'] type_ok_type [OF ty'] sm)
  with run ms ty show "\<exists>d'. dictReplace mem d key val = Inr (d', 0, dictFreeEntryVal d (de_val e))
      \<and> dict_inv d' \<and> d_type d' = d_type d \<and> d_used d' = d_used d
      \<and> mset (dents d') + {#e#} = add_mset (e\<lparr>de_val := val\<rparr>) (mset (dents d))"
    by (intro exI [of _ d']) (simp add: d'_def)
qed

section \<open>Clearing\<close>

definition freed_by :: "('k, 'v) dict \<Rightarrow> ('k, 'v) dictEntry \<Rightarrow> ('k, 'v) dict_freed list" where
  "freed_by d e = dictFreeEntryKey d (de_key e) @ dictFreeEntryVal d (de_val e) @ [FreedEntry]"

lemma clear_chain_ok: "clear_chain d c used = (concat (map (freed_by d) c), used - of_nat (length c))"
  by (induction c arbitrary: used) (simp_all add: freed_by_def diff_diff_eq)

lemma clear_table_ok: "unat used = length (concat cs) \<Longrightarrow> clear_table d cs used = concat (map (freed_by d) (concat cs))"
proof (induction cs arbitrary: used)
  case (Cons c cs)
  show ?case
  proof (cases "used = 0")
    case True
    with Cons.prems show ?thesis by auto
  next
    case False
    have l: "unat (of_nat (length c) :: u64) = length c"
      using Cons.prems unsigned_less [of used, where 'a=nat] by (simp add: unat_of_nat)
    then have "of_nat (length c) \<le> used" using Cons.prems by (simp add: word_le_nat_alt)
    then have "unat (used - of_nat (length c)) = length (concat cs)" using l Cons.prems by (simp add: unat_sub)
    from Cons.IH [OF this] False show ?thesis by (simp add: clear_chain_ok)
  qed
qed simp

lemma clear_ok:
  assumes "dict_inv d"
  shows "dictClear d = Inr (dictReset d, concat (map (freed_by d) (dents d)) @ (if d_table d = None then [] else [FreedTable]))"
proof -
  obtain cs where cs: "dict_slots d = Inr cs" "concat cs = dents d" using slots_ok [OF assms] by blast
  then have "unat (d_used d) = length (concat cs)" using assms by (simp add: dict_inv_def)
  from clear_table_ok [OF this, of d] cs show ?thesis by (simp add: dictClear_def)
qed

lemma reset_inv: "dict_inv d \<Longrightarrow> dict_inv (dictReset d) \<and> dents (dictReset d) = []"
proof -
  assume "dict_inv d"
  moreover have ty: "d_type (dictReset d) = d_type d" by (simp add: dictReset_def)
  ultimately show ?thesis by (auto simp: dict_inv_def shape_def dents_def dictReset_def type_ok_type [OF ty, unfolded dictReset_def])
qed

section \<open>Iterating\<close>

lemma scan_slots_ok:
  "scan_slots cs i = (j, c) \<Longrightarrow> \<exists>n. j = i + int n \<and>
     (if c = [] then n = length cs \<and> concat cs = [] else n < length cs \<and> concat cs = c @ concat (drop (Suc n) cs))"
proof (induction cs arbitrary: i)
  case (Cons x cs)
  show ?case
  proof (cases "x = []")
    case True
    with Cons.prems have "scan_slots cs (i + 1) = (j, c)" by simp
    from Cons.IH [OF this] obtain n where n: "j = i + 1 + int n"
      "if c = [] then n = length cs \<and> concat cs = [] else n < length cs \<and> concat cs = c @ concat (drop (Suc n) cs)" by blast
    show ?thesis by (rule exI [of _ "Suc n"]) (use n True in \<open>auto split: if_splits\<close>)
  qed (use Cons.prems in \<open>auto intro: exI [of _ 0]\<close>)
qed simp

text \<open>The entries an iterator has still to deliver.\<close>

definition to_come :: "('k, 'v) dictEntry list list \<Rightarrow> ('k, 'v) dictIterator \<Rightarrow> ('k, 'v) dictEntry list" where
  "to_come t it = tl (it_rest it) @ concat (drop (nat (it_index it + 1)) t)"

lemma sint_pow: "k \<le> 31 \<Longrightarrow> sint (2 ^ k :: u64) = 2 ^ k"
proof -
  assume k: "k \<le> 31"
  have "(2::int) ^ k < 2 ^ 63" using k by (intro power_strict_increasing) auto
  then have "sint (word_of_int (2 ^ k) :: u64) = 2 ^ k"
    by (subst int_word_sint) (simp add: mod_pos_pos_trivial)
  then show ?thesis by simp
qed

lemma next_ok:
  assumes inv: "dict_inv d" and t: "t = (case d_table d of None \<Rightarrow> [] | Some t \<Rightarrow> t)"
    and i: "-1 \<le> it_index it" "it_index it < int (length t)"
  shows "\<exists>it'. dictNext d it = Inr (it', case to_come t it of [] \<Rightarrow> None | e # _ \<Rightarrow> Some e)
    \<and> -1 \<le> it_index it'
    \<and> (to_come t it \<noteq> [] \<longrightarrow> to_come t it' = tl (to_come t it) \<and> it_index it' < int (length t))"
proof (cases "tl (it_rest it)")
  case (Cons e es)
  with i show ?thesis by (simp add: dictNext_def to_come_def)
next
  case Nil
  let ?i = "it_index it + 1"
  have sz: "sint (d_size d) = int (length t)"
  proof (cases "d_size d = 0")
    case True
    with inv t show ?thesis by (auto simp: dict_inv_def shape_def)
  next
    case False
    obtain k t' where "k \<le> 31" "d_size d = 2 ^ k" "d_table d = Some t'" "length t' = 2 ^ k"
      using dict_table [OF inv False] by metis
    with t show ?thesis by (simp add: sint_pow)
  qed
  show ?thesis
  proof (cases "sint (d_size d) \<le> ?i")
    case True
    with Nil i sz have "to_come t it = []" by (simp add: to_come_def nat_add_distrib)
    with Nil True i sz show ?thesis by (auto simp: dictNext_def)
  next
    case False
    then have "d_size d \<noteq> 0" using i by auto
    then obtain k t' where k': "k \<le> 31" "d_size d = 2 ^ k" "d_table d = Some t'" "length t' = 2 ^ k"
      using dict_table [OF inv] by metis
    with t have k: "k \<le> 31" "d_size d = 2 ^ k" "d_table d = Some t" "length t = 2 ^ k" by simp_all
    have tk: "take (unat (d_size d)) t = t" using k by (simp add: pow_unat)
    obtain j c where sc: "scan_slots (drop (nat ?i) t) ?i = (j, c)" by (cases "scan_slots (drop (nat ?i) t) ?i")
    from scan_slots_ok [OF sc] obtain n where n: "j = ?i + int n"
      "if c = [] then n = length (drop (nat ?i) t) \<and> concat (drop (nat ?i) t) = []
       else n < length (drop (nat ?i) t) \<and> concat (drop (nat ?i) t) = c @ concat (drop (Suc n) (drop (nat ?i) t))" by blast
    have lt: "nat ?i < length t" using False sz i by linarith
    have j: "-1 \<le> j" "c \<noteq> [] \<Longrightarrow> j < int (length t)" using n i lt by (auto split: if_splits)
    have "nat (j + 1) = Suc n + nat ?i" using n(1) i by linarith
    then have dr: "drop (Suc n) (drop (nat ?i) t) = drop (nat (j + 1)) t" by simp
    have tc: "to_come t it = concat (drop (nat ?i) t)" using Nil by (simp add: to_come_def)
    have nx: "dictNext d it = Inr (\<lparr>it_index = j, it_rest = c\<rparr>, (case c of [] \<Rightarrow> None | e # _ \<Rightarrow> Some e))"
      using Nil False k(3) tk sc by (simp add: dictNext_def)
    show ?thesis
    proof (cases c)
      case [simp]: Nil
      have "to_come t it = []" using n(2) tc by simp
      with nx j(1) show ?thesis by (intro exI [of _ "\<lparr>it_index = j, it_rest = c\<rparr>"]) simp
    next
      case [simp]: (Cons e es)
      have "to_come t it = e # es @ concat (drop (nat (j + 1)) t)" using n(2) tc dr by simp
      with nx j show ?thesis by (intro exI [of _ "\<lparr>it_index = j, it_rest = c\<rparr>"]) (simp add: to_come_def)
    qed
  qed
qed

lemma entries_ok:
  assumes "dict_inv d" "length (dents d) < n"
  shows "dict_entries_loop n d \<lparr>it_index = -1, it_rest = []\<rparr> = Inr (dents d)"
proof -
  define t where "t = (case d_table d of None \<Rightarrow> [] | Some t \<Rightarrow> t)"
  have "dict_entries_loop n d it = Inr (to_come t it)"
    if "length (to_come t it) < n" "-1 \<le> it_index it" "it_index it < int (length t)" for it
    using that
  proof (induction n arbitrary: it)
    case (Suc n)
    from next_ok [OF assms(1) t_def Suc.prems(2,3)] obtain it' where
      it': "dictNext d it = Inr (it', case to_come t it of [] \<Rightarrow> None | e # _ \<Rightarrow> Some e)"
      "-1 \<le> it_index it'"
      "to_come t it \<noteq> [] \<longrightarrow> to_come t it' = tl (to_come t it) \<and> it_index it' < int (length t)" by blast
    show ?case
    proof (cases "to_come t it")
      case (Cons e es)
      with it' Suc.prems(1) have "dict_entries_loop n d it' = Inr es" by (subst Suc.IH) auto
      with Cons it'(1) show ?thesis by simp
    qed (use it'(1) in simp)
  qed simp
  moreover have "to_come t \<lparr>it_index = -1, it_rest = []\<rparr> = dents d" by (simp add: to_come_def dents_def t_def)
  ultimately show ?thesis using assms(2) by simp
qed

end
