(* ===== verification/Dict_Map.thy ===== *)
theory Dict_Map
  imports Dict_Facts
begin

text \<open>
  The dictionary as a finite map: its interpretation of the interface \<open>key_table\<close> and its properties.
\<close>

section \<open>The dictionary as a key table\<close>

lemma first_match_add:
  assumes eq: "equivp eq" and one: "one_per_class eq key es'" and m: "mset es' = add_mset e (mset es)"
  shows "first_match eq key es' k = (if eq k (key e) then Some e else first_match eq key es k)"
    "eq k (key e) \<Longrightarrow> first_match eq key es k = None" "one_per_class eq key es"
proof -
  have "mset es' = mset (e # es)" using m by simp
  with first_match_mset [OF eq one this] one_per_class_mset [OF this, of eq key] one
  have a: "first_match eq key es' k = first_match eq key (e # es) k" "one_per_class eq key (e # es)" by auto
  then show "first_match eq key es' k = (if eq k (key e) then Some e else first_match eq key es k)" by simp
  from a(2) have b: "one_per_class eq key es" "first_match eq key es (key e) = None"
    by (auto simp: one_per_class_Cons [OF eq])
  then show "one_per_class eq key es" by simp
  show "eq k (key e) \<Longrightarrow> first_match eq key es k = None" using first_match_class [OF eq] b(2) by metis
qed

definition dict_lookup :: "('k, 'v) dict \<Rightarrow> 'k \<Rightarrow> 'v option" where
  "dict_lookup d k = (case dictFind d k of Inr (Some e) \<Rightarrow> Some (de_val e) | _ \<Rightarrow> None)"

definition dict_memory :: dict_mem where
  "dict_memory = \<lparr>dm_table = True, dm_entry = True, dm_value = True\<rparr>"

definition dict_put :: "('k, 'v) dict \<Rightarrow> 'k \<Rightarrow> 'v \<Rightarrow> ('k, 'v) dict option" where
  "dict_put d k v = (case dictAdd dict_memory d k v of Inr (d', True) \<Rightarrow> Some d' | _ \<Rightarrow> None)"

definition dict_del :: "('k, 'v) dict \<Rightarrow> 'k \<Rightarrow> ('k, 'v) dict \<times> ('v \<times> 'k) option" where
  "dict_del d k =
     (case dictFind d k of
        Inr (Some e) \<Rightarrow> (case dictDelete d k of Inr (d', True, fs) \<Rightarrow> (d', Some (de_val e, de_key e)) | _ \<Rightarrow> (d, None))
      | _ \<Rightarrow> (d, None))"

definition dict_num :: "('k, 'v) dict \<Rightarrow> nat" where
  "dict_num d = unat (d_used d)"

lemma mem_good_memory [simp]: "mem_good dict_memory"
  by (simp add: mem_good_def dict_memory_def)

lemma dict_lookup_entry: "dict_inv d \<Longrightarrow> dict_lookup d k = map_option de_val (lookup_entry d k)"
  by (simp add: dict_lookup_def find_ok split: option.split)

lemma dict_equivp: "dict_inv d \<Longrightarrow> equivp (dictCompareHashKeys d)"
  by (simp add: dict_inv_def type_ok_def)

lemma dict_one: "dict_inv d \<Longrightarrow> one_per_class (dictCompareHashKeys d) de_key (dents d)"
  by (simp add: dict_inv_def)

text \<open>Lookups after an entry has come or gone.\<close>

lemma lookup_added:
  assumes inv: "dict_inv d" "dict_inv d'" and ty: "d_type d' = d_type d"
    and m: "mset (dents d') = add_mset \<lparr>de_key = dictSetHashKey d key, de_val = val\<rparr> (mset (dents d))"
  shows "dict_lookup d' k = (if dictCompareHashKeys d k key then Some val else dict_lookup d k)"
proof -
  note c = cmp_type [OF ty]
  have "dictCompareHashKeys d k (dictSetHashKey d key) = dictCompareHashKeys d k key"
  proof -
    have "dictCompareHashKeys d (dictSetHashKey d key) key" using inv(1) by (simp add: dict_inv_def type_ok_def)
    then show ?thesis using dict_equivp [OF inv(1)] by (meson equivp_symp equivp_transp)
  qed
  with first_match_add(1) [OF dict_equivp [OF inv(2)] dict_one [OF inv(2)] m, of k] show ?thesis
    by (simp add: dict_lookup_entry inv c)
qed

lemma lookup_removed:
  assumes inv: "dict_inv d" "dict_inv d'" and ty: "d_type d' = d_type d"
    and m: "mset (dents d) = add_mset e (mset (dents d'))"
  shows "dict_lookup d' k = (if dictCompareHashKeys d k (de_key e) then None else dict_lookup d k)"
  using first_match_add(1,2) [OF dict_equivp [OF inv(1)] dict_one [OF inv(1)] m, of k]
  by (simp add: dict_lookup_entry inv cmp_type [OF ty])

lemma lookup_entry_cmp: "lookup_entry d key = Some e \<Longrightarrow> dictCompareHashKeys d key (de_key e)"
  using first_match_Some by metis

lemma dict_put_law:
  assumes inv: "dict_inv d" and n: "dict_lookup d k = None" and r: "dict_num d < 2 ^ 31"
  shows "\<exists>d'. dict_put d k v = Some d' \<and> dict_inv d' \<and> dictCompareHashKeys d' = dictCompareHashKeys d
    \<and> dict_num d' = Suc (dict_num d)
    \<and> (\<forall>k'. dict_lookup d' k' = (if dictCompareHashKeys d k' k then Some v else dict_lookup d k'))"
proof -
  have none: "lookup_entry d k = None" using n by (simp add: dict_lookup_entry inv)
  from add_ok(2) [OF inv mem_good_memory _ none, of v] r obtain d' where
    d': "dictAdd dict_memory d k v = Inr (d', True)" "dict_inv d'" "d_type d' = d_type d" "d_used d' = d_used d + 1"
    "mset (dents d') = add_mset \<lparr>de_key = dictSetHashKey d k, de_val = v\<rparr> (mset (dents d))"
    by (auto simp: dict_num_def)
  have "unat (d_used d') = Suc (unat (d_used d))"
    using r unfolding d'(4) by (simp add: dict_num_def unat_word_ariths)
  with d' lookup_added [OF inv d'(2,3,5)] cmp_type [OF d'(3)] show ?thesis
    by (intro exI [of _ d']) (simp add: dict_put_def dict_num_def)
qed

lemma dict_del_law:
  assumes inv: "dict_inv d" and hit: "dict_lookup d k = Some v"
  shows "\<exists>d' k0. dict_del d k = (d', Some (v, k0)) \<and> dictCompareHashKeys d k k0 \<and> dict_inv d'
    \<and> dictCompareHashKeys d' = dictCompareHashKeys d \<and> Suc (dict_num d') = dict_num d
    \<and> (\<forall>k'. dict_lookup d' k' = (if dictCompareHashKeys d k' k then None else dict_lookup d k'))"
proof -
  obtain e where e: "lookup_entry d k = Some e" "de_val e = v" using hit by (auto simp: dict_lookup_entry inv)
  from delete_ok(2) [OF inv e(1)] obtain d' fs where d': "dictDelete d k = Inr (d', True, fs)" "dict_inv d'"
    "d_type d' = d_type d" "d_used d' = d_used d - 1" "mset (dents d) = add_mset e (mset (dents d'))" by blast
  have c: "dictCompareHashKeys d k (de_key e)" using lookup_entry_cmp [OF e(1)] .
  have ck: "dictCompareHashKeys d k' (de_key e) = dictCompareHashKeys d k' k" for k'
    using c dict_equivp [OF inv] by (meson equivp_symp equivp_transp)
  have "length (dents d) = Suc (length (dents d'))" using d'(5) by (metis size_mset size_add_mset)
  then have "Suc (dict_num d') = dict_num d" using inv d'(2) by (simp add: dict_num_def dict_inv_def)
  with d' e c lookup_removed [OF inv d'(2,3,5)] ck cmp_type [OF d'(3)] find_ok [OF inv, of k] show ?thesis
    by (intro exI [of _ d'] exI [of _ "de_key e"]) (simp add: dict_del_def)
qed

interpretation dc: key_table dict_lookup dict_put dict_del dict_num dict_inv dictCompareHashKeys "2 ^ 31"
proof unfold_locales
  fix d :: "('k, 'v) dict" and k k'
  assume d: "dict_inv d"
  then show "equivp (dictCompareHashKeys d)" by (rule dict_equivp)
  assume "dictCompareHashKeys d k k'"
  with d show "dict_lookup d k = dict_lookup d k'"
    by (simp add: dict_lookup_entry first_match_class [OF dict_equivp [OF d]])
next
  fix d :: "('k, 'v) dict" and k v
  assume "dict_inv d" "dict_lookup d k = None" "dict_num d < 2 ^ 31"
  then show "\<exists>t'. dict_put d k v = Some t' \<and> dict_inv t' \<and> dictCompareHashKeys t' = dictCompareHashKeys d
      \<and> dict_num t' = Suc (dict_num d)
      \<and> (\<forall>k'. dict_lookup t' k' = (if dictCompareHashKeys d k' k then Some v else dict_lookup d k'))"
    by (rule dict_put_law)
next
  fix d :: "('k, 'v) dict" and k v
  assume "dict_inv d" "dict_lookup d k = Some v"
  then show "\<exists>t' k0. dict_del d k = (t', Some (v, k0)) \<and> dictCompareHashKeys d k k0 \<and> dict_inv t'
      \<and> dictCompareHashKeys t' = dictCompareHashKeys d \<and> Suc (dict_num t') = dict_num d
      \<and> (\<forall>k'. dict_lookup t' k' = (if dictCompareHashKeys d k' k then None else dict_lookup d k'))"
    by (rule dict_del_law)
next
  fix d :: "('k, 'v) dict" and k
  assume "dict_lookup d k = None"
  then show "dict_del d k = (d, None)"
    by (auto simp: dict_lookup_def dict_del_def split: sum.splits option.splits)
qed

section \<open>Properties\<close>

text \<open>A concrete dictionary: numbers as keys that hash to themselves, and one entry.\<close>

definition demo_type :: "(nat, string) dictType" where
  "demo_type = \<lparr>hashFunction = of_nat, keyDup = None, valDup = None, keyCompare = None,
     keyDestructor = False, valDestructor = True\<rparr>"

definition demo_dict :: "(nat, string) dict" where
  "demo_dict = the (dict_put (dictInit demo_type) 7 ''seven'')"

lemma init_inv:
  assumes "equivp (dictCompareHashKeys (dictInit ty))" "type_ok (dictInit ty)"
  shows "dict_inv (dictInit ty)" "dict_lookup (dictInit ty) k = None" "dict_num (dictInit ty) = 0"
  using assms by (auto simp: dict_inv_def shape_def dents_def dictInit_def dictReset_def dict_lookup_def dictFind_def dict_num_def)

lemma demo_compare: "d_type d = demo_type \<Longrightarrow> dictCompareHashKeys d = (=)"
  by (intro ext) (simp add: dictCompareHashKeys_def demo_type_def)

lemma demo_type_ok: "type_ok (dictInit demo_type)" "equivp (dictCompareHashKeys (dictInit demo_type))"
proof -
  have c: "dictCompareHashKeys (dictInit demo_type) = (=)" by (rule demo_compare) (simp add: dictInit_def dictReset_def)
  show "equivp (dictCompareHashKeys (dictInit demo_type))" by (simp add: c identity_equivp)
  then show "type_ok (dictInit demo_type)" unfolding type_ok_def c
    by (simp add: dictSetHashKey_def dictInit_def dictReset_def demo_type_def)
qed

lemma demo_dict_facts: "dict_inv demo_dict" "dict_num demo_dict = 1" "dictCompareHashKeys demo_dict = (=)"
  "dict_lookup demo_dict k = (if k = 7 then Some ''seven'' else None)"
  "d_type demo_dict = demo_type"
proof -
  note i = init_inv [OF demo_type_ok(2,1)]
  have c: "dictCompareHashKeys (dictInit demo_type) = (=)" by (rule demo_compare) (simp add: dictInit_def dictReset_def)
  have ty: "d_type (dictInit demo_type) = demo_type" by (simp add: dictInit_def dictReset_def)
  from dict_put_law [OF i(1,2), of 7 "''seven''"] i(2,3) c obtain d' where
    d': "dict_put (dictInit demo_type) 7 ''seven'' = Some d'" "dict_inv d'" "dictCompareHashKeys d' = (=)"
    "dict_num d' = 1" "\<forall>k'. dict_lookup d' k' = (if k' = 7 then Some ''seven'' else None)" by auto
  from add_ok(2) [OF i(1) mem_good_memory, of 7 "''seven''"] i d'(1)
  have "d_type d' = demo_type" by (auto simp: dict_put_def dict_num_def dict_lookup_entry ty)
  with d' show "dict_inv demo_dict" "dict_num demo_dict = 1" "dictCompareHashKeys demo_dict = (=)"
    "dict_lookup demo_dict k = (if k = 7 then Some ''seven'' else None)" "d_type demo_dict = demo_type"
    by (simp_all add: demo_dict_def)
qed

lemma replace_lookup_ok:
  assumes "dict_inv d" "mem_good mem" "dict_num d < 2 ^ 31"
  shows "\<exists>d'. dictReplace mem d key val = Inr (d', if dict_lookup d key = None then 1 else 0,
        case dict_lookup d key of None \<Rightarrow> [] | Some v \<Rightarrow> dictFreeEntryVal d v)
    \<and> d_type d' = d_type d
    \<and> dict_inv d' \<and> dict_num d' = dict_num d + (if dict_lookup d key = None then 1 else 0)
    \<and> (\<forall>k. dict_lookup d' k = (if dictCompareHashKeys d k key then Some val else dict_lookup d k))"
proof (cases "lookup_entry d key")
  case None
  from replace_ok(2) [OF assms(1,2) _ None, of val] assms(3) obtain d' where
    d': "dictReplace mem d key val = Inr (d', 1, [])" "dict_inv d'" "d_type d' = d_type d" "d_used d' = d_used d + 1"
    "mset (dents d') = add_mset \<lparr>de_key = dictSetHashKey d key, de_val = val\<rparr> (mset (dents d))"
    by (auto simp: dict_num_def)
  have "unat (d_used d') = Suc (unat (d_used d))"
    using assms(3) unfolding d'(4) by (simp add: dict_num_def unat_word_ariths)
  with d' lookup_added [OF assms(1) d'(2,3,5)] None show ?thesis
    by (intro exI [of _ d']) (simp add: dict_lookup_entry assms(1) dict_num_def)
next
  case (Some e)
  from replace_ok(1) [OF assms(1,2) _ Some, of val] assms(3) obtain d' where
    d': "dictReplace mem d key val = Inr (d', 0, dictFreeEntryVal d (de_val e))" "dict_inv d'" "d_type d' = d_type d"
    "d_used d' = d_used d" "mset (dents d') + {#e#} = add_mset (e\<lparr>de_val := val\<rparr>) (mset (dents d))"
    by (auto simp: dict_num_def)
  note eq = dict_equivp [OF assms(1)] and c = cmp_type [OF d'(3)]
  have ce: "dictCompareHashKeys d key (de_key e)" using lookup_entry_cmp [OF Some] .
  have ck: "dictCompareHashKeys d k (de_key e) = dictCompareHashKeys d k key" for k
    using ce eq by (meson equivp_symp equivp_transp)
  have "e \<in> set (dents d)" using first_match_Some [OF Some] by simp
  then obtain es where es: "mset (dents d) = add_mset e (mset es)"
    by (metis ex_mset insert_DiffM set_mset_mset)
  with d'(5) have es': "mset (dents d') = add_mset (e\<lparr>de_val := val\<rparr>) (mset es)" by simp
  note a = first_match_add(1) [OF eq dict_one [OF assms(1)] es]
  note a' = first_match_add(1) [OF dict_equivp [OF d'(2)] dict_one [OF d'(2)] es', unfolded c]
  have "dict_lookup d' k = (if dictCompareHashKeys d k key then Some val else dict_lookup d k)" for k
    using a [of k] a' [of k] ck [of k] by (simp add: dict_lookup_entry assms(1) d'(2) c)
  with d' Some show ?thesis
    by (intro exI [of _ d']) (simp add: dict_lookup_entry assms(1) dict_num_def)
qed

text \<open>C24: \<open>dictReplace\<close> on a valid dictionary with memory and room succeeds: afterwards its key, and every key
  that compares equal, has the new value, all other keys have theirs; 1 tells that the key is new, 0
  that its old value has been freed, which happens once; the invariant is kept.\<close>

theorem dict_replace_lookup:
  assumes "dict_inv d" "mem_good mem" "dict_num d < 2 ^ 31"
  shows "\<exists>d'. dictReplace mem d key val = Inr (d', if dict_lookup d key = None then 1 else 0,
        case dict_lookup d key of None \<Rightarrow> [] | Some v \<Rightarrow> dictFreeEntryVal d v)
    \<and> dict_inv d' \<and> dict_num d' = dict_num d + (if dict_lookup d key = None then 1 else 0)
    \<and> (\<forall>k. dict_lookup d' k = (if dictCompareHashKeys d k key then Some val else dict_lookup d k))"
  using replace_lookup_ok [OF assms] by blast

theorem dict_replace_lookup_witness:
  "\<exists>d'. dictReplace dict_memory demo_dict 7 ''SEVEN'' = Inr (d', 0, [FreedVal ''seven''])
     \<and> dict_lookup d' 7 = Some ''SEVEN'' \<and> dict_lookup d' 8 = None"
  using dict_replace_lookup [OF demo_dict_facts(1) mem_good_memory, of 7 "''SEVEN''"]
  by (auto simp: demo_dict_facts dictFreeEntryVal_def demo_type_def)

lemma delete_lookup_ok:
  assumes "dict_inv d"
  shows "case dict_lookup d key of
      None \<Rightarrow> dictDelete d key = Inr (d, False, [])
    | Some v \<Rightarrow> \<exists>d' k0. dictDelete d key = Inr (d', True, dictFreeEntryKey d k0 @ dictFreeEntryVal d v @ [FreedEntry])
        \<and> dictCompareHashKeys d key k0 \<and> dict_inv d' \<and> d_type d' = d_type d \<and> Suc (dict_num d') = dict_num d
        \<and> (\<forall>k. dict_lookup d' k = (if dictCompareHashKeys d k key then None else dict_lookup d k))"
proof (cases "lookup_entry d key")
  case None
  with delete_ok(1) [OF assms None] show ?thesis by (simp add: dict_lookup_entry assms)
next
  case (Some e)
  from delete_ok(2) [OF assms Some] obtain d' where
    d': "dictDelete d key = Inr (d', True, dictFreeEntryKey d (de_key e) @ dictFreeEntryVal d (de_val e) @ [FreedEntry])"
    "d_type d' = d_type d" by blast
  have l: "dict_lookup d key = Some (de_val e)" using Some by (simp add: dict_lookup_entry assms)
  from dict_del_law [OF assms l] obtain d2 k0 where d2: "dict_del d key = (d2, Some (de_val e, k0))"
    "dictCompareHashKeys d key k0" "dict_inv d2" "Suc (dict_num d2) = dict_num d"
    "\<forall>k. dict_lookup d2 k = (if dictCompareHashKeys d k key then None else dict_lookup d k)" by blast
  have "d2 = d'" "k0 = de_key e" using d2(1) d' find_ok [OF assms, of key] Some by (simp_all add: dict_del_def)
  with d' d2 l show ?thesis by auto
qed

text \<open>C25: \<open>dictDelete\<close> removes exactly the entry of its key: afterwards the key and its equals are absent, all other
  keys keep their values, and the stored key, the value and the entry have been freed once each; without
  an entry nothing changes.\<close>

theorem dict_delete_lookup:
  assumes "dict_inv d"
  shows "case dict_lookup d key of
      None \<Rightarrow> dictDelete d key = Inr (d, False, [])
    | Some v \<Rightarrow> \<exists>d' k0. dictDelete d key = Inr (d', True, dictFreeEntryKey d k0 @ dictFreeEntryVal d v @ [FreedEntry])
        \<and> dictCompareHashKeys d key k0 \<and> dict_inv d' \<and> Suc (dict_num d') = dict_num d
        \<and> (\<forall>k. dict_lookup d' k = (if dictCompareHashKeys d k key then None else dict_lookup d k))"
  using delete_lookup_ok [OF assms, of key] by (auto split: option.splits)

theorem dict_delete_lookup_witness:
  "\<exists>d'. dictDelete demo_dict 7 = Inr (d', True, [FreedVal ''seven'', FreedEntry]) \<and> dict_lookup d' 7 = None \<and> dict_num d' = 0"
  using dict_delete_lookup [OF demo_dict_facts(1), of 7]
  by (auto simp: demo_dict_facts dictFreeEntryVal_def dictFreeEntryKey_def demo_type_def)

text \<open>C26: an iteration over an unchanged dictionary returns every entry exactly once and then NULL, and
  \<open>dictRelease\<close> frees the key, the value and the block of every entry once, and the table.\<close>

theorem dict_iteration_complete:
  assumes "dict_inv d" "length (dents d) < n" "dictGetIterator True = Inr it"
  shows "dict_entries_loop n d it = Inr (dents d) \<and> one_per_class (dictCompareHashKeys d) de_key (dents d)
    \<and> dictRelease d = Inr (concat (map (freed_by d) (dents d)) @ (if d_table d = None then [] else [FreedTable]))"
  using entries_ok [OF assms(1,2)] dict_one [OF assms(1)] clear_ok [OF assms(1)] assms(3)
  by (simp add: dictGetIterator_def dictRelease_def)

theorem dict_iteration_complete_witness:
  "\<exists>it. dictGetIterator True = Inr it \<and> (\<exists>es. dict_entries_loop 2 demo_dict it = Inr es \<and> length es = 1)"
proof -
  have "length (dents demo_dict) = 1" using demo_dict_facts(1,2) by (simp add: dict_inv_def dict_num_def)
  then show ?thesis
    using dict_iteration_complete [OF demo_dict_facts(1), of 2 "\<lparr>it_index = -1, it_rest = []\<rparr>"]
    by (simp add: dictGetIterator_def)
qed

text \<open>The search for a power of two ends for every size, with a power that is large enough for all sizes
  below \<open>LONG_MAX\<close>.\<close>

theorem next_power_terminates: "\<exists>p. dictNextPower sz = Some p \<and> min sz (2 ^ 63 - 1) \<le> p"
proof (cases "2 ^ 63 - 1 \<le> sz")
  case True
  then show ?thesis by (simp add: dictNextPower_def)
next
  case False
  have "\<exists>p. power_loop sz (2 ^ j) = Some p \<and> sz \<le> p" if "j \<le> 63" for j
    using that
  proof (induction "63 - j" arbitrary: j)
    case 0
    then have "j = 63" by simp
    have "(2 ^ 63 - 1 :: u64) \<le> 2 ^ 63" by simp
    moreover have "sz \<le> 2 ^ 63 - 1" using False by (simp only: not_le order_less_imp_le)
    ultimately have "sz \<le> 2 ^ 63" by (rule order_trans [rotated])
    then show ?case unfolding \<open>j = 63\<close> by (subst power_loop.simps) simp
  next
    case (Suc n)
    have "n = 63 - Suc j" "Suc j \<le> 63" using Suc.hyps(2) by linarith+
    from Suc.hyps(1) [OF this] obtain p where "power_loop sz (2 ^ Suc j) = Some p" "sz \<le> p" by blast
    then show ?case by (subst power_loop.simps) (auto simp: mult.commute)
  qed
  from this [of 2] False show ?thesis by (auto simp: dictNextPower_def DICT_HT_INITIAL_SIZE_def min_def)
qed

end
