(* ===== verification/Async.thy ===== *)
theory Async
  imports Callback_List Redis_Context Dict_Map Config
begin

text \<open>
  \<open>hiredis/async.c\<close> and \<open>async.h\<close>: the asynchronous context. Callbacks of the user are a parameter that says which functions
  of the library they call; everything the context calls outside is recorded in order. Loops that end when
  a list, a command or the input is used up have a fuel, and the lemmas of the following theories show how much is enough.
\<close>

section \<open>Flags and the structures\<close>

definition REDIS_DISCONNECTING :: u32 where "REDIS_DISCONNECTING = 0x4"
definition REDIS_FREEING :: u32 where "REDIS_FREEING = 0x8"
definition REDIS_IN_CALLBACK :: u32 where "REDIS_IN_CALLBACK = 0x10"
definition REDIS_SUBSCRIBED :: u32 where "REDIS_SUBSCRIBED = 0x20"
definition REDIS_MONITORING :: u32 where "REDIS_MONITORING = 0x40"

text \<open>
  The hooks of the event library, and the calls into code of the user: callbacks, connect and disconnect
  callbacks (with whether the status is \<open>REDIS_OK\<close>), hooks. \<open>ac_calls\<close> keeps all calls in order.
\<close>

datatype hook = AddRead | DelRead | AddWrite | DelWrite | Cleanup

datatype call =
    RunCallback nat nat "reply option"
  | OnConnect nat bool
  | OnDisconnect nat bool
  | CallHook hook

type_synonym callbacks = "(sds, redisCallback) dict"

text \<open>
  \<open>redisAsyncContext\<close>. The pointer \<open>errstr\<close> is NULL or points to the text of the context; \<open>ac_errstr\<close>
  tells which. \<open>ac_freed\<close> is set when the block is given back.
\<close>

record redisAsyncContext =
  ac_c :: redisContext
  ac_err :: nat
  ac_errstr :: bool
  ac_ev :: "hook \<Rightarrow> bool"
  ac_onDisconnect :: "nat option"
  ac_onConnect :: "nat option"
  ac_replies :: redisCallbackList
  ac_invalid :: redisCallbackList
  ac_channels :: callbacks
  ac_patterns :: callbacks
  ac_calls :: "call list"
  ac_freed :: bool

abbreviation ac_flags :: "redisAsyncContext \<Rightarrow> u32" where
  "ac_flags ac \<equiv> c_flags (ac_c ac)"

definition has_flag :: "redisAsyncContext \<Rightarrow> u32 \<Rightarrow> bool" where
  "has_flag ac f \<longleftrightarrow> ac_flags ac AND f \<noteq> 0"

definition set_flag :: "u32 \<Rightarrow> redisAsyncContext \<Rightarrow> redisAsyncContext" where
  "set_flag f ac = ac\<lparr>ac_c := (ac_c ac)\<lparr>c_flags := ac_flags ac OR f\<rparr>\<rparr>"

definition clear_flag :: "u32 \<Rightarrow> redisAsyncContext \<Rightarrow> redisAsyncContext" where
  "clear_flag f ac = ac\<lparr>ac_c := (ac_c ac)\<lparr>c_flags := ac_flags ac AND NOT f\<rparr>\<rparr>"

definition called :: "call \<Rightarrow> redisAsyncContext \<Rightarrow> redisAsyncContext" where
  "called x ac = ac\<lparr>ac_calls := ac_calls ac @ [x]\<rparr>"

text \<open>The macros \<open>_EL_ADD_READ\<close> and the others.\<close>

definition run_hook :: "hook \<Rightarrow> redisAsyncContext \<Rightarrow> redisAsyncContext" where
  "run_hook h ac = (if ac_ev ac h then called (CallHook h) ac else ac)"

section \<open>Dictionaries of callbacks\<close>

text \<open>
  The keys are sds strings. Lengths of channel names are \<open>int\<close>s wherever they come from, so the \<open>int\<close>s
  \<open>l1\<close> and \<open>l2\<close> are the lengths.
\<close>

definition callbackHash :: "sds \<Rightarrow> u32" where
  "callbackHash key = dictGenHash_loop 5381 (take (sdslen key) (sds_buf key))"

definition callbackValDup :: "redisCallback \<Rightarrow> redisCallback" where
  "callbackValDup src = src"

definition callbackKeyCompare :: "sds \<Rightarrow> sds \<Rightarrow> bool" where
  "callbackKeyCompare key1 key2 =
     (let l1 = sdslen key1; l2 = sdslen key2
      in if l1 \<noteq> l2 then False else take l1 (sds_buf key1) = take l1 (sds_buf key2))"

definition callbackDict :: "(sds, redisCallback) dictType" where
  "callbackDict = \<lparr>hashFunction = callbackHash, keyDup = None, valDup = Some callbackValDup,
     keyCompare = Some callbackKeyCompare, keyDestructor = True, valDestructor = True\<rparr>"

text \<open>Outcomes of \<open>malloc\<close>: a cell or an iterator, and what an insertion allocates.\<close>

definition mem_cell :: "world \<Rightarrow> bool" where
  "mem_cell w = w_objects w (w_now w) 0"

definition mem_dict :: "world \<Rightarrow> dict_mem" where
  "mem_dict w = \<lparr>dm_table = w_objects w (w_now w) 1, dm_entry = w_objects w (w_now w) 2, dm_value = w_objects w (w_now w) 3\<rparr>"

section \<open>Creation\<close>

text \<open>The result of \<open>realloc\<close> is not checked.\<close>

definition redisAsyncInitialize :: "world \<Rightarrow> redisContext \<Rightarrow> redisAsyncContext res" where
  "redisAsyncInitialize w c =
     (if \<not> w_objects w (w_now w) 0 then Inl NullDeref
      else bind_res (dictCreate (w_objects w (w_now w) 1) callbackDict)
        (\<lambda>channels. bind_res (dictCreate (w_objects w (w_now w) 2) callbackDict)
        (\<lambda>patterns. Inr
           \<lparr>ac_c = c\<lparr>c_flags := c_flags c AND NOT REDIS_CONNECTED\<rparr>, ac_err = 0, ac_errstr = False,
            ac_ev = (\<lambda>_. False), ac_onDisconnect = None, ac_onConnect = None,
            ac_replies = empty_list, ac_invalid = empty_list,
            ac_channels = channels, ac_patterns = patterns, ac_calls = [], ac_freed = False\<rparr>)))"

definition redisAsyncCopyError :: "redisAsyncContext \<Rightarrow> redisAsyncContext" where
  "redisAsyncCopyError ac = ac\<lparr>ac_err := c_err (ac_c ac), ac_errstr := True\<rparr>"

definition redisAsyncConnect :: "world \<Rightarrow> string + nat \<Rightarrow> (redisAsyncContext \<times> world) res" where
  "redisAsyncConnect w resolved =
     bind_res (redisConnectNonBlock w resolved)
     (\<lambda>(c, w1). bind_res (redisAsyncInitialize w1 c) (\<lambda>ac. Inr (redisAsyncCopyError ac, w1)))"

definition redisAsyncConnectUnix :: "world \<Rightarrow> (redisAsyncContext \<times> world) res" where
  "redisAsyncConnectUnix w =
     bind_res (redisConnectUnixNonBlock w)
     (\<lambda>(c, w1). bind_res (redisAsyncInitialize w1 c) (\<lambda>ac. Inr (redisAsyncCopyError ac, w1)))"

definition redisAsyncSetConnectCallback :: "redisAsyncContext \<Rightarrow> nat option \<Rightarrow> redisAsyncContext \<times> bool" where
  "redisAsyncSetConnectCallback ac fn =
     (if ac_onConnect ac = None then (run_hook AddWrite (ac\<lparr>ac_onConnect := fn\<rparr>), True) else (ac, False))"

definition redisAsyncSetDisconnectCallback :: "redisAsyncContext \<Rightarrow> nat option \<Rightarrow> redisAsyncContext \<times> bool" where
  "redisAsyncSetDisconnectCallback ac fn =
     (if ac_onDisconnect ac = None then (ac\<lparr>ac_onDisconnect := fn\<rparr>, True) else (ac, False))"

section \<open>Commands\<close>

text \<open>\<open>strchr\<close> from a position of a block: the position of the character, or \<open>None\<close> at the NUL.\<close>

fun strchr_in :: "string \<Rightarrow> nat \<Rightarrow> char \<Rightarrow> nat option res" where
  "strchr_in [] i x = Inl OutOfBounds"
| "strchr_in (c # s) i x = (if c = x then Inr (Some i) else if c = NUL then Inr None else strchr_in s (Suc i) x)"

definition strchr_at :: "string \<Rightarrow> nat \<Rightarrow> char \<Rightarrow> nat option res" where
  "strchr_at b p x = strchr_in (drop p b) p x"

text \<open>
  Where the next argument starts, where its text starts, and its length, an \<open>int\<close> stored in a \<open>size_t\<close>;
  \<open>None\<close> for NULL.
\<close>

definition nextArgument :: "string \<Rightarrow> nat \<Rightarrow> (nat \<times> nat \<times> u64) option res" where
  "nextArgument cmd start =
     bind_res (char_at cmd start)
     (\<lambda>c. bind_res (if c \<noteq> CHR ''$'' then strchr_at cmd start CHR ''$'' else Inr (Some start))
     (\<lambda>d. case d of
            None \<Rightarrow> Inr None
          | Some p \<Rightarrow>
              let len = (word_of_int (atoi (drop (p + 1) cmd)) :: u64)
              in bind_res (strchr_at cmd p CR)
                 (\<lambda>r. case r of
                        None \<Rightarrow> Inl AssertFailed
                      | Some q \<Rightarrow>
                          let next = int q + 2 + sint len + 2
                          in if 0 \<le> next \<and> next \<le> int (length cmd) then Inr (Some (nat next, q + 2, len))
                             else Inl OutOfBounds)))"

text \<open>
  \<open>strncasecmp\<close> of the text at a position with a lower-case literal. The block ends in a NUL, which no
  literal has, so the comparison ends before the block does.
\<close>

definition strncaseeq :: "string \<Rightarrow> nat \<Rightarrow> string \<Rightarrow> bool" where
  "strncaseeq cmd p lit \<longleftrightarrow> map c_tolower (take (length lit) (drop p cmd)) = lit"

text \<open>
  The channels or patterns of a subscription. The dictionary copies the callback; a name that is there
  already keeps its key. An argument is at least a byte, which bounds the rounds by the length of the command.
\<close>

fun subscribe_loop :: "nat \<Rightarrow> world \<Rightarrow> string \<Rightarrow> nat \<Rightarrow> redisCallback \<Rightarrow> callbacks \<Rightarrow> callbacks res" where
  "subscribe_loop 0 w cmd p cb d = Inl OutOfFuel"
| "subscribe_loop (Suc n) w cmd p cb d =
     bind_res (nextArgument cmd p)
     (\<lambda>a. case a of
            None \<Rightarrow> Inr d
          | Some (next, astr, alen) \<Rightarrow>
              bind_res (sdsnewlen (w_alloc w (w_now w)) (Some (drop astr cmd)) (unat alen))
              (\<lambda>s. case s of
                     None \<Rightarrow> Inl NullDeref
                   | Some sname \<Rightarrow>
                       bind_res (dictReplace (mem_dict w) d sname cb)
                       (\<lambda>(d1, r, fs). subscribe_loop n w cmd next cb d1)))"

text \<open>The bookkeeping for the kind of command: \<open>None\<close> is the early return of an unsubscription.\<close>

definition register_command ::
  "world \<Rightarrow> string \<Rightarrow> redisCallback \<Rightarrow> redisAsyncContext \<Rightarrow> redisAsyncContext option res" where
  "register_command w cmd cb ac =
     bind_res (nextArgument cmd 0)
     (\<lambda>a. case a of
            None \<Rightarrow> Inl AssertFailed
          | Some (p, ctext, clen) \<Rightarrow>
              bind_res (char_at cmd p)
              (\<lambda>pc. bind_res (char_at cmd ctext)
              (\<lambda>c0.
                 let hasnext = (pc = CHR ''$'');
                     pvariant = (c_tolower c0 = CHR ''p'');
                     cstr1 = ctext + (if pvariant then 1 else 0)
                 in if hasnext \<and> strncaseeq cmd cstr1 (''subscribe'' @ [CR, LF]) then
                      let ac1 = set_flag REDIS_SUBSCRIBED ac
                      in if pvariant
                         then bind_res (subscribe_loop (Suc (length cmd)) w cmd p cb (ac_patterns ac1))
                                (\<lambda>d. Inr (Some (ac1\<lparr>ac_patterns := d\<rparr>)))
                         else bind_res (subscribe_loop (Suc (length cmd)) w cmd p cb (ac_channels ac1))
                                (\<lambda>d. Inr (Some (ac1\<lparr>ac_channels := d\<rparr>)))
                    else if strncaseeq cmd cstr1 (''unsubscribe'' @ [CR, LF]) then
                      if \<not> has_flag ac REDIS_SUBSCRIBED then Inr None else Inr (Some ac)
                    else if strncaseeq cmd cstr1 (''monitor'' @ [CR, LF]) then
                      let ac1 = set_flag REDIS_MONITORING ac
                      in bind_res (redisPushCallback (mem_cell w) (ac_replies ac1) (Some cb))
                           (\<lambda>l. Inr (Some (ac1\<lparr>ac_replies := l\<rparr>)))
                    else if has_flag ac REDIS_SUBSCRIBED then
                      bind_res (redisPushCallback (mem_cell w) (ac_invalid ac) (Some cb))
                        (\<lambda>l. Inr (Some (ac\<lparr>ac_invalid := l\<rparr>)))
                    else
                      bind_res (redisPushCallback (mem_cell w) (ac_replies ac) (Some cb))
                        (\<lambda>l. Inr (Some (ac\<lparr>ac_replies := l\<rparr>))))))"

text \<open>\<open>__redisAsyncCommand\<close>. The result of \<open>__redisAppendCommand\<close> is not looked at.\<close>

definition redisAsyncCmd ::
  "redisAsyncContext \<Rightarrow> world \<Rightarrow> nat option \<Rightarrow> nat \<Rightarrow> string \<Rightarrow> nat \<Rightarrow> (redisAsyncContext \<times> bool) res" where
  "redisAsyncCmd ac w fn privdata cmd len =
     (if has_flag ac (REDIS_DISCONNECTING OR REDIS_FREEING) then Inr (ac, False)
      else bind_res (register_command w cmd \<lparr>cb_fn = fn, cb_privdata = privdata\<rparr> ac)
        (\<lambda>r. case r of
               None \<Rightarrow> Inr (ac, False)
             | Some ac1 \<Rightarrow>
                 bind_res (redisAppendCmd (ac_c ac1) w cmd len)
                 (\<lambda>(c, ok). Inr (run_hook AddWrite (ac1\<lparr>ac_c := c\<rparr>), True))))"

text \<open>The functions of the interface use \<open>cmd\<close> even if formatting failed and has not set it.\<close>

definition redisvAsyncCommand ::
  "(string \<Rightarrow> va \<Rightarrow> string) \<Rightarrow> redisAsyncContext \<Rightarrow> world \<Rightarrow> nat option \<Rightarrow> nat \<Rightarrow> string \<Rightarrow> va list \<Rightarrow>
     (redisAsyncContext \<times> bool) res" where
  "redisvAsyncCommand pf ac w fn privdata format ap =
     bind_res (redisvFormatCommand (w_alloc w (w_now w)) (w_objects w (w_now w)) pf True format ap)
     (\<lambda>f. case f of None \<Rightarrow> Inl WildPointer | Some (cmd, len) \<Rightarrow> redisAsyncCmd ac w fn privdata cmd len)"

definition redisAsyncCommand ::
  "(string \<Rightarrow> va \<Rightarrow> string) \<Rightarrow> redisAsyncContext \<Rightarrow> world \<Rightarrow> nat option \<Rightarrow> nat \<Rightarrow> string \<Rightarrow> va list \<Rightarrow>
     (redisAsyncContext \<times> bool) res" where
  "redisAsyncCommand pf ac w fn privdata format args = redisvAsyncCommand pf ac w fn privdata format args"

definition redisAsyncCommandArgv ::
  "redisAsyncContext \<Rightarrow> world \<Rightarrow> nat option \<Rightarrow> nat \<Rightarrow> string list \<Rightarrow> nat list option \<Rightarrow>
     (redisAsyncContext \<times> bool) res" where
  "redisAsyncCommandArgv ac w fn privdata argv argvlen =
     bind_res (redisFormatCommandArgv (w_alloc w (w_now w)) argv argvlen)
     (\<lambda>f. case f of None \<Rightarrow> Inl WildPointer | Some (cmd, len) \<Rightarrow> redisAsyncCmd ac w fn privdata cmd len)"

section \<open>Callbacks of the user\<close>

text \<open>
  What a callback does is a parameter: a list of calls into the library, which may depend on all calls
  so far. A callback runs with \<open>REDIS_IN_CALLBACK\<close> set, where \<open>redisAsyncFree\<close> and \<open>redisAsyncDisconnect\<close> only set
  their flag (\<open>free_in_callback\<close> and \<open>disconnect_in_callback\<close> below). Connect and disconnect callbacks get a
  constant context and only appear in \<open>ac_calls\<close>.
\<close>

datatype action =
    ActCommand "nat option" nat string "va list"
  | ActCommandArgv "nat option" nat "string list"
  | ActFree
  | ActDisconnect

type_synonym behaviour = "call list \<Rightarrow> nat \<Rightarrow> nat \<Rightarrow> reply option \<Rightarrow> action list"

record user =
  u_does :: behaviour
  u_printf :: "string \<Rightarrow> va \<Rightarrow> string"

definition run_action :: "user \<Rightarrow> world \<Rightarrow> action \<Rightarrow> redisAsyncContext \<Rightarrow> redisAsyncContext res" where
  "run_action u w a ac =
     (case a of
        ActCommand fn pd format ap \<Rightarrow> bind_res (redisAsyncCommand (u_printf u) ac w fn pd format ap) (\<lambda>(ac1, ok). Inr ac1)
      | ActCommandArgv fn pd argv \<Rightarrow> bind_res (redisAsyncCommandArgv ac w fn pd argv None) (\<lambda>(ac1, ok). Inr ac1)
      | ActFree \<Rightarrow> Inr (set_flag REDIS_FREEING ac)
      | ActDisconnect \<Rightarrow> Inr (set_flag REDIS_DISCONNECTING ac))"

fun run_actions :: "user \<Rightarrow> world \<Rightarrow> action list \<Rightarrow> redisAsyncContext \<Rightarrow> redisAsyncContext res" where
  "run_actions u w [] ac = Inr ac"
| "run_actions u w (a # as) ac = bind_res (run_action u w a ac) (run_actions u w as)"

definition redisRunCallback ::
  "user \<Rightarrow> world \<Rightarrow> redisAsyncContext \<Rightarrow> redisCallback \<Rightarrow> reply option \<Rightarrow> redisAsyncContext res" where
  "redisRunCallback u w ac cb reply =
     (case cb_fn cb of
        None \<Rightarrow> Inr ac
      | Some fn \<Rightarrow>
          let ac1 = called (RunCallback fn (cb_privdata cb) reply) (set_flag REDIS_IN_CALLBACK ac)
          in bind_res (run_actions u w (u_does u (ac_calls ac) fn (cb_privdata cb) reply) ac1)
               (\<lambda>ac2. Inr (clear_flag REDIS_IN_CALLBACK ac2)))"

section \<open>Freeing\<close>

text \<open>The callback a local variable holds; using one that was never written is a fault.\<close>

definition the_callback :: "redisCallback option \<Rightarrow> redisCallback res" where
  "the_callback cb = (case cb of None \<Rightarrow> Inl WildPointer | Some x \<Rightarrow> Inr x)"

text \<open>The two loops over lists: shift a callback and run it with a NULL reply. \<open>get\<close> and \<open>put\<close> are the list.\<close>

definition put_replies :: "redisCallbackList \<Rightarrow> redisAsyncContext \<Rightarrow> redisAsyncContext" where
  "put_replies l ac = ac\<lparr>ac_replies := l\<rparr>"

definition put_invalid :: "redisCallbackList \<Rightarrow> redisAsyncContext \<Rightarrow> redisAsyncContext" where
  "put_invalid l ac = ac\<lparr>ac_invalid := l\<rparr>"

fun drain_list ::
  "nat \<Rightarrow> (redisAsyncContext \<Rightarrow> redisCallbackList) \<Rightarrow> (redisCallbackList \<Rightarrow> redisAsyncContext \<Rightarrow> redisAsyncContext) \<Rightarrow>
     user \<Rightarrow> world \<Rightarrow> redisAsyncContext \<Rightarrow> redisAsyncContext res" where
  "drain_list 0 get put u w ac = Inl OutOfFuel"
| "drain_list (Suc n) get put u w ac =
     bind_res (redisShiftCallback (get ac))
     (\<lambda>(l, x). case x of
        None \<Rightarrow> Inr ac
      | Some cb \<Rightarrow>
          bind_res (the_callback cb)
          (\<lambda>f. bind_res (redisRunCallback u w (put l ac) f None) (drain_list n get put u w)))"

text \<open>The two loops over dictionaries; \<open>sub\<close> is \<open>ac->sub.channels\<close> or \<open>ac->sub.patterns\<close>.\<close>

fun drain_dict ::
  "nat \<Rightarrow> (redisAsyncContext \<Rightarrow> callbacks) \<Rightarrow> user \<Rightarrow> world \<Rightarrow> redisAsyncContext \<Rightarrow> (sds, redisCallback) dictIterator \<Rightarrow>
     redisAsyncContext res" where
  "drain_dict 0 sub u w ac it = Inl OutOfFuel"
| "drain_dict (Suc n) sub u w ac it =
     bind_res (dictNext (sub ac) it)
     (\<lambda>(it1, e). case e of
        None \<Rightarrow> Inr ac
      | Some de \<Rightarrow>
          bind_res (redisRunCallback u w ac (de_val de) None) (\<lambda>ac1. drain_dict n sub u w ac1 it1))"

definition drain_sub ::
  "(redisAsyncContext \<Rightarrow> callbacks) \<Rightarrow> user \<Rightarrow> world \<Rightarrow> redisAsyncContext \<Rightarrow> redisAsyncContext res" where
  "drain_sub sub u w ac =
     bind_res (dictGetIterator (mem_cell w))
     (\<lambda>it. bind_res (drain_dict (Suc (unat (d_used (sub ac)))) sub u w ac it)
     (\<lambda>ac1. bind_res (dictRelease (sub ac1)) (\<lambda>fs. Inr ac1)))"

text \<open>The disconnect callback of \<open>__redisAsyncFree\<close>.\<close>

definition run_disconnect :: "redisAsyncContext \<Rightarrow> redisAsyncContext" where
  "run_disconnect ac =
     (case ac_onDisconnect ac of
        Some fn \<Rightarrow>
          if has_flag ac REDIS_CONNECTED then
            if has_flag ac REDIS_FREEING then called (OnDisconnect fn True) ac
            else called (OnDisconnect fn (ac_err ac = 0)) ac
          else ac
      | None \<Rightarrow> ac)"

text \<open>\<open>__redisAsyncFree\<close>. The number of cells of a list bounds its loop, since no callback can add one.\<close>

definition redisAsyncFree_now :: "user \<Rightarrow> redisAsyncContext \<Rightarrow> world \<Rightarrow> (redisAsyncContext \<times> world) res" where
  "redisAsyncFree_now u ac w =
     bind_res (drain_list (Suc (l_fresh (ac_replies ac))) ac_replies put_replies u w ac)
     (\<lambda>ac1. bind_res (drain_list (Suc (l_fresh (ac_invalid ac1))) ac_invalid put_invalid u w ac1)
     (\<lambda>ac2. bind_res (drain_sub ac_channels u w ac2)
     (\<lambda>ac3. bind_res (drain_sub ac_patterns u w ac3)
     (\<lambda>ac4. let ac5 = run_disconnect (run_hook Cleanup ac4)
            in case redisFree (ac_c ac5) w of (w1, mem) \<Rightarrow> Inr (ac5\<lparr>ac_freed := True\<rparr>, w1)))))"

definition redisAsyncFree :: "user \<Rightarrow> redisAsyncContext \<Rightarrow> world \<Rightarrow> (redisAsyncContext \<times> world) res" where
  "redisAsyncFree u ac w =
     (let ac1 = set_flag REDIS_FREEING ac
      in if \<not> has_flag ac1 REDIS_IN_CALLBACK then redisAsyncFree_now u ac1 w else Inr (ac1, w))"

text \<open>\<open>__redisAsyncDisconnect\<close>. The shift of the assertion changes nothing when it holds.\<close>

definition redisAsyncDisconnect_now :: "user \<Rightarrow> redisAsyncContext \<Rightarrow> world \<Rightarrow> (redisAsyncContext \<times> world) res" where
  "redisAsyncDisconnect_now u ac0 w =
     (let ac = redisAsyncCopyError ac0
      in if ac_err ac = 0 then
           bind_res (redisShiftCallback (ac_replies ac))
           (\<lambda>(l, x). if x \<noteq> None then Inl AssertFailed else redisAsyncFree_now u (ac\<lparr>ac_replies := l\<rparr>) w)
         else redisAsyncFree_now u (set_flag REDIS_DISCONNECTING ac) w)"

definition redisAsyncDisconnect :: "user \<Rightarrow> redisAsyncContext \<Rightarrow> world \<Rightarrow> (redisAsyncContext \<times> world) res" where
  "redisAsyncDisconnect u ac w =
     (let ac1 = set_flag REDIS_DISCONNECTING ac
      in if \<not> has_flag ac1 REDIS_IN_CALLBACK \<and> l_head (ac_replies ac1) = None
         then redisAsyncDisconnect_now u ac1 w else Inr (ac1, w))"

section \<open>Replies\<close>

text \<open>An element of an array reply, through its pointer.\<close>

definition element_at :: "reply option list \<Rightarrow> nat \<Rightarrow> reply res" where
  "element_at els i =
     (if i < length els then case els ! i of None \<Rightarrow> Inl NullDeref | Some x \<Rightarrow> Inr x else Inl OutOfBounds)"

text \<open>An element asserted to be a string.\<close>

definition string_at :: "reply option list \<Rightarrow> nat \<Rightarrow> string res" where
  "string_at els i =
     bind_res (element_at els i)
     (\<lambda>x. case x of RString ty s \<Rightarrow> if ty = REDIS_REPLY_STRING then Inr s else Inl AssertFailed | _ \<Rightarrow> Inl AssertFailed)"

text \<open>The dictionary a message is for, and storing it back.\<close>

definition sub_of :: "bool \<Rightarrow> redisAsyncContext \<Rightarrow> callbacks" where
  "sub_of pvariant ac = (if pvariant then ac_patterns ac else ac_channels ac)"

definition set_sub :: "bool \<Rightarrow> callbacks \<Rightarrow> redisAsyncContext \<Rightarrow> redisAsyncContext" where
  "set_sub pvariant d ac = (if pvariant then ac\<lparr>ac_patterns := d\<rparr> else ac\<lparr>ac_channels := d\<rparr>)"

text \<open>The end of a subscription: the callback goes, with the last one the flag.\<close>

definition unsubscribe ::
  "bool \<Rightarrow> sds \<Rightarrow> reply option list \<Rightarrow> redisAsyncContext \<Rightarrow> redisAsyncContext res" where
  "unsubscribe pvariant sname els ac =
     bind_res (dictDelete (sub_of pvariant ac) sname)
     (\<lambda>(d1, r, fs). bind_res (element_at els 2)
     (\<lambda>x. case x of
            RInteger v \<Rightarrow> Inr (if v = 0 then clear_flag REDIS_SUBSCRIBED (set_sub pvariant d1 ac) else set_sub pvariant d1 ac)
          | _ \<Rightarrow> Inl AssertFailed))"

text \<open>
  The second component is what \<open>*dstcb\<close> holds afterwards. Without memory for the name, an
  empty dictionary is not looked at, and any other hashes NULL.
\<close>

definition redisGetSubscribeCallback ::
  "world \<Rightarrow> redisAsyncContext \<Rightarrow> reply \<Rightarrow> redisCallback option \<Rightarrow> (redisAsyncContext \<times> redisCallback option) res" where
  "redisGetSubscribeCallback w ac reply dstcb =
     (case reply of
        RArray n els \<Rightarrow>
          if n < 2 then Inl AssertFailed
          else bind_res (string_at els 0)
            (\<lambda>stype.
               let pvariant = (c_tolower (hd (stype @ [NUL])) = CHR ''p'');
                   callbacks = sub_of pvariant ac
               in bind_res (string_at els 1)
               (\<lambda>name. bind_res (sdsnewlen (w_alloc w (w_now w)) (Some (name @ [NUL])) (length name))
               (\<lambda>s. case s of
                      None \<Rightarrow> if d_size callbacks = 0 then Inr (ac, dstcb) else Inl NullDeref
                    | Some sname \<Rightarrow>
                        bind_res (dictFind callbacks sname)
                        (\<lambda>de. case de of
                           None \<Rightarrow> Inr (ac, dstcb)
                         | Some e \<Rightarrow>
                             bind_res
                               (if map c_tolower (cstr (drop (if pvariant then 1 else 0) (stype @ [NUL]))) = ''unsubscribe''
                                then unsubscribe pvariant sname els ac else Inr ac)
                               (\<lambda>ac1. Inr (ac1, Some (de_val e)))))))
      | _ \<Rightarrow>
          bind_res (redisShiftCallback (ac_invalid ac))
          (\<lambda>(l, x). Inr (ac\<lparr>ac_invalid := l\<rparr>, case x of None \<Rightarrow> dstcb | Some cb \<Rightarrow> cb)))"

text \<open>
  A reply without a pending callback. An error closes the connection: then there is no callback to
  go on with, and the first component is \<open>Inl\<close> of the final state.
\<close>

definition spontaneous ::
  "user \<Rightarrow> world \<Rightarrow> redisAsyncContext \<Rightarrow> reply \<Rightarrow> redisCallback option \<Rightarrow>
     ((redisAsyncContext \<times> world) + (redisAsyncContext \<times> redisCallback option)) res" where
  "spontaneous u w ac reply cb =
     (case reply of
        RString ty s \<Rightarrow>
          if ty = REDIS_REPLY_ERROR then
            bind_res (redisAsyncDisconnect_now u
                (ac\<lparr>ac_c := (ac_c ac)\<lparr>c_err := REDIS_ERR_OTHER, c_errstr := take 127 (cstr (s @ [NUL]))\<rparr>\<rparr>) w)
              (\<lambda>st. Inr (Inl st))
          else if \<not> (has_flag ac REDIS_SUBSCRIBED \<or> has_flag ac REDIS_MONITORING) then Inl AssertFailed
          else if has_flag ac REDIS_SUBSCRIBED then bind_res (redisGetSubscribeCallback w ac reply cb) (\<lambda>r. Inr (Inr r))
          else Inr (Inr (ac, cb))
      | _ \<Rightarrow>
          if \<not> (has_flag ac REDIS_SUBSCRIBED \<or> has_flag ac REDIS_MONITORING) then Inl AssertFailed
          else if has_flag ac REDIS_SUBSCRIBED then bind_res (redisGetSubscribeCallback w ac reply cb) (\<lambda>r. Inr (Inr r))
          else Inr (Inr (ac, cb)))"

text \<open>The callback for a reply: the next pending one, or what a spontaneous reply leads to.\<close>

definition callback_for ::
  "user \<Rightarrow> world \<Rightarrow> redisAsyncContext \<Rightarrow> reply \<Rightarrow> redisCallback option \<Rightarrow>
     ((redisAsyncContext \<times> world) + (redisAsyncContext \<times> redisCallback option)) res" where
  "callback_for u w ac reply cb =
     bind_res (redisShiftCallback (ac_replies ac))
     (\<lambda>(l, x). case x of
        Some cb1 \<Rightarrow> Inr (Inr (ac\<lparr>ac_replies := l\<rparr>, cb1))
      | None \<Rightarrow> spontaneous u w ac reply cb)"

text \<open>No reply is there: the cue to disconnect, or the end of the loop, with the callback put back in monitor mode.\<close>

definition no_reply ::
  "user \<Rightarrow> world \<Rightarrow> redisAsyncContext \<Rightarrow> redisCallback option \<Rightarrow> (redisAsyncContext \<times> world) res" where
  "no_reply u w ac cb =
     bind_res (if has_flag ac REDIS_DISCONNECTING then with_obuf (ac_c ac) (\<lambda>s. Inr (sdslen s = 0)) else Inr False)
     (\<lambda>cue. if cue then redisAsyncDisconnect_now u ac w
        else if has_flag ac REDIS_MONITORING then
          bind_res (redisPushCallback (mem_cell w) (ac_replies ac) cb) (\<lambda>l. Inr (ac\<lparr>ac_replies := l\<rparr>, w))
        else Inr (ac, w))"

text \<open>\<open>redisProcessCallbacks\<close>: a round per reply, \<open>cb\<close> is the local variable.\<close>

fun process_replies ::
  "nat \<Rightarrow> user \<Rightarrow> redisAsyncContext \<Rightarrow> world \<Rightarrow> redisCallback option \<Rightarrow> (redisAsyncContext \<times> world) res" where
  "process_replies 0 u ac w cb = Inl OutOfFuel"
| "process_replies (Suc n) u ac w cb =
     bind_res (redisGetReply n (ac_c ac) w)
     (\<lambda>(c, w1, x, ok).
        let ac1 = ac\<lparr>ac_c := c\<rparr>
        in if \<not> ok then redisAsyncDisconnect_now u ac1 w1
           else case x of
             None \<Rightarrow> no_reply u w1 ac1 cb
           | Some reply \<Rightarrow>
               bind_res (callback_for u w1 ac1 reply cb)
               (\<lambda>r. case r of
                  Inl st \<Rightarrow> Inr st
                | Inr (ac2, cb2) \<Rightarrow>
                    bind_res (the_callback cb2)
                    (\<lambda>f. if cb_fn f = None then process_replies n u ac2 w1 cb2
                         else bind_res (redisRunCallback u w1 ac2 f (Some reply))
                           (\<lambda>ac3. if has_flag ac3 REDIS_FREEING then redisAsyncFree_now u ac3 w1
                                  else process_replies n u ac3 w1 cb2))))"

definition redisProcessCallbacks ::
  "nat \<Rightarrow> user \<Rightarrow> redisAsyncContext \<Rightarrow> world \<Rightarrow> (redisAsyncContext \<times> world) res" where
  "redisProcessCallbacks fuel u ac w = process_replies fuel u ac w None"

section \<open>Events\<close>

definition run_connect :: "bool \<Rightarrow> redisAsyncContext \<Rightarrow> redisAsyncContext" where
  "run_connect ok ac = (case ac_onConnect ac of Some fn \<Rightarrow> called (OnConnect fn ok) ac | None \<Rightarrow> ac)"

text \<open>The last component is whether the result is \<open>REDIS_OK\<close>.\<close>

definition redisAsyncHandleConnect :: "user \<Rightarrow> redisAsyncContext \<Rightarrow> world \<Rightarrow> (redisAsyncContext \<times> world \<times> bool) res" where
  "redisAsyncHandleConnect u ac w =
     (case redisCheckSocketError (ac_c ac) w (c_fd (ac_c ac)) of
        (c, w1, ok) \<Rightarrow>
          let ac1 = ac\<lparr>ac_c := c\<rparr>
          in if \<not> ok then
               if w_errno w1 = EINPROGRESS then Inr (ac1, w1, True)
               else bind_res (redisAsyncDisconnect_now u (run_connect False ac1) w1) (\<lambda>(ac2, w2). Inr (ac2, w2, False))
             else Inr (run_connect True (set_flag REDIS_CONNECTED ac1), w1, True))"

text \<open>Both handlers first see to the connection; \<open>go\<close> is the rest.\<close>

definition when_connected ::
  "user \<Rightarrow> redisAsyncContext \<Rightarrow> world \<Rightarrow> (redisAsyncContext \<Rightarrow> world \<Rightarrow> (redisAsyncContext \<times> world) res) \<Rightarrow>
     (redisAsyncContext \<times> world) res" where
  "when_connected u ac w go =
     (if \<not> has_flag ac REDIS_CONNECTED then
        bind_res (redisAsyncHandleConnect u ac w)
        (\<lambda>(ac1, w1, ok). if \<not> ok then Inr (ac1, w1)
           else if \<not> has_flag ac1 REDIS_CONNECTED then Inr (ac1, w1)
           else go ac1 w1)
      else go ac w)"

definition redisAsyncHandleRead :: "nat \<Rightarrow> user \<Rightarrow> redisAsyncContext \<Rightarrow> world \<Rightarrow> (redisAsyncContext \<times> world) res" where
  "redisAsyncHandleRead fuel u ac w =
     when_connected u ac w
     (\<lambda>ac w. bind_res (redisBufferRead (ac_c ac) w)
       (\<lambda>(c, w1, ok).
          let ac1 = ac\<lparr>ac_c := c\<rparr>
          in if \<not> ok then redisAsyncDisconnect_now u ac1 w1
             else redisProcessCallbacks fuel u (run_hook AddRead ac1) w1))"

definition redisAsyncHandleWrite :: "user \<Rightarrow> redisAsyncContext \<Rightarrow> world \<Rightarrow> (redisAsyncContext \<times> world) res" where
  "redisAsyncHandleWrite u ac w =
     when_connected u ac w
     (\<lambda>ac w. bind_res (redisBufferWrite (ac_c ac) w)
       (\<lambda>(c, w1, ok, written).
          let ac1 = ac\<lparr>ac_c := c\<rparr>
          in if \<not> ok then redisAsyncDisconnect_now u ac1 w1
             else Inr (run_hook AddRead (run_hook (if written then DelWrite else AddWrite) ac1), w1)))"

end
