(* ===== verification/Adapters.thy ===== *)
theory Adapters
  imports Async
begin

text \<open>
  The adapters of the asynchronous context to three event libraries, \<open>hiredis/adapters/ae.h\<close>, \<open>libev.h\<close> and
  \<open>libevent.h\<close>. The event libraries are not part of the repository: their functions are only recorded, in
  order, and \<open>asked\<close> says for which events the last call about them asked. \<open>context\<close> and \<open>loop\<close> are pointers
  that never change and are left out; \<open>None\<close> is a container that has been freed.
\<close>

section \<open>Calls to an event library\<close>

datatype direction = Reading | Writing

datatype loop_call = Watch int direction | Unwatch int direction

definition asked :: "int \<Rightarrow> loop_call list \<Rightarrow> direction \<Rightarrow> bool" where
  "asked fd cs d = fold (\<lambda>c b. if c = Watch fd d then True else if c = Unwatch fd d then False else b) cs False"

text \<open>A use of the container.\<close>

definition with_events ::
  "'e option \<times> loop_call list \<Rightarrow> ('e \<Rightarrow> loop_call list \<Rightarrow> ('e option \<times> loop_call list) res) \<Rightarrow>
     ('e option \<times> loop_call list) res" where
  "with_events st f = (case st of (None, cs) \<Rightarrow> Inl UseAfterFree | (Some e, cs) \<Rightarrow> f e cs)"

section \<open>ae\<close>

record redisAeEvents =
  ae_fd :: int
  ae_reading :: bool
  ae_writing :: bool

type_synonym ae_state = "redisAeEvents option \<times> loop_call list"

definition redisAeReadEvent :: "nat \<Rightarrow> user \<Rightarrow> redisAsyncContext \<Rightarrow> world \<Rightarrow> (redisAsyncContext \<times> world) res" where
  "redisAeReadEvent fuel u ac w = redisAsyncHandleRead fuel u ac w"

definition redisAeWriteEvent :: "user \<Rightarrow> redisAsyncContext \<Rightarrow> world \<Rightarrow> (redisAsyncContext \<times> world) res" where
  "redisAeWriteEvent u ac w = redisAsyncHandleWrite u ac w"

definition redisAeAddRead :: "ae_state \<Rightarrow> ae_state res" where
  "redisAeAddRead st = with_events st (\<lambda>e cs.
     if \<not> ae_reading e then Inr (Some (e\<lparr>ae_reading := True\<rparr>), cs @ [Watch (ae_fd e) Reading])
     else Inr (Some e, cs))"

definition redisAeDelRead :: "ae_state \<Rightarrow> ae_state res" where
  "redisAeDelRead st = with_events st (\<lambda>e cs.
     if ae_reading e then Inr (Some (e\<lparr>ae_reading := False\<rparr>), cs @ [Unwatch (ae_fd e) Reading])
     else Inr (Some e, cs))"

definition redisAeAddWrite :: "ae_state \<Rightarrow> ae_state res" where
  "redisAeAddWrite st = with_events st (\<lambda>e cs.
     if \<not> ae_writing e then Inr (Some (e\<lparr>ae_writing := True\<rparr>), cs @ [Watch (ae_fd e) Writing])
     else Inr (Some e, cs))"

definition redisAeDelWrite :: "ae_state \<Rightarrow> ae_state res" where
  "redisAeDelWrite st = with_events st (\<lambda>e cs.
     if ae_writing e then Inr (Some (e\<lparr>ae_writing := False\<rparr>), cs @ [Unwatch (ae_fd e) Writing])
     else Inr (Some e, cs))"

definition redisAeCleanup :: "ae_state \<Rightarrow> ae_state res" where
  "redisAeCleanup st =
     bind_res (redisAeDelRead st)
     (\<lambda>st1. bind_res (redisAeDelWrite st1) (\<lambda>st2. with_events st2 (\<lambda>e cs. Inr (None, cs))))"

text \<open>
  \<open>attached\<close> is whether \<open>ac->ev.data\<close> is set. All hooks get a function; \<open>malloc\<close> is not checked. The result is
  the context, the container and \<open>REDIS_OK\<close>, or \<open>None\<close> for \<open>REDIS_ERR\<close>.
\<close>

definition redisAeAttach ::
  "bool \<Rightarrow> bool \<Rightarrow> redisAsyncContext \<Rightarrow> (redisAsyncContext \<times> redisAeEvents) option res" where
  "redisAeAttach mem attached ac =
     (if attached then Inr None
      else if \<not> mem then Inl NullDeref
      else Inr (Some (ac\<lparr>ac_ev := (\<lambda>_. True)\<rparr>, \<lparr>ae_fd = c_fd (ac_c ac), ae_reading = False, ae_writing = False\<rparr>)))"

fun ae_hook :: "hook \<Rightarrow> ae_state \<Rightarrow> ae_state res" where
  "ae_hook AddRead = redisAeAddRead"
| "ae_hook DelRead = redisAeDelRead"
| "ae_hook AddWrite = redisAeAddWrite"
| "ae_hook DelWrite = redisAeDelWrite"
| "ae_hook Cleanup = redisAeCleanup"

section \<open>libev\<close>

text \<open>\<open>rev\<close> and \<open>wev\<close> are watchers; \<open>ev_io_init\<close> gives them their descriptor.\<close>

record redisLibevEvents =
  lv_reading :: bool
  lv_writing :: bool
  lv_rev :: int
  lv_wev :: int

type_synonym libev_state = "redisLibevEvents option \<times> loop_call list"

definition redisLibevReadEvent :: "nat \<Rightarrow> user \<Rightarrow> redisAsyncContext \<Rightarrow> world \<Rightarrow> (redisAsyncContext \<times> world) res" where
  "redisLibevReadEvent fuel u ac w = redisAsyncHandleRead fuel u ac w"

definition redisLibevWriteEvent :: "user \<Rightarrow> redisAsyncContext \<Rightarrow> world \<Rightarrow> (redisAsyncContext \<times> world) res" where
  "redisLibevWriteEvent u ac w = redisAsyncHandleWrite u ac w"

definition redisLibevAddRead :: "libev_state \<Rightarrow> libev_state res" where
  "redisLibevAddRead st = with_events st (\<lambda>e cs.
     if \<not> lv_reading e then Inr (Some (e\<lparr>lv_reading := True\<rparr>), cs @ [Watch (lv_rev e) Reading])
     else Inr (Some e, cs))"

definition redisLibevDelRead :: "libev_state \<Rightarrow> libev_state res" where
  "redisLibevDelRead st = with_events st (\<lambda>e cs.
     if lv_reading e then Inr (Some (e\<lparr>lv_reading := False\<rparr>), cs @ [Unwatch (lv_rev e) Reading])
     else Inr (Some e, cs))"

definition redisLibevAddWrite :: "libev_state \<Rightarrow> libev_state res" where
  "redisLibevAddWrite st = with_events st (\<lambda>e cs.
     if \<not> lv_writing e then Inr (Some (e\<lparr>lv_writing := True\<rparr>), cs @ [Watch (lv_wev e) Writing])
     else Inr (Some e, cs))"

definition redisLibevDelWrite :: "libev_state \<Rightarrow> libev_state res" where
  "redisLibevDelWrite st = with_events st (\<lambda>e cs.
     if lv_writing e then Inr (Some (e\<lparr>lv_writing := False\<rparr>), cs @ [Unwatch (lv_wev e) Writing])
     else Inr (Some e, cs))"

definition redisLibevCleanup :: "libev_state \<Rightarrow> libev_state res" where
  "redisLibevCleanup st =
     bind_res (redisLibevDelRead st)
     (\<lambda>st1. bind_res (redisLibevDelWrite st1) (\<lambda>st2. with_events st2 (\<lambda>e cs. Inr (None, cs))))"

definition redisLibevAttach ::
  "bool \<Rightarrow> bool \<Rightarrow> redisAsyncContext \<Rightarrow> (redisAsyncContext \<times> redisLibevEvents) option res" where
  "redisLibevAttach mem attached ac =
     (if attached then Inr None
      else if \<not> mem then Inl NullDeref
      else Inr (Some (ac\<lparr>ac_ev := (\<lambda>_. True)\<rparr>,
             \<lparr>lv_reading = False, lv_writing = False, lv_rev = c_fd (ac_c ac), lv_wev = c_fd (ac_c ac)\<rparr>)))"

fun libev_hook :: "hook \<Rightarrow> libev_state \<Rightarrow> libev_state res" where
  "libev_hook AddRead = redisLibevAddRead"
| "libev_hook DelRead = redisLibevDelRead"
| "libev_hook AddWrite = redisLibevAddWrite"
| "libev_hook DelWrite = redisLibevDelWrite"
| "libev_hook Cleanup = redisLibevCleanup"

section \<open>libevent\<close>

record redisLibeventEvents =
  le_rev :: int
  le_wev :: int

type_synonym libevent_state = "redisLibeventEvents option \<times> loop_call list"

definition redisLibeventReadEvent :: "nat \<Rightarrow> user \<Rightarrow> redisAsyncContext \<Rightarrow> world \<Rightarrow> (redisAsyncContext \<times> world) res" where
  "redisLibeventReadEvent fuel u ac w = redisAsyncHandleRead fuel u ac w"

definition redisLibeventWriteEvent :: "user \<Rightarrow> redisAsyncContext \<Rightarrow> world \<Rightarrow> (redisAsyncContext \<times> world) res" where
  "redisLibeventWriteEvent u ac w = redisAsyncHandleWrite u ac w"

definition redisLibeventAddRead :: "libevent_state \<Rightarrow> libevent_state res" where
  "redisLibeventAddRead st = with_events st (\<lambda>e cs. Inr (Some e, cs @ [Watch (le_rev e) Reading]))"

definition redisLibeventDelRead :: "libevent_state \<Rightarrow> libevent_state res" where
  "redisLibeventDelRead st = with_events st (\<lambda>e cs. Inr (Some e, cs @ [Unwatch (le_rev e) Reading]))"

definition redisLibeventAddWrite :: "libevent_state \<Rightarrow> libevent_state res" where
  "redisLibeventAddWrite st = with_events st (\<lambda>e cs. Inr (Some e, cs @ [Watch (le_wev e) Writing]))"

definition redisLibeventDelWrite :: "libevent_state \<Rightarrow> libevent_state res" where
  "redisLibeventDelWrite st = with_events st (\<lambda>e cs. Inr (Some e, cs @ [Unwatch (le_wev e) Writing]))"

definition redisLibeventCleanup :: "libevent_state \<Rightarrow> libevent_state res" where
  "redisLibeventCleanup st =
     with_events st (\<lambda>e cs. Inr (None, cs @ [Unwatch (le_rev e) Reading, Unwatch (le_wev e) Writing]))"

definition redisLibeventAttach ::
  "bool \<Rightarrow> bool \<Rightarrow> redisAsyncContext \<Rightarrow> (redisAsyncContext \<times> redisLibeventEvents) option res" where
  "redisLibeventAttach mem attached ac =
     (if attached then Inr None
      else if \<not> mem then Inl NullDeref
      else Inr (Some (ac\<lparr>ac_ev := (\<lambda>_. True)\<rparr>, \<lparr>le_rev = c_fd (ac_c ac), le_wev = c_fd (ac_c ac)\<rparr>)))"

fun libevent_hook :: "hook \<Rightarrow> libevent_state \<Rightarrow> libevent_state res" where
  "libevent_hook AddRead = redisLibeventAddRead"
| "libevent_hook DelRead = redisLibeventDelRead"
| "libevent_hook AddWrite = redisLibeventAddWrite"
| "libevent_hook DelWrite = redisLibeventDelWrite"
| "libevent_hook Cleanup = redisLibeventCleanup"

section \<open>What the context expects of an adapter\<close>

text \<open>The events a sequence of hooks leaves asked for.\<close>

fun wants :: "hook \<Rightarrow> (direction \<Rightarrow> bool) \<Rightarrow> direction \<Rightarrow> bool" where
  "wants AddRead f = f(Reading := True)"
| "wants DelRead f = f(Reading := False)"
| "wants AddWrite f = f(Writing := True)"
| "wants DelWrite f = f(Writing := False)"
| "wants Cleanup f = (\<lambda>_. False)"

fun run_hooks :: "(hook \<Rightarrow> 's \<Rightarrow> 's res) \<Rightarrow> hook list \<Rightarrow> 's \<Rightarrow> 's res" where
  "run_hooks hk [] s = Inr s"
| "run_hooks hk (h # hs) s = bind_res (hk h s) (run_hooks hk hs)"

lemma run_hooks_append: "run_hooks hk (hs @ hs') s = bind_res (run_hooks hk hs s) (run_hooks hk hs')"
proof (induction hs arbitrary: s)
  case (Cons h hs)
  have "run_hooks hk (hs @ hs') = (\<lambda>s. bind_res (run_hooks hk hs s) (run_hooks hk hs'))"
    by (rule ext) (rule Cons.IH)
  then show ?case by (simp add: bind_res_assoc)
qed simp

locale event_adapter =
  fixes hk :: "hook \<Rightarrow> 's \<Rightarrow> 's res"
    and alive :: "'s \<Rightarrow> bool"
    and watched :: "'s \<Rightarrow> direction \<Rightarrow> bool"
    and good :: "'s \<Rightarrow> bool"
  assumes hook_law: "good s \<Longrightarrow> alive s \<Longrightarrow> h \<noteq> Cleanup \<Longrightarrow>
      \<exists>s'. hk h s = Inr s' \<and> good s' \<and> alive s' \<and> watched s' = wants h (watched s)"
    and cleanup_law: "good s \<Longrightarrow> alive s \<Longrightarrow>
      \<exists>s'. hk Cleanup s = Inr s' \<and> \<not> alive s' \<and> watched s' = (\<lambda>_. False)"
begin

lemma hooks_run:
  "good s \<Longrightarrow> alive s \<Longrightarrow> Cleanup \<notin> set hs \<Longrightarrow>
     \<exists>s'. run_hooks hk hs s = Inr s' \<and> good s' \<and> alive s' \<and> watched s' = fold wants hs (watched s)"
proof (induction hs arbitrary: s)
  case (Cons h hs)
  from hook_law [OF Cons.prems(1,2), of h] Cons.prems(3) obtain s1 where
    s1: "hk h s = Inr s1" "good s1" "alive s1" "watched s1 = wants h (watched s)" by auto
  from Cons.IH [OF s1(2,3)] Cons.prems(3) s1 show ?case by auto
qed simp

text \<open>Hooks with at most one clean-up, as the last, never use a freed container, and leave it freed
  exactly if there was one.\<close>

lemma hooks_end:
  assumes "good s" "alive s" "Cleanup \<notin> set hs"
  shows "\<exists>s'. run_hooks hk (hs @ (if e then [Cleanup] else [])) s = Inr s' \<and> (alive s' \<longleftrightarrow> \<not> e)
    \<and> watched s' = fold wants (hs @ (if e then [Cleanup] else [])) (watched s)"
proof -
  from hooks_run [OF assms] obtain s1 where
    s1: "run_hooks hk hs s = Inr s1" "good s1" "alive s1" "watched s1 = fold wants hs (watched s)" by blast
  from cleanup_law [OF s1(2,3)] s1 show ?thesis by (auto simp: run_hooks_append)
qed

end

lemma asked_simps [simp]:
  "asked fd [] d = False"
  "asked fd (cs @ [Watch fd' d']) d = (if fd' = fd \<and> d' = d then True else asked fd cs d)"
  "asked fd (cs @ [Unwatch fd' d']) d = (if fd' = fd \<and> d' = d then False else asked fd cs d)"
  by (auto simp: asked_def)

text \<open>The state of an adapter next to the descriptor it was attached to.\<close>

fun adapter_run :: "(hook \<Rightarrow> 'e option \<times> loop_call list \<Rightarrow> ('e option \<times> loop_call list) res) \<Rightarrow> hook \<Rightarrow>
    int \<times> 'e option \<times> loop_call list \<Rightarrow> (int \<times> 'e option \<times> loop_call list) res" where
  "adapter_run hk h (fd, st) = bind_res (hk h st) (\<lambda>st1. Inr (fd, st1))"

fun adapter_alive :: "int \<times> 'e option \<times> loop_call list \<Rightarrow> bool" where
  "adapter_alive (fd, e, cs) \<longleftrightarrow> e \<noteq> None"

fun adapter_watched :: "int \<times> 'e option \<times> loop_call list \<Rightarrow> direction \<Rightarrow> bool" where
  "adapter_watched (fd, e, cs) = asked fd cs"

definition ae_good :: "int \<times> ae_state \<Rightarrow> bool" where
  "ae_good s \<longleftrightarrow> (case s of (fd, None, cs) \<Rightarrow> True
     | (fd, Some e, cs) \<Rightarrow> ae_fd e = fd \<and> ae_reading e = asked fd cs Reading \<and> ae_writing e = asked fd cs Writing)"

definition libev_good :: "int \<times> libev_state \<Rightarrow> bool" where
  "libev_good s \<longleftrightarrow> (case s of (fd, None, cs) \<Rightarrow> True
     | (fd, Some e, cs) \<Rightarrow> lv_rev e = fd \<and> lv_wev e = fd
         \<and> lv_reading e = asked fd cs Reading \<and> lv_writing e = asked fd cs Writing)"

definition libevent_good :: "int \<times> libevent_state \<Rightarrow> bool" where
  "libevent_good s \<longleftrightarrow> (case s of (fd, None, cs) \<Rightarrow> True | (fd, Some e, cs) \<Rightarrow> le_rev e = fd \<and> le_wev e = fd)"

lemma asked_fun [simp]:
  "asked fd (cs @ [Watch fd d]) = (asked fd cs)(d := True)"
  "asked fd (cs @ [Unwatch fd d]) = (asked fd cs)(d := False)"
  by (simp_all add: fun_eq_iff)

lemma none_asked: "\<not> f Reading \<Longrightarrow> \<not> f Writing \<Longrightarrow> f = (\<lambda>d. False)"
  by (rule ext) (metis direction.exhaust)

lemma asked_cleanup [simp]:
  "asked fd (cs @ [Unwatch fd Reading, Unwatch fd Writing]) = (\<lambda>_. False)"
proof -
  have "asked fd ((cs @ [Unwatch fd Reading]) @ [Unwatch fd Writing]) = (\<lambda>_. False)"
    by (rule none_asked) (simp_all only: asked_simps, simp_all)
  then show ?thesis by simp
qed

interpretation ae: event_adapter "adapter_run ae_hook" adapter_alive adapter_watched ae_good
proof unfold_locales
  fix s h assume a: "ae_good s" "adapter_alive s" "h \<noteq> Cleanup"
  obtain fd e cs where s: "s = (fd, Some e, cs)" using a(2) by (cases s) auto
  from a show "\<exists>s'. adapter_run ae_hook h s = Inr s' \<and> ae_good s' \<and> adapter_alive s'
      \<and> adapter_watched s' = wants h (adapter_watched s)"
    by (cases h) (auto simp: s ae_good_def with_events_def redisAeAddRead_def redisAeDelRead_def
        redisAeAddWrite_def redisAeDelWrite_def fun_upd_idem)
next
  fix s assume a: "ae_good s" "adapter_alive s"
  obtain fd e cs where s: "s = (fd, Some e, cs)" using a(2) by (cases s) auto
  from a show "\<exists>s'. adapter_run ae_hook Cleanup s = Inr s' \<and> \<not> adapter_alive s' \<and> adapter_watched s' = (\<lambda>_. False)"
    by (auto simp: s ae_good_def with_events_def redisAeCleanup_def redisAeDelRead_def redisAeDelWrite_def
        intro!: none_asked)
qed

interpretation libev: event_adapter "adapter_run libev_hook" adapter_alive adapter_watched libev_good
proof unfold_locales
  fix s h assume a: "libev_good s" "adapter_alive s" "h \<noteq> Cleanup"
  obtain fd e cs where s: "s = (fd, Some e, cs)" using a(2) by (cases s) auto
  from a show "\<exists>s'. adapter_run libev_hook h s = Inr s' \<and> libev_good s' \<and> adapter_alive s'
      \<and> adapter_watched s' = wants h (adapter_watched s)"
    by (cases h) (auto simp: s libev_good_def with_events_def redisLibevAddRead_def redisLibevDelRead_def
        redisLibevAddWrite_def redisLibevDelWrite_def fun_upd_idem)
next
  fix s assume a: "libev_good s" "adapter_alive s"
  obtain fd e cs where s: "s = (fd, Some e, cs)" using a(2) by (cases s) auto
  from a show "\<exists>s'. adapter_run libev_hook Cleanup s = Inr s' \<and> \<not> adapter_alive s' \<and> adapter_watched s' = (\<lambda>_. False)"
    by (auto simp: s libev_good_def with_events_def redisLibevCleanup_def redisLibevDelRead_def redisLibevDelWrite_def
        intro!: none_asked)
qed

interpretation libevent: event_adapter "adapter_run libevent_hook" adapter_alive adapter_watched libevent_good
proof unfold_locales
  fix s h assume a: "libevent_good s" "adapter_alive s" "h \<noteq> Cleanup"
  obtain fd e cs where s: "s = (fd, Some e, cs)" using a(2) by (cases s) auto
  from a show "\<exists>s'. adapter_run libevent_hook h s = Inr s' \<and> libevent_good s' \<and> adapter_alive s'
      \<and> adapter_watched s' = wants h (adapter_watched s)"
    by (cases h) (auto simp: s libevent_good_def with_events_def redisLibeventAddRead_def redisLibeventDelRead_def
        redisLibeventAddWrite_def redisLibeventDelWrite_def)
next
  fix s assume a: "libevent_good s" "adapter_alive s"
  obtain fd e cs where s: "s = (fd, Some e, cs)" using a(2) by (cases s) auto
  from a show "\<exists>s'. adapter_run libevent_hook Cleanup s = Inr s' \<and> \<not> adapter_alive s' \<and> adapter_watched s' = (\<lambda>_. False)"
    by (auto simp: s libevent_good_def with_events_def redisLibeventCleanup_def)
qed

end
