(* ===== verification/Async_Names.thy ===== *)
theory Async_Names
  imports Async
begin

text \<open>
  Walking the arguments of an encoded command, the kinds of commands, and the dictionaries of callbacks as maps from
  names.
\<close>

section \<open>Walking the arguments of a command\<close>

text \<open>\<open>nextArgument\<close> reads the encoding of a command argument by argument, and ends at the NUL behind it.\<close>

lemma strchr_in_hit: "x \<notin> set a \<Longrightarrow> NUL \<notin> set a \<Longrightarrow> strchr_in (a @ x # b) i x = Inr (Some (i + length a))"
  by (induction a arbitrary: i) auto

lemma dec_chars: "CR \<notin> set (dec n)" "CHR ''$'' \<notin> set (dec n)" "NUL \<notin> set (dec n)"
proof -
  have "\<not> is_digit CHR ''$''" by (simp add: is_digit_def digit_val_def schar_def)
  then show "CR \<notin> set (dec n)" "CHR ''$'' \<notin> set (dec n)" "NUL \<notin> set (dec n)"
    using dec_is_digit not_digit(1,3) by metis+
qed

lemma next_argument_bulk:
  assumes "length a < 2 ^ 31"
  shows "nextArgument (pre @ bulk a @ post) (length pre)
    = Inr (Some (length (pre @ bulk a), length pre + length (dec (length a)) + 3, word_of_nat (length a)))"
proof -
  let ?cmd = "pre @ bulk a @ post" and ?p = "length pre"
  have c: "char_at ?cmd ?p = Inr CHR ''$''" by (simp add: char_at_def bulk_def)
  have d: "drop (?p + 1) ?cmd = dec (length a) @ CR # LF # a @ CRLF @ post" by (simp add: bulk_def)
  have n: "atoi (drop (?p + 1) ?cmd) = int (length a)"
    unfolding d using assms by (subst atoi_dec) auto
  have dp: "drop ?p ?cmd = (CHR ''$'' # dec (length a)) @ CR # LF # a @ CRLF @ post" by (simp add: bulk_def)
  have q: "strchr_at ?cmd ?p CR = Inr (Some (?p + Suc (length (dec (length a)))))"
    unfolding strchr_at_def dp by (subst strchr_in_hit) (use dec_chars in auto)
  have si: "sint (word_of_int (int (length a)) :: u64) = int (length a)"
    using assms by (subst int_word_sint) (simp add: mod_pos_pos_trivial)
  have l: "length (bulk a) = length (dec (length a)) + length a + 5" by (simp add: bulk_def)
  show ?thesis
    unfolding nextArgument_def c bind_res.simps not_True_eq_False if_False simp_thms option.case n q Let_def si
    by (simp add: l)
qed

text \<open>The first call skips the header of the command.\<close>

abbreviation header :: "string list \<Rightarrow> string" where
  "header args \<equiv> CHR ''*'' # dec (length args) @ CRLF"

lemma next_argument_first:
  assumes "length a < 2 ^ 31"
  shows "nextArgument (command_bytes (a # args) @ [NUL]) 0
    = Inr (Some (length (header (a # args) @ bulk a), length (header (a # args)) + length (dec (length a)) + 3,
        word_of_nat (length a)))"
proof -
  let ?h = "header (a # args)"
  let ?cmd = "?h @ bulk a @ concat (map bulk args) @ [NUL]"
  have cmd: "command_bytes (a # args) @ [NUL] = ?cmd" by (simp add: command_bytes_def)
  have c: "char_at ?cmd 0 = Inr CHR ''*''" "char_at ?cmd (length ?h) = Inr CHR ''$''"
    by (simp_all add: char_at_def bulk_def nth_append)
  have b: "?cmd = ?h @ CHR ''$'' # drop 1 (bulk a) @ concat (map bulk args) @ [NUL]" by (simp add: bulk_def)
  have s: "strchr_at ?cmd 0 CHR ''$'' = Inr (Some (length ?h))"
    unfolding strchr_at_def drop_0 b by (subst strchr_in_hit) (use dec_chars in auto)
  have e: "nextArgument ?cmd 0 = nextArgument ?cmd (length ?h)"
    unfolding nextArgument_def c s by simp
  from next_argument_bulk [OF assms, of ?h "concat (map bulk args) @ [NUL]"] show ?thesis
    unfolding cmd e by simp
qed

lemma next_argument_end: "nextArgument (pre @ [NUL]) (length pre) = Inr None"
  by (simp add: nextArgument_def char_at_def strchr_at_def)

text \<open>The text behind an argument's start.\<close>

lemma drop_text: "drop (length pre + length (dec (length a)) + 3) (pre @ bulk a @ post) = a @ CRLF @ post"
proof -
  let ?h = "pre @ CHR ''$'' # dec (length a) @ CRLF"
  have "pre @ bulk a @ post = ?h @ a @ CRLF @ post" "length ?h = length pre + length (dec (length a)) + 3"
    by (simp_all add: bulk_def)
  then show ?thesis by (metis append_eq_conv_conj)
qed

fun walk :: "nat \<Rightarrow> string \<Rightarrow> nat \<Rightarrow> string list res" where
  "walk 0 cmd p = Inl OutOfFuel"
| "walk (Suc n) cmd p = bind_res (nextArgument cmd p)
     (\<lambda>a. case a of None \<Rightarrow> Inr []
        | Some (q, s, len) \<Rightarrow> bind_res (walk n cmd q) (\<lambda>as. Inr (take (unat len) (drop s cmd) # as)))"

lemma walk_bulks:
  "\<forall>a \<in> set args. length a < 2 ^ 31 \<Longrightarrow> length args < n \<Longrightarrow>
    walk n (pre @ concat (map bulk args) @ [NUL]) (length pre) = Inr args"
proof (induction args arbitrary: pre n)
  case Nil
  then show ?case using next_argument_end [of pre] by (cases n) auto
next
  case (Cons a args)
  obtain m where n: "n = Suc m" using Cons.prems(2) by (cases n) auto
  have a: "length a < 2 ^ 31" using Cons.prems by simp
  note na = next_argument_bulk [OF a, of pre "concat (map bulk args) @ [NUL]"]
  have u: "unat (word_of_nat (length a) :: u64) = length a" using a by (simp add: unat_of_nat)
  have "walk m (pre @ bulk a @ concat (map bulk args) @ [NUL]) (length (pre @ bulk a)) = Inr args"
    using Cons.IH [of m "pre @ bulk a"] Cons.prems by (simp add: n)
  then show ?case
    unfolding n walk.simps list.map concat.simps append_assoc na bind_res.simps prod.case option.case drop_text
    by (simp add: u)
qed

lemma walk_command:
  assumes "args \<noteq> []" "\<forall>a \<in> set args. length a < 2 ^ 31" "length args < n"
  shows "walk n (command_bytes args @ [NUL]) 0 = Inr args"
proof -
  obtain a as where as: "args = a # as" using assms(1) by (cases args) auto
  obtain m where n: "n = Suc m" using assms(3) by (cases n) auto
  have a: "length a < 2 ^ 31" using assms(2) as by simp
  have u: "unat (word_of_nat (length a) :: u64) = length a" using a by (simp add: unat_of_nat)
  have cmd: "command_bytes (a # as) @ [NUL] = header (a # as) @ bulk a @ concat (map bulk as) @ [NUL]"
    by (simp add: command_bytes_def)
  have w: "walk m (header (a # as) @ bulk a @ concat (map bulk as) @ [NUL]) (length (header (a # as) @ bulk a)) = Inr as"
    using walk_bulks [of as m "header (a # as) @ bulk a"] assms by (simp add: as n)
  show ?thesis
    unfolding as n walk.simps next_argument_first [OF a] bind_res.simps prod.case option.case
    unfolding cmd drop_text w
    by (simp add: u)
qed

section \<open>Kinds of commands\<close>

text \<open>
  What the comparisons with the command's name see: the first argument and the line end behind it, in
  lower case. A leading p is the mark of the pattern variant, whatever the command is.
\<close>

definition is_pvariant :: "string list \<Rightarrow> bool" where
  "is_pvariant args = (c_tolower (hd (hd args @ [CR])) = CHR ''p'')"

definition named :: "string \<Rightarrow> string list \<Rightarrow> bool" where
  "named lit args \<longleftrightarrow> map c_tolower (take (length lit + 2) (drop (if is_pvariant args then 1 else 0) (hd args @ CRLF))) = lit @ CRLF"

datatype kind = Subscribe | Unsubscribe | Monitor | Plain

definition kind_of :: "string list \<Rightarrow> kind" where
  "kind_of args =
     (if tl args \<noteq> [] \<and> named ''subscribe'' args then Subscribe
      else if named ''unsubscribe'' args then Unsubscribe
      else if named ''monitor'' args then Monitor
      else Plain)"

lemma take_line:
  assumes "LF \<notin> set lit" "map c_tolower (take (length lit + 2) (s @ CRLF @ post)) = lit @ CRLF"
  shows "length lit + 2 \<le> length (s @ CRLF)"
proof (rule ccontr)
  assume n: "\<not> ?thesis"
  let ?i = "Suc (length s)"
  have i: "?i < length lit + 1" using n by simp
  have "map c_tolower (take (length lit + 2) (s @ CRLF @ post)) ! ?i = (lit @ CRLF) ! ?i" using assms(2) by simp
  moreover have "map c_tolower (take (length lit + 2) (s @ CRLF @ post)) ! ?i = LF"
    using i by (simp add: nth_append c_tolower_def schar_def)
  ultimately have "(lit @ CRLF) ! ?i = LF" by simp
  with i assms(1) show False
    using nth_mem [of ?i lit] by (cases "?i < length lit") (auto simp: nth_append less_Suc_eq)
qed

lemma name_compare:
  assumes "LF \<notin> set lit" "drop p cmd = s @ CRLF @ post"
  shows "strncaseeq cmd p (lit @ CRLF) = (map c_tolower (take (length lit + 2) (s @ CRLF)) = lit @ CRLF)"
proof
  assume a: "strncaseeq cmd p (lit @ CRLF)"
  then have e: "map c_tolower (take (length lit + 2) (s @ CRLF @ post)) = lit @ CRLF"
    using assms(2) by (simp add: strncaseeq_def)
  from take_line [OF assms(1) e] have "take (length lit + 2) ((s @ CRLF) @ post) = take (length lit + 2) (s @ CRLF)"
    by (subst take_append) simp
  with e show "map c_tolower (take (length lit + 2) (s @ CRLF)) = lit @ CRLF" by simp
next
  assume e: "map c_tolower (take (length lit + 2) (s @ CRLF)) = lit @ CRLF"
  then have "length (take (length lit + 2) (s @ CRLF)) = length lit + 2" by (metis length_append length_map length_Cons list.size(3) One_nat_def Suc_1 add_2_eq_Suc')
  then have "take (length lit + 2) ((s @ CRLF) @ post) = take (length lit + 2) (s @ CRLF)"
    by (subst take_append) simp
  with e assms(2) show "strncaseeq cmd p (lit @ CRLF)" by (simp add: strncaseeq_def)
qed

section \<open>Dictionaries of callbacks\<close>

definition dict_ok :: "callbacks \<Rightarrow> bool" where
  "dict_ok d \<longleftrightarrow> dict_inv d \<and> d_type d = callbackDict \<and> (\<forall>e \<in> set (dents d). sds_inv (de_key e))"

lemma key_compare: "callbackKeyCompare k k' \<longleftrightarrow> sdslen k = sdslen k' \<and> sds_str k = sds_str k'"
  by (auto simp: callbackKeyCompare_def sds_str_def sdslen_def Let_def)

lemma compare_callback [simp]: "d_type d = callbackDict \<Longrightarrow> dictCompareHashKeys d = callbackKeyCompare"
  by (intro ext) (simp add: dictCompareHashKeys_def callbackDict_def)

lemma callback_type_ok: "d_type d = callbackDict \<Longrightarrow> type_ok d"
proof -
  assume t: "d_type d = callbackDict"
  have "equivp callbackKeyCompare"
    by (intro equivpI reflpI sympI transpI) (auto simp: key_compare)
  with t show ?thesis
    unfolding type_ok_def compare_callback [OF t]
    by (auto simp: callbackDict_def callbackHash_def callbackValDup_def dictSetHashKey_def key_compare sds_str_def sdslen_def)
qed

lemma init_callbacks: "dict_ok (dictInit callbackDict)" "dict_lookup (dictInit callbackDict) k = None"
proof -
  have t: "d_type (dictInit callbackDict) = callbackDict" by (simp add: dictInit_def dictReset_def)
  have e: "dents (dictInit callbackDict) = ([] :: (sds, redisCallback) dictEntry list)"
    by (simp add: dictInit_def dictReset_def dents_def)
  have q: "equivp (dictCompareHashKeys (dictInit callbackDict))"
    using callback_type_ok [OF t] by (simp add: type_ok_def)
  show "dict_ok (dictInit callbackDict)" "dict_lookup (dictInit callbackDict) k = None"
    using init_inv [OF q callback_type_ok [OF t]] t e by (simp_all add: dict_ok_def)
qed

text \<open>The callback of a name.\<close>

definition name_key :: "string \<Rightarrow> sds" where
  "name_key s = \<lparr>sds_len = length s, sds_free = 0, sds_buf = s @ [NUL]\<rparr>"

definition callback_of :: "callbacks \<Rightarrow> string \<Rightarrow> redisCallback option" where
  "callback_of d name = dict_lookup d (name_key name)"

lemma name_key_facts: "sds_str (name_key a) = a" "sdslen (name_key a) = length a"
  by (simp_all add: name_key_def sds_str_def sdslen_def)

lemma name_key_compare [simp]:
  "sds_inv s \<Longrightarrow> callbackKeyCompare (name_key a) s \<longleftrightarrow> a = sds_str s"
  using sds_str_length [of s] by (auto simp: key_compare name_key_facts) (simp add: sdslen_def)

lemma callback_of_key: "dict_ok d \<Longrightarrow> sds_inv s \<Longrightarrow> dict_lookup d s = callback_of d (sds_str s)"
  unfolding callback_of_def dict_ok_def
  using dc.lookup_same [of d "name_key (sds_str s)" s] by simp

lemma init_empty: "callback_of (dictInit callbackDict) name = None"
  by (simp add: callback_of_def init_callbacks)

lemma memory_facts:
  assumes "memory_ok w"
  shows "mem_cell w" "mem_good (mem_dict w)" "good_alloc (w_alloc w (w_now w))" "al_total (w_alloc w (w_now w))"
    "w_objects w (w_now w) = (\<lambda>_. True)"
  using assms by (simp_all add: memory_ok_def mem_cell_def mem_dict_def mem_good_def)

lemma newlen_total:
  assumes "memory_ok w" "n \<le> length t"
  shows "\<exists>s. sdsnewlen (w_alloc w (w_now w)) (Some t) n = Inr (Some s) \<and> sds_inv s \<and> sds_str s = take n t"
  using newlen_holds [OF memory_facts(3) [OF assms(1)] assms(2)] memory_facts(4) [OF assms(1)]
  by (cases "(sdsnewlen (w_alloc w (w_now w)) (Some t) n, take n t)" rule: holds.cases)
    (auto simp: al_total_def simp del: not_None_eq)

lemma put_callback:
  assumes d: "dict_ok d" and w: "memory_ok w" and n: "dict_num d < 2 ^ 31" and s: "sds_inv s"
  shows "\<exists>d' r fs. dictReplace (mem_dict w) d s cb = Inr (d', r, fs) \<and> dict_ok d' \<and> dict_num d' \<le> Suc (dict_num d)
    \<and> callback_of d' = (callback_of d)(sds_str s \<mapsto> cb)"
proof -
  have d': "dict_inv d" "d_type d = callbackDict" and keys: "\<forall>e \<in> set (dents d). sds_inv (de_key e)"
    using d by (simp_all add: dict_ok_def)
  from replace_lookup_ok [OF d'(1) memory_facts(2) [OF w] n, of s cb] obtain d1 r fs where
    r: "dictReplace (mem_dict w) d s cb = Inr (d1, r, fs)" "d_type d1 = d_type d" "dict_inv d1"
    "dict_num d1 \<le> Suc (dict_num d)"
    "\<forall>k. dict_lookup d1 k = (if callbackKeyCompare k s then Some cb else dict_lookup d k)"
    using d'(2) by auto
  have "callback_of d1 = (callback_of d)(sds_str s \<mapsto> cb)"
    by (rule ext) (simp add: callback_of_def r(5) s)
  moreover have "\<forall>e \<in> set (dents d1). sds_inv (de_key e)"
  proof (cases "lookup_entry d s")
    case None
    from replace_ok(2) [OF d'(1) memory_facts(2) [OF w] _ None, of cb] n r(1)
    have "mset (dents d1) = add_mset \<lparr>de_key = dictSetHashKey d s, de_val = cb\<rparr> (mset (dents d))"
      by (auto simp: dict_num_def)
    then have "set (dents d1) = insert \<lparr>de_key = dictSetHashKey d s, de_val = cb\<rparr> (set (dents d))"
      by (metis set_mset_add_mset_insert set_mset_mset)
    with keys s d'(2) show ?thesis by (simp add: dictSetHashKey_def callbackDict_def)
  next
    case (Some e)
    from replace_ok(1) [OF d'(1) memory_facts(2) [OF w] _ Some, of cb] n r(1)
    have m: "mset (dents d1) + {#e#} = add_mset (e\<lparr>de_val := cb\<rparr>) (mset (dents d))" by (auto simp: dict_num_def)
    have "set_mset (mset (dents d1)) \<subseteq> set_mset (mset (dents d1) + {#e#})" by auto
    then have "set (dents d1) \<subseteq> insert (e\<lparr>de_val := cb\<rparr>) (set (dents d))" unfolding m by simp
    moreover have "e \<in> set (dents d)" using first_match_Some [OF Some] by simp
    ultimately show ?thesis using keys by auto
  qed
  ultimately show ?thesis using r d'(2) by (auto simp: dict_ok_def)
qed

lemma del_callback:
  assumes d: "dict_ok d" and s: "sds_inv s"
  shows "\<exists>d' r fs. dictDelete d s = Inr (d', r, fs) \<and> dict_ok d' \<and> dict_num d' \<le> dict_num d
    \<and> callback_of d' = (callback_of d)(sds_str s := None)"
proof -
  have d': "dict_inv d" "d_type d = callbackDict" and keys: "\<forall>e \<in> set (dents d). sds_inv (de_key e)"
    using d by (simp_all add: dict_ok_def)
  show ?thesis
  proof (cases "dict_lookup d s")
    case None
    have "callback_of d = (callback_of d)(sds_str s := None)"
      using None callback_of_key [OF d s] by auto
    with None delete_lookup_ok [OF d'(1), of s] d show ?thesis by auto
  next
    case (Some v)
    with delete_lookup_ok [OF d'(1), of s] obtain d1 fs where
      r: "dictDelete d s = Inr (d1, True, fs)" "d_type d1 = d_type d" "dict_inv d1" "Suc (dict_num d1) = dict_num d"
      "\<forall>k. dict_lookup d1 k = (if callbackKeyCompare k s then None else dict_lookup d k)"
      using d'(2) by auto
    have "callback_of d1 = (callback_of d)(sds_str s := None)"
      by (rule ext) (simp add: callback_of_def r(5) s)
    moreover have "set (dents d1) \<subseteq> set (dents d)"
    proof -
      obtain e where e: "lookup_entry d s = Some e" using Some d'(1) by (auto simp: dict_lookup_entry)
      with delete_ok(2) [OF d'(1) e] r(1) have "mset (dents d) = add_mset e (mset (dents d1))" by auto
      then show ?thesis by (metis set_mset_add_mset_insert set_mset_mset subset_insertI)
    qed
    ultimately show ?thesis using r d'(2) keys by (auto simp: dict_ok_def)
  qed
qed

lemma find_callback:
  assumes d: "dict_ok d" and s: "sds_inv s"
  shows "\<exists>e. dictFind d s = Inr e \<and> map_option de_val e = callback_of d (sds_str s)"
proof -
  have "dict_inv d" using d by (simp add: dict_ok_def)
  with find_ok [of d s] callback_of_key [OF d s] show ?thesis by (simp add: dict_lookup_entry)
qed

section \<open>Subscriptions\<close>

lemma subscribe_ok:
  "\<forall>a \<in> set args. length a < 2 ^ 31 \<Longrightarrow> length args < n \<Longrightarrow> dict_ok d \<Longrightarrow> memory_ok w \<Longrightarrow>
    dict_num d + length args \<le> 2 ^ 31 \<Longrightarrow>
    \<exists>d'. subscribe_loop n w (pre @ concat (map bulk args) @ [NUL]) (length pre) cb d = Inr d' \<and> dict_ok d'
      \<and> callback_of d' = (\<lambda>name. if name \<in> set args then Some cb else callback_of d name)"
proof (induction args arbitrary: pre n d)
  case Nil
  then show ?case using next_argument_end [of pre] by (cases n) auto
next
  case (Cons a args)
  obtain m where n: "n = Suc m" using Cons.prems(2) by (cases n) auto
  have a: "length a < 2 ^ 31" using Cons.prems by simp
  have u: "unat (word_of_nat (length a) :: u64) = length a" using a by (simp add: unat_of_nat)
  let ?post = "concat (map bulk args) @ [NUL]"
  obtain s where s: "sdsnewlen (w_alloc w (w_now w)) (Some (a @ CRLF @ ?post)) (length a) = Inr (Some s)"
    "sds_inv s" "sds_str s = a"
    using newlen_total [OF Cons.prems(4), of "length a" "a @ CRLF @ ?post"] by auto
  have "dict_num d < 2 ^ 31" using Cons.prems(5) by simp
  from put_callback [OF Cons.prems(3,4) this s(2), of cb] obtain d1 r fs where
    d1: "dictReplace (mem_dict w) d s cb = Inr (d1, r, fs)" "dict_ok d1" "dict_num d1 \<le> Suc (dict_num d)"
    "callback_of d1 = (callback_of d)(a \<mapsto> cb)" using s(3) by auto
  obtain d2 where d2: "subscribe_loop m w (pre @ bulk a @ ?post) (length (pre @ bulk a)) cb d1 = Inr d2" "dict_ok d2"
    "callback_of d2 = (\<lambda>name. if name \<in> set args then Some cb else callback_of d1 name)"
    using Cons.IH [of m d1 "pre @ bulk a"] Cons.prems d1(2,3) by (auto simp: n)
  have "subscribe_loop n w (pre @ bulk a @ ?post) (length pre) cb d = Inr d2"
    unfolding n subscribe_loop.simps next_argument_bulk [OF a] bind_res.simps option.case prod.case drop_text u s(1) d1(1)
    by (rule d2(1))
  moreover have "callback_of d2 = (\<lambda>name. if name \<in> set (a # args) then Some cb else callback_of d name)"
    unfolding d2(3) d1(4) by auto
  ultimately show ?case using d2(2) by simp
qed

end
