(* ===== verification/Async_Close.thy ===== *)
theory Async_Close
  imports Async_Names
begin

text \<open>
  Flags as bits, and the destruction of a context: every pending callback runs once, and nothing else can
  be started meanwhile.
\<close>

section \<open>Flags\<close>

text \<open>A flag is a bit; setting and clearing flags is then a matter of bits.\<close>

lemma flag_bits:
  "has_flag ac REDIS_BLOCK = bit (ac_flags ac) 0"
  "has_flag ac REDIS_CONNECTED = bit (ac_flags ac) 1"
  "has_flag ac REDIS_DISCONNECTING = bit (ac_flags ac) 2"
  "has_flag ac REDIS_FREEING = bit (ac_flags ac) 3"
  "has_flag ac REDIS_IN_CALLBACK = bit (ac_flags ac) 4"
  "has_flag ac REDIS_SUBSCRIBED = bit (ac_flags ac) 5"
  "has_flag ac REDIS_MONITORING = bit (ac_flags ac) 6"
  using and_exp_eq_0_iff_not_bit [of "ac_flags ac" 0] and_exp_eq_0_iff_not_bit [of "ac_flags ac" 1]
    and_exp_eq_0_iff_not_bit [of "ac_flags ac" 2] and_exp_eq_0_iff_not_bit [of "ac_flags ac" 3]
    and_exp_eq_0_iff_not_bit [of "ac_flags ac" 4] and_exp_eq_0_iff_not_bit [of "ac_flags ac" 5]
    and_exp_eq_0_iff_not_bit [of "ac_flags ac" 6]
  by (simp_all add: has_flag_def REDIS_BLOCK_def REDIS_CONNECTED_def REDIS_DISCONNECTING_def REDIS_FREEING_def
      REDIS_IN_CALLBACK_def REDIS_SUBSCRIBED_def REDIS_MONITORING_def)

lemma set_mask: "n < 32 \<Longrightarrow> bit (x OR 2 ^ n :: u32) k \<longleftrightarrow> bit x k \<or> k = n"
  by (auto simp: bit_or_iff bit_exp_iff possible_bit_def)

lemma clear_mask: "bit (x AND NOT (2 ^ n) :: u32) k \<longleftrightarrow> bit x k \<and> k \<noteq> n"
  by (auto simp: bit_and_iff bit_not_iff bit_exp_iff dest: bit_imp_possible_bit)

lemma set_bits:
  "bit (x OR REDIS_CONNECTED) k \<longleftrightarrow> bit x k \<or> k = 1"
  "bit (x OR REDIS_DISCONNECTING) k \<longleftrightarrow> bit x k \<or> k = 2"
  "bit (x OR REDIS_FREEING) k \<longleftrightarrow> bit x k \<or> k = 3"
  "bit (x OR REDIS_IN_CALLBACK) k \<longleftrightarrow> bit x k \<or> k = 4"
  "bit (x OR REDIS_SUBSCRIBED) k \<longleftrightarrow> bit x k \<or> k = 5"
  "bit (x OR REDIS_MONITORING) k \<longleftrightarrow> bit x k \<or> k = 6"
  using set_mask [of 1 x k] set_mask [of 2 x k] set_mask [of 3 x k] set_mask [of 4 x k] set_mask [of 5 x k] set_mask [of 6 x k]
  by (simp_all add: REDIS_CONNECTED_def REDIS_DISCONNECTING_def REDIS_FREEING_def
      REDIS_IN_CALLBACK_def REDIS_SUBSCRIBED_def REDIS_MONITORING_def)

lemma clear_bits:
  "bit (x AND NOT REDIS_CONNECTED) k \<longleftrightarrow> bit x k \<and> k \<noteq> 1"
  "bit (x AND NOT REDIS_IN_CALLBACK) k \<longleftrightarrow> bit x k \<and> k \<noteq> 4"
  "bit (x AND NOT REDIS_SUBSCRIBED) k \<longleftrightarrow> bit x k \<and> k \<noteq> 5"
  using clear_mask [of x 1 k] clear_mask [of x 4 k] clear_mask [of x 5 k]
  by (simp_all add: REDIS_CONNECTED_def REDIS_IN_CALLBACK_def REDIS_SUBSCRIBED_def)

lemma closing_bits: "has_flag ac (REDIS_DISCONNECTING OR REDIS_FREEING) = (bit (ac_flags ac) 2 \<or> bit (ac_flags ac) 3)"
proof -
  have "ac_flags ac AND (REDIS_DISCONNECTING OR REDIS_FREEING)
      = (ac_flags ac AND REDIS_DISCONNECTING) OR (ac_flags ac AND REDIS_FREEING)"
    by (rule bit_eqI) (auto simp: bit_and_iff bit_or_iff)
  moreover have "(a OR b = 0) = (a = 0 \<and> b = 0)" for a b :: u32
    by (metis or_eq_0_iff)
  ultimately show ?thesis
    using flag_bits(3,4) [of ac] by (simp add: has_flag_def)
qed

lemma set_flag_fields [simp]:
  "ac_replies (set_flag f ac) = ac_replies ac" "ac_invalid (set_flag f ac) = ac_invalid ac"
  "ac_channels (set_flag f ac) = ac_channels ac" "ac_patterns (set_flag f ac) = ac_patterns ac"
  "ac_calls (set_flag f ac) = ac_calls ac" "ac_flags (set_flag f ac) = ac_flags ac OR f"
  by (simp_all add: set_flag_def)

section \<open>A context that is being closed\<close>

text \<open>
  \<open>flagged ac ac'\<close>: nothing of the context has changed, but the flags for disconnecting and freeing, which can
  only be set.
\<close>

abbreviation closing :: "redisAsyncContext \<Rightarrow> bool" where
  "closing ac \<equiv> bit (ac_flags ac) 2 \<or> bit (ac_flags ac) 3"

definition flagged :: "redisAsyncContext \<Rightarrow> redisAsyncContext \<Rightarrow> bool" where
  "flagged ac ac' \<longleftrightarrow> (\<exists>fl. ac' = ac\<lparr>ac_c := (ac_c ac)\<lparr>c_flags := fl\<rparr>\<rparr>
     \<and> (\<forall>k. bit (ac_flags ac) k \<longrightarrow> bit fl k) \<and> (\<forall>k. k \<noteq> 2 \<and> k \<noteq> 3 \<longrightarrow> bit fl k = bit (ac_flags ac) k))"

lemma flagged_refl: "flagged ac ac"
  by (auto simp: flagged_def intro: exI [of _ "ac_flags ac"])

lemma flagged_trans: "flagged a b \<Longrightarrow> flagged b c \<Longrightarrow> flagged a c"
  by (auto simp: flagged_def)

lemma flagged_closing: "flagged a b \<Longrightarrow> closing a \<Longrightarrow> closing b"
  by (auto simp: flagged_def)

lemma flagged_set: "f = REDIS_DISCONNECTING \<or> f = REDIS_FREEING \<Longrightarrow> flagged ac (set_flag f ac)"
  by (auto simp: flagged_def set_flag_def set_bits)

text \<open>What an action of a callback asks for; \<open>None\<close> if it is none or its arguments are not well-formed.\<close>

fun action_args :: "action \<Rightarrow> string list option" where
  "action_args (ActCommand fn pd format ap) =
     (if format \<noteq> [] \<and> last format = NUL \<and> NUL \<notin> set (butlast format) then fmt_args (butlast format) ap [] False [] else None)"
| "action_args (ActCommandArgv fn pd argv) = (if \<forall>a \<in> set argv. NUL \<in> set a then Some (map cstr argv) else None)"
| "action_args ActFree = Some []"
| "action_args ActDisconnect = Some []"

fun action_callback :: "action \<Rightarrow> redisCallback" where
  "action_callback (ActCommand fn pd format ap) = \<lparr>cb_fn = fn, cb_privdata = pd\<rparr>"
| "action_callback (ActCommandArgv fn pd argv) = \<lparr>cb_fn = fn, cb_privdata = pd\<rparr>"
| "action_callback _ = \<lparr>cb_fn = None, cb_privdata = 0\<rparr>"

definition is_command :: "action \<Rightarrow> bool" where
  "is_command a \<longleftrightarrow> a \<noteq> ActFree \<and> a \<noteq> ActDisconnect"

text \<open>The callbacks of a user only make well-formed commands.\<close>

definition user_ok :: "user \<Rightarrow> bool" where
  "user_ok u \<longleftrightarrow> (\<forall>h fn pd x. \<forall>a \<in> set (u_does u h fn pd x). action_args a \<noteq> None)"

lemma action_command:
  assumes w: "memory_ok w" and a: "is_command a" "action_args a = Some args"
  shows "run_action u w a ac = bind_res (redisAsyncCmd ac w (cb_fn (action_callback a)) (cb_privdata (action_callback a))
      (command_bytes args @ [NUL]) (length (command_bytes args))) (\<lambda>(ac1, ok). Inr ac1)"
proof -
  note al = memory_facts(3,4) [OF w] and o = memory_facts(5) [OF w]
  show ?thesis
  proof (cases a)
    case (ActCommand fn pd format ap)
    with a(2) have "format \<noteq> []" "last format = NUL" and f: "NUL \<notin> set (butlast format)"
      "fmt_args (butlast format) ap [] False [] = Some args"
      by (auto split: if_splits)
    then have ft: "butlast format @ [NUL] = format" by (metis append_butlast_last_id)
    from vFormat_ok [OF al(1) f, of "w_objects w (w_now w)" "u_printf u"] al(2) o
    have "redisvFormatCommand (w_alloc w (w_now w)) (w_objects w (w_now w)) (u_printf u) True format ap
        = Inr (Some (command_bytes args @ [NUL], length (command_bytes args)))"
      unfolding ft by simp
    with ActCommand show ?thesis by (simp add: run_action_def redisAsyncCommand_def redisvAsyncCommand_def)
  next
    case (ActCommandArgv fn pd argv)
    with a(2) have n: "\<forall>a \<in> set argv. NUL \<in> set a" "args = map cstr argv" by (auto split: if_splits)
    have "args = map (\<lambda>(a, n). take n a) (map (\<lambda>a. (a, length (cstr a))) argv)"
      by (simp add: n(2) cstr_take o_def)
    from argv_ok [OF al(1) with_lengths_strlen [OF n(1)] _ _ this] al(2)
    have "redisFormatCommandArgv (w_alloc w (w_now w)) argv None
        = Inr (Some (command_bytes args @ [NUL], length (command_bytes args)))"
      by (auto simp: al_total_def cstr_def length_takeWhile_le)
    with ActCommandArgv show ?thesis by (simp add: run_action_def redisAsyncCommandArgv_def)
  qed (use a in \<open>simp_all add: is_command_def\<close>)
qed

text \<open>Commands are rejected, so the actions of a callback only set flags.\<close>

lemma command_closing: "closing ac \<Longrightarrow> redisAsyncCmd ac w fn pd cmd n = Inr (ac, False)"
  by (simp add: redisAsyncCmd_def closing_bits)

lemma actions_closing:
  "memory_ok w \<Longrightarrow> \<forall>a \<in> set as. action_args a \<noteq> None \<Longrightarrow> closing ac \<Longrightarrow>
    \<exists>ac'. run_actions u w as ac = Inr ac' \<and> flagged ac ac'"
proof (induction as arbitrary: ac)
  case Nil
  then show ?case by (simp add: flagged_refl)
next
  case (Cons a as)
  have "\<exists>ac1. run_action u w a ac = Inr ac1 \<and> flagged ac ac1"
  proof (cases "is_command a")
    case True
    then show ?thesis
      using Cons.prems action_command [OF Cons.prems(1) True] command_closing [OF Cons.prems(3)] flagged_refl by auto
  next
    case False
    then show ?thesis using flagged_set by (auto simp: is_command_def run_action_def)
  qed
  then obtain ac1 where ac1: "run_action u w a ac = Inr ac1" "flagged ac ac1" by blast
  with Cons.IH [of ac1] Cons.prems flagged_closing [OF ac1(2)] obtain ac2 where
    "run_actions u w as ac1 = Inr ac2" "flagged ac1 ac2" by auto
  with ac1 show ?case using flagged_trans by auto
qed

text \<open>A callback then only adds its call.\<close>

definition run_of :: "redisCallback \<Rightarrow> reply option \<Rightarrow> call list" where
  "run_of cb x = (case cb_fn cb of None \<Rightarrow> [] | Some fn \<Rightarrow> [RunCallback fn (cb_privdata cb) x])"

definition add_calls :: "call list \<Rightarrow> redisAsyncContext \<Rightarrow> redisAsyncContext" where
  "add_calls xs ac = ac\<lparr>ac_calls := ac_calls ac @ xs\<rparr>"

lemma add_calls_simps [simp]:
  "add_calls [] ac = ac" "add_calls ys (add_calls xs ac) = add_calls (xs @ ys) ac"
  "ac_c (add_calls xs ac) = ac_c ac" "ac_replies (add_calls xs ac) = ac_replies ac"
  "ac_invalid (add_calls xs ac) = ac_invalid ac" "ac_channels (add_calls xs ac) = ac_channels ac"
  "ac_patterns (add_calls xs ac) = ac_patterns ac" "ac_calls (add_calls xs ac) = ac_calls ac @ xs"
  by (simp_all add: add_calls_def)

lemma run_callback_closing:
  assumes u: "user_ok u" and w: "memory_ok w" and c: "closing ac" "\<not> bit (ac_flags ac) 4"
  shows "\<exists>ac'. redisRunCallback u w ac cb x = Inr ac' \<and> flagged (add_calls (run_of cb x) ac) ac'"
proof (cases "cb_fn cb")
  case None
  then show ?thesis by (simp add: redisRunCallback_def run_of_def flagged_refl)
next
  case (Some fn)
  let ?ac1 = "called (RunCallback fn (cb_privdata cb) x) (set_flag REDIS_IN_CALLBACK ac)"
  have c1: "closing ?ac1" using c(1) by (auto simp: called_def set_flag_def set_bits)
  have "\<forall>a \<in> set (u_does u (ac_calls ac) fn (cb_privdata cb) x). action_args a \<noteq> None" using u by (simp add: user_ok_def)
  from actions_closing [OF w this c1] obtain ac2 where
    ac2: "run_actions u w (u_does u (ac_calls ac) fn (cb_privdata cb) x) ?ac1 = Inr ac2" "flagged ?ac1 ac2" by blast
  from ac2(2) obtain fl where fl: "ac2 = ?ac1\<lparr>ac_c := (ac_c ?ac1)\<lparr>c_flags := fl\<rparr>\<rparr>"
    "\<forall>k. bit (ac_flags ?ac1) k \<longrightarrow> bit fl k" "\<forall>k. k \<noteq> 2 \<and> k \<noteq> 3 \<longrightarrow> bit fl k = bit (ac_flags ?ac1) k"
    by (auto simp: flagged_def)
  have f1: "ac_flags ?ac1 = ac_flags ac OR REDIS_IN_CALLBACK" by (simp add: called_def set_flag_def)
  have "flagged (add_calls (run_of cb x) ac) (clear_flag REDIS_IN_CALLBACK ac2)"
    unfolding flagged_def
  proof (intro exI [of _ "fl AND NOT REDIS_IN_CALLBACK"] conjI)
    show "clear_flag REDIS_IN_CALLBACK ac2
        = add_calls (run_of cb x) ac\<lparr>ac_c := ac_c (add_calls (run_of cb x) ac)\<lparr>c_flags := fl AND NOT REDIS_IN_CALLBACK\<rparr>\<rparr>"
      using Some by (simp add: fl(1) clear_flag_def called_def set_flag_def run_of_def add_calls_def)
    show "\<forall>k. bit (ac_flags (add_calls (run_of cb x) ac)) k \<longrightarrow> bit (fl AND NOT REDIS_IN_CALLBACK) k"
      using fl(2) c(2) unfolding f1 by (auto simp: set_bits clear_bits)
    show "\<forall>k. k \<noteq> 2 \<and> k \<noteq> 3 \<longrightarrow> bit (fl AND NOT REDIS_IN_CALLBACK) k = bit (ac_flags (add_calls (run_of cb x) ac)) k"
      using fl(3) c(2) unfolding f1 by (auto simp: set_bits clear_bits)
  qed
  with ac2(1) Some show ?thesis by (simp add: redisRunCallback_def Let_def)
qed

section \<open>Freeing a context\<close>

lemma list_holds_fresh: "list_holds l xs \<Longrightarrow> length xs \<le> l_fresh l"
proof -
  assume "list_holds l xs"
  then obtain ps where ps: "chain (l_cells l) (l_head l) ps xs" "distinct ps" "\<forall>p \<in> set ps. p < l_fresh l"
    by (auto simp: list_holds_def)
  have "card (set ps) \<le> card {..<l_fresh l}" using ps(3) by (intro card_mono) auto
  with ps chain_length [OF ps(1)] show ?thesis by (simp add: distinct_card)
qed

text \<open>Up to its flags, the context after the calls \<open>xs\<close>, with one of its lists changed by \<open>f\<close>.\<close>

definition ran :: "call list \<Rightarrow> redisAsyncContext \<Rightarrow> redisAsyncContext \<Rightarrow> bool" where
  "ran xs ac ac' \<longleftrightarrow> flagged (add_calls xs ac) ac'"

lemma ran_trans: "ran xs a b \<Longrightarrow> ran ys b c \<Longrightarrow> ran (xs @ ys) a c"
  by (auto simp: ran_def flagged_def add_calls_def)

lemma ran_refl: "ran [] ac ac"
  by (simp add: ran_def flagged_refl)

lemma ran_closing:
  "ran xs a b \<Longrightarrow> closing a \<Longrightarrow> closing b"
  "ran xs a b \<Longrightarrow> bit (ac_flags b) 4 = bit (ac_flags a) 4"
  by (auto simp: ran_def flagged_def add_calls_def)

lemma ran_fields:
  "ran xs a b \<Longrightarrow> ac_replies b = ac_replies a" "ran xs a b \<Longrightarrow> ac_invalid b = ac_invalid a"
  "ran xs a b \<Longrightarrow> ac_channels b = ac_channels a" "ran xs a b \<Longrightarrow> ac_patterns b = ac_patterns a"
  "ran xs a b \<Longrightarrow> ac_calls b = ac_calls a @ xs" "ran xs a b \<Longrightarrow> c_fd (ac_c b) = c_fd (ac_c a)"
  "ran xs a b \<Longrightarrow> ac_ev b = ac_ev a" "ran xs a b \<Longrightarrow> ac_onDisconnect b = ac_onDisconnect a"
  "ran xs a b \<Longrightarrow> ac_err b = ac_err a"
  by (auto simp: ran_def flagged_def add_calls_def)

lemma ran_flags: "ran xs a b \<Longrightarrow> bit (ac_flags a) k \<Longrightarrow> bit (ac_flags b) k"
  "ran xs a b \<Longrightarrow> bit (ac_flags b) 1 = bit (ac_flags a) 1"
  by (auto simp: ran_def flagged_def add_calls_def)

lemma run_callback_ran:
  assumes "user_ok u" "memory_ok w" "closing ac" "\<not> bit (ac_flags ac) 4"
  shows "\<exists>ac'. redisRunCallback u w ac cb x = Inr ac' \<and> ran (run_of cb x) ac ac'"
  using run_callback_closing [OF assms] by (simp add: ran_def)

abbreviation run_all :: "redisCallback list \<Rightarrow> call list" where
  "run_all cbs \<equiv> concat (map (\<lambda>cb. run_of cb None) cbs)"

text \<open>The lists of a context are fields that callbacks of a closing context leave alone.\<close>

definition list_field ::
  "(redisAsyncContext \<Rightarrow> redisCallbackList) \<Rightarrow> (redisCallbackList \<Rightarrow> redisAsyncContext \<Rightarrow> redisAsyncContext) \<Rightarrow> bool" where
  "list_field get put \<longleftrightarrow> (\<forall>l a. get (put l a) = l \<and> ac_flags (put l a) = ac_flags a \<and> put (get a) a = a)
     \<and> (\<forall>l1 l2 a. put l2 (put l1 a) = put l2 a)
     \<and> (\<forall>xs a b. ran xs a b \<longrightarrow> get b = get a \<and> (\<forall>l. ran xs (put l a) (put l b)))"

lemma list_fields: "list_field ac_replies put_replies" "list_field ac_invalid put_invalid"
proof -
  have "ran xs (put_replies l a) (put_replies l b)" "ran xs (put_invalid l a) (put_invalid l b)" if "ran xs a b" for xs l a b
    using that unfolding ran_def flagged_def add_calls_def put_replies_def put_invalid_def
    by (elim exE conjE, intro exI conjI; simp)+
  then show "list_field ac_replies put_replies" "list_field ac_invalid put_invalid"
    unfolding list_field_def using ran_fields by (auto simp: put_replies_def put_invalid_def)
qed

lemma drain_list_ok:
  assumes u: "user_ok u" and w: "memory_ok w" and f: "list_field get put"
  shows "closing ac \<Longrightarrow> \<not> bit (ac_flags ac) 4 \<Longrightarrow> list_holds (get ac) (map Some cbs) \<Longrightarrow> length cbs < n \<Longrightarrow>
    \<exists>ac' l. drain_list n get put u w ac = Inr ac' \<and> ran (run_all cbs) (put l ac) ac'"
proof (induction cbs arbitrary: n ac)
  case Nil
  then have "redisShiftCallback (get ac) = Inr (get ac, None)" using cq.shift_empty by simp
  with Nil f show ?case by (cases n) (auto intro!: exI [of _ "get ac"] simp: ran_refl list_field_def)
next
  case (Cons cb cbs)
  obtain m where n: "n = Suc m" using Cons.prems(4) by (cases n) auto
  obtain l where l: "redisShiftCallback (get ac) = Inr (l, Some (Some cb))" "list_holds l (map Some cbs)"
    using cq.shift_front [of "get ac" "Some cb" "map Some cbs"] Cons.prems(3) by auto
  let ?ac = "put l ac"
  have fl: "ac_flags ?ac = ac_flags ac" "get ?ac = l" using f by (simp_all add: list_field_def)
  obtain ac1 where ac1: "redisRunCallback u w ?ac cb None = Inr ac1" "ran (run_of cb None) ?ac ac1"
    using run_callback_ran [OF u w, of ?ac cb None] Cons.prems(1,2) fl(1) by auto
  have "closing ac1" "\<not> bit (ac_flags ac1) 4" "list_holds (get ac1) (map Some cbs)"
    using ran_closing [OF ac1(2)] f ac1(2) Cons.prems(1,2) l(2) fl by (auto simp: list_field_def)
  from Cons.IH [OF this, of m] Cons.prems(4) n obtain ac2 l2 where
    ac2: "drain_list m get put u w ac1 = Inr ac2" "ran (run_all cbs) (put l2 ac1) ac2" by auto
  have "ran (run_of cb None) (put l2 ?ac) (put l2 ac1)" using f ac1(2) unfolding list_field_def by blast
  then have "ran (run_of cb None) (put l2 ac) (put l2 ac1)" using f by (simp add: list_field_def)
  from ran_trans [OF this ac2(2)] show ?case
    using l(1) ac1(1) ac2(1) by (auto simp: n the_callback_def)
qed

text \<open>The callbacks of a dictionary, in the order of its table.\<close>

definition callbacks_in :: "callbacks \<Rightarrow> redisCallback list" where
  "callbacks_in d = map de_val (dents d)"

lemma drain_dict_ok:
  assumes u: "user_ok u" and w: "memory_ok w" and d: "dict_inv d" and t: "t = (case d_table d of None \<Rightarrow> [] | Some t \<Rightarrow> t)"
    and sub: "\<forall>xs a b. ran xs a b \<longrightarrow> sub b = sub a"
  shows "closing ac \<Longrightarrow> \<not> bit (ac_flags ac) 4 \<Longrightarrow> sub ac = d \<Longrightarrow> length (to_come t it) < n \<Longrightarrow>
    -1 \<le> it_index it \<Longrightarrow> it_index it < int (length t) \<Longrightarrow>
    \<exists>ac'. drain_dict n sub u w ac it = Inr ac' \<and> ran (run_all (map de_val (to_come t it))) ac ac'"
proof (induction n arbitrary: ac it)
  case (Suc n)
  from next_ok [OF d t Suc.prems(5,6)] obtain it' where
    it': "dictNext d it = Inr (it', case to_come t it of [] \<Rightarrow> None | e # _ \<Rightarrow> Some e)" "-1 \<le> it_index it'"
    "to_come t it \<noteq> [] \<longrightarrow> to_come t it' = tl (to_come t it) \<and> it_index it' < int (length t)" by blast
  show ?case
  proof (cases "to_come t it")
    case Nil
    with it'(1) Suc.prems(3) show ?thesis by (auto simp: ran_refl)
  next
    case (Cons e es)
    obtain ac1 where ac1: "redisRunCallback u w ac (de_val e) None = Inr ac1" "ran (run_of (de_val e) None) ac ac1"
      using run_callback_ran [OF u w Suc.prems(1,2)] by blast
    have "closing ac1" "\<not> bit (ac_flags ac1) 4" "sub ac1 = d"
      using ran_closing [OF ac1(2)] Suc.prems(1-3) sub [rule_format, OF ac1(2)] by auto
    from Suc.IH [OF this, of it'] it'(2,3) Cons Suc.prems(4) obtain ac2 where
      ac2: "drain_dict n sub u w ac1 it' = Inr ac2" "ran (run_all (map de_val es)) ac1 ac2" by auto
    from ran_trans [OF ac1(2) ac2(2)] show ?thesis
      using it'(1) Suc.prems(3) Cons ac1(1) ac2(1) by auto
  qed
qed simp

lemma drain_sub_ok:
  assumes u: "user_ok u" and w: "memory_ok w" and c: "closing ac" "\<not> bit (ac_flags ac) 4" and d: "dict_inv (sub ac)"
    and sub: "\<forall>xs a b. ran xs a b \<longrightarrow> sub b = sub a"
  shows "\<exists>ac'. drain_sub sub u w ac = Inr ac' \<and> ran (run_all (callbacks_in (sub ac))) ac ac'"
proof -
  define t where "t = (case d_table (sub ac) of None \<Rightarrow> [] | Some t \<Rightarrow> t)"
  let ?it = "\<lparr>it_index = -1, it_rest = []\<rparr> :: (sds, redisCallback) dictIterator"
  have tc: "to_come t ?it = dents (sub ac)" by (simp add: to_come_def dents_def t_def)
  have l: "unat (d_used (sub ac)) = length (dents (sub ac))" using d by (simp add: dict_inv_def)
  from drain_dict_ok [where sub = sub and it = ?it and n = "Suc (unat (d_used (sub ac)))", OF u w d t_def sub c refl] tc l obtain ac1 where
    ac1: "drain_dict (Suc (unat (d_used (sub ac)))) sub u w ac ?it = Inr ac1"
    "ran (run_all (callbacks_in (sub ac))) ac ac1" by (auto simp: callbacks_in_def)
  have "dictGetIterator (mem_cell w) = Inr ?it" using memory_facts(1) [OF w] by (simp add: dictGetIterator_def)
  moreover have "\<exists>fs. dictRelease (sub ac1) = Inr fs"
    using clear_ok [of "sub ac1"] d sub [rule_format, OF ac1(2)] by (simp add: dictRelease_def)
  ultimately show ?thesis using ac1 by (auto simp: drain_sub_def)
qed

text \<open>Every name that has a callback is in the dictionary once.\<close>

lemma callbacks_in_names:
  assumes "dict_ok d"
  shows "\<exists>names. distinct names \<and> (\<forall>name. callback_of d name \<noteq> None \<longleftrightarrow> name \<in> set names)
    \<and> map Some (callbacks_in d) = map (callback_of d) names"
proof -
  let ?names = "map (\<lambda>e. sds_str (de_key e)) (dents d)"
  have d: "dict_inv d" "d_type d = callbackDict" "\<forall>e \<in> set (dents d). sds_inv (de_key e)"
    using assms by (simp_all add: dict_ok_def)
  have one: "one_per_class callbackKeyCompare de_key (dents d)" using dict_one [OF d(1)] d(2) by simp
  have eqv: "equivp callbackKeyCompare" using dict_equivp [OF d(1)] d(2) by simp
  have look: "callback_of d name = map_option de_val (first_match callbackKeyCompare de_key (dents d) (name_key name))" for name
    using d(2) by (simp add: callback_of_def dict_lookup_entry d(1))
  have main: "distinct (map (\<lambda>e. sds_str (de_key e)) es) \<and>
      (\<forall>name. first_match callbackKeyCompare de_key es (name_key name) \<noteq> None \<longleftrightarrow> name \<in> set (map (\<lambda>e. sds_str (de_key e)) es)) \<and>
      map (\<lambda>e. first_match callbackKeyCompare de_key es (name_key (sds_str (de_key e)))) es = map Some es"
    if "one_per_class callbackKeyCompare de_key es" "\<forall>e \<in> set es. sds_inv (de_key e)" for es
    using that
  proof (induction es)
    case (Cons e es)
    then have o: "one_per_class callbackKeyCompare de_key es" "first_match callbackKeyCompare de_key es (de_key e) = None"
      by (auto simp: one_per_class_Cons [OF eqv])
    have i: "sds_inv (de_key e)" using Cons.prems(2) by simp
    have "first_match callbackKeyCompare de_key es (name_key (sds_str (de_key e))) = None"
      using o(2) first_match_class [OF eqv, of "name_key (sds_str (de_key e))" "de_key e" de_key es] i by simp
    with Cons.IH [OF o(1)] Cons.prems(2) i have IH: "distinct (map (\<lambda>e. sds_str (de_key e)) es)"
      "\<forall>name. first_match callbackKeyCompare de_key es (name_key name) \<noteq> None \<longleftrightarrow> name \<in> set (map (\<lambda>e. sds_str (de_key e)) es)"
      "map (\<lambda>e. first_match callbackKeyCompare de_key es (name_key (sds_str (de_key e)))) es = map Some es"
      "sds_str (de_key e) \<notin> set (map (\<lambda>e. sds_str (de_key e)) es)" by auto
    then have "map (\<lambda>e'. first_match callbackKeyCompare de_key (e # es) (name_key (sds_str (de_key e')))) es = map Some es"
      using i by (auto intro!: map_cong simp: map_eq_conv image_iff)
    with IH i show ?case by auto
  qed (auto simp: one_per_class_Nil)
  from main [OF one d(3)] show ?thesis
    by (intro exI [of _ ?names]) (auto simp: look callbacks_in_def map_eq_conv)
qed

text \<open>What the destruction of a context calls: every pending callback, every subscription, the clean-up hook and
  the disconnect callback, if there are any. The status is an error only if there is one and the user did not free.\<close>

definition farewell :: "redisAsyncContext \<Rightarrow> redisCallback list \<Rightarrow> redisCallback list \<Rightarrow> bool \<Rightarrow> call list" where
  "farewell ac rs is ok =
     run_all (rs @ is @ callbacks_in (ac_channels ac) @ callbacks_in (ac_patterns ac))
     @ (if ac_ev ac Cleanup then [CallHook Cleanup] else [])
     @ (case ac_onDisconnect ac of Some fn \<Rightarrow> if has_flag ac REDIS_CONNECTED then [OnDisconnect fn ok] else [] | None \<Rightarrow> [])"

definition closed_socket :: "redisAsyncContext \<Rightarrow> world \<Rightarrow> world" where
  "closed_socket ac w = (if 0 < c_fd (ac_c ac) then sys (SysClose (c_fd (ac_c ac))) w else w)"

lemma free_ok:
  assumes u: "user_ok u" and w: "memory_ok w" and c: "closing ac" "\<not> bit (ac_flags ac) 4"
    and q: "list_holds (ac_replies ac) (map Some rs)" "list_holds (ac_invalid ac) (map Some is)"
    and d: "dict_ok (ac_channels ac)" "dict_ok (ac_patterns ac)"
  shows "\<exists>ac' ok. redisAsyncFree_now u ac w = Inr (ac', closed_socket ac w) \<and> ac_freed ac'
    \<and> ac_calls ac' = ac_calls ac @ farewell ac rs is ok
    \<and> (bit (ac_flags ac) 3 \<or> ac_err ac = 0 \<longrightarrow> ok)"
proof -
  have "length rs < Suc (l_fresh (ac_replies ac))" using list_holds_fresh [OF q(1)] by simp
  from drain_list_ok [OF u w list_fields(1) c q(1) this] obtain ac1 l1 where
    ac1: "drain_list (Suc (l_fresh (ac_replies ac))) ac_replies put_replies u w ac = Inr ac1"
    "ran (run_all rs) (put_replies l1 ac) ac1" by blast
  note f1 = ran_fields [OF ac1(2), unfolded put_replies_def, simplified]
  have c1: "closing ac1" "\<not> bit (ac_flags ac1) 4"
    using ran_closing [OF ac1(2)] c by (auto simp: put_replies_def)
  have q1: "list_holds (ac_invalid ac1) (map Some is)" using q(2) f1 by simp
  then have "length is < Suc (l_fresh (ac_invalid ac1))" using list_holds_fresh by fastforce
  from drain_list_ok [OF u w list_fields(2) c1 q1 this] obtain ac2 l2 where
    ac2: "drain_list (Suc (l_fresh (ac_invalid ac1))) ac_invalid put_invalid u w ac1 = Inr ac2"
    "ran (run_all is) (put_invalid l2 ac1) ac2" by blast
  note f2 = ran_fields [OF ac2(2), unfolded put_invalid_def, simplified]
  have c2: "closing ac2" "\<not> bit (ac_flags ac2) 4"
    using ran_closing [OF ac2(2)] c1 by (auto simp: put_invalid_def)
  have d2: "dict_inv (ac_channels ac2)" "dict_inv (ac_patterns ac2)" using d f1 f2 by (simp_all add: dict_ok_def)
  obtain ac3 where ac3: "drain_sub ac_channels u w ac2 = Inr ac3" "ran (run_all (callbacks_in (ac_channels ac2))) ac2 ac3"
    using drain_sub_ok [where sub = ac_channels, OF u w c2 d2(1)] ran_fields(3) by blast
  note f3 = ran_fields [OF ac3(2)]
  have c3: "closing ac3" "\<not> bit (ac_flags ac3) 4" using ran_closing [OF ac3(2)] c2 by auto
  have d3: "dict_inv (ac_patterns ac3)" using d2(2) f3 by simp
  obtain ac4 where ac4: "drain_sub ac_patterns u w ac3 = Inr ac4" "ran (run_all (callbacks_in (ac_patterns ac3))) ac3 ac4"
    using drain_sub_ok [where sub = ac_patterns, OF u w c3 d3] ran_fields(4) by blast
  note f4 = ran_fields [OF ac4(2)]
  have conn: "bit (ac_flags ac4) 1 = bit (ac_flags ac) 1"
    using ran_flags(2) [OF ac1(2)] ran_flags(2) [OF ac2(2)] ran_flags(2) [OF ac3(2)] ran_flags(2) [OF ac4(2)]
    by (simp add: put_replies_def put_invalid_def)
  have fr: "bit (ac_flags ac) 3 \<Longrightarrow> bit (ac_flags ac4) 3"
    using ran_flags(1) [OF ac1(2), of 3] ran_flags(1) [OF ac2(2), of 3] ran_flags(1) [OF ac3(2), of 3]
      ran_flags(1) [OF ac4(2), of 3] by (simp add: put_replies_def put_invalid_def)
  let ?ac5 = "run_disconnect (run_hook Cleanup ac4)"
  let ?ok = "bit (ac_flags ac4) 3 \<or> ac_err ac4 = 0"
  have fd: "c_fd (ac_c ?ac5) = c_fd (ac_c ac)"
    using f1 f2 f3 f4 by (simp add: run_disconnect_def run_hook_def called_def split: option.split)
  have "redisAsyncFree_now u ac w = Inr (?ac5\<lparr>ac_freed := True\<rparr>, closed_socket ac w)"
    unfolding redisAsyncFree_now_def ac1(1) ac2(1) ac3(1) ac4(1) bind_res.simps Let_def redisFree_def fd
    by (simp add: closed_socket_def)
  moreover have "ac_calls (?ac5\<lparr>ac_freed := True\<rparr>) = ac_calls ac @ farewell ac rs is ?ok"
    using f1 f2 f3 f4 conn
    by (auto simp: farewell_def run_disconnect_def run_hook_def called_def flag_bits split: option.split)
  ultimately show ?thesis using fr f1 f2 f3 f4 by (intro exI [of _ "?ac5\<lparr>ac_freed := True\<rparr>"] exI [of _ ?ok]) simp
qed

text \<open>In a callback only the flags are set.\<close>

lemma free_in_callback: "has_flag ac REDIS_IN_CALLBACK \<Longrightarrow> redisAsyncFree u ac w = Inr (set_flag REDIS_FREEING ac, w)"
  by (simp add: redisAsyncFree_def flag_bits set_bits Let_def)

lemma disconnect_in_callback:
  "has_flag ac REDIS_IN_CALLBACK \<Longrightarrow> redisAsyncDisconnect u ac w = Inr (set_flag REDIS_DISCONNECTING ac, w)"
  by (simp add: redisAsyncDisconnect_def flag_bits set_bits Let_def)

end
