(* ===== verification/Async_Client.thy ===== *)
theory Async_Client
  imports Async_Close
begin

text \<open>
  The abstract client: what a context means. Commands implement its commands, and callbacks that send commands
  its callbacks.
\<close>

section \<open>The abstract client\<close>

text \<open>
  What a context means: its flags, the bytes that wait to be sent, the queues of pending callbacks, the
  callbacks of channels and patterns by name, and the calls made so far.
\<close>

record client =
  cl_flags :: u32
  cl_unsent :: string
  cl_replies :: "redisCallback option list"
  cl_invalid :: "redisCallback option list"
  cl_channels :: "string \<Rightarrow> redisCallback option"
  cl_patterns :: "string \<Rightarrow> redisCallback option"
  cl_ev :: "hook \<Rightarrow> bool"
  cl_calls :: "call list"

definition represents :: "redisAsyncContext \<Rightarrow> client \<Rightarrow> bool" where
  "represents ac s \<longleftrightarrow> ctx_inv (ac_c ac) \<and> \<not> bit (cl_flags s) 0 \<and> \<not> ac_freed ac
     \<and> ac_flags ac = cl_flags s \<and> unsent (ac_c ac) = cl_unsent s
     \<and> list_holds (ac_replies ac) (cl_replies s) \<and> list_holds (ac_invalid ac) (cl_invalid s)
     \<and> dict_ok (ac_channels ac) \<and> callback_of (ac_channels ac) = cl_channels s
     \<and> dict_ok (ac_patterns ac) \<and> callback_of (ac_patterns ac) = cl_patterns s
     \<and> ac_ev ac = cl_ev s \<and> ac_calls ac = cl_calls s"

definition cl_hook :: "hook \<Rightarrow> client \<Rightarrow> client" where
  "cl_hook h s = (if cl_ev s h then s\<lparr>cl_calls := cl_calls s @ [CallHook h]\<rparr> else s)"

definition cl_send :: "string list \<Rightarrow> client \<Rightarrow> client" where
  "cl_send args s = cl_hook AddWrite (s\<lparr>cl_unsent := cl_unsent s @ encode (command_reply args)\<rparr>)"

definition cl_subscribe :: "bool \<Rightarrow> string list \<Rightarrow> redisCallback \<Rightarrow> client \<Rightarrow> client" where
  "cl_subscribe pvariant names cb s =
     (if pvariant then s\<lparr>cl_patterns := \<lambda>name. if name \<in> set names then Some cb else cl_patterns s name\<rparr>
      else s\<lparr>cl_channels := \<lambda>name. if name \<in> set names then Some cb else cl_channels s name\<rparr>)"

text \<open>
  A command is refused when the context is being closed, and an unsubscription without a subscription.
  Otherwise it is queued to be sent, and its callback goes where its replies are looked for.
\<close>

definition cl_register :: "string list \<Rightarrow> redisCallback \<Rightarrow> client \<Rightarrow> client option" where
  "cl_register args cb s =
     (case kind_of args of
        Subscribe \<Rightarrow> Some (cl_subscribe (is_pvariant args) (tl args) cb (s\<lparr>cl_flags := cl_flags s OR REDIS_SUBSCRIBED\<rparr>))
      | Unsubscribe \<Rightarrow> if bit (cl_flags s) 5 then Some s else None
      | Monitor \<Rightarrow> Some (s\<lparr>cl_flags := cl_flags s OR REDIS_MONITORING, cl_replies := cl_replies s @ [Some cb]\<rparr>)
      | Plain \<Rightarrow> if bit (cl_flags s) 5 then Some (s\<lparr>cl_invalid := cl_invalid s @ [Some cb]\<rparr>)
                 else Some (s\<lparr>cl_replies := cl_replies s @ [Some cb]\<rparr>))"

definition cl_command :: "string list \<Rightarrow> redisCallback \<Rightarrow> client \<Rightarrow> client \<times> bool" where
  "cl_command args cb s =
     (if bit (cl_flags s) 2 \<or> bit (cl_flags s) 3 then (s, False)
      else case cl_register args cb s of None \<Rightarrow> (s, False) | Some s1 \<Rightarrow> (cl_send args s1, True))"

text \<open>The arguments of a command that \<open>nextArgument\<close> can walk, and room for the names of a subscription.\<close>

definition args_ok :: "string list \<Rightarrow> bool" where
  "args_ok args \<longleftrightarrow> args \<noteq> [] \<and> (\<forall>a \<in> set args. length a < 2 ^ 31)"

definition room_for :: "string list \<Rightarrow> redisAsyncContext \<Rightarrow> bool" where
  "room_for args ac \<longleftrightarrow> (kind_of args = Subscribe \<longrightarrow>
     dict_num (if is_pvariant args then ac_patterns ac else ac_channels ac) + length args \<le> 2 ^ 31)"

section \<open>Commands implement the abstract ones\<close>

lemma representsD:
  assumes "represents ac s"
  shows "ctx_inv (ac_c ac)" "ac_flags ac = cl_flags s" "unsent (ac_c ac) = cl_unsent s"
    "list_holds (ac_replies ac) (cl_replies s)" "list_holds (ac_invalid ac) (cl_invalid s)"
    "dict_ok (ac_channels ac)" "dict_ok (ac_patterns ac)" "callback_of (ac_channels ac) = cl_channels s"
    "callback_of (ac_patterns ac) = cl_patterns s" "ac_ev ac = cl_ev s" "ac_calls ac = cl_calls s"
  using assms by (simp_all add: represents_def)

lemma ctx_inv_flags [simp]: "ctx_inv (c\<lparr>c_flags := f\<rparr>) = ctx_inv c" "unsent (c\<lparr>c_flags := f\<rparr>) = unsent c"
  by (simp_all add: ctx_inv_def unsent_def)

lemma represents_hook: "represents ac s \<Longrightarrow> represents (run_hook h ac) (cl_hook h s)"
  by (auto simp: represents_def run_hook_def cl_hook_def called_def)

lemma represents_set_flag:
  "represents ac s \<Longrightarrow> f \<in> {REDIS_DISCONNECTING, REDIS_FREEING, REDIS_IN_CALLBACK, REDIS_SUBSCRIBED, REDIS_MONITORING} \<Longrightarrow>
    represents (set_flag f ac) (s\<lparr>cl_flags := cl_flags s OR f\<rparr>)"
  by (auto simp: represents_def set_flag_def set_bits)

lemma push_represents:
  assumes "represents ac s" "mem_cell w"
  shows "\<exists>l. redisPushCallback (mem_cell w) (ac_replies ac) x = Inr l
      \<and> represents (ac\<lparr>ac_replies := l\<rparr>) (s\<lparr>cl_replies := cl_replies s @ [x]\<rparr>)"
    and "\<exists>l. redisPushCallback (mem_cell w) (ac_invalid ac) x = Inr l
      \<and> represents (ac\<lparr>ac_invalid := l\<rparr>) (s\<lparr>cl_invalid := cl_invalid s @ [x]\<rparr>)"
  using cq.push_law [of "ac_replies ac" "cl_replies s" x] cq.push_law [of "ac_invalid ac" "cl_invalid s" x] assms
  by (auto simp: represents_def)

lemma append_cmd_total:
  assumes inv: "ctx_inv c" and w: "memory_ok w"
  shows "\<exists>c'. redisAppendCmd c w (x @ [NUL]) (length x) = Inr (c', True) \<and> appended c x (c', True)"
proof -
  have al: "good_alloc (w_alloc w (w_now w))" "al_total (w_alloc w (w_now w))" using memory_facts [OF w] by simp_all
  obtain s where s: "c_obuf c = Some s" "sds_inv s" using inv by (auto simp: ctx_inv_def)
  obtain c' ok where a: "redisAppendCmd c w (x @ [NUL]) (length x) = Inr (c', ok)" "appended c x (c', ok)"
    using append_ok [OF inv memory_kernel [OF w], of "length x" "x @ [NUL]"] by (auto simp: appended_def)
  have ok
    using a(1) s(1) catlen_total [OF al(2,1) s(2), of "length x" "x @ [NUL]"]
    by (auto simp: redisAppendCmd_def with_obuf_def redisSetError_def split: option.splits)
  with a show ?thesis by auto
qed

lemma bulks_length: "length args \<le> length (concat (map bulk args))"
proof (induction args)
  case (Cons a args)
  moreover have "1 \<le> length (bulk a)" by (simp add: bulk_def)
  ultimately show ?case unfolding list.map concat.simps length_append list.size by linarith
qed simp

text \<open>The start of every command: its name and whether there is more.\<close>

lemma command_start:
  assumes "args_ok args"
  shows "\<exists>p t len post. nextArgument (command_bytes args @ [NUL]) 0 = Inr (Some (p, t, len))
    \<and> drop t (command_bytes args @ [NUL]) = hd args @ CRLF @ post
    \<and> char_at (command_bytes args @ [NUL]) t = Inr (hd (hd args @ [CR]))
    \<and> (\<exists>pre. command_bytes args @ [NUL] = pre @ concat (map bulk (tl args)) @ [NUL] \<and> p = length pre)
    \<and> (\<exists>c. char_at (command_bytes args @ [NUL]) p = Inr c \<and> (c = CHR ''$'') = (tl args \<noteq> []))"
proof -
  obtain a as where as: "args = a # as" using assms by (cases args) (auto simp: args_ok_def)
  have a: "length a < 2 ^ 31" using assms as by (simp add: args_ok_def)
  let ?cmd = "command_bytes args @ [NUL]" and ?post = "concat (map bulk as) @ [NUL]"
  let ?pre = "header args @ bulk a" and ?t = "length (header args) + length (dec (length a)) + 3"
  have cmd: "?cmd = header args @ bulk a @ ?post" by (simp add: command_bytes_def as)
  have n: "nextArgument ?cmd 0 = Inr (Some (length ?pre, ?t, word_of_nat (length a)))"
    using next_argument_first [OF a, of as] by (simp only: as)
  have d: "drop ?t ?cmd = a @ CRLF @ ?post" unfolding cmd by (rule drop_text)
  have "?t < length ?cmd"
    using d by (metis drop_eq_Nil2 append_is_Nil_conv list.distinct(1) not_le_imp_less)
  then have t: "char_at ?cmd ?t = Inr (hd (a @ [CR]))"
    using hd_drop_conv_nth [of ?t ?cmd] d by (cases a) (simp_all add: char_at_def)
  have pre: "?cmd = ?pre @ concat (map bulk (tl args)) @ [NUL]" unfolding cmd by (simp add: as)
  have "\<exists>c. char_at ?cmd (length ?pre) = Inr c \<and> (c = CHR ''$'') = (tl args \<noteq> [])"
    unfolding pre by (cases as) (simp_all add: char_at_def as nth_append bulk_def)
  then obtain c where c: "char_at ?cmd (length ?pre) = Inr c" "(c = CHR ''$'') = (tl args \<noteq> [])" by blast
  have h: "hd args = a" by (simp add: as)
  show ?thesis
    unfolding h by (intro exI conjI) (rule n d t pre refl c(1) c(2))+
qed

lemma name_tests:
  assumes "drop t cmd = hd args @ CRLF @ post" "LF \<notin> set lit"
  shows "strncaseeq cmd (t + (if is_pvariant args then 1 else 0)) (lit @ CRLF) = named lit args"
proof (cases "is_pvariant args")
  case True
  then obtain c s where cs: "hd args = c # s" by (cases "hd args") (auto simp: is_pvariant_def c_tolower_def schar_def)
  have "drop (t + 1) cmd = drop 1 (drop t cmd)" by simp
  then have "drop (t + 1) cmd = s @ CRLF @ post" using assms(1) cs by simp
  from name_compare [OF assms(2) this] True cs show ?thesis by (simp add: named_def)
next
  case False
  with name_compare [OF assms(2,1)] show ?thesis by (simp add: named_def)
qed

declare subscribe_loop.simps [simp del]

lemma register_ok:
  assumes r: "represents ac s" and w: "memory_ok w" and a: "args_ok args" "room_for args ac"
  shows "case cl_register args cb s of
      None \<Rightarrow> register_command w (command_bytes args @ [NUL]) cb ac = Inr None
    | Some s' \<Rightarrow> \<exists>ac'. register_command w (command_bytes args @ [NUL]) cb ac = Inr (Some ac') \<and> represents ac' s'
        \<and> c_reader (ac_c ac') = c_reader (ac_c ac) \<and> c_err (ac_c ac') = c_err (ac_c ac) \<and> c_fd (ac_c ac') = c_fd (ac_c ac)"
proof -
  let ?cmd = "command_bytes args @ [NUL]"
  obtain p t len post c pre where st: "nextArgument ?cmd 0 = Inr (Some (p, t, len))"
    "drop t ?cmd = hd args @ CRLF @ post" "char_at ?cmd t = Inr (hd (hd args @ [CR]))"
    "?cmd = pre @ concat (map bulk (tl args)) @ [NUL]" "p = length pre"
    "char_at ?cmd p = Inr c" "(c = CHR ''$'') = (tl args \<noteq> [])"
    using command_start [OF a(1)] by (elim exE conjE) (rule that)
  have nm: "strncaseeq ?cmd (t + (if is_pvariant args then 1 else 0)) (''subscribe'' @ CRLF) = named ''subscribe'' args"
    "strncaseeq ?cmd (t + (if is_pvariant args then 1 else 0)) (''unsubscribe'' @ CRLF) = named ''unsubscribe'' args"
    "strncaseeq ?cmd (t + (if is_pvariant args then 1 else 0)) (''monitor'' @ CRLF) = named ''monitor'' args"
    by (rule name_tests [OF st(2)]; simp)+
  note step = register_command_def st(1,3,6) bind_res.simps option.case prod.case Let_def
    is_pvariant_def [symmetric] nm st(7)
  have push: "mem_cell w" using memory_facts(1) [OF w] .
  show ?thesis
  proof (cases "kind_of args")
    case Subscribe
    then have k: "tl args \<noteq> [] \<and> named ''subscribe'' args" by (auto simp: kind_of_def split: if_splits)
    let ?ac1 = "set_flag REDIS_SUBSCRIBED ac"
    let ?d = "if is_pvariant args then ac_patterns ac else ac_channels ac"
    have rep1: "represents ?ac1 (s\<lparr>cl_flags := cl_flags s OR REDIS_SUBSCRIBED\<rparr>)"
      using represents_set_flag [OF r] by simp
    have len: "\<forall>x \<in> set (tl args). length x < 2 ^ 31"
      using a(1) by (cases args) (auto simp: args_ok_def)
    have cnt: "length (tl args) < Suc (length ?cmd)"
      using bulks_length [of "tl args"] unfolding st(4) by simp
    have dk: "dict_ok ?d" "dict_num ?d + length (tl args) \<le> 2 ^ 31"
      using representsD(6,7) [OF r] a(2) Subscribe by (auto simp: room_for_def)
    from subscribe_ok [OF len cnt dk(1) w dk(2), of pre cb] obtain d' where
      d': "subscribe_loop (Suc (length ?cmd)) w ?cmd p cb ?d = Inr d'" "dict_ok d'"
      "callback_of d' = (\<lambda>name. if name \<in> set (tl args) then Some cb else callback_of ?d name)"
      unfolding st(4,5) by blast
    show ?thesis
    proof (cases "is_pvariant args")
      case True
      with d'(1) have "register_command w ?cmd cb ac = Inr (Some (?ac1\<lparr>ac_patterns := d'\<rparr>))"
        unfolding step using k by simp
      with Subscribe True rep1 d' show ?thesis
        by (auto simp: cl_register_def cl_subscribe_def represents_def set_flag_def)
    next
      case False
      with d'(1) have "register_command w ?cmd cb ac = Inr (Some (?ac1\<lparr>ac_channels := d'\<rparr>))"
        unfolding step using k by simp
      with Subscribe False rep1 d' show ?thesis
        by (auto simp: cl_register_def cl_subscribe_def represents_def set_flag_def)
    qed
  next
    case Unsubscribe
    then have k: "(tl args \<noteq> [] \<and> named ''subscribe'' args) = False" "named ''unsubscribe'' args"
      by (auto simp: kind_of_def split: if_splits)
    have "register_command w ?cmd cb ac = (if has_flag ac REDIS_SUBSCRIBED then Inr (Some ac) else Inr None)"
      unfolding step k(1) if_False using k(2-) by simp
    with Unsubscribe r show ?thesis by (auto simp: cl_register_def flag_bits representsD(2) [OF r])
  next
    case Monitor
    then have k: "(tl args \<noteq> [] \<and> named ''subscribe'' args) = False" "\<not> named ''unsubscribe'' args" "named ''monitor'' args"
      by (auto simp: kind_of_def split: if_splits)
    let ?ac1 = "set_flag REDIS_MONITORING ac"
    have "represents ?ac1 (s\<lparr>cl_flags := cl_flags s OR REDIS_MONITORING\<rparr>)"
      using represents_set_flag [OF r] by simp
    from push_represents(1) [OF this push, of "Some cb"] obtain l where
      l: "redisPushCallback (mem_cell w) (ac_replies ?ac1) (Some cb) = Inr l"
      "represents (?ac1\<lparr>ac_replies := l\<rparr>) (s\<lparr>cl_flags := cl_flags s OR REDIS_MONITORING, cl_replies := cl_replies s @ [Some cb]\<rparr>)"
      by auto
    have "register_command w ?cmd cb ac = Inr (Some (?ac1\<lparr>ac_replies := l\<rparr>))"
      unfolding step k(1) if_False using k(2-) l(1) by simp
    with Monitor l(2) show ?thesis by (simp add: cl_register_def set_flag_def)
  next
    case Plain
    then have k: "(tl args \<noteq> [] \<and> named ''subscribe'' args) = False" "\<not> named ''unsubscribe'' args" "\<not> named ''monitor'' args"
      by (auto simp: kind_of_def split: if_splits)
    show ?thesis
    proof (cases "has_flag ac REDIS_SUBSCRIBED")
      case True
      from push_represents(2) [OF r push, of "Some cb"] obtain l where
        l: "redisPushCallback (mem_cell w) (ac_invalid ac) (Some cb) = Inr l"
        "represents (ac\<lparr>ac_invalid := l\<rparr>) (s\<lparr>cl_invalid := cl_invalid s @ [Some cb]\<rparr>)" by blast
      have "register_command w ?cmd cb ac = Inr (Some (ac\<lparr>ac_invalid := l\<rparr>))"
        unfolding step k(1) if_False using k(2-) l(1) True by simp
      with Plain True l(2) show ?thesis by (simp add: cl_register_def flag_bits representsD(2) [OF r])
    next
      case False
      from push_represents(1) [OF r push, of "Some cb"] obtain l where
        l: "redisPushCallback (mem_cell w) (ac_replies ac) (Some cb) = Inr l"
        "represents (ac\<lparr>ac_replies := l\<rparr>) (s\<lparr>cl_replies := cl_replies s @ [Some cb]\<rparr>)" by blast
      have "register_command w ?cmd cb ac = Inr (Some (ac\<lparr>ac_replies := l\<rparr>))"
        unfolding step k(1) if_False using k(2-) l(1) False by simp
      with Plain False l(2) show ?thesis by (simp add: cl_register_def flag_bits representsD(2) [OF r])
    qed
  qed
qed

lemma command_refines:
  assumes r: "represents ac s" and w: "memory_ok w" and a: "args_ok args" "room_for args ac"
  shows "\<exists>ac'. redisAsyncCmd ac w fn pd (command_bytes args @ [NUL]) (length (command_bytes args))
      = Inr (ac', snd (cl_command args \<lparr>cb_fn = fn, cb_privdata = pd\<rparr> s))
    \<and> represents ac' (fst (cl_command args \<lparr>cb_fn = fn, cb_privdata = pd\<rparr> s))
    \<and> c_reader (ac_c ac') = c_reader (ac_c ac) \<and> c_err (ac_c ac') = c_err (ac_c ac) \<and> c_fd (ac_c ac') = c_fd (ac_c ac)"
proof (cases "closing ac")
  case True
  with r command_closing [OF True] show ?thesis
    by (auto simp: cl_command_def representsD(2) [OF r, symmetric])
next
  case False
  let ?cb = "\<lparr>cb_fn = fn, cb_privdata = pd\<rparr>"
  note reg = register_ok [OF r w a, of ?cb]
  have nc: "\<not> has_flag ac (REDIS_DISCONNECTING OR REDIS_FREEING)" using False by (simp add: closing_bits)
  show ?thesis
  proof (cases "cl_register args ?cb s")
    case None
    with reg nc False r show ?thesis
      by (simp add: redisAsyncCmd_def cl_command_def representsD(2) [OF r, symmetric])
  next
    case (Some s1)
    with reg obtain ac1 where ac1: "register_command w (command_bytes args @ [NUL]) ?cb ac = Inr (Some ac1)"
      "represents ac1 s1" "c_reader (ac_c ac1) = c_reader (ac_c ac)" "c_err (ac_c ac1) = c_err (ac_c ac)"
      "c_fd (ac_c ac1) = c_fd (ac_c ac)" by auto
    from append_cmd_total [OF representsD(1) [OF ac1(2)] w, of "command_bytes args"] obtain c where
      c: "redisAppendCmd (ac_c ac1) w (command_bytes args @ [NUL]) (length (command_bytes args)) = Inr (c, True)"
      "appended (ac_c ac1) (command_bytes args) (c, True)" by blast
    have "represents (ac1\<lparr>ac_c := c\<rparr>) (s1\<lparr>cl_unsent := cl_unsent s1 @ encode (command_reply args)\<rparr>)"
      using ac1(2) c(2) by (auto simp: represents_def appended_def command_bytes_encode)
    from represents_hook [OF this, of AddWrite]
    have "represents (run_hook AddWrite (ac1\<lparr>ac_c := c\<rparr>)) (cl_send args s1)" by (simp add: cl_send_def)
    moreover have "ac_c (run_hook AddWrite (ac1\<lparr>ac_c := c\<rparr>)) = c" by (simp add: run_hook_def called_def)
    ultimately show ?thesis
      using nc False Some ac1 c
      by (simp add: redisAsyncCmd_def cl_command_def representsD(2) [OF r, symmetric] appended_def)
  qed
qed

section \<open>A reader that waits for a reply\<close>

text \<open>The reader between replies: nothing read yet of the next one. It may have been asked in vain before.\<close>

definition waiting :: "reader \<Rightarrow> bool" where
  "waiting r \<longleftrightarrow> reader_inv r \<and> r_err r = 0 \<and> ridx (start_root (r_tasks r)) = 0
     \<and> t_type (rstack (start_root (r_tasks r)) ! 0) = -1"

lemma waiting_closed: "reader_inv r \<Longrightarrow> r_err r = 0 \<Longrightarrow> ridx (r_tasks r) = -1 \<Longrightarrow> waiting r"
  by (auto simp: waiting_def start_root_def fresh_task_def reader_inv_def ts_ok_def)

lemma waiting_ready: "waiting r \<Longrightarrow> ready (start_root (r_tasks r))"
  using start_root_ok [of "r_tasks r"] by (auto simp: waiting_def ready_def vector_missing_def reader_inv_def)

lemma waiting_answer:
  assumes r: "waiting r" "unread r = encode x @ rest" and x: "wire_ok 8 x"
  shows "\<exists>r2. redisReaderGetReply (\<lambda>_. True) r = Inr (r2, Some x, True) \<and> unread r2 = rest \<and> waiting r2"
proof -
  have r1: "reader_inv r" "r_err r = 0" using r(1) by (simp_all add: waiting_def)
  let ?ts = "start_root (r_tasks r)"
  have ok: "ts_ok (r_tasks r)" using r1 by (simp add: reader_inv_def)
  have ts: "ridx ?ts = 0" using r(1) by (simp add: waiting_def)
  have ne: "encode x \<noteq> []" using x by (cases x) auto
  have "length (unread r) \<le> r_len r" using r1 by (auto simp: unread_def reader_inv_def rd_ok_def sds_str_length)
  with ne have len: "r_len r \<noteq> 0" unfolding r(2) by (cases "encode x") auto
  from reply_delivered [of ?ts x rest] waiting_ready [OF r(1)] x ts obtain ts' b where
    d: "parse (encode x @ rest) ?ts = parse rest ts'" "ts_ok ts'" "moveToNextTask (filled ?ts x) = Inr b" "sim ts' b"
    by (auto simp: delivered_def)
  have "b = (filled ?ts x)\<lparr>ridx := -1\<rparr>" using d(3) ts by (simp add: moveToNextTask.simps [of "filled ?ts x"])
  with d(4) ts have e: "ridx ts' = -1" "root ts' = Some x"
    by (auto simp: sim_def filled_def split: option.splits)
  have "parse rest ts' = Inr (Item rest ts')" using parse_unfold [OF d(2), of rest] e by simp
  with d(1) getreply_view [OF r1] len r(2)
  have "seen (redisReaderGetReply (\<lambda>_. True) r) = Inr (answer (r_errstr r) (Item rest ts'))" by simp
  then obtain r2 where g: "redisReaderGetReply (\<lambda>_. True) r = Inr (r2, Some x, True)" "unread r2 = rest"
    using e by (auto simp: seen_def answer_def view_def)
  with getreply_ok [OF r1(1), of "\<lambda>_. True"] have "reader_inv r2" "r_err r2 = 0" by simp_all
  from waiting_closed [OF this reply_closes [OF g(1)]] g show ?thesis by blast
qed

lemma waiting_none:
  assumes r: "waiting r" "unread r = []"
  shows "\<exists>r2. redisReaderGetReply (\<lambda>_. True) r = Inr (r2, None, True) \<and> unread r2 = [] \<and> waiting r2"
proof -
  have r1: "reader_inv r" "r_err r = 0" using r(1) by (simp_all add: waiting_def)
  let ?ts = "start_root (r_tasks r)"
  show ?thesis
  proof (cases "r_len r = 0")
    case True
    with r1 r show ?thesis by (simp add: redisReaderGetReply_def)
  next
    case False
    with getreply_view [OF r1] parse_nothing [OF waiting_ready [OF r(1)]] r(2)
    have "seen (redisReaderGetReply (\<lambda>_. True) r) = Inr (answer (r_errstr r) (Need [] ?ts))" by simp
    then obtain r2 where g: "redisReaderGetReply (\<lambda>_. True) r = Inr (r2, None, True)" "unread r2 = []" "r_tasks r2 = ?ts"
      by (auto simp: seen_def answer_def view_def)
    with getreply_ok [OF r1(1), of "\<lambda>_. True"] have "reader_inv r2" "r_err r2 = 0" by simp_all
    with g r(1) show ?thesis by (simp add: waiting_def)
  qed
qed

text \<open>A context that waits, with the bytes \<open>x\<close> unread.\<close>

definition holds_input :: "redisContext \<Rightarrow> string \<Rightarrow> bool" where
  "holds_input c x \<longleftrightarrow> ctx_inv c \<and> c_err c = 0 \<and> (\<exists>r. c_reader c = Some r \<and> waiting r \<and> unread r = x)"

lemma get_reply_some:
  assumes h: "holds_input c (encode x @ rest)" and w: "memory_ok w" and x: "wire_ok 8 x"
  shows "\<exists>r. (\<forall>n. redisGetReply n c w = Inr (c\<lparr>c_reader := Some r\<rparr>, w, Some x, True)) \<and> holds_input (c\<lparr>c_reader := Some r\<rparr>) rest"
proof -
  obtain r where r: "ctx_inv c" "c_err c = 0" "c_reader c = Some r" "waiting r" "unread r = encode x @ rest"
    using h by (auto simp: holds_input_def)
  from waiting_answer [OF r(4,5) x] obtain r2 where
    r2: "redisReaderGetReply (\<lambda>_. True) r = Inr (r2, Some x, True)" "unread r2 = rest" "waiting r2" by blast
  have "redisGetReplyFromReader c w = Inr (c\<lparr>c_reader := Some r2\<rparr>, Some x, True)"
    using r(3) r2(1) memory_facts(5) [OF w] by (simp add: redisGetReplyFromReader_def with_reader_def)
  with r r2 show ?thesis
    by (intro exI [of _ r2]) (auto simp: redisGetReply_def holds_input_def ctx_inv_def waiting_def)
qed

lemma get_reply_none:
  assumes h: "holds_input c []" and w: "memory_ok w" and b: "\<not> bit (c_flags c) 0"
  shows "\<exists>r. redisGetReply n c w = Inr (c\<lparr>c_reader := Some r\<rparr>, w, None, True) \<and> holds_input (c\<lparr>c_reader := Some r\<rparr>) []"
proof -
  obtain r where r: "ctx_inv c" "c_err c = 0" "c_reader c = Some r" "waiting r" "unread r = []"
    using h by (auto simp: holds_input_def)
  from waiting_none [OF r(4,5)] obtain r2 where
    r2: "redisReaderGetReply (\<lambda>_. True) r = Inr (r2, None, True)" "unread r2 = []" "waiting r2" by blast
  have "redisGetReplyFromReader c w = Inr (c\<lparr>c_reader := Some r2\<rparr>, None, True)"
    using r(3) r2(1) memory_facts(5) [OF w] by (simp add: redisGetReplyFromReader_def with_reader_def)
  moreover have "c_flags c AND REDIS_BLOCK = 0"
    using b and_exp_eq_0_iff_not_bit [of "c_flags c" 0] by (simp add: REDIS_BLOCK_def)
  ultimately show ?thesis using r r2
    by (intro exI [of _ r2]) (auto simp: redisGetReply_def holds_input_def ctx_inv_def waiting_def)
qed

section \<open>Callbacks that send commands\<close>

definition cl_action :: "action \<Rightarrow> client \<Rightarrow> client" where
  "cl_action a s = fst (cl_command (the (action_args a)) (action_callback a) s)"

definition cl_callback :: "user \<Rightarrow> redisCallback \<Rightarrow> reply option \<Rightarrow> client \<Rightarrow> client" where
  "cl_callback u cb x s =
     (case cb_fn cb of
        None \<Rightarrow> s
      | Some fn \<Rightarrow>
          let s1 = s\<lparr>cl_flags := cl_flags s OR REDIS_IN_CALLBACK,
                     cl_calls := cl_calls s @ [RunCallback fn (cb_privdata cb) x]\<rparr>;
              s2 = fold cl_action (u_does u (cl_calls s) fn (cb_privdata cb) x) s1
          in s2\<lparr>cl_flags := cl_flags s2 AND NOT REDIS_IN_CALLBACK\<rparr>)"

text \<open>Commands a callback may send in any state: all but subscriptions and MONITOR.\<close>

definition sends :: "action \<Rightarrow> bool" where
  "sends a \<longleftrightarrow> is_command a \<and> (\<exists>args. action_args a = Some args \<and> args_ok args \<and> kind_of args \<in> {Plain, Unsubscribe})"

definition user_sends :: "user \<Rightarrow> bool" where
  "user_sends u \<longleftrightarrow> (\<forall>h fn pd x. \<forall>a \<in> set (u_does u h fn pd x). sends a)"

definition same_connection :: "redisAsyncContext \<Rightarrow> redisAsyncContext \<Rightarrow> bool" where
  "same_connection a b \<longleftrightarrow> c_reader (ac_c b) = c_reader (ac_c a) \<and> c_err (ac_c b) = c_err (ac_c a) \<and> c_fd (ac_c b) = c_fd (ac_c a)"

lemma same_connection_trans: "same_connection a b \<Longrightarrow> same_connection b c \<Longrightarrow> same_connection a c"
  by (simp add: same_connection_def)

lemma actions_refine:
  "memory_ok w \<Longrightarrow> \<forall>a \<in> set as. sends a \<Longrightarrow> represents ac s \<Longrightarrow>
    \<exists>ac'. run_actions u w as ac = Inr ac' \<and> represents ac' (fold cl_action as s) \<and> same_connection ac ac'"
proof (induction as arbitrary: ac s)
  case Nil
  then show ?case by (simp add: same_connection_def)
next
  case (Cons a as)
  obtain args where a: "is_command a" "action_args a = Some args" "args_ok args" "kind_of args \<in> {Plain, Unsubscribe}"
    using Cons.prems(2) by (auto simp: sends_def)
  have room: "room_for args ac" using a(4) by (auto simp: room_for_def)
  have cb: "\<lparr>cb_fn = cb_fn (action_callback a), cb_privdata = cb_privdata (action_callback a)\<rparr> = action_callback a" by simp
  from command_refines [OF Cons.prems(3,1) a(3) room, of "cb_fn (action_callback a)" "cb_privdata (action_callback a)", unfolded cb]
  obtain ac1 where ac1: "redisAsyncCmd ac w (cb_fn (action_callback a)) (cb_privdata (action_callback a))
      (command_bytes args @ [NUL]) (length (command_bytes args)) = Inr (ac1, snd (cl_command args (action_callback a) s))"
    "represents ac1 (fst (cl_command args (action_callback a) s))" "same_connection ac ac1"
    by (auto simp: same_connection_def)
  have "run_action u w a ac = Inr ac1" using action_command [OF Cons.prems(1) a(1,2)] ac1(1) by simp
  moreover have "represents ac1 (cl_action a s)" using ac1(2) a(2) by (simp add: cl_action_def)
  moreover from Cons.IH [OF Cons.prems(1) _ this] Cons.prems(2) obtain ac2 where
    "run_actions u w as ac1 = Inr ac2" "represents ac2 (fold cl_action as (cl_action a s))" "same_connection ac1 ac2" by auto
  ultimately show ?case using ac1(3) same_connection_trans by auto
qed

lemma callback_refines:
  assumes u: "user_sends u" and w: "memory_ok w" and r: "represents ac s"
  shows "\<exists>ac'. redisRunCallback u w ac cb x = Inr ac' \<and> represents ac' (cl_callback u cb x s) \<and> same_connection ac ac'"
proof (cases "cb_fn cb")
  case None
  with r show ?thesis by (simp add: redisRunCallback_def cl_callback_def same_connection_def)
next
  case (Some fn)
  let ?c = "RunCallback fn (cb_privdata cb) x" and ?as = "u_does u (ac_calls ac) fn (cb_privdata cb) x"
  let ?ac1 = "called ?c (set_flag REDIS_IN_CALLBACK ac)"
  let ?s1 = "s\<lparr>cl_flags := cl_flags s OR REDIS_IN_CALLBACK, cl_calls := cl_calls s @ [?c]\<rparr>"
  have as: "\<forall>a \<in> set ?as. sends a" using u by (simp add: user_sends_def)
  have r1: "represents ?ac1 ?s1"
    using represents_set_flag [OF r, of REDIS_IN_CALLBACK] by (auto simp: represents_def called_def)
  from actions_refine [OF w as r1] obtain ac2 where
    ac2: "run_actions u w ?as ?ac1 = Inr ac2" "represents ac2 (fold cl_action ?as ?s1)" "same_connection ?ac1 ac2" by blast
  have e: "cl_callback u cb x s = (let s2 = fold cl_action ?as ?s1 in s2\<lparr>cl_flags := cl_flags s2 AND NOT REDIS_IN_CALLBACK\<rparr>)"
    using Some by (simp add: cl_callback_def representsD(11) [OF r] Let_def)
  have "represents (clear_flag REDIS_IN_CALLBACK ac2) (cl_callback u cb x s)"
    unfolding e using ac2(2) by (auto simp: represents_def clear_flag_def clear_bits Let_def)
  moreover have "same_connection ac (clear_flag REDIS_IN_CALLBACK ac2)"
    using ac2(3) by (simp add: same_connection_def clear_flag_def called_def set_flag_def)
  ultimately show ?thesis using Some ac2(1) by (simp add: redisRunCallback_def Let_def)
qed

text \<open>What such commands leave: the flags, the callbacks that were waiting, and the callbacks run so far.\<close>

fun is_run :: "call \<Rightarrow> bool" where
  "is_run (RunCallback fn pd x) = True"
| "is_run _ = False"

definition runs :: "call list \<Rightarrow> call list" where
  "runs = filter is_run"

lemma runs_append [simp]: "runs (a @ b) = runs a @ runs b"
  by (simp add: runs_def)

definition goes_on :: "client \<Rightarrow> client \<Rightarrow> bool" where
  "goes_on s s' \<longleftrightarrow> cl_flags s' = cl_flags s \<and> (\<exists>new. cl_replies s' = cl_replies s @ map Some new) \<and> cl_ev s' = cl_ev s
     \<and> runs (cl_calls s') = runs (cl_calls s)"

lemma goes_on_trans: "goes_on a b \<Longrightarrow> goes_on b c \<Longrightarrow> goes_on a c"
  by (auto simp: goes_on_def) (metis map_append)

lemma goes_on_refl: "goes_on s s"
  by (auto simp: goes_on_def intro: exI [of _ "[]"])

lemma one_new: "\<exists>new. [Some x] = map Some new"
  by (rule exI [of _ "[x]"]) simp

lemma action_goes_on: "sends a \<Longrightarrow> goes_on s (cl_action a s)"
proof -
  assume "sends a"
  then obtain args where a: "action_args a = Some args" "kind_of args = Plain \<or> kind_of args = Unsubscribe"
    by (auto simp: sends_def)
  then show ?thesis
    by (auto simp: goes_on_def cl_action_def cl_command_def cl_register_def cl_send_def cl_hook_def runs_def one_new split: if_splits)
qed

lemma actions_go_on: "\<forall>a \<in> set as. sends a \<Longrightarrow> goes_on s (fold cl_action as s)"
proof (induction as arbitrary: s)
  case (Cons a as)
  then show ?case using action_goes_on [of a s] goes_on_trans by auto
qed (simp add: goes_on_refl)

lemma callback_goes_on:
  assumes u: "user_sends u" and f: "\<not> bit (cl_flags s) 4"
  shows "cl_flags (cl_callback u cb x s) = cl_flags s"
    "\<exists>new. cl_replies (cl_callback u cb x s) = cl_replies s @ map Some new"
    "cl_ev (cl_callback u cb x s) = cl_ev s"
    "runs (cl_calls (cl_callback u cb x s)) = runs (cl_calls s) @ run_of cb x"
proof -
  have "cl_flags (cl_callback u cb x s) = cl_flags s \<and> (\<exists>new. cl_replies (cl_callback u cb x s) = cl_replies s @ map Some new)
    \<and> cl_ev (cl_callback u cb x s) = cl_ev s \<and> runs (cl_calls (cl_callback u cb x s)) = runs (cl_calls s) @ run_of cb x"
  proof (cases "cb_fn cb")
    case None
    then show ?thesis by (auto simp: cl_callback_def run_of_def runs_def intro: exI [of _ "[]"])
  next
    case (Some fn)
    let ?as = "u_does u (cl_calls s) fn (cb_privdata cb) x"
    let ?s1 = "s\<lparr>cl_flags := cl_flags s OR REDIS_IN_CALLBACK, cl_calls := cl_calls s @ [RunCallback fn (cb_privdata cb) x]\<rparr>"
    have "\<forall>a \<in> set ?as. sends a" using u by (simp add: user_sends_def)
    from actions_go_on [OF this, of ?s1] have g: "goes_on ?s1 (fold cl_action ?as ?s1)" .
    have "(cl_flags s OR REDIS_IN_CALLBACK) AND NOT REDIS_IN_CALLBACK = cl_flags s"
      using f by (intro bit_eqI) (auto simp: set_bits clear_bits)
    with g Some show ?thesis by (auto simp: cl_callback_def goes_on_def Let_def run_of_def runs_def)
  qed
  then show "cl_flags (cl_callback u cb x s) = cl_flags s"
    "\<exists>new. cl_replies (cl_callback u cb x s) = cl_replies s @ map Some new"
    "cl_ev (cl_callback u cb x s) = cl_ev s"
    "runs (cl_calls (cl_callback u cb x s)) = runs (cl_calls s) @ run_of cb x" by simp_all
qed

end
