(* ===== verification/Async_Events.thy ===== *)
theory Async_Events
  imports Async_Client Connect
begin

text \<open>
  What events do: replies go to the callbacks in front, messages to the callbacks of their names, and what goes
  wrong on the way; connecting.
\<close>

section \<open>Replies go to their callbacks\<close>

text \<open>The abstract client hands each reply to the callback that waits in front.\<close>

fun cl_deliver :: "user \<Rightarrow> reply list \<Rightarrow> client \<Rightarrow> client" where
  "cl_deliver u [] s = s"
| "cl_deliver u (x # xs) s =
     (case cl_replies s of
        Some cb # q \<Rightarrow> cl_deliver u xs (cl_callback u cb (Some x) (s\<lparr>cl_replies := q\<rparr>))
      | _ \<Rightarrow> s)"

text \<open>Nothing asks for the end of the connection, and no callback is running.\<close>

definition quiet :: "u32 \<Rightarrow> bool" where
  "quiet f \<longleftrightarrow> \<not> bit f 2 \<and> \<not> bit f 3 \<and> \<not> bit f 4 \<and> \<not> bit f 6"

lemma shift_represents:
  assumes "represents ac s" "cl_replies s = x # q"
  shows "\<exists>l. redisShiftCallback (ac_replies ac) = Inr (l, Some x) \<and> represents (ac\<lparr>ac_replies := l\<rparr>) (s\<lparr>cl_replies := q\<rparr>)"
  using cq.shift_front [of "ac_replies ac" x q] assms by (auto simp: represents_def)

lemma represents_input:
  "represents ac s \<Longrightarrow> holds_input c x \<Longrightarrow> c_flags c = ac_flags ac \<Longrightarrow> unsent c = unsent (ac_c ac) \<Longrightarrow>
    represents (ac\<lparr>ac_c := c\<rparr>) s"
  by (simp add: represents_def holds_input_def)

lemma same_connection_input: "same_connection a b \<Longrightarrow> ctx_inv (ac_c b) \<Longrightarrow> holds_input (ac_c a) x \<Longrightarrow> holds_input (ac_c b) x"
  by (simp add: same_connection_def holds_input_def)

lemma process_ok:
  "user_sends u \<Longrightarrow> memory_ok w \<Longrightarrow> represents ac s \<Longrightarrow> quiet (cl_flags s) \<Longrightarrow>
    holds_input (ac_c ac) (concat (map encode xs)) \<Longrightarrow> \<forall>x \<in> set xs. wire_ok 8 x \<Longrightarrow>
    cl_replies s = map Some cbs \<Longrightarrow> length xs \<le> length cbs \<Longrightarrow> length xs < n \<Longrightarrow>
    \<exists>ac'. process_replies n u ac w cb = Inr (ac', w) \<and> represents ac' (cl_deliver u xs s) \<and> holds_input (ac_c ac') []
      \<and> c_fd (ac_c ac') = c_fd (ac_c ac)
      \<and> cl_flags (cl_deliver u xs s) = cl_flags s
      \<and> (\<exists>new. cl_replies (cl_deliver u xs s) = map Some (drop (length xs) cbs @ new))
      \<and> runs (cl_calls (cl_deliver u xs s)) = runs (cl_calls s) @ concat (map2 (\<lambda>cb x. run_of cb (Some x)) cbs xs)"
proof (induction xs arbitrary: n ac s cb cbs)
  case Nil
  obtain m where n: "n = Suc m" using Nil.prems(9) by (cases n) auto
  have b: "\<not> bit (c_flags (ac_c ac)) 0" using Nil.prems(3) by (simp add: represents_def)
  have h: "holds_input (ac_c ac) []" using Nil.prems(5) by simp
  from get_reply_none [OF h Nil.prems(2) b, of m] obtain r where
    r: "redisGetReply m (ac_c ac) w = Inr (ac_c ac\<lparr>c_reader := Some r\<rparr>, w, None, True)"
    "holds_input (ac_c ac\<lparr>c_reader := Some r\<rparr>) []" by blast
  let ?ac = "ac\<lparr>ac_c := ac_c ac\<lparr>c_reader := Some r\<rparr>\<rparr>"
  have rep: "represents ?ac s"
    using represents_input [OF Nil.prems(3) r(2)] by (simp add: unsent_def)
  have q: "\<not> has_flag ?ac REDIS_DISCONNECTING" "\<not> has_flag ?ac REDIS_MONITORING"
    using Nil.prems(3,4) by (simp_all add: flag_bits quiet_def represents_def)
  have "process_replies n u ac w cb = Inr (?ac, w)"
    using r(1) q by (simp add: n no_reply_def)
  with rep r(2) Nil.prems(7) show ?case by (auto simp: runs_def intro: exI [of _ "[]"])
next
  case (Cons x xs)
  obtain m where n: "n = Suc m" using Cons.prems(9) by (cases n) auto
  obtain c cs where cbs: "cbs = c # cs" using Cons.prems(8) by (cases cbs) auto
  have h: "holds_input (ac_c ac) (encode x @ concat (map encode xs))" using Cons.prems(5) by simp
  have x: "wire_ok 8 x" using Cons.prems(6) by simp
  from get_reply_some [OF h Cons.prems(2) x] obtain r where
    r: "redisGetReply m (ac_c ac) w = Inr (ac_c ac\<lparr>c_reader := Some r\<rparr>, w, Some x, True)"
    "holds_input (ac_c ac\<lparr>c_reader := Some r\<rparr>) (concat (map encode xs))" by blast
  let ?ac1 = "ac\<lparr>ac_c := ac_c ac\<lparr>c_reader := Some r\<rparr>\<rparr>"
  have rep1: "represents ?ac1 s" using represents_input [OF Cons.prems(3) r(2)] by (simp add: unsent_def)
  obtain l where l: "redisShiftCallback (ac_replies ?ac1) = Inr (l, Some (Some c))"
    "represents (?ac1\<lparr>ac_replies := l\<rparr>) (s\<lparr>cl_replies := map Some cs\<rparr>)"
    using shift_represents [OF rep1, of "Some c" "map Some cs"] Cons.prems(7) cbs by auto
  let ?ac2 = "?ac1\<lparr>ac_replies := l\<rparr>" and ?s2 = "s\<lparr>cl_replies := map Some cs\<rparr>"
  let ?s3 = "cl_callback u c (Some x) ?s2"
  obtain ac3 where ac3: "redisRunCallback u w ?ac2 c (Some x) = Inr ac3" "represents ac3 ?s3" "same_connection ?ac2 ac3"
    using callback_refines [OF Cons.prems(1,2) l(2)] by blast
  have f4: "\<not> bit (cl_flags ?s2) 4" using Cons.prems(4) by (simp add: quiet_def)
  obtain new where s3: "cl_flags ?s3 = cl_flags s" "cl_replies ?s3 = map Some (cs @ new)"
    "runs (cl_calls ?s3) = runs (cl_calls s) @ run_of c (Some x)"
    using callback_goes_on [OF Cons.prems(1) f4, of c "Some x"] by auto
  have h3: "holds_input (ac_c ac3) (concat (map encode xs))"
    using same_connection_input [OF ac3(3) representsD(1) [OF ac3(2)]] r(2) by simp
  have nf: "\<not> has_flag ac3 REDIS_FREEING"
    using representsD(2) [OF ac3(2)] s3(1) Cons.prems(4) by (simp add: flag_bits quiet_def)
  have step: "process_replies n u ac w cb = process_replies m u ac3 w (Some c)"
  proof (cases "cb_fn c")
    case None
    then have "ac3 = ?ac2" using ac3(1) by (simp add: redisRunCallback_def)
    with None r(1) l(1) show ?thesis by (simp add: n callback_for_def the_callback_def)
  next
    case (Some fn)
    with r(1) l(1) ac3(1) nf show ?thesis by (simp add: n callback_for_def the_callback_def)
  qed
  have "quiet (cl_flags ?s3)" using s3(1) Cons.prems(4) by simp
  from Cons.IH [OF Cons.prems(1,2) ac3(2) this h3 _ s3(2), of m "Some c"] Cons.prems(6,8,9) obtain ac' new' where
    IH: "process_replies m u ac3 w (Some c) = Inr (ac', w)" "represents ac' (cl_deliver u xs ?s3)"
    "holds_input (ac_c ac') []" "c_fd (ac_c ac') = c_fd (ac_c ac3)"
    "cl_flags (cl_deliver u xs ?s3) = cl_flags ?s3"
    "cl_replies (cl_deliver u xs ?s3) = map Some (drop (length xs) (cs @ new) @ new')"
    "runs (cl_calls (cl_deliver u xs ?s3)) = runs (cl_calls ?s3) @ concat (map2 (\<lambda>cb x. run_of cb (Some x)) (cs @ new) xs)"
    by (auto simp: n cbs)
  have len: "length xs \<le> length cs" using Cons.prems(8) cbs by simp
  have e: "cl_deliver u (x # xs) s = cl_deliver u xs ?s3" using Cons.prems(7) cbs by simp
  have z: "zip (cs @ new) xs = zip cs xs" using len by (simp add: zip_append1)
  have d: "drop (length xs) (cs @ new) @ new' = drop (length (x # xs)) cbs @ (new @ new')" using len by (simp add: cbs)
  show ?case
    unfolding step e using IH s3 ac3(3) z d
    by (intro exI [of _ ac']) (auto simp: same_connection_def cbs intro: exI [of _ "new @ new'"])
qed

section \<open>Reading\<close>

text \<open>What a read event does with complete replies for callbacks that wait.\<close>

lemma handle_read_ok:
  assumes u: "user_sends u" and w: "memory_ok w" and r: "represents ac s"
    and f: "quiet (cl_flags s)" "bit (cl_flags s) 1"
    and h: "holds_input (ac_c ac) []"
    and io: "next_ret w \<noteq> -1" "next_bytes w = concat (map encode xs)" "xs \<noteq> []" "length (concat (map encode xs)) \<le> 16384"
    and xs: "\<forall>x \<in> set xs. wire_ok 8 x" and q: "cl_replies s = map Some cbs" "length xs \<le> length cbs" "length xs < n"
  shows "\<exists>ac' new. redisAsyncHandleRead n u ac w = Inr (ac', sys (SysRead (c_fd (ac_c ac))) w)
    \<and> represents ac' (cl_deliver u xs (cl_hook AddRead s)) \<and> holds_input (ac_c ac') []
    \<and> cl_flags (cl_deliver u xs (cl_hook AddRead s)) = cl_flags s
    \<and> cl_replies (cl_deliver u xs (cl_hook AddRead s)) = map Some (drop (length xs) cbs @ new)
    \<and> runs (cl_calls (cl_deliver u xs (cl_hook AddRead s)))
        = runs (cl_calls s) @ concat (map2 (\<lambda>cb x. run_of cb (Some x)) cbs xs)"
proof -
  let ?x = "concat (map encode xs)" and ?w = "sys (SysRead (c_fd (ac_c ac))) w"
  obtain rd where rd: "ctx_inv (ac_c ac)" "c_err (ac_c ac) = 0" "c_reader (ac_c ac) = Some rd" "waiting rd" "unread rd = []"
    using h by (auto simp: holds_input_def)
  have rdi: "reader_inv rd" "r_err rd = 0" using rd(4) by (simp_all add: waiting_def)
  note mem = memory_facts [OF w]
  obtain r1 where r1: "redisReaderFeed (w_alloc w (w_now w)) rd ?x (length ?x) = Inr (r1, True)"
    using feed_total [OF rdi mem(3,4)] by blast
  have a1: "w_alloc w (w_now w) 1 \<noteq> None" using mem(4) by (simp add: al_total_def)
  from feed_ok [OF rdi(1) mem(3) a1, of "length ?x" ?x] r1 rd(5)
  have r1': "reader_inv r1" "r_err r1 = 0" "unread r1 = ?x" "r_tasks r1 = r_tasks rd" by auto
  have ne: "?x \<noteq> []"
  proof -
    obtain y ys where y: "xs = y # ys" using io(3) by (cases xs) auto
    with xs have "wire_ok 8 y" by simp
    then have "encode y \<noteq> []" by (cases y) auto
    with y show ?thesis by simp
  qed
  let ?c = "ac_c ac\<lparr>c_reader := Some r1\<rparr>"
  have br: "redisBufferRead (ac_c ac) w = Inr (?c, ?w, True)"
    by (rule buffer_read_some [OF rd(1-3) io(1,2) ne io(4) r1])
  have h1: "holds_input ?c ?x"
    using rd r1' by (auto simp: holds_input_def ctx_inv_def waiting_def)
  let ?ac = "run_hook AddRead (ac\<lparr>ac_c := ?c\<rparr>)" and ?s = "cl_hook AddRead s"
  have rep: "represents ?ac ?s"
    using represents_hook [OF represents_input [OF r h1]] by (simp add: unsent_def)
  have cc: "ac_c ?ac = ?c" by (simp add: run_hook_def called_def)
  have fl: "cl_flags ?s = cl_flags s" "cl_replies ?s = cl_replies s" "runs (cl_calls ?s) = runs (cl_calls s)"
    by (simp_all add: cl_hook_def runs_def)
  have w1: "memory_ok ?w" using w by (simp add: memory_ok_def sys_def)
  have "quiet (cl_flags ?s)" "cl_replies ?s = map Some cbs" using f(1) q(1) fl by simp_all
  from process_ok [OF u w1 rep this(1) _ xs this(2) q(2,3), of None] h1 cc obtain ac' new where
    p: "process_replies n u ?ac ?w None = Inr (ac', ?w)" "represents ac' (cl_deliver u xs ?s)" "holds_input (ac_c ac') []"
    "cl_flags (cl_deliver u xs ?s) = cl_flags ?s"
    "cl_replies (cl_deliver u xs ?s) = map Some (drop (length xs) cbs @ new)"
    "runs (cl_calls (cl_deliver u xs ?s)) = runs (cl_calls ?s) @ concat (map2 (\<lambda>cb x. run_of cb (Some x)) cbs xs)"
    by auto
  have "has_flag ac REDIS_CONNECTED" using f(2) r by (simp add: flag_bits represents_def)
  then have "redisAsyncHandleRead n u ac w = process_replies n u ?ac ?w None"
    by (simp add: redisAsyncHandleRead_def when_connected_def br redisProcessCallbacks_def Let_def)
  with p fl show ?thesis by auto
qed

section \<open>Messages of subscriptions\<close>

definition cl_sub :: "bool \<Rightarrow> client \<Rightarrow> string \<Rightarrow> redisCallback option" where
  "cl_sub pvariant s = (if pvariant then cl_patterns s else cl_channels s)"

definition cl_unsubscribe :: "bool \<Rightarrow> string \<Rightarrow> u64 \<Rightarrow> client \<Rightarrow> client" where
  "cl_unsubscribe pvariant name v s =
     (let s1 = (if pvariant then s\<lparr>cl_patterns := (cl_patterns s)(name := None)\<rparr>
                else s\<lparr>cl_channels := (cl_channels s)(name := None)\<rparr>)
      in if v = 0 then s1\<lparr>cl_flags := cl_flags s1 AND NOT REDIS_SUBSCRIBED\<rparr> else s1)"

text \<open>The type of a message, and whether it is for a pattern and ends a subscription.\<close>

definition for_pattern :: "string \<Rightarrow> bool" where
  "for_pattern ty = (c_tolower (hd (ty @ [NUL])) = CHR ''p'')"

definition ends_subscription :: "string \<Rightarrow> bool" where
  "ends_subscription ty = (map c_tolower (cstr (drop (if for_pattern ty then 1 else 0) (ty @ [NUL]))) = ''unsubscribe'')"

text \<open>What a message does to the client before its callback runs.\<close>

definition cl_message :: "string \<Rightarrow> string \<Rightarrow> u64 \<Rightarrow> client \<Rightarrow> client" where
  "cl_message ty name v s = (if ends_subscription ty then cl_unsubscribe (for_pattern ty) name v s else s)"

lemma sub_facts:
  assumes "represents ac s"
  shows "dict_ok (sub_of pv ac)" "callback_of (sub_of pv ac) = cl_sub pv s"
  using representsD(6-9) [OF assms] by (simp_all add: sub_of_def cl_sub_def)

lemma message_callback:
  assumes r: "represents ac s" and w: "memory_ok w"
    and m: "string_at els 0 = Inr ty" "string_at els 1 = Inr name" "2 \<le> n"
  shows "cl_sub (for_pattern ty) s name = None \<Longrightarrow> redisGetSubscribeCallback w ac (RArray n els) dst = Inr (ac, dst)"
    and "cl_sub (for_pattern ty) s name = Some cb \<Longrightarrow> (ends_subscription ty \<Longrightarrow> element_at els 2 = Inr (RInteger v)) \<Longrightarrow>
      \<exists>ac'. redisGetSubscribeCallback w ac (RArray n els) dst = Inr (ac', Some cb) \<and> represents ac' (cl_message ty name v s)
        \<and> ac_c ac' = (ac_c ac)\<lparr>c_flags := ac_flags ac'\<rparr>"
proof -
  let ?pv = "for_pattern ty" and ?d = "sub_of (for_pattern ty) ac"
  note d = sub_facts [OF r, of ?pv]
  obtain sn where sn: "sdsnewlen (w_alloc w (w_now w)) (Some (name @ [NUL])) (length name) = Inr (Some sn)" "sds_inv sn"
    "sds_str sn = name" using newlen_total [OF w, of "length name" "name @ [NUL]"] by auto
  obtain e where e: "dictFind ?d sn = Inr e" "map_option de_val e = cl_sub ?pv s name"
    using find_callback [OF d(1) sn(2)] d(2) sn(3) by auto
  have step: "redisGetSubscribeCallback w ac (RArray n els) dst = (case e of None \<Rightarrow> Inr (ac, dst) | Some x \<Rightarrow>
      bind_res (if ends_subscription ty then unsubscribe ?pv sn els ac else Inr ac) (\<lambda>ac1. Inr (ac1, Some (de_val x))))"
    using m(3) unfolding redisGetSubscribeCallback_def reply.case m(1,2) bind_res.simps Let_def for_pattern_def [symmetric]
    by (simp add: sn(1) e(1) ends_subscription_def [symmetric] not_less [symmetric] if_P)
      (simp add: ends_subscription_def)
  show "cl_sub ?pv s name = None \<Longrightarrow> redisGetSubscribeCallback w ac (RArray n els) dst = Inr (ac, dst)"
    unfolding step using e(2) by simp
  assume c: "cl_sub ?pv s name = Some cb" and v: "ends_subscription ty \<Longrightarrow> element_at els 2 = Inr (RInteger v)"
  then obtain x where x: "e = Some x" "de_val x = cb" using e(2) by auto
  show "\<exists>ac'. redisGetSubscribeCallback w ac (RArray n els) dst = Inr (ac', Some cb) \<and> represents ac' (cl_message ty name v s)
      \<and> ac_c ac' = (ac_c ac)\<lparr>c_flags := ac_flags ac'\<rparr>"
  proof (cases "ends_subscription ty")
    case False
    with x r show ?thesis unfolding step by (simp add: cl_message_def)
  next
    case True
    obtain d1 b fs where d1: "dictDelete ?d sn = Inr (d1, b, fs)" "dict_ok d1"
      "callback_of d1 = (cl_sub ?pv s)(name := None)"
      using del_callback [OF d(1) sn(2)] d(2) sn(3) by auto
    let ?ac = "if v = 0 then clear_flag REDIS_SUBSCRIBED (set_sub ?pv d1 ac) else set_sub ?pv d1 ac"
    have "unsubscribe ?pv sn els ac = Inr ?ac" using d1(1) v [OF True] by (simp add: unsubscribe_def)
    moreover have "represents ?ac (cl_message ty name v s)"
      using r d1(2,3) True
      by (auto simp: represents_def set_sub_def clear_flag_def clear_bits cl_message_def cl_unsubscribe_def cl_sub_def Let_def)
    moreover have "ac_c ?ac = (ac_c ac)\<lparr>c_flags := ac_flags ?ac\<rparr>" by (simp add: set_sub_def clear_flag_def)
    ultimately show ?thesis unfolding step using x True by auto
  qed
qed

text \<open>A message that is the only input of a context without pending callbacks.\<close>

lemma message_start:
  assumes w: "memory_ok w" and r: "represents ac s" and b: "cl_replies s = []" "bit (cl_flags s) 5"
    and h: "holds_input (ac_c ac) (encode (RArray n els))" and x: "wire_ok 8 (RArray n els)"
  shows "\<exists>ac1. represents ac1 s \<and> holds_input (ac_c ac1) [] \<and>
    (\<forall>m u cb. process_replies (Suc m) u ac w cb = bind_res (redisGetSubscribeCallback w ac1 (RArray n els) cb)
      (\<lambda>(ac2, cb2). bind_res (the_callback cb2)
         (\<lambda>f. if cb_fn f = None then process_replies m u ac2 w cb2
            else bind_res (redisRunCallback u w ac2 f (Some (RArray n els)))
              (\<lambda>ac3. if has_flag ac3 REDIS_FREEING then redisAsyncFree_now u ac3 w else process_replies m u ac3 w cb2))))"
proof -
  have h': "holds_input (ac_c ac) (encode (RArray n els) @ [])" using h by simp
  from get_reply_some [OF h' w x] obtain rd where
    rd: "redisGetReply m (ac_c ac) w = Inr (ac_c ac\<lparr>c_reader := Some rd\<rparr>, w, Some (RArray n els), True)"
    and h1: "holds_input (ac_c ac\<lparr>c_reader := Some rd\<rparr>) []" for m by blast
  let ?ac1 = "ac\<lparr>ac_c := ac_c ac\<lparr>c_reader := Some rd\<rparr>\<rparr>"
  have r1: "represents ?ac1 s" using represents_input [OF r, of "ac_c ac\<lparr>c_reader := Some rd\<rparr>" "[]"] h1 by (simp add: unsent_def)
  have sh: "redisShiftCallback (ac_replies ?ac1) = Inr (ac_replies ?ac1, None)"
    using cq.shift_empty [of "ac_replies ?ac1"] representsD(4) [OF r1] b(1) by simp
  have sub: "has_flag ?ac1 REDIS_SUBSCRIBED" using b(2) representsD(2) [OF r1] by (simp add: flag_bits)
  have "process_replies (Suc m) u ac w cb = bind_res (redisGetSubscribeCallback w ?ac1 (RArray n els) cb)
      (\<lambda>(ac2, cb2). bind_res (the_callback cb2)
         (\<lambda>f. if cb_fn f = None then process_replies m u ac2 w cb2
            else bind_res (redisRunCallback u w ac2 f (Some (RArray n els)))
              (\<lambda>ac3. if has_flag ac3 REDIS_FREEING then redisAsyncFree_now u ac3 w else process_replies m u ac3 w cb2)))" for m u cb
    unfolding process_replies.simps rd bind_res.simps prod.case Let_def callback_for_def sh
    by (simp add: spontaneous_def sub bind_res_assoc)
  with r1 h1 show ?thesis by (intro exI [of _ ?ac1]) simp
qed

lemma message_ok:
  assumes u: "user_sends u" and w: "memory_ok w" and r: "represents ac s" and b: "cl_replies s = []" "bit (cl_flags s) 5" "quiet (cl_flags s)"
    and h: "holds_input (ac_c ac) (encode (RArray n els))" and x: "wire_ok 8 (RArray n els)"
    and m: "string_at els 0 = Inr ty" "string_at els 1 = Inr name" "2 \<le> n"
    and c: "cl_sub (for_pattern ty) s name = Some cb" "ends_subscription ty \<Longrightarrow> element_at els 2 = Inr (RInteger v)"
  shows "\<exists>ac'. redisProcessCallbacks (Suc (Suc k)) u ac w = Inr (ac', w)
    \<and> represents ac' (cl_callback u cb (Some (RArray n els)) (cl_message ty name v s)) \<and> holds_input (ac_c ac') []"
proof -
  obtain ac1 where ac1: "represents ac1 s" "holds_input (ac_c ac1) []"
    and run: "\<forall>m u cb. process_replies (Suc m) u ac w cb = bind_res (redisGetSubscribeCallback w ac1 (RArray n els) cb)
      (\<lambda>(ac2, cb2). bind_res (the_callback cb2)
         (\<lambda>f. if cb_fn f = None then process_replies m u ac2 w cb2
            else bind_res (redisRunCallback u w ac2 f (Some (RArray n els)))
              (\<lambda>ac3. if has_flag ac3 REDIS_FREEING then redisAsyncFree_now u ac3 w else process_replies m u ac3 w cb2)))"
    using message_start [OF w r b(1,2) h x] by (elim exE conjE) (rule that)
  let ?s2 = "cl_message ty name v s"
  obtain ac2 where ac2: "redisGetSubscribeCallback w ac1 (RArray n els) None = Inr (ac2, Some cb)" "represents ac2 ?s2"
    "ac_c ac2 = (ac_c ac1)\<lparr>c_flags := ac_flags ac2\<rparr>"
    using message_callback(2) [OF ac1(1) w m c, of None] by auto
  have h2: "holds_input (ac_c ac2) []"
    using ac1(2) representsD(1) [OF ac2(2)] by (subst ac2(3)) (auto simp: holds_input_def)
  have q2: "quiet (cl_flags ?s2)"
    using b(3) by (auto simp: cl_message_def cl_unsubscribe_def quiet_def Let_def clear_bits)
  then have f4: "\<not> bit (cl_flags ?s2) 4" by (simp add: quiet_def)
  let ?s3 = "cl_callback u cb (Some (RArray n els)) ?s2"
  obtain ac3 where ac3: "redisRunCallback u w ac2 cb (Some (RArray n els)) = Inr ac3" "represents ac3 ?s3" "same_connection ac2 ac3"
    using callback_refines [OF u w ac2(2)] by blast
  have q3: "quiet (cl_flags ?s3)" using callback_goes_on(1) [OF u f4] q2 by simp
  have h3: "holds_input (ac_c ac3) []"
    using same_connection_input [OF ac3(3) representsD(1) [OF ac3(2)] h2] .
  have nf: "\<not> has_flag ac3 REDIS_FREEING" using representsD(2) [OF ac3(2)] q3 by (simp add: flag_bits quiet_def)
  obtain new where rep: "cl_replies ?s3 = map Some new"
    using callback_goes_on(2) [OF u f4, of cb "Some (RArray n els)"] b(1)
    by (auto simp: cl_message_def cl_unsubscribe_def Let_def split: if_splits)
  have i: "holds_input (ac_c ac3) (concat (map encode []))" "\<forall>x \<in> set []. wire_ok 8 x" "length ([] :: reply list) \<le> length new"
    "length ([] :: reply list) < Suc k" using h3 by simp_all
  from process_ok [OF u w ac3(2) q3 i(1,2) rep i(3,4), of "Some cb"] obtain ac4 where
    ac4: "process_replies (Suc k) u ac3 w (Some cb) = Inr (ac4, w)" "represents ac4 ?s3" "holds_input (ac_c ac4) []" by auto
  have "redisProcessCallbacks (Suc (Suc k)) u ac w = process_replies (Suc k) u ac3 w (Some cb)"
    unfolding redisProcessCallbacks_def run [rule_format] ac2(1)
    using ac3(1) nf by (cases "cb_fn cb") (auto simp: the_callback_def redisRunCallback_def)
  with ac4 show ?thesis by auto
qed

section \<open>Faults\<close>

text \<open>A message for a name without a callback reads the local variable before anything was stored in it.\<close>

lemma unknown_name_faults:
  assumes w: "memory_ok w" and r: "represents ac s" and b: "cl_replies s = []" "bit (cl_flags s) 5"
    and h: "holds_input (ac_c ac) (encode (RArray n els))" and x: "wire_ok 8 (RArray n els)"
    and m: "string_at els 0 = Inr ty" "string_at els 1 = Inr name" "2 \<le> n" "cl_sub (for_pattern ty) s name = None"
  shows "redisProcessCallbacks (Suc k) u ac w = Inl WildPointer"
proof -
  obtain ac1 where ac1: "represents ac1 s"
    and run: "\<forall>m u cb. process_replies (Suc m) u ac w cb = bind_res (redisGetSubscribeCallback w ac1 (RArray n els) cb)
      (\<lambda>(ac2, cb2). bind_res (the_callback cb2)
         (\<lambda>f. if cb_fn f = None then process_replies m u ac2 w cb2
            else bind_res (redisRunCallback u w ac2 f (Some (RArray n els)))
              (\<lambda>ac3. if has_flag ac3 REDIS_FREEING then redisAsyncFree_now u ac3 w else process_replies m u ac3 w cb2)))"
    using message_start [OF w r b h x] by (elim exE conjE) (rule that)
  show ?thesis
    unfolding redisProcessCallbacks_def run [rule_format] message_callback(1) [OF ac1 w m]
    by (simp add: the_callback_def)
qed

text \<open>Without a complete reply the loop ends in the first round.\<close>

lemma no_input_step:
  assumes w: "memory_ok w" and r: "represents ac s" and h: "holds_input (ac_c ac) []"
  shows "\<exists>ac1. represents ac1 s \<and> holds_input (ac_c ac1) [] \<and> redisProcessCallbacks (Suc k) u ac w = no_reply u w ac1 None"
proof -
  have b: "\<not> bit (c_flags (ac_c ac)) 0" using r by (simp add: represents_def)
  from get_reply_none [OF h w b, of k] obtain rd where
    rd: "redisGetReply k (ac_c ac) w = Inr (ac_c ac\<lparr>c_reader := Some rd\<rparr>, w, None, True)"
    "holds_input (ac_c ac\<lparr>c_reader := Some rd\<rparr>) []" by blast
  have "represents (ac\<lparr>ac_c := ac_c ac\<lparr>c_reader := Some rd\<rparr>\<rparr>) s"
    using represents_input [OF r rd(2)] by (simp add: unsent_def)
  with rd show ?thesis
    by (intro exI [of _ "ac\<lparr>ac_c := ac_c ac\<lparr>c_reader := Some rd\<rparr>\<rparr>"]) (simp add: redisProcessCallbacks_def)
qed

lemma pending_disconnect_faults:
  assumes w: "memory_ok w" and r: "represents ac s" and h: "holds_input (ac_c ac) []"
    and f: "bit (cl_flags s) 2" "cl_unsent s = []" "cl_replies s \<noteq> []"
  shows "redisProcessCallbacks (Suc k) u ac w = Inl AssertFailed"
proof -
  obtain ac1 where ac1: "represents ac1 s" "holds_input (ac_c ac1) []"
    "redisProcessCallbacks (Suc k) u ac w = no_reply u w ac1 None" using no_input_step [OF w r h] by blast
  obtain b where b: "c_obuf (ac_c ac1) = Some b" "sds_inv b" using ac1(2) by (auto simp: holds_input_def ctx_inv_def)
  have "sdslen b = 0" using f(2) ac1(1) b sds_str_length [OF b(2)] by (auto simp: represents_def unsent_def sdslen_def)
  moreover have "has_flag ac1 REDIS_DISCONNECTING" using f(1) representsD(2) [OF ac1(1)] by (simp add: flag_bits)
  moreover obtain x q where q: "cl_replies s = x # q" using f(3) by (cases "cl_replies s") auto
  moreover obtain l where "redisShiftCallback (ac_replies ac1) = Inr (l, Some x)"
    using cq.shift_front [of "ac_replies ac1" x q] representsD(4) [OF ac1(1)] q by auto
  moreover have "c_err (ac_c ac1) = 0" using ac1(2) by (simp add: holds_input_def)
  ultimately show ?thesis
    unfolding ac1(3) no_reply_def redisAsyncDisconnect_now_def using b(1)
    by (simp add: with_obuf_def redisAsyncCopyError_def Let_def)
qed

text \<open>In monitor mode the same round queues the local variable, which nothing has been stored in.\<close>

lemma monitor_queues_garbage:
  assumes w: "memory_ok w" and r: "represents ac s" and h: "holds_input (ac_c ac) []"
    and f: "bit (cl_flags s) 6" "\<not> bit (cl_flags s) 2"
  shows "\<exists>ac'. redisProcessCallbacks (Suc k) u ac w = Inr (ac', w) \<and> represents ac' (s\<lparr>cl_replies := cl_replies s @ [None]\<rparr>)"
proof -
  obtain ac1 where ac1: "represents ac1 s" "holds_input (ac_c ac1) []"
    "redisProcessCallbacks (Suc k) u ac w = no_reply u w ac1 None" using no_input_step [OF w r h] by blast
  have "has_flag ac1 REDIS_MONITORING" "\<not> has_flag ac1 REDIS_DISCONNECTING"
    using f representsD(2) [OF ac1(1)] by (simp_all add: flag_bits)
  moreover obtain l where "redisPushCallback (mem_cell w) (ac_replies ac1) None = Inr l"
    "represents (ac1\<lparr>ac_replies := l\<rparr>) (s\<lparr>cl_replies := cl_replies s @ [None]\<rparr>)"
    using push_represents(1) [OF ac1(1) memory_facts(1) [OF w], of None] by blast
  ultimately show ?thesis unfolding ac1(3) no_reply_def by auto
qed

section \<open>Connecting\<close>

definition new_client :: "u32 \<Rightarrow> client" where
  "new_client f = \<lparr>cl_flags = f, cl_unsent = [], cl_replies = [], cl_invalid = [], cl_channels = (\<lambda>_. None),
     cl_patterns = (\<lambda>_. None), cl_ev = (\<lambda>_. False), cl_calls = []\<rparr>"

lemma initialize_ok:
  assumes w: "memory_ok w" and c: "ctx_inv c" "\<not> bit (c_flags c) 0" "unsent c = []"
  shows "\<exists>ac. redisAsyncInitialize w c = Inr ac \<and> represents (redisAsyncCopyError ac) (new_client (c_flags c AND NOT REDIS_CONNECTED))
    \<and> ac_c ac = c\<lparr>c_flags := c_flags c AND NOT REDIS_CONNECTED\<rparr>"
  using memory_facts(5) [OF w] c init_callbacks(1) init_empty empty_holds_list
  by (auto simp: redisAsyncInitialize_def dictCreate_def redisAsyncCopyError_def represents_def new_client_def clear_bits)

lemma async_connect_ok:
  assumes w: "memory_ok w"
  shows "\<exists>ac w' f. redisAsyncConnect w resolved = Inr (ac, w') \<and> memory_ok w' \<and> represents ac (new_client f)
    \<and> \<not> bit f 1 \<and> ac_err ac = c_err (ac_c ac) \<and> (ac_err ac = 0 \<longrightarrow> holds_input (ac_c ac) [])"
proof -
  from new_context [OF w] obtain c r where
    c: "redisContextInit w = Inr (Some c)" "ctx_inv c" "c_flags c = 0" "c_err c = 0" "unsent c = []" "c_reader c = Some r"
    and r: "reader_inv r" "r_err r = 0" "ridx (r_tasks r) = -1" "unread r = []" by blast
  have fl: "c\<lparr>c_flags := c_flags c AND NOT REDIS_BLOCK\<rparr> = c" using c(3) by simp
  obtain c' w' ok where m: "redisContextConnectTcp c w resolved None = (c', w', ok)"
    by (cases "redisContextConnectTcp c w resolved None")
  note k = connect_ctx [OF c(2,6) r(2) m]
  have z: "\<not> bit (c_flags c') 0" using k(2) c(3) by simp
  have w': "memory_ok w'" using same_memory_ok [OF w k(3)] .
  from initialize_ok [OF w' k(1) z] k(5) c(5) obtain ac where
    ac: "redisAsyncInitialize w' c' = Inr ac" "represents (redisAsyncCopyError ac) (new_client (c_flags c' AND NOT REDIS_CONNECTED))"
    "ac_c ac = c'\<lparr>c_flags := c_flags c' AND NOT REDIS_CONNECTED\<rparr>" by auto
  have "redisConnectNonBlock w resolved = Inr (c', w')"
    by (simp only: redisConnectNonBlock_def init_and_connect_def c(1) bind_res.simps option.case if_False Let_def fl m prod.case)
  then have "redisAsyncConnect w resolved = Inr (redisAsyncCopyError ac, w')"
    using ac(1) by (simp add: redisAsyncConnect_def)
  moreover have "holds_input (ac_c (redisAsyncCopyError ac)) []" if "c_err c' = 0"
    using that ac(3) k(1,4) waiting_closed [OF r(1-3)] r(4) by (simp add: holds_input_def redisAsyncCopyError_def)
  ultimately show ?thesis
    using w' ac(2,3) by (intro exI [of _ "redisAsyncCopyError ac"] exI [of _ w'] exI [of _ "c_flags c' AND NOT REDIS_CONNECTED"])
      (simp add: clear_bits redisAsyncCopyError_def)
qed

text \<open>A connection that fails: \<open>redisCheckSocketError\<close> closes the socket, and so does \<open>redisFree\<close>.\<close>

lemma connect_failure_ok:
  assumes u: "user_ok u" and w: "memory_ok w" and r: "represents ac s" and f: "\<not> bit (cl_flags s) 4"
    and q: "cl_replies s = map Some rs" "cl_invalid s = map Some is"
    and e: "next_ret w \<noteq> -1" "next_errno w \<noteq> 0" "next_errno w \<noteq> EINPROGRESS" "fst (w_ret w (Suc (w_now w))) \<noteq> -1"
    and fd: "0 < c_fd (ac_c ac)"
  shows "\<exists>ac' w'. redisAsyncHandleConnect u ac w = Inr (ac', w', False) \<and> ac_freed ac'
    \<and> closed (w_calls w') = closed (w_calls w) @ [c_fd (ac_c ac), c_fd (ac_c ac)]"
proof -
  let ?fd = "c_fd (ac_c ac)"
  define w1 where "w1 = sys (SysClose ?fd) ((sys (SysGetsockopt ?fd) w)\<lparr>w_errno := next_errno w\<rparr>)"
  define c1 where "c1 = redisSetErrorFromErrno ((sys (SysGetsockopt ?fd) w)\<lparr>w_errno := next_errno w\<rparr>) (ac_c ac) REDIS_ERR_IO None"
  have k: "redisCheckSocketError (ac_c ac) w ?fd = (c1, w1, False)"
    using e(1,2) by (simp add: redisCheckSocketError_def fail_close_def Let_def w1_def c1_def)
  have w1: "memory_ok w1" "closed (w_calls w1) = closed (w_calls w) @ [?fd]"
    using w by (simp_all add: w1_def memory_ok_def sys_def)
  have en: "w_errno w1 = next_errno w" using e(4) by (simp add: w1_def sys_def next_ret_def)
  have c1: "c_err c1 = REDIS_ERR_IO" "c_flags c1 = ac_flags ac" "c_fd c1 = ?fd"
    by (simp_all add: c1_def redisSetErrorFromErrno_def Let_def)
  let ?ac = "set_flag REDIS_DISCONNECTING (redisAsyncCopyError (run_connect False (ac\<lparr>ac_c := c1\<rparr>)))"
  have fields: "ac_flags ?ac = ac_flags ac OR REDIS_DISCONNECTING" "ac_replies ?ac = ac_replies ac" "ac_invalid ?ac = ac_invalid ac"
    "ac_channels ?ac = ac_channels ac" "ac_patterns ?ac = ac_patterns ac" "c_fd (ac_c ?ac) = ?fd"
    using c1 by (auto simp: set_flag_def redisAsyncCopyError_def run_connect_def called_def split: option.split)
  have cl: "closing ?ac" "\<not> bit (ac_flags ?ac) 4"
    using f representsD(2) [OF r] unfolding fields(1) by (simp_all add: set_bits)
  have h: "list_holds (ac_replies ?ac) (map Some rs)" "list_holds (ac_invalid ?ac) (map Some is)"
    "dict_ok (ac_channels ?ac)" "dict_ok (ac_patterns ?ac)"
    using representsD(4-7) [OF r] q unfolding fields by simp_all
  from free_ok [OF u w1(1) cl h] obtain ac' ok where
    fr: "redisAsyncFree_now u ?ac w1 = Inr (ac', closed_socket ?ac w1)" "ac_freed ac'" by blast
  have er: "ac_err (redisAsyncCopyError (run_connect False (ac\<lparr>ac_c := c1\<rparr>))) \<noteq> 0"
    using c1 by (auto simp: redisAsyncCopyError_def run_connect_def called_def REDIS_ERR_IO_def split: option.split)
  have "redisAsyncHandleConnect u ac w = Inr (ac', closed_socket ?ac w1, False)"
    using k en e(3) er fr(1) by (simp add: redisAsyncHandleConnect_def redisAsyncDisconnect_now_def Let_def)
  moreover have "closed (w_calls (closed_socket ?ac w1)) = closed (w_calls w1) @ [?fd]"
    using fd fields(6) by (simp add: closed_socket_def sys_def)
  ultimately show ?thesis using fr(2) w1(2) by simp
qed

end
