(* ===== verification/Async_Properties.thy ===== *)
theory Async_Properties
  imports Async_Events
begin

text \<open>
  Properties of the asynchronous context, with concrete contexts for their witnesses.
\<close>

section \<open>A context for concrete runs\<close>

text \<open>Connected, with the input \<open>x\<close> in its reader, at most one pending callback and a dictionary of channels.\<close>

definition one_list :: "redisCallback \<Rightarrow> redisCallbackList" where
  "one_list cb = \<lparr>l_head = Some 0, l_tail = Some 0, l_cells = [0 \<mapsto> \<lparr>cell_next = None, cell_cb = Some cb\<rparr>], l_fresh = 1\<rparr>"

lemma one_list_holds: "list_holds (one_list cb) [Some cb]"
  by (auto simp: list_holds_def one_list_def intro!: exI [of _ "[0]"])

definition demo_async :: "u32 \<Rightarrow> string \<Rightarrow> redisCallbackList \<Rightarrow> callbacks \<Rightarrow> redisAsyncContext" where
  "demo_async f x l d = \<lparr>ac_c = demo_context\<lparr>c_fd := 5, c_flags := f, c_reader := Some (idle_reader x)\<rparr>, ac_err = 0, ac_errstr = True,
     ac_ev = (\<lambda>h. h = Cleanup), ac_onDisconnect = Some 9, ac_onConnect = None, ac_replies = l, ac_invalid = empty_list,
     ac_channels = d, ac_patterns = dictInit callbackDict, ac_calls = [], ac_freed = False\<rparr>"

definition demo_client :: "u32 \<Rightarrow> redisCallback option list \<Rightarrow> (string \<Rightarrow> redisCallback option) \<Rightarrow> client" where
  "demo_client f xs m = \<lparr>cl_flags = f, cl_unsent = [], cl_replies = xs, cl_invalid = [], cl_channels = m,
     cl_patterns = (\<lambda>_. None), cl_ev = (\<lambda>h. h = Cleanup), cl_calls = []\<rparr>"

lemma no_patterns: "callback_of (dictInit callbackDict) = (\<lambda>_. None)"
  by (rule ext) (rule init_empty)

lemma demo_represents:
  assumes "list_holds l xs" "dict_ok d" "\<not> bit f 0"
  shows "represents (demo_async f x l d) (demo_client f xs (callback_of d))"
    and "holds_input (ac_c (demo_async f x l d)) x"
proof -
  have "ctx_inv demo_context" using demo_idle by (simp add: ctx_idle_def)
  then have c: "ctx_inv (ac_c (demo_async f x l d))"
    by (auto simp: demo_async_def ctx_inv_def idle_reader_inv)
  with assms show "represents (demo_async f x l d) (demo_client f xs (callback_of d))"
    using demo_facts(1) empty_holds_list init_callbacks(1) no_patterns
    by (simp add: represents_def demo_async_def demo_client_def unsent_def)
  have "waiting (idle_reader x)"
    using waiting_closed idle_reader_inv by (simp add: idle_reader_def no_tasks_def)
  with c show "holds_input (ac_c (demo_async f x l d)) x"
    by (simp add: holds_input_def demo_async_def demo_context_def idle_reader_inv)
qed

definition demo_user :: user where
  "demo_user = \<lparr>u_does = (\<lambda>h fn pd x. [ActCommandArgv (Some 2) pd [''PING'' @ [NUL]]]), u_printf = (\<lambda>_ _. [])\<rparr>"

lemma ping_kind: "kind_of [''PING''] = Plain"
  by (simp add: kind_of_def named_def is_pvariant_def c_tolower_def schar_def)

lemma demo_user_facts: "user_ok demo_user" "user_sends demo_user"
proof -
  have "cstr [CHR 0x50, CHR 0x49, CHR 0x4E, CHR 0x47, NUL] = ''PING''" using cstr_append_NUL [of "''PING''" "[]"] by simp
  then show "user_ok demo_user" "user_sends demo_user"
    using ping_kind by (simp_all add: user_ok_def user_sends_def demo_user_def sends_def is_command_def args_ok_def)
qed

definition demo_channels :: callbacks where
  "demo_channels = fst (projr (dictReplace dict_memory (dictInit callbackDict) (name_key ''news'') \<lparr>cb_fn = Some 1, cb_privdata = 4\<rparr>))"

lemma demo_channels_facts:
  "dict_ok demo_channels" "callback_of demo_channels = [''news'' \<mapsto> \<lparr>cb_fn = Some 1, cb_privdata = 4\<rparr>]"
proof -
  let ?cb = "\<lparr>cb_fn = Some 1, cb_privdata = 4\<rparr>" and ?w = "demo_world []"
  have s: "sds_inv (name_key ''news'')" by (simp add: sds_inv_def name_key_def)
  have n: "dict_num (dictInit callbackDict) < 2 ^ 31" by (simp add: dict_num_def dictInit_def dictReset_def)
  have m: "mem_dict ?w = dict_memory" by (simp add: mem_dict_def demo_world_def dict_memory_def)
  from put_callback [OF init_callbacks(1) demo_memory n s, of "[]" ?cb] obtain d' r fs where
    "dictReplace dict_memory (dictInit callbackDict) (name_key ''news'') ?cb = Inr (d', r, fs)" "dict_ok d'"
    "callback_of d' = (callback_of (dictInit callbackDict))(''news'' \<mapsto> ?cb)" by (auto simp: m name_key_facts)
  then show "dict_ok demo_channels" "callback_of demo_channels = [''news'' \<mapsto> ?cb]"
    by (simp_all add: demo_channels_def no_patterns)
qed

section \<open>Properties\<close>

text \<open>C19: \<open>nextArgument\<close> walks every encoded command: called until it returns NULL, it gives exactly the arguments, whatever
  bytes they hold.\<close>

theorem arguments_walked:
  assumes "args_ok args" "length args < n"
  shows "walk n (encode (command_reply args) @ [NUL]) 0 = Inr args"
  unfolding command_bytes_encode using assms by (intro walk_command) (auto simp: args_ok_def)

theorem arguments_walked_witness:
  "walk 3 (encode (command_reply [''GET'', ''$5'' @ CRLF]) @ [NUL]) 0 = Inr [''GET'', ''$5'' @ CRLF]"
  by (rule arguments_walked) (simp_all add: args_ok_def)

text \<open>C17: \<open>redisAsyncCommandArgv\<close> implements the command of the abstract client: it is refused on a context that is being
  closed and for an unsubscription without a subscription; otherwise exactly the encoded command is
  queued to be sent, and the callback goes to the channels or patterns a subscription names, to the
  pending replies, or to the commands that are invalid while subscribed.\<close>

theorem async_command_refines:
  assumes "represents ac s" "memory_ok w" "\<forall>a \<in> set argv. NUL \<in> set a" "args_ok (map cstr argv)" "room_for (map cstr argv) ac"
  shows "\<exists>ac'. redisAsyncCommandArgv ac w fn pd argv None
      = Inr (ac', snd (cl_command (map cstr argv) \<lparr>cb_fn = fn, cb_privdata = pd\<rparr> s))
    \<and> represents ac' (fst (cl_command (map cstr argv) \<lparr>cb_fn = fn, cb_privdata = pd\<rparr> s))"
proof -
  have "map cstr argv = map (\<lambda>(a, n). take n a) (map (\<lambda>a. (a, length (cstr a))) argv)"
    by (simp add: cstr_take o_def)
  from argv_ok [OF memory_facts(3) [OF assms(2)] with_lengths_strlen [OF assms(3)] _ _ this] memory_facts(4) [OF assms(2)]
  have "redisFormatCommandArgv (w_alloc w (w_now w)) argv None
      = Inr (Some (command_bytes (map cstr argv) @ [NUL], length (command_bytes (map cstr argv))))"
    by (auto simp: al_total_def cstr_def length_takeWhile_le)
  with command_refines [OF assms(1,2,4,5), of fn pd] show ?thesis
    by (auto simp: redisAsyncCommandArgv_def)
qed

theorem async_command_refines_witness:
  "\<exists>ac'. redisAsyncCommandArgv (demo_async 2 [] empty_list (dictInit callbackDict)) (demo_world []) (Some 1) 4 [''PING'' @ [NUL]] None
      = Inr (ac', True) \<and> list_holds (ac_replies ac') [Some \<lparr>cb_fn = Some 1, cb_privdata = 4\<rparr>]
    \<and> unsent (ac_c ac') = encode (command_reply [''PING''])"
proof -
  have c: "cstr [CHR 0x50, CHR 0x49, CHR 0x4E, CHR 0x47, NUL] = ''PING''" using cstr_append_NUL [of "''PING''" "[]"] by simp
  have b: "\<not> bit (2 :: u32) 0" "\<not> bit (2 :: u32) 2" "\<not> bit (2 :: u32) 3" "\<not> bit (2 :: u32) 5" by simp_all
  note r = demo_represents(1) [OF empty_holds_list init_callbacks(1) b(1), of "[]"]
  from async_command_refines [OF r demo_memory, of "[''PING'' @ [NUL]]" "[]" "Some 1" 4]
  show ?thesis
    using c ping_kind b
    by (auto simp: args_ok_def room_for_def cl_command_def cl_register_def cl_send_def cl_hook_def demo_client_def represents_def
        simp del: encode.simps)
qed

text \<open>C14: when the kernel delivers complete replies for pending commands, the read event runs the callbacks of the
  oldest commands, in the order of the commands, each with its own reply and once, even if callbacks send
  further commands; their callbacks are queued behind those still pending, and the context waits for more.\<close>

theorem replies_in_order:
  assumes "user_sends u" "memory_ok w" "represents ac s" "quiet (cl_flags s)" "bit (cl_flags s) 1" "holds_input (ac_c ac) []"
    and "next_ret w \<noteq> -1" "next_bytes w = concat (map encode xs)" "xs \<noteq> []" "length (concat (map encode xs)) \<le> 16384"
    and "\<forall>x \<in> set xs. wire_ok 8 x" "cl_replies s = map Some cbs" "length xs \<le> length cbs" "length xs < n"
  shows "\<exists>ac' s' new. redisAsyncHandleRead n u ac w = Inr (ac', sys (SysRead (c_fd (ac_c ac))) w)
    \<and> represents ac' s' \<and> holds_input (ac_c ac') [] \<and> cl_flags s' = cl_flags s
    \<and> cl_replies s' = map Some (drop (length xs) cbs @ new)
    \<and> runs (cl_calls s') = runs (cl_calls s) @ concat (map2 (\<lambda>cb x. run_of cb (Some x)) cbs xs)"
  using handle_read_ok [OF assms] by blast

theorem replies_in_order_witness:
  "\<exists>ac' w'. redisAsyncHandleRead 2 demo_user (demo_async 2 [] (one_list \<lparr>cb_fn = Some 1, cb_privdata = 4\<rparr>) (dictInit callbackDict))
        (demo_world [(4, 0, '':7'' @ CRLF)]) = Inr (ac', w')
     \<and> runs (ac_calls ac') = [RunCallback 1 4 (Some (RInteger 7))]"
proof -
  let ?cb = "\<lparr>cb_fn = Some 1, cb_privdata = 4\<rparr>" and ?w = "demo_world [(4, 0, '':7'' @ CRLF)]"
  let ?ac = "demo_async 2 [] (one_list ?cb) (dictInit callbackDict)"
  have b: "\<not> bit (2 :: u32) 0" "bit (2 :: u32) 1" "quiet 2" by (simp_all add: quiet_def)
  note r = demo_represents [where x = "[]", OF one_list_holds [of ?cb] init_callbacks(1) b(1)]
  have x: "encode (RInteger 7) = '':7'' @ CRLF" by code_simp
  have io: "next_ret ?w \<noteq> -1" "next_bytes ?w = concat (map encode [RInteger 7])" "length (concat (map encode [RInteger 7])) \<le> 16384"
    by (simp_all add: x demo_world_def next_ret_def next_bytes_def del: encode.simps)
  have c: "cl_flags (demo_client 2 [Some ?cb] m) = 2" "cl_replies (demo_client 2 [Some ?cb] m) = map Some [?cb]"
    "cl_calls (demo_client 2 [Some ?cb] m) = []" for m by (simp_all add: demo_client_def)
  from replies_in_order [OF demo_user_facts(2) demo_memory r(1) _ _ r(2) io(1,2) _ io(3) _ c(2), of 2] b c(1,3)
  show ?thesis by (auto simp: run_of_def runs_def represents_def)
qed

text \<open>C15: \<open>redisAsyncFree\<close> outside a callback runs every pending callback exactly once with a NULL reply, the oldest first,
  then those of invalid commands, then the callback of every subscribed channel and pattern once; whatever
  these callbacks ask for, nothing new is started. Then come the clean-up hook and the disconnect callback
  with REDIS_OK, and the socket is closed.\<close>

theorem free_runs_all_once:
  assumes "user_ok u" "memory_ok w" "represents ac s" "\<not> bit (cl_flags s) 4"
    and "cl_replies s = map Some rs" "cl_invalid s = map Some is"
  shows "\<exists>ac' chs pts. redisAsyncFree u ac w = Inr (ac', closed_socket ac w) \<and> ac_freed ac'
    \<and> ac_calls ac' = cl_calls s @ run_all (rs @ is @ chs @ pts) @ (if cl_ev s Cleanup then [CallHook Cleanup] else [])
        @ (case ac_onDisconnect ac of Some fn \<Rightarrow> if bit (cl_flags s) 1 then [OnDisconnect fn True] else [] | None \<Rightarrow> [])
    \<and> (\<exists>names. distinct names \<and> (\<forall>x. x \<in> set names \<longleftrightarrow> cl_channels s x \<noteq> None) \<and> map Some chs = map (cl_channels s) names)
    \<and> (\<exists>names. distinct names \<and> (\<forall>x. x \<in> set names \<longleftrightarrow> cl_patterns s x \<noteq> None) \<and> map Some pts = map (cl_patterns s) names)"
proof -
  note r = representsD [OF assms(3)]
  let ?ac = "set_flag REDIS_FREEING ac"
  have c: "closing ?ac" "\<not> bit (ac_flags ?ac) 4" "bit (ac_flags ?ac) 3" using assms(4) r(2) by (simp_all add: set_bits)
  have h: "list_holds (ac_replies ?ac) (map Some rs)" "list_holds (ac_invalid ?ac) (map Some is)"
    "dict_ok (ac_channels ?ac)" "dict_ok (ac_patterns ?ac)" using r assms(5,6) by simp_all
  from free_ok [OF assms(1,2) c(1,2) h] c(3) obtain ac' where
    f: "redisAsyncFree_now u ?ac w = Inr (ac', closed_socket ?ac w)" "ac_freed ac'"
    "ac_calls ac' = ac_calls ?ac @ farewell ?ac rs is True" by auto
  have cs: "closed_socket ?ac w = closed_socket ac w" by (simp add: closed_socket_def set_flag_def)
  have fr: "redisAsyncFree u ac w = Inr (ac', closed_socket ac w)"
    using f(1) c(2) by (simp add: redisAsyncFree_def flag_bits Let_def cs del: set_flag_fields)
  have ev: "ac_ev ?ac = cl_ev s" "ac_onDisconnect ?ac = ac_onDisconnect ac" "ac_flags ?ac = cl_flags s OR REDIS_FREEING"
    using r by (simp_all add: set_flag_def)
  have conn: "has_flag ?ac REDIS_CONNECTED = bit (cl_flags s) 1" unfolding flag_bits ev(3) by (simp add: set_bits)
  have calls: "ac_calls ac' = cl_calls s @ run_all (rs @ is @ callbacks_in (ac_channels ac) @ callbacks_in (ac_patterns ac))
      @ (if cl_ev s Cleanup then [CallHook Cleanup] else [])
      @ (case ac_onDisconnect ac of Some fn \<Rightarrow> if bit (cl_flags s) 1 then [OnDisconnect fn True] else [] | None \<Rightarrow> [])"
    using f(3) r ev(1,2) unfolding farewell_def conn by simp
  have n: "\<exists>names. distinct names \<and> (\<forall>x. x \<in> set names \<longleftrightarrow> cl_channels s x \<noteq> None)
      \<and> map Some (callbacks_in (ac_channels ac)) = map (cl_channels s) names"
    "\<exists>names. distinct names \<and> (\<forall>x. x \<in> set names \<longleftrightarrow> cl_patterns s x \<noteq> None)
      \<and> map Some (callbacks_in (ac_patterns ac)) = map (cl_patterns s) names"
    using callbacks_in_names [OF r(6)] callbacks_in_names [OF r(7)] unfolding r(8,9) by metis+
  show ?thesis using fr f(2) calls n by blast
qed

theorem free_runs_all_once_witness:
  "\<exists>ac' w'. redisAsyncFree demo_user (demo_async 2 [] (one_list \<lparr>cb_fn = Some 3, cb_privdata = 8\<rparr>) demo_channels) (demo_world [])
      = Inr (ac', w')
     \<and> ac_calls ac' = [RunCallback 3 8 None, RunCallback 1 4 None, CallHook Cleanup, OnDisconnect 9 True]"
proof -
  let ?cb = "\<lparr>cb_fn = Some 3, cb_privdata = 8\<rparr>"
  let ?ac = "demo_async 2 [] (one_list ?cb) demo_channels"
  have b: "\<not> bit (2 :: u32) 0" "bit (2 :: u32) 1" "\<not> bit (2 :: u32) 4" by simp_all
  note r = demo_represents(1) [where x = "[]", OF one_list_holds [of ?cb] demo_channels_facts(1) b(1)]
  have c: "cl_flags (demo_client 2 [Some ?cb] m) = 2" "cl_replies (demo_client 2 [Some ?cb] m) = map Some [?cb]"
    "cl_invalid (demo_client 2 [Some ?cb] m) = map Some []" "cl_calls (demo_client 2 [Some ?cb] m) = []"
    "cl_channels (demo_client 2 [Some ?cb] m) = m" "cl_patterns (demo_client 2 [Some ?cb] m) = (\<lambda>_. None)"
    "cl_ev (demo_client 2 [Some ?cb] m) Cleanup" for m by (simp_all add: demo_client_def)
  have od: "ac_onDisconnect ?ac = Some 9" by (simp add: demo_async_def)
  from free_runs_all_once [OF demo_user_facts(1) demo_memory [of "[]"] r _ c(2,3)] b c(1)
  obtain ac' chs pts where f: "redisAsyncFree demo_user ?ac (demo_world []) = Inr (ac', closed_socket ?ac (demo_world []))"
    "ac_calls ac' = run_all ([?cb] @ [] @ chs @ pts) @ [CallHook Cleanup] @ [OnDisconnect 9 True]"
    and n: "\<exists>names. distinct names \<and> (\<forall>x. x \<in> set names \<longleftrightarrow> callback_of demo_channels x \<noteq> None) \<and> map Some chs = map (callback_of demo_channels) names"
    "\<exists>names. distinct names \<and> (\<forall>x. x \<in> set names \<longleftrightarrow> (\<lambda>_. None :: redisCallback option) x \<noteq> None) \<and> map Some pts = map (\<lambda>_. None) names"
    using c(4-7) [of "callback_of demo_channels"] od by auto
  from n(1) obtain names where nm: "distinct names" "\<forall>x. x \<in> set names \<longleftrightarrow> x = ''news''"
    "map Some chs = map (callback_of demo_channels) names" unfolding demo_channels_facts(2) by (auto split: if_splits)
  then have "set names = {''news''}" by auto
  with nm(1) have "names = [''news'']" by (cases names) (auto simp: subset_singleton_iff)
  with nm(3) have "map Some chs = [Some \<lparr>cb_fn = Some 1, cb_privdata = 4\<rparr>]" unfolding demo_channels_facts(2) by simp
  then have "chs = [\<lparr>cb_fn = Some 1, cb_privdata = 4\<rparr>]" by (cases chs) auto
  moreover have "pts = []" using n(2) by auto
  ultimately show ?thesis using f by (auto simp: run_of_def)
qed

text \<open>C18: in a subscribed context without pending replies, a message runs the callback of its channel or pattern with
  the whole message; the end of a subscription also removes that name's callback, and no other, and the
  last one ends the subscribed mode.\<close>

theorem message_reaches_subscriber:
  assumes "user_sends u" "memory_ok w" "represents ac s" "cl_replies s = []" "bit (cl_flags s) 5" "quiet (cl_flags s)"
    and "holds_input (ac_c ac) (encode (RArray n els))" "wire_ok 8 (RArray n els)"
    and "string_at els 0 = Inr ty" "string_at els 1 = Inr name" "2 \<le> n"
    and "cl_sub (for_pattern ty) s name = Some cb" "ends_subscription ty \<Longrightarrow> element_at els 2 = Inr (RInteger v)"
  shows "\<exists>ac' s'. redisProcessCallbacks (Suc (Suc k)) u ac w = Inr (ac', w) \<and> represents ac' s' \<and> holds_input (ac_c ac') []
    \<and> runs (cl_calls s') = runs (cl_calls s) @ run_of cb (Some (RArray n els))
    \<and> bit (cl_flags s') 5 = (\<not> (ends_subscription ty \<and> v = 0))"
proof -
  let ?x = "Some (RArray n els)" and ?s2 = "cl_message ty name v s"
  from message_ok [OF assms] obtain ac' where
    p: "redisProcessCallbacks (Suc (Suc k)) u ac w = Inr (ac', w)" "represents ac' (cl_callback u cb ?x ?s2)"
    "holds_input (ac_c ac') []" by blast
  have f: "\<not> bit (cl_flags ?s2) 4" "bit (cl_flags ?s2) 5 = (\<not> (ends_subscription ty \<and> v = 0))"
    "cl_calls ?s2 = cl_calls s"
    using assms(5,6) by (auto simp: cl_message_def cl_unsubscribe_def quiet_def Let_def clear_bits)
  with callback_goes_on(1,4) [OF assms(1) f(1), of cb ?x] p show ?thesis by auto
qed

theorem message_reaches_subscriber_witness:
  "\<exists>ac'. redisProcessCallbacks 2 demo_user (demo_async 34 (encode (RArray 3 [Some (RString REDIS_REPLY_STRING ''unsubscribe''),
        Some (RString REDIS_REPLY_STRING ''news''), Some (RInteger 0)])) empty_list demo_channels) (demo_world [])
      = Inr (ac', demo_world []) \<and> \<not> bit (ac_flags ac') 5"
proof -
  let ?els = "[Some (RString REDIS_REPLY_STRING ''unsubscribe''), Some (RString REDIS_REPLY_STRING ''news''), Some (RInteger 0)]"
  have b: "\<not> bit (34 :: u32) 0" "bit (34 :: u32) 5" "quiet 34" by (simp_all add: quiet_def)
  note r = demo_represents [where x = "encode (RArray 3 ?els)", OF empty_holds_list demo_channels_facts(1) b(1)]
  have c: "cl_replies (demo_client 34 [] m) = []" "cl_flags (demo_client 34 [] m) = 34" "cl_channels (demo_client 34 [] m) = m"
    for m by (simp_all add: demo_client_def)
  have ty: "\<not> for_pattern ''unsubscribe''" by (simp add: for_pattern_def c_tolower_def schar_def)
  have cs: "cstr [CHR 0x75, CHR 0x6E, CHR 0x73, CHR 0x75, CHR 0x62, CHR 0x73, CHR 0x63, CHR 0x72, CHR 0x69, CHR 0x62, CHR 0x65, NUL] = ''unsubscribe''"
    using cstr_append_NUL [of "''unsubscribe''" "[]"] by simp
  have en: "ends_subscription ''unsubscribe''" using ty cs by (simp add: ends_subscription_def c_tolower_def schar_def)
  have m: "string_at ?els 0 = Inr ''unsubscribe''" "string_at ?els 1 = Inr ''news''" "element_at ?els 2 = Inr (RInteger 0)"
    by (simp_all add: string_at_def element_at_def)
  have w: "wire_ok 8 (RArray 3 ?els)" by (simp add: REDIS_REPLY_STRING_def)
  let ?s = "demo_client 34 [] (callback_of demo_channels)"
  have c': "cl_sub (for_pattern ''unsubscribe'') ?s ''news'' = Some \<lparr>cb_fn = Some 1, cb_privdata = 4\<rparr>"
    using ty c(3) demo_channels_facts(2) by (simp add: cl_sub_def)
  have f: "bit (cl_flags ?s) 5" "quiet (cl_flags ?s)" using b(2,3) c(2) by simp_all
  have two: "(2 :: u64) \<le> 3" by simp
  from message_reaches_subscriber [OF demo_user_facts(2) demo_memory [of "[]"] r(1) c(1) f r(2) w m(1,2) two c' m(3), of 0]
  obtain ac' s' where "redisProcessCallbacks (Suc (Suc 0)) demo_user (demo_async 34 (encode (RArray 3 ?els)) empty_list demo_channels) (demo_world [])
      = Inr (ac', demo_world [])" "represents ac' s'" "\<not> bit (cl_flags s') 5" using en by auto
  then show ?thesis by (auto simp: numeral_2_eq_2 represents_def)
qed

text \<open>C20: with memory, connecting always yields a well-formed context of a client without commands, not yet connected, whose error is that of
  connecting; without an error it waits for input.\<close>

theorem async_connect_well_formed:
  assumes "memory_ok w"
  shows "\<exists>ac w' f. redisAsyncConnect w resolved = Inr (ac, w') \<and> memory_ok w' \<and> represents ac (new_client f)
    \<and> \<not> has_flag ac REDIS_CONNECTED \<and> ac_err ac = c_err (ac_c ac) \<and> (ac_err ac = 0 \<longrightarrow> holds_input (ac_c ac) [])"
  using async_connect_ok [OF assms, of resolved] by (auto simp: flag_bits represents_def new_client_def)

theorem async_connect_well_formed_witness:
  "\<exists>ac w' f. redisAsyncConnect (demo_world []) (Inr 1) = Inr (ac, w') \<and> represents ac (new_client f)"
  using async_connect_well_formed [OF demo_memory [of "[]"], of "Inr 1"] by blast

text \<open>C36: when a clean disconnect was asked for and the output is sent, the first read event without a complete reply fails an
  assertion if a reply is still to come: the code takes the missing reply for the end.\<close>

theorem disconnect_asserts:
  assumes "memory_ok w" "represents ac s" "holds_input (ac_c ac) []" "bit (cl_flags s) 2" "cl_unsent s = []" "cl_replies s \<noteq> []"
  shows "redisProcessCallbacks (Suc k) u ac w = Inl AssertFailed"
  using pending_disconnect_faults [OF assms] .

theorem disconnect_asserts_witness:
  "redisProcessCallbacks 1 demo_user (demo_async 6 [] (one_list \<lparr>cb_fn = Some 3, cb_privdata = 8\<rparr>) (dictInit callbackDict)) (demo_world [])
    = Inl AssertFailed"
proof -
  have b: "\<not> bit (6 :: u32) 0" "bit (6 :: u32) 2" by simp_all
  note r = demo_represents [where x = "[]", OF one_list_holds [of "\<lparr>cb_fn = Some 3, cb_privdata = 8\<rparr>"] init_callbacks(1) b(1)]
  show ?thesis
    using disconnect_asserts [OF demo_memory [of "[]"] r(1,2), of 0 demo_user] b(2) by (simp add: demo_client_def)
qed

text \<open>C37: a message for a channel without a callback, as the first reply of a read event, makes the code test the function of
  a local variable that nothing has been stored in.\<close>

theorem unknown_channel_faults:
  assumes "memory_ok w" "represents ac s" "cl_replies s = []" "bit (cl_flags s) 5"
    and "holds_input (ac_c ac) (encode (RArray n els))" "wire_ok 8 (RArray n els)"
    and "string_at els 0 = Inr ty" "string_at els 1 = Inr name" "2 \<le> n" "cl_sub (for_pattern ty) s name = None"
  shows "redisProcessCallbacks (Suc k) u ac w = Inl WildPointer"
  using unknown_name_faults [OF assms] .

theorem unknown_channel_faults_witness:
  "redisProcessCallbacks 1 demo_user (demo_async 34 (encode (RArray 2 [Some (RString REDIS_REPLY_STRING ''message''),
        Some (RString REDIS_REPLY_STRING ''other'')])) empty_list demo_channels) (demo_world []) = Inl WildPointer"
proof -
  let ?els = "[Some (RString REDIS_REPLY_STRING ''message''), Some (RString REDIS_REPLY_STRING ''other'')]"
  have b: "\<not> bit (34 :: u32) 0" "bit (34 :: u32) 5" by simp_all
  note r = demo_represents [where x = "encode (RArray 2 ?els)", OF empty_holds_list demo_channels_facts(1) b(1)]
  have c: "cl_replies (demo_client 34 [] m) = []" "cl_flags (demo_client 34 [] m) = 34" "cl_channels (demo_client 34 [] m) = m"
    for m by (simp_all add: demo_client_def)
  have m: "string_at ?els 0 = Inr ''message''" "string_at ?els 1 = Inr ''other''" by (simp_all add: string_at_def element_at_def)
  have w: "wire_ok 8 (RArray 2 ?els)" by (simp add: REDIS_REPLY_STRING_def)
  have ty: "\<not> for_pattern ''message''" by (simp add: for_pattern_def c_tolower_def schar_def)
  show ?thesis
    using unknown_channel_faults [OF demo_memory [of "[]"] r(1) c(1) _ r(2) w m, of 0 demo_user] b(2) c ty demo_channels_facts(2)
    by (simp add: cl_sub_def del: encode.simps)
qed

end
