(* ===== verification/Async_Hooks.thy ===== *)
theory Async_Hooks
  imports Adapters Async_Properties
begin

text \<open>
  Which hooks an asynchronous context calls during its life, whatever the kernel, the server and the
  callbacks of the user do, and what the adapters make of them.
\<close>

section \<open>The interface as a step relation\<close>

inductive api_step :: "user \<Rightarrow> redisAsyncContext \<Rightarrow> redisAsyncContext \<Rightarrow> bool" for u :: user where
  command: "\<not> ac_freed ac \<Longrightarrow> redisAsyncCommand (u_printf u) ac w fn pd format args = Inr (ac', ok) \<Longrightarrow> api_step u ac ac'"
| command_argv: "\<not> ac_freed ac \<Longrightarrow> redisAsyncCommandArgv ac w fn pd argv lens = Inr (ac', ok) \<Longrightarrow> api_step u ac ac'"
| on_connect: "\<not> ac_freed ac \<Longrightarrow> redisAsyncSetConnectCallback ac f = (ac', ok) \<Longrightarrow> api_step u ac ac'"
| on_disconnect: "\<not> ac_freed ac \<Longrightarrow> redisAsyncSetDisconnectCallback ac f = (ac', ok) \<Longrightarrow> api_step u ac ac'"
| free: "\<not> ac_freed ac \<Longrightarrow> redisAsyncFree u ac w = Inr (ac', w') \<Longrightarrow> api_step u ac ac'"
| disconnect: "\<not> ac_freed ac \<Longrightarrow> redisAsyncDisconnect u ac w = Inr (ac', w') \<Longrightarrow> api_step u ac ac'"
| handle_read: "\<not> ac_freed ac \<Longrightarrow> redisAsyncHandleRead n u ac w = Inr (ac', w') \<Longrightarrow> api_step u ac ac'"
| handle_write: "\<not> ac_freed ac \<Longrightarrow> redisAsyncHandleWrite u ac w = Inr (ac', w') \<Longrightarrow> api_step u ac ac'"

inductive api_run :: "user \<Rightarrow> redisAsyncContext \<Rightarrow> redisAsyncContext \<Rightarrow> bool" for u :: user where
  start: "api_run u ac ac"
| further: "api_run u ac ac1 \<Longrightarrow> api_step u ac1 ac2 \<Longrightarrow> api_run u ac ac2"

section \<open>The hooks among the calls\<close>

definition hooks_of :: "call list \<Rightarrow> hook list" where
  "hooks_of cs = concat (map (\<lambda>c. case c of CallHook h \<Rightarrow> [h] | _ \<Rightarrow> []) cs)"

lemma hooks_of_simps [simp]:
  "hooks_of [] = []" "hooks_of (cs @ ds) = hooks_of cs @ hooks_of ds"
  "hooks_of (RunCallback f p x # cs) = hooks_of cs" "hooks_of (OnConnect f ok # cs) = hooks_of cs"
  "hooks_of (OnDisconnect f ok # cs) = hooks_of cs" "hooks_of (CallHook h # cs) = h # hooks_of cs"
  by (simp_all add: hooks_of_def)

text \<open>\<open>stays\<close>: the context lives on and no clean-up was called. \<open>ends\<close>: it is freed, and the clean-up, if it
  is set, was the last hook. \<open>same\<close>: nothing was called.\<close>

definition same_life :: "redisAsyncContext \<Rightarrow> redisAsyncContext \<Rightarrow> bool" where
  "same_life ac ac' \<longleftrightarrow> ac_ev ac' = ac_ev ac \<and> ac_freed ac' = ac_freed ac \<and> ac_calls ac' = ac_calls ac"

definition stays :: "redisAsyncContext \<Rightarrow> redisAsyncContext \<Rightarrow> bool" where
  "stays ac ac' \<longleftrightarrow> ac_ev ac' = ac_ev ac \<and> ac_freed ac' = ac_freed ac
     \<and> (\<exists>hs. hooks_of (ac_calls ac') = hooks_of (ac_calls ac) @ hs \<and> Cleanup \<notin> set hs)"

definition ends :: "redisAsyncContext \<Rightarrow> redisAsyncContext \<Rightarrow> bool" where
  "ends ac ac' \<longleftrightarrow> ac_ev ac' = ac_ev ac \<and> ac_freed ac'
     \<and> (\<exists>hs. hooks_of (ac_calls ac') = hooks_of (ac_calls ac) @ hs @ (if ac_ev ac Cleanup then [Cleanup] else [])
            \<and> Cleanup \<notin> set hs)"

definition lives :: "redisAsyncContext \<Rightarrow> redisAsyncContext \<Rightarrow> bool" where
  "lives ac ac' \<longleftrightarrow> stays ac ac' \<or> ends ac ac'"

lemma same_stays: "same_life ac ac' \<Longrightarrow> stays ac ac'"
  by (simp add: same_life_def stays_def)

lemma same_life_refl [simp]: "same_life ac ac"
  by (simp add: same_life_def)

lemma stays_refl [simp]: "stays ac ac"
  by (simp add: same_stays)

lemma stays_trans: "stays a b \<Longrightarrow> stays b c \<Longrightarrow> stays a c"
  by (force simp: stays_def)

lemma stays_ends: "stays a b \<Longrightarrow> ends b c \<Longrightarrow> ends a c"
  unfolding stays_def ends_def by (elim conjE exE) (intro conjI, simp, simp, force)

lemma stays_lives: "stays a b \<Longrightarrow> lives b c \<Longrightarrow> lives a c"
  unfolding lives_def using stays_trans stays_ends by blast

lemma same_life_updates [simp]:
  "same_life ac (ac\<lparr>ac_c := c\<rparr>)" "same_life ac (ac\<lparr>ac_replies := l\<rparr>)" "same_life ac (ac\<lparr>ac_invalid := l\<rparr>)"
  "same_life ac (ac\<lparr>ac_channels := d\<rparr>)" "same_life ac (ac\<lparr>ac_patterns := d\<rparr>)"
  "same_life ac (ac\<lparr>ac_onConnect := f\<rparr>)" "same_life ac (ac\<lparr>ac_onDisconnect := f\<rparr>)"
  "same_life ac (set_flag g ac)" "same_life ac (clear_flag g ac)" "same_life ac (redisAsyncCopyError ac)"
  "same_life ac (set_sub p d ac)" "same_life ac (put_replies l ac)" "same_life ac (put_invalid l ac)"
  by (simp_all add: same_life_def set_flag_def clear_flag_def redisAsyncCopyError_def set_sub_def
      put_replies_def put_invalid_def)

lemma same_life_trans: "same_life a b \<Longrightarrow> same_life b c \<Longrightarrow> same_life a c"
  by (simp add: same_life_def)

lemma stays_hook: "h \<noteq> Cleanup \<Longrightarrow> stays ac (run_hook h ac)"
  by (simp add: stays_def run_hook_def called_def)

lemma stays_callback: "stays ac (called (RunCallback f p x) ac)"
  by (simp add: stays_def called_def)

lemma stays_connect: "stays ac (run_connect ok ac)"
  by (simp add: stays_def called_def run_connect_def split: option.splits)

section \<open>Every function of the interface\<close>

text \<open>Taking a successful run apart.\<close>

lemma bind_elim: "bind_res m f = Inr r \<Longrightarrow> (\<And>x. m = Inr x \<Longrightarrow> f x = Inr r \<Longrightarrow> P) \<Longrightarrow> P"
  by auto

lemma if_elim: "(if b then x else y) = Inr r \<Longrightarrow> (b \<Longrightarrow> x = Inr r \<Longrightarrow> P) \<Longrightarrow> (\<not> b \<Longrightarrow> y = Inr r \<Longrightarrow> P) \<Longrightarrow> P"
  by (auto split: if_splits)

lemma option_elim:
  "(case x of None \<Rightarrow> a | Some y \<Rightarrow> f y) = Inr r \<Longrightarrow> (x = None \<Longrightarrow> a = Inr r \<Longrightarrow> P) \<Longrightarrow>
     (\<And>y. x = Some y \<Longrightarrow> f y = Inr r \<Longrightarrow> P) \<Longrightarrow> P"
  by (cases x) auto

lemma pair_elim: "(case x of (a, b) \<Rightarrow> f a b) = Inr r \<Longrightarrow> (\<And>a b. x = (a, b) \<Longrightarrow> f a b = Inr r \<Longrightarrow> P) \<Longrightarrow> P"
  by (cases x) auto

lemma reply_elim:
  "(case x of RString t b \<Rightarrow> f t b | RArray n els \<Rightarrow> g n els | RInteger v \<Rightarrow> h v | RNil \<Rightarrow> k) = Inr r \<Longrightarrow>
     (\<And>t b. x = RString t b \<Longrightarrow> f t b = Inr r \<Longrightarrow> P) \<Longrightarrow> (\<And>n els. x = RArray n els \<Longrightarrow> g n els = Inr r \<Longrightarrow> P) \<Longrightarrow>
     (\<And>v. x = RInteger v \<Longrightarrow> h v = Inr r \<Longrightarrow> P) \<Longrightarrow> (x = RNil \<Longrightarrow> k = Inr r \<Longrightarrow> P) \<Longrightarrow> P"
  by (cases x) auto

lemmas run_elims = bind_elim if_elim option_elim pair_elim reply_elim

lemma same_fields:
  "ac_ev ac' = ac_ev ac \<Longrightarrow> ac_freed ac' = ac_freed ac \<Longrightarrow> ac_calls ac' = ac_calls ac \<Longrightarrow> same_life ac ac'"
  by (simp add: same_life_def)

lemma register_same: "register_command w cmd cb ac = Inr (Some ac1) \<Longrightarrow> same_life ac ac1"
  unfolding register_command_def Let_def
  by (elim run_elims) (auto simp: same_life_def set_flag_def simp del: subscribe_loop.simps)

lemma async_cmd_stays: "redisAsyncCmd ac w fn pd cmd len = Inr (ac', ok) \<Longrightarrow> stays ac ac'"
proof -
  assume a: "redisAsyncCmd ac w fn pd cmd len = Inr (ac', ok)"
  show ?thesis
  proof (cases "ac' = ac")
    case False
    with a obtain ac1 c where r: "register_command w cmd \<lparr>cb_fn = fn, cb_privdata = pd\<rparr> ac = Inr (Some ac1)"
      "ac' = run_hook AddWrite (ac1\<lparr>ac_c := c\<rparr>)"
      by (auto simp: redisAsyncCmd_def split: if_splits option.splits)
    have "same_life ac (ac1\<lparr>ac_c := c\<rparr>)" by (rule same_life_trans [OF register_same [OF r(1)]]) simp
    from stays_trans [OF same_stays [OF this] stays_hook] show ?thesis by (simp add: r(2))
  qed simp
qed

lemma command_stays: "redisAsyncCommand pf ac w fn pd format args = Inr (ac', ok) \<Longrightarrow> stays ac ac'"
  by (auto simp: redisAsyncCommand_def redisvAsyncCommand_def dest: async_cmd_stays split: option.splits)

lemma argv_stays: "redisAsyncCommandArgv ac w fn pd argv lens = Inr (ac', ok) \<Longrightarrow> stays ac ac'"
  by (auto simp: redisAsyncCommandArgv_def dest: async_cmd_stays split: option.splits)

lemma action_stays: "run_action u w a ac = Inr ac' \<Longrightarrow> stays ac ac'"
  by (cases a) (auto simp: run_action_def dest: command_stays argv_stays intro: same_stays)

lemma actions_stay: "run_actions u w as ac = Inr ac' \<Longrightarrow> stays ac ac'"
  by (induction as arbitrary: ac) (auto dest: action_stays intro: stays_trans)

lemma callback_stays:
  assumes "redisRunCallback u w ac cb x = Inr ac'"
  shows "stays ac ac'"
proof (cases "cb_fn cb")
  case None
  with assms show ?thesis by (simp add: redisRunCallback_def)
next
  case (Some fn)
  let ?ac = "called (RunCallback fn (cb_privdata cb) x) (set_flag REDIS_IN_CALLBACK ac)"
  from assms Some obtain ac2 as where r: "run_actions u w as ?ac = Inr ac2" "ac' = clear_flag REDIS_IN_CALLBACK ac2"
    by (auto simp: redisRunCallback_def Let_def)
  have "stays ac ?ac" by (rule stays_trans [OF same_stays stays_callback]) simp
  moreover have "stays ?ac ac'" unfolding r(2) by (rule stays_trans [OF actions_stay [OF r(1)]]) (simp add: same_stays)
  ultimately show ?thesis by (rule stays_trans)
qed

lemma drain_list_stays:
  assumes "\<And>l ac. same_life ac (put l ac)"
  shows "drain_list n get put u w ac = Inr ac' \<Longrightarrow> stays ac ac'"
proof (induction n arbitrary: ac)
  case (Suc n)
  show ?case
  proof (cases "ac' = ac")
    case False
    with Suc.prems obtain l f ac1 where r: "redisRunCallback u w (put l ac) f None = Inr ac1"
      "drain_list n get put u w ac1 = Inr ac'" by (auto split: option.splits)
    from stays_trans [OF same_stays [OF assms] stays_trans [OF callback_stays [OF r(1)] Suc.IH [OF r(2)]]]
    show ?thesis .
  qed simp
qed simp

lemma drain_dict_stays: "drain_dict n sub u w ac it = Inr ac' \<Longrightarrow> stays ac ac'"
proof (induction n arbitrary: ac it)
  case (Suc n)
  have step: "stays ac ac'" if "redisRunCallback u w ac cb None = Inr ac1" "drain_dict n sub u w ac1 it1 = Inr ac'" for cb ac1 it1
    using callback_stays [OF that(1)] Suc.IH [OF that(2)] by (rule stays_trans)
  from Suc.prems show ?case
    unfolding drain_dict.simps by (elim run_elims) (simp_all add: step)
qed simp

lemma drain_sub_stays: "drain_sub sub u w ac = Inr ac' \<Longrightarrow> stays ac ac'"
  unfolding drain_sub_def by (elim run_elims) (auto dest: drain_dict_stays simp del: drain_dict.simps)

lemma free_now_ends:
  assumes "redisAsyncFree_now u ac w = Inr (ac', w')"
  shows "ends ac ac'"
proof -
  from assms obtain ac1 ac2 ac3 ac4 where
    r: "drain_list (Suc (l_fresh (ac_replies ac))) ac_replies put_replies u w ac = Inr ac1"
      "drain_list (Suc (l_fresh (ac_invalid ac1))) ac_invalid put_invalid u w ac1 = Inr ac2"
      "drain_sub ac_channels u w ac2 = Inr ac3" "drain_sub ac_patterns u w ac3 = Inr ac4"
    and f: "ac' = (run_disconnect (run_hook Cleanup ac4))\<lparr>ac_freed := True\<rparr>"
    unfolding redisAsyncFree_now_def Let_def
    by (elim bind_elim) (auto simp del: drain_list.simps split: prod.splits)
  have "stays ac ac4"
    using drain_list_stays [of put_replies, OF _ r(1)] drain_list_stays [of put_invalid, OF _ r(2)]
      drain_sub_stays [OF r(3)] drain_sub_stays [OF r(4)] by (auto intro: stays_trans)
  moreover have "ends ac4 ac'"
    by (simp add: f ends_def run_disconnect_def run_hook_def called_def split: option.splits)
  ultimately show ?thesis by (rule stays_ends)
qed

lemma free_lives: "redisAsyncFree u ac w = Inr (ac', w') \<Longrightarrow> lives ac ac'"
proof -
  assume "redisAsyncFree u ac w = Inr (ac', w')"
  then have "redisAsyncFree_now u (set_flag REDIS_FREEING ac) w = Inr (ac', w') \<or> ac' = set_flag REDIS_FREEING ac"
    by (simp add: redisAsyncFree_def Let_def split: if_splits)
  then show ?thesis
    using stays_ends [OF same_stays free_now_ends, of ac "set_flag REDIS_FREEING ac"]
    by (auto simp: lives_def same_stays)
qed

lemma disconnect_now_ends:
  assumes "redisAsyncDisconnect_now u ac w = Inr (ac', w')"
  shows "ends ac ac'"
proof -
  from assms obtain ac1 where "redisAsyncFree_now u ac1 w = Inr (ac', w')" "same_life (redisAsyncCopyError ac) ac1"
    by (auto simp: redisAsyncDisconnect_now_def Let_def split: if_splits)
  then show ?thesis
    using stays_ends [OF same_stays free_now_ends, of ac ac1] same_life_trans [of ac "redisAsyncCopyError ac" ac1] by simp
qed

lemma disconnect_lives: "redisAsyncDisconnect u ac w = Inr (ac', w') \<Longrightarrow> lives ac ac'"
  using stays_ends [OF same_stays disconnect_now_ends, of ac "set_flag REDIS_DISCONNECTING ac"]
  by (auto simp: redisAsyncDisconnect_def Let_def lives_def same_stays split: if_splits)

lemma no_reply_lives: "no_reply u w ac cb = Inr (ac', w') \<Longrightarrow> lives ac ac'"
  by (auto simp: no_reply_def lives_def same_stays dest: disconnect_now_ends split: if_splits)

lemma unsubscribe_same: "unsubscribe p sname els ac = Inr ac' \<Longrightarrow> same_life ac ac'"
  unfolding unsubscribe_def
  by (elim run_elims) (auto simp: same_life_def set_sub_def clear_flag_def split: if_splits)

lemma get_subscribe_same: "redisGetSubscribeCallback w ac x cb = Inr (ac', cb') \<Longrightarrow> same_life ac ac'"
  unfolding redisGetSubscribeCallback_def Let_def
  by (elim run_elims) (auto dest: unsubscribe_same intro: same_fields)

lemma spontaneous_lives:
  assumes "spontaneous u w ac x cb = Inr r"
  shows "case r of Inl (ac', w') \<Rightarrow> ends ac ac' | Inr (ac', cb') \<Rightarrow> same_life ac ac'"
proof -
  have e: "ends ac ac'" if "redisAsyncDisconnect_now u (ac\<lparr>ac_c := c\<rparr>) w = Inr (ac', w')" for ac' w' c
    by (rule stays_ends [OF same_stays disconnect_now_ends [OF that]]) simp
  have g: "case r of Inl (ac', w') \<Rightarrow> ends ac ac' | Inr (ac', cb') \<Rightarrow> same_life ac ac'"
    if "redisGetSubscribeCallback w ac x cb = Inr y" "Inr (Inr y) = (Inr r :: ((redisAsyncContext \<times> world) + _) res)" for x y
    using that get_subscribe_same [of w ac x cb "fst y" "snd y"] by auto
  show ?thesis
    using assms unfolding spontaneous_def
    by (elim run_elims) (auto dest: e g)
qed

lemma callback_for_lives:
  assumes "callback_for u w ac x cb = Inr r"
  shows "case r of Inl (ac', w') \<Rightarrow> ends ac ac' | Inr (ac', cb') \<Rightarrow> same_life ac ac'"
  using assms unfolding callback_for_def
  by (elim bind_elim option_elim pair_elim) (auto dest: spontaneous_lives)

lemma process_lives: "process_replies n u ac w cb = Inr (ac', w') \<Longrightarrow> lives ac ac'"
proof (induction n arbitrary: ac w cb)
  case (Suc n)
  from Suc.prems obtain c w1 x ok where g: "redisGetReply n (ac_c ac) w = Inr (c, w1, x, ok)"
    by (auto simp: bind_res_Inr)
  let ?ac = "ac\<lparr>ac_c := c\<rparr>"
  have k: "stays ac ?ac" by (simp add: same_stays)
  have "lives ?ac ac'"
  proof (cases "ok")
    case False
    with Suc.prems g show ?thesis by (auto simp: lives_def dest: disconnect_now_ends)
  next
    case True
    show ?thesis
    proof (cases x)
      case None
      with Suc.prems g True show ?thesis by (auto dest: no_reply_lives)
    next
      case (Some reply)
      with Suc.prems g True obtain r where r: "callback_for u w1 ?ac reply cb = Inr r"
        "(case r of Inl st \<Rightarrow> Inr st
          | Inr (ac2, cb2) \<Rightarrow> bind_res (the_callback cb2)
              (\<lambda>f. if cb_fn f = None then process_replies n u ac2 w1 cb2
                 else bind_res (redisRunCallback u w1 ac2 f (Some reply))
                   (\<lambda>ac3. if has_flag ac3 REDIS_FREEING then redisAsyncFree_now u ac3 w1
                          else process_replies n u ac3 w1 cb2))) = Inr (ac', w')"
        by auto
      note c = callback_for_lives [OF r(1)]
      show ?thesis
      proof (cases r)
        case (Inl st)
        with r(2) c show ?thesis by (simp add: lives_def)
      next
        case (Inr p)
        obtain ac2 cb2 where p: "p = (ac2, cb2)" by (cases p)
        from c Inr p have s: "stays ?ac ac2" by (simp add: same_stays)
        from r(2) Inr p obtain f where f: "the_callback cb2 = Inr f"
          "(if cb_fn f = None then process_replies n u ac2 w1 cb2
                 else bind_res (redisRunCallback u w1 ac2 f (Some reply))
                   (\<lambda>ac3. if has_flag ac3 REDIS_FREEING then redisAsyncFree_now u ac3 w1
                          else process_replies n u ac3 w1 cb2)) = Inr (ac', w')" by auto
        have "lives ac2 ac'"
        proof (cases "cb_fn f = None")
          case True
          with f(2) Suc.IH show ?thesis by auto
        next
          case False
          with f(2) obtain ac3 where a3: "redisRunCallback u w1 ac2 f (Some reply) = Inr ac3"
            "(if has_flag ac3 REDIS_FREEING then redisAsyncFree_now u ac3 w1
                          else process_replies n u ac3 w1 cb2) = Inr (ac', w')" by auto
          have "lives ac3 ac'"
            using a3(2) Suc.IH [of ac3 w1 cb2] by (auto simp: lives_def dest: free_now_ends split: if_splits)
          with callback_stays [OF a3(1)] show ?thesis by (rule stays_lives)
        qed
        with s show ?thesis by (rule stays_lives)
      qed
    qed
  qed
  with k show ?case by (rule stays_lives)
qed simp

lemma when_connected_lives:
  assumes "when_connected u ac w go = Inr (ac', w')"
    and go: "\<And>ac1 w1. go ac1 w1 = Inr (ac', w') \<Longrightarrow> lives ac1 ac'"
  shows "lives ac ac'"
proof (cases "has_flag ac REDIS_CONNECTED")
  case True
  with assms show ?thesis by (simp add: when_connected_def)
next
  case False
  with assms(1) obtain ac1 w1 ok where h: "redisAsyncHandleConnect u ac w = Inr (ac1, w1, ok)"
    "ac' = ac1 \<or> ok \<and> go ac1 w1 = Inr (ac', w')"
    by (auto simp: when_connected_def split: if_splits)
  obtain c w2 ok2 where k: "redisCheckSocketError (ac_c ac) w (c_fd (ac_c ac)) = (c, w2, ok2)"
    by (cases "redisCheckSocketError (ac_c ac) w (c_fd (ac_c ac))") auto
  let ?ac = "ac\<lparr>ac_c := c\<rparr>"
  have s: "stays ac ?ac" by (simp add: same_stays)
  have "stays ?ac ac1 \<or> ends ?ac ac1 \<and> \<not> ok"
  proof (cases ok2)
    case True
    with h(1) k have "ac1 = run_connect True (set_flag REDIS_CONNECTED ?ac)"
      by (simp add: redisAsyncHandleConnect_def Let_def)
    then show ?thesis using stays_trans [OF same_stays stays_connect, of ?ac "set_flag REDIS_CONNECTED ?ac"] by simp
  next
    case False
    with h(1) k have "ac1 = ?ac \<or> \<not> ok \<and> (\<exists>w3. redisAsyncDisconnect_now u (run_connect False ?ac) w2 = Inr (ac1, w3))"
      by (auto simp: redisAsyncHandleConnect_def Let_def split: if_splits)
    then show ?thesis using stays_ends [OF stays_connect [of ?ac False] disconnect_now_ends, of u w2 ac1] by auto
  qed
  then show ?thesis
    using h(2) go stays_trans [OF s, of ac1] stays_ends [OF s, of ac1] stays_lives [of ac ac1 ac'] by (auto simp: lives_def)
qed

lemma handle_read_lives:
  assumes "redisAsyncHandleRead n u ac w = Inr (ac', w')"
  shows "lives ac ac'"
proof (rule when_connected_lives [OF assms [unfolded redisAsyncHandleRead_def]])
  fix ac1 w1
  assume "bind_res (redisBufferRead (ac_c ac1) w1)
       (\<lambda>(c, w1, ok). let ac2 = ac1\<lparr>ac_c := c\<rparr>
          in if \<not> ok then redisAsyncDisconnect_now u ac2 w1
             else redisProcessCallbacks n u (run_hook AddRead ac2) w1) = Inr (ac', w')"
  then obtain c w2 ok where g: "(if \<not> ok then redisAsyncDisconnect_now u (ac1\<lparr>ac_c := c\<rparr>) w2
      else redisProcessCallbacks n u (run_hook AddRead (ac1\<lparr>ac_c := c\<rparr>)) w2) = Inr (ac', w')"
    by (auto simp: Let_def)
  have k: "stays ac1 (ac1\<lparr>ac_c := c\<rparr>)" by (simp add: same_stays)
  have "lives (ac1\<lparr>ac_c := c\<rparr>) ac'"
    using g stays_lives [OF stays_hook [of AddRead "ac1\<lparr>ac_c := c\<rparr>"] process_lives]
    by (auto simp: lives_def redisProcessCallbacks_def dest: disconnect_now_ends split: if_splits)
  with k show "lives ac1 ac'" by (rule stays_lives)
qed

lemma handle_write_lives:
  assumes "redisAsyncHandleWrite u ac w = Inr (ac', w')"
  shows "lives ac ac'"
proof (rule when_connected_lives [OF assms [unfolded redisAsyncHandleWrite_def]])
  fix ac1 w1
  assume "bind_res (redisBufferWrite (ac_c ac1) w1)
       (\<lambda>(c, w1, ok, written). let ac2 = ac1\<lparr>ac_c := c\<rparr>
          in if \<not> ok then redisAsyncDisconnect_now u ac2 w1
             else Inr (run_hook AddRead (run_hook (if written then DelWrite else AddWrite) ac2), w1)) = Inr (ac', w')"
  then obtain c w2 ok h where g: "(if \<not> ok then redisAsyncDisconnect_now u (ac1\<lparr>ac_c := c\<rparr>) w2
      else Inr (run_hook AddRead (run_hook h (ac1\<lparr>ac_c := c\<rparr>)), w2)) = Inr (ac', w')" "h \<noteq> Cleanup"
    by (fastforce simp: Let_def split: if_splits)
  have k: "stays ac1 (ac1\<lparr>ac_c := c\<rparr>)" by (simp add: same_stays)
  have "lives (ac1\<lparr>ac_c := c\<rparr>) ac'"
    using g stays_trans [OF stays_hook stays_hook, of h AddRead "ac1\<lparr>ac_c := c\<rparr>"]
    by (auto simp: lives_def dest: disconnect_now_ends split: if_splits)
  with k show "lives ac1 ac'" by (rule stays_lives)
qed

lemma step_lives: "api_step u ac ac' \<Longrightarrow> \<not> ac_freed ac \<and> lives ac ac'"
proof (induction rule: api_step.induct)
  case (on_connect ac f ac' ok)
  then show ?case
    using stays_trans [OF same_stays stays_hook, of ac "ac\<lparr>ac_onConnect := f\<rparr>" AddWrite]
    by (auto simp: redisAsyncSetConnectCallback_def lives_def split: if_splits)
next
  case (on_disconnect ac f ac' ok)
  then show ?case by (auto simp: redisAsyncSetDisconnectCallback_def lives_def same_stays split: if_splits)
qed (auto simp: lives_def dest: command_stays argv_stays free_lives [unfolded lives_def]
      disconnect_lives [unfolded lives_def] handle_read_lives [unfolded lives_def] handle_write_lives [unfolded lives_def])

lemma run_lives: "api_run u ac ac' \<Longrightarrow> ac' = ac \<or> lives ac ac'"
proof (induction rule: api_run.induct)
  case (further ac ac1 ac2)
  from step_lives [OF further(2)] have "\<not> ac_freed ac1" "lives ac1 ac2" by simp_all
  moreover from this further(3) have "stays ac ac1" by (auto simp: lives_def ends_def)
  ultimately show ?case using stays_lives by blast
qed simp

section \<open>Properties\<close>

lemma attach_ok:
  "redisAeAttach True False ac = Inr (Some (ac\<lparr>ac_ev := (\<lambda>_. True)\<rparr>, \<lparr>ae_fd = c_fd (ac_c ac), ae_reading = False, ae_writing = False\<rparr>))"
  "redisLibevAttach True False ac = Inr (Some (ac\<lparr>ac_ev := (\<lambda>_. True)\<rparr>,
     \<lparr>lv_reading = False, lv_writing = False, lv_rev = c_fd (ac_c ac), lv_wev = c_fd (ac_c ac)\<rparr>))"
  "redisLibeventAttach True False ac = Inr (Some (ac\<lparr>ac_ev := (\<lambda>_. True)\<rparr>, \<lparr>le_rev = c_fd (ac_c ac), le_wev = c_fd (ac_c ac)\<rparr>))"
  by (simp_all add: redisAeAttach_def redisLibevAttach_def redisLibeventAttach_def)

lemma run_hooks_split:
  assumes "api_run u ac ac'" "\<not> ac_freed ac" "hooks_of (ac_calls ac) = []" "ac_ev ac Cleanup"
  obtains hs where "hooks_of (ac_calls ac') = hs @ (if ac_freed ac' then [Cleanup] else [])" "Cleanup \<notin> set hs"
  using run_lives [OF assms(1)] assms(2-4) unfolding lives_def stays_def ends_def by fastforce

lemma run_adapter:
  assumes "run_hooks (adapter_run hk) hs (fd, st) = Inr s'"
  shows "fst s' = fd \<and> run_hooks hk hs st = Inr (snd s')"
  using assms by (induction hs arbitrary: st) auto

text \<open>C16: whatever the kernel, the server and the callbacks of the user do, a context to which an adapter has been
  attached calls its hooks so that the adapter never uses its container after it was freed: it is freed exactly with
  the context, and until then the event library was last asked for exactly the events the hooks stand for,
  on the socket of the context. This holds for the adapters to ae, libev and libevent alike.\<close>

theorem adapters_follow_context:
  assumes "\<not> ac_freed ac0" "hooks_of (ac_calls ac0) = []"
    and "redisAeAttach True False ac0 = Inr (Some (ac, e))"
    and "redisLibevAttach True False ac0 = Inr (Some (ac, v))"
    and "redisLibeventAttach True False ac0 = Inr (Some (ac, b))"
    and "api_run u ac ac'"
  shows "\<exists>e' v' b' cs ds es. run_hooks ae_hook (hooks_of (ac_calls ac')) (Some e, []) = Inr (e', cs)
      \<and> run_hooks libev_hook (hooks_of (ac_calls ac')) (Some v, []) = Inr (v', ds)
      \<and> run_hooks libevent_hook (hooks_of (ac_calls ac')) (Some b, []) = Inr (b', es)
      \<and> (e' = None \<longleftrightarrow> ac_freed ac') \<and> (v' = None \<longleftrightarrow> ac_freed ac') \<and> (b' = None \<longleftrightarrow> ac_freed ac')
      \<and> asked (c_fd (ac_c ac0)) cs = fold wants (hooks_of (ac_calls ac')) (\<lambda>_. False)
      \<and> asked (c_fd (ac_c ac0)) ds = asked (c_fd (ac_c ac0)) cs \<and> asked (c_fd (ac_c ac0)) es = asked (c_fd (ac_c ac0)) cs"
proof -
  let ?fd = "c_fd (ac_c ac0)" and ?hs = "hooks_of (ac_calls ac')"
  have ac: "ac = ac0\<lparr>ac_ev := (\<lambda>_. True)\<rparr>" and e: "e = \<lparr>ae_fd = ?fd, ae_reading = False, ae_writing = False\<rparr>"
    and v: "v = \<lparr>lv_reading = False, lv_writing = False, lv_rev = ?fd, lv_wev = ?fd\<rparr>"
    and b: "b = \<lparr>le_rev = ?fd, le_wev = ?fd\<rparr>"
    using assms(3-5) by (simp_all add: attach_ok)
  obtain hs where hs: "?hs = hs @ (if ac_freed ac' then [Cleanup] else [])" "Cleanup \<notin> set hs"
    using run_hooks_split [OF assms(6)] assms(1,2) ac by auto
  have w: "adapter_watched (?fd, Some x, []) = (\<lambda>_. False)" and al: "adapter_alive (?fd, Some x, [])"
    for x :: 'x by (auto simp: fun_eq_iff)
  have good: "ae_good (?fd, Some e, [])" "libev_good (?fd, Some v, [])" "libevent_good (?fd, Some b, [])"
    by (simp_all add: ae_good_def libev_good_def libevent_good_def e v b)
  obtain s1 where s1: "run_hooks (adapter_run ae_hook) ?hs (?fd, Some e, []) = Inr s1"
    "adapter_alive s1 \<longleftrightarrow> \<not> ac_freed ac'" "adapter_watched s1 = fold wants ?hs (\<lambda>_. False)"
    using ae.hooks_end [OF good(1) al hs(2), of "ac_freed ac'", folded hs(1)] unfolding w by blast
  obtain s2 where s2: "run_hooks (adapter_run libev_hook) ?hs (?fd, Some v, []) = Inr s2"
    "adapter_alive s2 \<longleftrightarrow> \<not> ac_freed ac'" "adapter_watched s2 = fold wants ?hs (\<lambda>_. False)"
    using libev.hooks_end [OF good(2) al hs(2), of "ac_freed ac'", folded hs(1)] unfolding w by blast
  obtain s3 where s3: "run_hooks (adapter_run libevent_hook) ?hs (?fd, Some b, []) = Inr s3"
    "adapter_alive s3 \<longleftrightarrow> \<not> ac_freed ac'" "adapter_watched s3 = fold wants ?hs (\<lambda>_. False)"
    using libevent.hooks_end [OF good(3) al hs(2), of "ac_freed ac'", folded hs(1)] unfolding w by blast
  obtain e' cs v' ds b' es where p: "s1 = (?fd, e', cs)" "s2 = (?fd, v', ds)" "s3 = (?fd, b', es)"
    using run_adapter [OF s1(1)] run_adapter [OF s2(1)] run_adapter [OF s3(1)] by (cases s1; cases s2; cases s3) auto
  show ?thesis
    using run_adapter [OF s1(1)] run_adapter [OF s2(1)] run_adapter [OF s3(1)] s1(2,3) s2(2,3) s3(2,3) unfolding p by auto
qed

text \<open>A connected context whose user sets a connect callback and then frees it.\<close>

definition demo_attached :: redisAsyncContext where
  "demo_attached = (demo_async 2 [] empty_list (dictInit callbackDict))\<lparr>ac_ev := (\<lambda>_. True)\<rparr>"

lemma demo_life: "\<exists>ac'. api_run demo_user demo_attached ac' \<and> ac_freed ac'"
proof -
  let ?ac = "demo_attached\<lparr>ac_onConnect := Some 7, ac_calls := [CallHook AddWrite]\<rparr>"
  have s: "redisAsyncSetConnectCallback demo_attached (Some 7) = (?ac, True)"
    by (simp add: redisAsyncSetConnectCallback_def demo_attached_def demo_async_def run_hook_def called_def)
  have f: "ac_flags ?ac = 2" "\<not> ac_freed ?ac" "\<not> ac_freed demo_attached" by (simp_all add: demo_attached_def demo_async_def)
  let ?af = "set_flag REDIS_FREEING ?ac"
  have c: "closing ?af" "\<not> bit (ac_flags ?af) 4" using f(1) by (simp_all add: set_bits)
  have h: "list_holds (ac_replies ?af) (map Some [])" "list_holds (ac_invalid ?af) (map Some [])"
    "dict_ok (ac_channels ?af)" "dict_ok (ac_patterns ?af)"
    by (simp_all add: demo_attached_def demo_async_def empty_holds_list init_callbacks(1))
  from free_ok [OF demo_user_facts(1) demo_memory c h] obtain ac' w'
    where "redisAsyncFree_now demo_user ?af (demo_world []) = Inr (ac', w')" "ac_freed ac'" by blast
  then have "redisAsyncFree demo_user ?ac (demo_world []) = Inr (ac', w')"
    using c(2) by (simp add: redisAsyncFree_def flag_bits Let_def del: set_flag_fields)
  from api_run.further [OF api_run.further [OF api_run.start api_step.on_connect [OF f(3) s]] api_step.free [OF f(2) this]]
    \<open>ac_freed ac'\<close> show ?thesis by blast
qed

theorem adapters_follow_context_witness:
  "\<exists>ac' cs. api_run demo_user demo_attached ac' \<and> ac_freed ac'
     \<and> run_hooks ae_hook (hooks_of (ac_calls ac')) (Some \<lparr>ae_fd = 5, ae_reading = False, ae_writing = False\<rparr>, []) = Inr (None, cs)"
proof -
  let ?ac = "demo_async 2 [] empty_list (dictInit callbackDict)"
  obtain ac' where r: "api_run demo_user (?ac\<lparr>ac_ev := (\<lambda>_. True)\<rparr>) ac'" "ac_freed ac'"
    using demo_life by (auto simp: demo_attached_def)
  have a: "\<not> ac_freed ?ac" "hooks_of (ac_calls ?ac) = []" "c_fd (ac_c ?ac) = 5" by (simp_all add: demo_async_def)
  from adapters_follow_context [OF a(1,2) attach_ok r(1)] r a(3) show ?thesis
    by (auto simp: demo_attached_def)
qed

end
