(* ===== verification/Tester.thy ===== *)
theory Tester
  imports Hashtable_Itr
begin

text \<open>
  \<open>hashtable/tester.c\<close>: the test driver of the hash table, which fills a table with 4000 keys, finds, iterates over and removes
  them, and does it again with an iterator; and the typed wrappers of \<open>hashtable.h\<close> it instantiates. A table is
  \<open>filled\<close> if it holds exactly the keys of a set of indices; insertion and removal keep it so.
\<close>

unbundle bit_operations_syntax

section \<open>Keys and values\<close>

record tester_key =
  one_ip :: u32
  two_ip :: u32
  one_port :: "16 word"
  two_port :: "16 word"

record tester_value =
  value_id :: string

type_synonym tester_table = "(tester_key, tester_value) hashtable"
type_synonym tester_itr = "(tester_key, tester_value) hashtable_itr"

definition ITEM_COUNT :: nat where "ITEM_COUNT = 4000"

definition hashfromkey :: "tester_key \<Rightarrow> u32" where
  "hashfromkey k = ((push_bit 17 (one_ip k) OR drop_bit 15 (one_ip k)) XOR two_ip k)
     + (ucast (one_port k) * 17) + (ucast (two_port k) * 13 * 29)"

text \<open>\<open>memcmp\<close> over a structure without padding compares all its members.\<close>

definition equalkeys :: "tester_key \<Rightarrow> tester_key \<Rightarrow> bool" where
  "equalkeys k1 k2 \<longleftrightarrow> one_ip k1 = one_ip k2 \<and> two_ip k1 = two_ip k2 \<and> one_port k1 = one_port k2 \<and> two_port k1 = two_port k2"

text \<open>The four assignments every loop makes for its index.\<close>

definition make_key :: "int \<Rightarrow> tester_key" where
  "make_key i = \<lparr>one_ip = 0xcfccee40 + word_of_int i, two_ip = 0xcf0cee67 - word_of_int (5 * i),
     one_port = word_of_int (22 + 7 * i), two_port = word_of_int (5522 - 3 * i)\<rparr>"

definition a_value :: tester_value where "a_value = \<lparr>value_id = ''a value''\<rparr>"

definition insert_some :: "ht_mem \<Rightarrow> tester_table \<Rightarrow> tester_key \<Rightarrow> tester_value \<Rightarrow> (tester_table \<times> int) res" where
  "insert_some mem h k v = hashtable_insert mem h k v"

definition search_some :: "tester_table \<Rightarrow> tester_key \<Rightarrow> tester_value option" where
  "search_some h k = hashtable_search h k"

definition remove_some :: "tester_table \<Rightarrow> tester_key \<Rightarrow> tester_table \<times> (tester_value \<times> tester_key) option" where
  "remove_some h k = hashtable_remove h k"

definition search_itr_some :: "tester_itr \<Rightarrow> tester_table \<Rightarrow> tester_key \<Rightarrow> tester_itr \<times> int" where
  "search_itr_some i h k = hashtable_iterator_search i h k"

section \<open>The driver\<close>

text \<open>Which allocations succeed: in the two calls to \<open>create_hashtable\<close>, for the keys and values and within the insertions of
  the two rounds, for the key to search with, and for the iterators.\<close>

record tester_env =
  te_create :: "nat \<Rightarrow> bool \<times> bool"
  te_key :: "nat \<Rightarrow> int \<Rightarrow> bool"
  te_value :: "nat \<Rightarrow> int \<Rightarrow> bool"
  te_insert :: "nat \<Rightarrow> int \<Rightarrow> ht_mem"
  te_probe :: "nat \<Rightarrow> bool"
  te_itr :: "nat \<Rightarrow> bool"

text \<open>A part of the program has printed a text and either goes on with a result or has ended with an exit code.\<close>

type_synonym 'a run = "(string \<times> (int + 'a)) res"

definition proceed :: "'a run \<Rightarrow> (string \<Rightarrow> 'a \<Rightarrow> 'b run) \<Rightarrow> 'b run" where
  "proceed m f = bind_res m (\<lambda>(out, r). case r of Inl code \<Rightarrow> Inr (out, Inl code) | Inr x \<Rightarrow> f out x)"

definition indices :: "int list" where
  "indices = map int [0..<ITEM_COUNT]"

fun insertion1 :: "tester_env \<Rightarrow> int list \<Rightarrow> string \<Rightarrow> tester_table \<Rightarrow> tester_table run" where
  "insertion1 env [] out h = Inr (out, Inr h)"
| "insertion1 env (i # is) out h =
     (if \<not> te_key env 0 i then Inr (out @ ''ran out of memory allocating a key'' @ [LF], Inl 1)
      else if \<not> te_value env 0 i then Inl NullDeref
      else bind_res (insert_some (te_insert env 0 i) h (make_key i) a_value)
        (\<lambda>(h1, ret). if ret = 0 then Inr (out, Inl (-1)) else insertion1 env is out h1))"

fun insertion2 :: "tester_env \<Rightarrow> int list \<Rightarrow> string \<Rightarrow> tester_table \<Rightarrow> tester_table run" where
  "insertion2 env [] out h = Inr (out, Inr h)"
| "insertion2 env (i # is) out h =
     (if \<not> te_key env 1 i then Inl NullDeref
      else if \<not> te_value env 1 i then Inl NullDeref
      else bind_res (insert_some (te_insert env 1 i) h (make_key i) a_value)
        (\<lambda>(h1, ret). if ret = 0 then Inr (out @ ''out of memory inserting into second hashtable'' @ [LF], Inl 1)
           else insertion2 env is out h1))"

fun search_all :: "int list \<Rightarrow> string \<Rightarrow> tester_table \<Rightarrow> string" where
  "search_all [] out h = out"
| "search_all (i # is) out h =
     search_all is (if search_some h (make_key i) = None then out @ ''BUG: key not found'' @ [LF] else out) h"

text \<open>The do-while loop over all entries; an iterator that is NULL is only used if the table is not empty.\<close>

fun iterate :: "nat \<Rightarrow> tester_itr \<Rightarrow> tester_table \<Rightarrow> nat \<Rightarrow> (tester_itr \<times> nat) res" where
  "iterate 0 itr h i = Inl OutOfFuel"
| "iterate (Suc n) itr h i =
     bind_res (hashtable_iterator_key itr)
     (\<lambda>kk. bind_res (hashtable_iterator_value itr)
     (\<lambda>v. case hashtable_iterator_advance h itr of
            (itr1, ret) \<Rightarrow> if ret \<noteq> 0 then iterate n itr1 h (i + 1) else Inr (itr1, i + 1)))"

definition iterate_all :: "tester_itr option \<Rightarrow> tester_table \<Rightarrow> (tester_itr option \<times> nat) res" where
  "iterate_all itr h =
     (if 0 < hashtable_count h then
        (case itr of
           None \<Rightarrow> Inl NullDeref
         | Some j \<Rightarrow> bind_res (iterate (unat (hashtable_count h)) j h 0) (\<lambda>(j1, n). Inr (Some j1, n)))
      else Inr (itr, 0))"

text \<open>A search writes to the iterator only if it finds the key.\<close>

definition search_itr_at :: "tester_itr option \<Rightarrow> tester_table \<Rightarrow> tester_key \<Rightarrow> (tester_itr option \<times> int) res" where
  "search_itr_at itr h k =
     (case itr of
        Some j \<Rightarrow> (case search_itr_some j h k of (j1, ret) \<Rightarrow> Inr (Some j1, ret))
      | None \<Rightarrow> if hashtable_search h k = None then Inr (None, 0) else Inl NullDeref)"

fun itr_search_all :: "int list \<Rightarrow> string \<Rightarrow> tester_itr option \<Rightarrow> tester_table \<Rightarrow> (string \<times> tester_itr option) res" where
  "itr_search_all [] out itr h = Inr (out, itr)"
| "itr_search_all (i # is) out itr h =
     bind_res (search_itr_at itr h (make_key i))
     (\<lambda>(itr1, ret).
        itr_search_all is (if ret = 0 then out @ ''BUG: key not found searching with iterator'' else out) itr1 h)"

fun remove_all :: "int list \<Rightarrow> string \<Rightarrow> tester_table \<Rightarrow> string \<times> tester_table" where
  "remove_all [] out h = (out, h)"
| "remove_all (i # is) out h =
     (case remove_some h (make_key i) of
        (h1, found) \<Rightarrow> remove_all is (if found = None then out @ ''BUG: key not found for removal'' @ [LF] else out) h1)"

text \<open>The loop from the last index downwards, in steps of seven.\<close>

function remove_some_by_itr :: "int \<Rightarrow> string \<Rightarrow> tester_itr option \<Rightarrow> tester_table \<Rightarrow> (tester_itr option \<times> tester_table) run" where
  "remove_some_by_itr i out itr h =
     (if i < 0 then Inr (out, Inr (itr, h))
      else
        bind_res (search_itr_at itr h (make_key i))
        (\<lambda>(itr1, ret).
           if ret = 0 then
             Inr (out @ ''BUG: key '' @ dec (nat i) @ '' not found for search preremoval using iterator'' @ [LF], Inl 1)
           else
             (case itr1 of
                None \<Rightarrow> Inl NullDeref
              | Some j \<Rightarrow>
                  bind_res (hashtable_iterator_remove h j)
                  (\<lambda>(h2, j2, ret2, k).
                     if ret2 = 0 then Inr (out @ ''BUG: key not found for removal using iterator'' @ [LF], Inl 1)
                     else remove_some_by_itr (i - 7) out (Some j2) h2))))"
  by pat_completeness auto
termination
  by (relation "measure (\<lambda>(i, _). nat (i + 1))") auto

declare remove_some_by_itr.simps [simp del]

text \<open>The loop that removes at an iterator until it reports the end.\<close>

fun drain :: "nat \<Rightarrow> tester_itr \<Rightarrow> tester_table \<Rightarrow> tester_table res" where
  "drain 0 itr h = Inl OutOfFuel"
| "drain (Suc n) itr h =
     bind_res (hashtable_iterator_remove h itr)
     (\<lambda>(h1, itr1, ret, k). if ret \<noteq> 0 then drain n itr1 h1 else Inr h1)"

definition items_line :: "string \<Rightarrow> tester_table \<Rightarrow> string" where
  "items_line when h = ''After '' @ when @ '', hashtable contains '' @ dec (unat (hashtable_count h)) @ '' items.'' @ [LF]"


text \<open>The two halves of \<open>main\<close>; the second one starts with the iterator the first one leaves. The calls of \<open>free\<close> and of
  \<open>hashtable_destroy\<close> between and behind them change nothing that is used again.\<close>

definition first_round :: "tester_env \<Rightarrow> tester_itr option run" where
  "first_round env =
     (case create_hashtable (fst (te_create env 0)) (snd (te_create env 0)) 16 hashfromkey equalkeys of
        None \<Rightarrow> Inr ([], Inl (-1))
      | Some h \<Rightarrow>
          proceed (insertion1 env indices [] h)
          (\<lambda>out h1.
             let out1 = out @ items_line ''insertion'' h1
             in if \<not> te_probe env 0 then Inr (out1 @ ''ran out of memory allocating a key'' @ [LF], Inl 1)
                else
                  let out2 = search_all indices out1 h1
                  in bind_res (iterate_all (hashtable_iterator (te_itr env 0) h1) h1)
                     (\<lambda>(itr, n). bind_res (itr_search_all indices (out2 @ ''Iterated through '' @ dec n @ '' entries.'' @ [LF]) itr h1)
                     (\<lambda>(out3, itr3). case remove_all indices out3 h1 of
                        (out4, h4) \<Rightarrow> Inr (out4 @ items_line ''removal'' h4, Inr itr3)))))"

definition second_round :: "tester_env \<Rightarrow> string \<Rightarrow> tester_itr option \<Rightarrow> unit run" where
  "second_round env out itr =
     (case create_hashtable (fst (te_create env 1)) (snd (te_create env 1)) 160 hashfromkey equalkeys of
        None \<Rightarrow> Inr (out @ ''out of memory allocating second hashtable'' @ [LF], Inl 1)
      | Some h \<Rightarrow>
          proceed (insertion2 env indices out h)
          (\<lambda>out1 h1.
             let out2 = out1 @ items_line ''insertion'' h1
             in if \<not> te_probe env 1 then Inr (out2 @ ''ran out of memory allocating a key'' @ [LF], Inl 1)
                else
                  proceed (remove_some_by_itr (int ITEM_COUNT - 1) out2 itr h1)
                  (\<lambda>out3 (itr3, h3).
                     case hashtable_iterator (te_itr env 1) h3 of
                       None \<Rightarrow> Inl NullDeref
                     | Some j \<Rightarrow>
                         bind_res (drain (Suc (unat (hashtable_count h3))) j h3)
                         (\<lambda>h4. Inr (out3 @ items_line ''removal'' h4, Inr ())))))"

definition tester_main :: "tester_env \<Rightarrow> (string \<times> int) res" where
  "tester_main env =
     bind_res (proceed (first_round env) (second_round env))
     (\<lambda>(out, r). Inr (out, case r of Inl code \<Rightarrow> code | Inr _ \<Rightarrow> 0))"

section \<open>Tables that hold the keys of a set of indices\<close>

lemma equalkeys_eq: "equalkeys = (=)"
  by (intro ext) (auto simp: equalkeys_def intro: tester_key.equality)

lemma tester_contract: "key_contract hashfromkey equalkeys"
  by (simp add: key_contract_def equalkeys_eq identity_equivp)

definition items :: "int set" where "items = {0..<4000}"

lemma items: "finite items" "card items = 4000" "i \<in> items \<longleftrightarrow> 0 \<le> i \<and> i < 4000"
  by (simp_all add: items_def)

lemma make_key_inj: "inj_on make_key items"
proof (rule inj_onI)
  fix i j assume ij: "i \<in> items" "j \<in> items" "make_key i = make_key j"
  then have "(word_of_int i :: u32) = word_of_int j" by (simp add: make_key_def)
  then have "uint (word_of_int i :: u32) = uint (word_of_int j :: u32)" by (rule arg_cong)
  then have "i mod 2 ^ 32 = j mod 2 ^ 32" by (simp add: uint_word_of_int)
  moreover have "i mod 2 ^ 32 = i" "j mod 2 ^ 32 = j" using ij by (simp_all add: items)
  ultimately show "i = j" by simp
qed

lemma make_key_in: "I \<subseteq> items \<Longrightarrow> i \<in> items \<Longrightarrow> make_key i \<in> make_key ` I \<longleftrightarrow> i \<in> I"
  using inj_on_image_mem_iff [OF make_key_inj] by blast

definition filled :: "tester_table \<Rightarrow> int set \<Rightarrow> bool" where
  "filled h I \<longleftrightarrow> ht_ok h \<and> hashfn h = hashfromkey \<and> eqfn h = equalkeys \<and> I \<subseteq> items \<and> ht_num h = card I
     \<and> (\<forall>k. hashtable_search h k = (if k \<in> make_key ` I then Some a_value else None))"

lemma filledI:
  assumes "ht_ok h" "hashfn h = hashfromkey" "eqfn h = equalkeys" "I \<subseteq> items" "ht_num h = card I"
    "\<And>k. hashtable_search h k = (if k \<in> make_key ` I then Some a_value else None)"
  shows "filled h I"
  using assms unfolding filled_def by blast

lemma filledD:
  assumes "filled h I"
  shows "ht_valid h" "ht_ok h" "ht_inv h" "key_contract (hashfn h) (eqfn h)" "finite I" "I \<subseteq> items"
    "hashfn h = hashfromkey" "eqfn h = equalkeys" "ht_num h = card I"
    "hashtable_search h k = (if k \<in> make_key ` I then Some a_value else None)"
proof -
  show ok: "ht_ok h" and f: "hashfn h = hashfromkey" "eqfn h = equalkeys" and i: "I \<subseteq> items" and "ht_num h = card I"
    and "hashtable_search h k = (if k \<in> make_key ` I then Some a_value else None)"
    using assms unfolding filled_def by blast+
  show kc: "key_contract (hashfn h) (eqfn h)" unfolding f by (rule tester_contract)
  show "ht_valid h" using ok kc by (simp add: ht_valid_def)
  show "ht_inv h" by (rule ht_okD(1) [OF ok])
  show "finite I" using i items(1) by (rule finite_subset)
qed

lemma filled_search:
  assumes "filled h I" "i \<in> items"
  shows "hashtable_search h (make_key i) = (if i \<in> I then Some a_value else None)"
  unfolding filledD(10) [OF assms(1)] make_key_in [OF filledD(6) [OF assms(1)] assms(2)] ..

lemma filled_create: "create_hashtable m1 m2 n hashfromkey equalkeys = Some h \<Longrightarrow> filled h {}"
  using create_ok by (fastforce simp: filled_def ht_num_def)

lemma filled_insert:
  assumes f: "filled h I" and i: "i \<in> items" "i \<notin> I"
  shows "\<exists>h'. insert_some all_mem h (make_key i) a_value = Inr (h', -1) \<and> filled h' (insert i I)"
proof -
  have "card I \<le> card items" by (rule card_mono [OF items(1) filledD(6) [OF f]])
  then have "ht_num h < 2 ^ 32 - 1" unfolding filledD(9) [OF f] items(2) by simp
  moreover have "hashtable_search h (make_key i) = None" using filled_search [OF f i(1)] i(2) by simp
  ultimately obtain h' where h': "hashtable_insert all_mem h (make_key i) a_value = Inr (h', -1)" "ht_valid h'"
      "hashfn h' = hashfn h" "eqfn h' = eqfn h" "ht_num h' = Suc (ht_num h)"
      "\<forall>k'. hashtable_search h' k' = (if eqfn h k' (make_key i) then Some a_value else hashtable_search h k')"
    using ht_put_law [OF filledD(1) [OF f], of "make_key i" a_value] by blast
  have "filled h' (insert i I)"
  proof (rule filledI)
    show "ht_ok h'" using h'(2) by (simp add: ht_valid_def)
    show "hashfn h' = hashfromkey" "eqfn h' = equalkeys" using h'(3,4) filledD(7,8) [OF f] by simp_all
    show "insert i I \<subseteq> items" using i(1) filledD(6) [OF f] by simp
    show "ht_num h' = card (insert i I)" using h'(5) filledD(5,9) [OF f] i(2) by simp
    show "hashtable_search h' k = (if k \<in> make_key ` insert i I then Some a_value else None)" for k
      using h'(6) filledD(10) [OF f, of k] unfolding filledD(8) [OF f] equalkeys_eq by simp
  qed
  with h'(1) show ?thesis by (auto simp: insert_some_def)
qed

lemma make_key_minus:
  assumes "I \<subseteq> items" "i \<in> items"
  shows "k \<in> make_key ` (I - {i}) \<longleftrightarrow> k \<in> make_key ` I \<and> k \<noteq> make_key i"
proof -
  have "make_key ` (I - {i}) = make_key ` I - make_key ` {i}"
    by (rule inj_on_image_set_diff [OF make_key_inj]) (use assms in auto)
  then show ?thesis by simp
qed

lemma filled_minus:
  assumes f: "filled h I" and i: "i \<in> I" and h': "ht_ok h'" "hashfn h' = hashfn h" "eqfn h' = eqfn h"
    "Suc (ht_num h') = ht_num h"
    "\<And>k'. hashtable_search h' k' = (if eqfn h k' (make_key i) then None else hashtable_search h k')"
  shows "filled h' (I - {i})"
proof (rule filledI)
  show "ht_ok h'" "hashfn h' = hashfromkey" "eqfn h' = equalkeys" using h' filledD(7,8) [OF f] by simp_all
  show "I - {i} \<subseteq> items" using filledD(6) [OF f] by blast
  show "ht_num h' = card (I - {i})" using h'(4) filledD(5,9) [OF f] i by simp
  have "i \<in> items" using i filledD(6) [OF f] by blast
  then show "hashtable_search h' k = (if k \<in> make_key ` (I - {i}) then Some a_value else None)" for k
    using h'(5) [of k] filledD(10) [OF f, of k] make_key_minus [OF filledD(6) [OF f], of i k]
    unfolding filledD(8) [OF f] equalkeys_eq by simp
qed

lemma filled_remove:
  assumes f: "filled h I" and i: "i \<in> I"
  shows "\<exists>h'. remove_some h (make_key i) = (h', Some (a_value, make_key i)) \<and> filled h' (I - {i})"
proof -
  have "hashtable_search h (make_key i) = Some a_value" using filled_search [OF f] i filledD(6) [OF f] by auto
  from remove_search [OF filledD(4,2) [OF f] this] obtain h' k0 where
    h': "hashtable_remove h (make_key i) = (h', Some (a_value, k0))" "eqfn h (make_key i) k0" "ht_ok h'"
      "hashfn h' = hashfn h" "eqfn h' = eqfn h" "Suc (unat (hashtable_count h')) = unat (hashtable_count h)"
      "\<forall>k'. hashtable_search h' k' = (if eqfn h k' (make_key i) then None else hashtable_search h k')" by blast
  have "filled h' (I - {i})" using filled_minus [OF f i h'(3-5)] h'(6,7) by (simp add: ht_num_def)
  moreover have "k0 = make_key i" using h'(2) unfolding filledD(8) [OF f] equalkeys_eq by simp
  ultimately show ?thesis using h'(1) by (auto simp: remove_some_def)
qed

end
