(* ===== verification/Tester_Hash.thy ===== *)
theory Tester_Hash
  imports Tester
begin

text \<open>
  Where the keys of \<open>tester.c\<close> go in a table of 12289 buckets: the hash on integers, and that no key the driver removes with the iterator
  (indices 2, 9, 16, ...) is in the last bucket, while that of index 3179 is. The 572 hashes are evaluated in groups, which are
  checked in parallel.
\<close>

unbundle bit_operations_syntax

text \<open>The hash of a key on integers, where the bits a word drops are masked.\<close>

definition low32 :: "int \<Rightarrow> int" where "low32 x = x AND 4294967295"

definition mix1 :: "int \<Rightarrow> int" where "mix1 x = low32 (- (x * 511 + 1))"
definition mix2 :: "int \<Rightarrow> int" where "mix2 x = x XOR (drop_bit 14 x OR low32 (push_bit 18 x))"
definition mix3 :: "int \<Rightarrow> int" where "mix3 x = low32 (x * 17)"
definition mix4 :: "int \<Rightarrow> int" where "mix4 x = x XOR (drop_bit 10 x OR low32 (push_bit 22 x))"
definition rotated :: "int \<Rightarrow> int" where "rotated x = low32 (push_bit 17 x) OR drop_bit 15 x"

definition key_hash_int :: "int \<Rightarrow> int" where
  "key_hash_int i = low32 ((rotated (low32 (3486314048 + i)) XOR low32 (3473731175 - 5 * i))
     + ((22 + 7 * i) AND 65535) * 17 + ((5522 - 3 * i) AND 65535) * 377)"

definition bucket_int :: "int \<Rightarrow> int" where
  "bucket_int i = mix4 (mix3 (mix2 (mix1 (key_hash_int i)))) mod 12289"

lemma low32: "uint (word_of_int k :: u32) = low32 k"
  by (simp add: low32_def unsigned_of_int take_bit_eq_mask mask_eq_exp_minus_1)

lemma low32_uint [simp]: "low32 (uint (w :: u32)) = uint w"
  using low32 [of "uint w"] by simp

lemma uint_shift:
  fixes w :: u32
  shows "uint (push_bit n w) = low32 (push_bit n (uint w))" "uint (drop_bit n w) = drop_bit n (uint w)"
proof -
  show "uint (push_bit n w) = low32 (push_bit n (uint w))"
    by (simp add: low32_def unsigned_push_bit_eq take_bit_eq_mask mask_eq_exp_minus_1)
  have "take_bit 32 (uint w) = uint w"
    using low32_uint [of w] by (simp add: low32_def take_bit_eq_mask mask_eq_exp_minus_1)
  then show "uint (drop_bit n w) = drop_bit n (uint w)" by (simp add: unsigned_drop_bit_eq)
qed

lemma ht_mix_int: "uint (ht_mix w) = mix4 (mix3 (mix2 (mix1 (uint w))))"
proof -
  have "w + NOT (push_bit 9 w) = word_of_int (- (uint w * 511 + 1))"
    by (simp add: push_bit_eq_mult not_eq_complement algebra_simps)
  then have m1: "uint (w + NOT (push_bit 9 w)) = mix1 (uint w)" unfolding mix1_def by (metis low32)
  have m2: "uint (v XOR (drop_bit 14 v OR push_bit 18 v)) = mix2 (uint v)" for v :: u32
    by (simp add: mix2_def uint_shift unsigned_xor_eq unsigned_or_eq)
  have "v + push_bit 4 v = word_of_int (uint v * 17)" for v :: u32
    by (simp add: push_bit_eq_mult algebra_simps)
  then have m3: "uint (v + push_bit 4 v) = mix3 (uint v)" for v :: u32 unfolding mix3_def by (metis low32)
  have m4: "uint (v XOR (drop_bit 10 v OR push_bit 22 v)) = mix4 (uint v)" for v :: u32
    by (simp add: mix4_def uint_shift unsigned_xor_eq unsigned_or_eq)
  show ?thesis unfolding ht_mix_def Let_def m4 m3 m2 m1 ..
qed

lemma key_hash_int: "uint (hashfromkey (make_key i)) = key_hash_int i"
proof -
  have one: "one_ip (make_key i) = word_of_int (3486314048 + i)" by (simp add: make_key_def)
  have two: "two_ip (make_key i) = word_of_int (3473731175 - 5 * i)" by (simp add: make_key_def)
  have p: "(ucast (one_port (make_key i)) :: u32) = word_of_int ((22 + 7 * i) AND 65535)"
    "(ucast (two_port (make_key i)) :: u32) = word_of_int ((5522 - 3 * i) AND 65535)"
    by (simp_all add: make_key_def ucast_eq unsigned_of_int take_bit_eq_mask mask_eq_exp_minus_1 del: of_int_add of_int_diff)
  let ?r = "(push_bit 17 (one_ip (make_key i)) OR drop_bit 15 (one_ip (make_key i))) XOR two_ip (make_key i)"
  have r: "uint ?r = rotated (low32 (3486314048 + i)) XOR low32 (3473731175 - 5 * i)"
    unfolding one two by (simp add: rotated_def uint_shift unsigned_xor_eq unsigned_or_eq low32 del: of_int_add of_int_diff)
  have "hashfromkey (make_key i) = word_of_int (uint ?r + ((22 + 7 * i) AND 65535) * 17 + ((5522 - 3 * i) AND 65535) * 377)"
    unfolding hashfromkey_def p by simp
  then show ?thesis unfolding key_hash_int_def r by (metis low32)
qed

lemma bucket_int: "uint (indexFor 12289 (ht_mix (hashfromkey (make_key i)))) = bucket_int i"
  by (simp add: indexFor_def uint_mod ht_mix_int key_hash_int bucket_int_def)

lemma bucket_nat: "unat (indexFor 12289 (ht_mix (hashfromkey (make_key i)))) = nat (bucket_int i)"
  unfolding bucket_int [symmetric] by (rule nat_uint_eq [symmetric])

lemma bucket_range: "0 \<le> bucket_int i \<and> bucket_int i < 12289"
  by (simp add: bucket_int_def)

definition elsewhere :: "int \<Rightarrow> bool" where "elsewhere i \<longleftrightarrow> bucket_int i \<noteq> 12288"

lemmas hash_steps = bucket_int_def key_hash_int_def mix1_def mix2_def mix3_def mix4_def rotated_def low32_def

lemma last_bucket: "bucket_int 3179 = 12288"
  by (simp add: hash_steps)

lemma elsewhere_1: "list_all elsewhere (map (\<lambda>n. 7 * n + 2) [0..95])"
  by (simp add: elsewhere_def hash_steps upto.simps)

lemma elsewhere_2: "list_all elsewhere (map (\<lambda>n. 7 * n + 2) [96..191])"
  by (simp add: elsewhere_def hash_steps upto.simps)

lemma elsewhere_3: "list_all elsewhere (map (\<lambda>n. 7 * n + 2) [192..287])"
  by (simp add: elsewhere_def hash_steps upto.simps)

lemma elsewhere_4: "list_all elsewhere (map (\<lambda>n. 7 * n + 2) [288..383])"
  by (simp add: elsewhere_def hash_steps upto.simps)

lemma elsewhere_5: "list_all elsewhere (map (\<lambda>n. 7 * n + 2) [384..479])"
  by (simp add: elsewhere_def hash_steps upto.simps)

lemma elsewhere_6: "list_all elsewhere (map (\<lambda>n. 7 * n + 2) [480..571])"
  by (simp add: elsewhere_def hash_steps upto.simps)

lemma in_group:
  assumes "list_all elsewhere (map (\<lambda>n. 7 * n + 2) [a..b])" "i = 7 * n + 2" "a \<le> n" "n \<le> b"
  shows "elsewhere i"
proof -
  have "n \<in> set [a..b]" using assms(3,4) by simp
  then show ?thesis using assms(1,2) unfolding list_all_iff set_map by blast
qed

lemma removed_elsewhere:
  assumes "0 \<le> i" "i < 4000" "i mod 7 = 2"
  shows "elsewhere i"
proof -
  have i: "i = 7 * (i div 7) + 2" using assms(3) div_mult_mod_eq [of i 7] by simp
  have "0 \<le> i div 7" "i div 7 \<le> 571" using assms(1,2) by auto
  then consider "0 \<le> i div 7" "i div 7 \<le> 95" | "96 \<le> i div 7" "i div 7 \<le> 191" | "192 \<le> i div 7" "i div 7 \<le> 287" | "288 \<le> i div 7" "i div 7 \<le> 383" | "384 \<le> i div 7" "i div 7 \<le> 479" | "480 \<le> i div 7" "i div 7 \<le> 571"
    by linarith
  then show ?thesis by cases (use i elsewhere_1 elsewhere_2 elsewhere_3 elsewhere_4 elsewhere_5 elsewhere_6 in \<open>blast intro: in_group\<close>)+
qed

end
