(* ===== verification/Tester_Run.thy ===== *)
theory Tester_Run
  imports Tester_Hash
begin

text \<open>
  The run of \<open>tester.c\<close>, loop by loop: with memory it finds, iterates over and removes all keys, in the first table by key and in the
  second one with the iterator, prints the right counts, reports no bug and returns 0.
\<close>

section \<open>The loops\<close>

definition te_lasts :: "tester_env \<Rightarrow> bool" where
  "te_lasts env \<longleftrightarrow> (\<forall>r. te_create env r = (True, True) \<and> te_probe env r \<and> te_itr env r)
     \<and> (\<forall>r i. te_key env r i \<and> te_value env r i \<and> te_insert env r i = all_mem)"

lemma te_lastsD:
  assumes "te_lasts env"
  shows "te_create env r = (True, True)" "te_probe env r" "te_itr env r" "te_key env r i" "te_value env r i"
    "te_insert env r i = all_mem"
  using assms by (simp_all add: te_lasts_def)

lemma indices: "distinct indices" "set indices = items"
proof -
  show "distinct indices" by (simp add: indices_def distinct_map)
  have "set indices = int ` {0..<4000}" by (simp add: indices_def ITEM_COUNT_def)
  also have "\<dots> = items" by (simp add: items_def image_int_atLeastLessThan)
  finally show "set indices = items" .
qed

lemma insertion1_ok:
  assumes m: "te_lasts env"
  shows "filled h I \<Longrightarrow> distinct is \<Longrightarrow> set is \<subseteq> items \<Longrightarrow> set is \<inter> I = {}
    \<Longrightarrow> \<exists>h'. insertion1 env is out h = Inr (out, Inr h') \<and> filled h' (I \<union> set is)"
proof (induction "is" arbitrary: h I)
  case (Cons i "is")
  from filled_insert [OF Cons.prems(1), of i] Cons.prems(3,4) obtain h1 where
    h1: "insert_some all_mem h (make_key i) a_value = Inr (h1, -1)" "filled h1 (insert i I)" by auto
  from Cons.IH [OF h1(2)] Cons.prems obtain h2 where
    h2: "insertion1 env is out h1 = Inr (out, Inr h2)" "filled h2 (insert i I \<union> set is)" by auto
  then show ?case using h1(1) by (auto simp: te_lastsD [OF m])
qed simp

lemma search_all_ok:
  assumes f: "filled h items"
  shows "set is \<subseteq> items \<Longrightarrow> search_all is out h = out"
  by (induction "is" arbitrary: out) (simp_all add: search_some_def filled_search [OF f])

lemma iterate_ok:
  assumes h: "length (table h) = unat (tablelength h)"
  shows "itr_ok h itr \<Longrightarrow> remaining h itr \<noteq> [] \<Longrightarrow> length (remaining h itr) \<le> n
    \<Longrightarrow> \<exists>itr'. iterate n itr h i = Inr (itr', i + length (remaining h itr))"
proof (induction n arbitrary: itr i)
  case (Suc n)
  obtain e es where r: "remaining h itr = e # es" using Suc.prems(2) by (cases "remaining h itr") auto
  obtain itr1 ret where adv: "hashtable_iterator_advance h itr = (itr1, ret)" by fastforce
  note a = advance_ok [OF h Suc.prems(1) adv]
  note kv = iterator_value_ok [OF r]
  show ?case
  proof (cases "es = []")
    case True
    then show ?thesis using a adv kv by (auto simp: r)
  next
    case False
    with Suc.IH [of itr1 "i + 1"] Suc.prems(3) a obtain itr2 where
      "iterate n itr1 h (i + 1) = Inr (itr2, i + 1 + length es)" by (auto simp: r)
    then show ?thesis using a adv kv False by (auto simp: r)
  qed
qed simp

lemma iterate_all_ok:
  assumes f: "filled h items"
  shows "\<exists>j. iterate_all (hashtable_iterator True h) h = Inr (Some j, 4000)"
proof -
  have inv: "ht_inv h" and n: "length (ht_entries h) = 4000"
    using filledD(3) [OF f] ht_num_entries [OF filledD(2) [OF f]] filledD(9) [OF f] items(2) by simp_all
  have c: "unat (hashtable_count h) = 4000" using filledD(9) [OF f] items(2) by (simp add: ht_num_def)
  then have p: "0 < hashtable_count h" by (metis unat_0 word_gt_0 zero_neq_numeral)
  from iterator_start [OF inv] obtain itr where
    itr: "hashtable_iterator True h = Some itr" "itr_ok h itr" "remaining h itr = ht_entries h" by blast
  from iterate_ok [OF ht_shapeD(1) [OF ht_invD(1) [OF inv]] itr(2), of 4000 0] itr(3) n obtain itr' where
    "iterate 4000 itr h 0 = Inr (itr', 4000)" by fastforce
  with itr(1) c p show ?thesis by (simp add: iterate_all_def)
qed

text \<open>Where a search leaves the iterator.\<close>

lemma found_itr:
  assumes f: "filled h I" and i: "i \<in> I"
  shows "\<exists>j1 e nxt. search_itr_some j h (make_key i) = (j1, -1) \<and> itr_ok h j1 \<and> itr_e j1 = e # nxt \<and> ek e = make_key i
    \<and> itr_index j1 = unat (indexFor (tablelength h) (ht_mix (hashfromkey (make_key i))))"
proof -
  obtain j1 r where s: "hashtable_iterator_search j h (make_key i) = (j1, r)" by fastforce
  have "hashtable_search h (make_key i) = Some a_value" using filled_search [OF f] i filledD(6) [OF f] by auto
  with iterator_search_agrees [OF filledD(3) [OF f] s] have
    a: "r = -1" "itr_ok h j1" "\<exists>k0. hashtable_iterator_key j1 = Inr k0 \<and> make_key i = k0"
    by (simp_all add: filledD(8) [OF f] equalkeys_eq)
  then obtain e nxt where e: "itr_e j1 = e # nxt" "ek e = make_key i"
    by (auto simp: hashtable_iterator_key_def split: list.splits)
  have "itr_index j1 = unat (indexFor (tablelength h) (hash h (make_key i)))"
    using s a(1) by (auto simp: hashtable_iterator_search_def Let_def split: option.splits)
  then show ?thesis using s a e by (simp add: search_itr_some_def hash_def filledD(7) [OF f])
qed

lemma itr_search_all_ok:
  assumes f: "filled h items"
  shows "set is \<subseteq> items \<Longrightarrow> \<exists>j'. itr_search_all is out (Some j) h = Inr (out, Some j')"
proof (induction "is" arbitrary: j)
  case (Cons i "is")
  then obtain j1 where "search_itr_some j h (make_key i) = (j1, -1)" using found_itr [OF f, of i j] by auto
  with Cons.IH [of j1] Cons.prems show ?case by (simp add: search_itr_at_def)
qed simp

lemma remove_all_ok:
  "filled h I \<Longrightarrow> distinct is \<Longrightarrow> set is \<subseteq> I \<Longrightarrow> \<exists>h'. remove_all is out h = (out, h') \<and> filled h' (I - set is)"
proof (induction "is" arbitrary: h I)
  case (Cons i "is")
  from filled_remove [OF Cons.prems(1), of i] Cons.prems(3) obtain h1 where
    h1: "remove_some h (make_key i) = (h1, Some (a_value, make_key i))" "filled h1 (I - {i})" by auto
  from Cons.IH [OF h1(2)] Cons.prems obtain h2 where
    h2: "remove_all is out h1 = (out, h2)" "filled h2 (I - {i} - set is)" by auto
  moreover have "I - {i} - set is = I - set (i # is)" by auto
  ultimately show ?case using h1(1) by auto
qed simp

lemma dec_counts: "dec 4000 = ''4000''" "dec 0 = ''0''"
proof -
  have "digit_char 4 = CHR ''4''" "digit_char 0 = CHR ''0''" by code_simp+
  then show "dec 4000 = ''4000''" "dec 0 = ''0''" by (simp_all add: dec.simps)
qed

lemma items_lines:
  "filled h items \<Longrightarrow> items_line x h = ''After '' @ x @ '', hashtable contains 4000 items.'' @ [LF]"
  "filled h {} \<Longrightarrow> items_line x h = ''After '' @ x @ '', hashtable contains 0 items.'' @ [LF]"
proof -
  show "filled h items \<Longrightarrow> items_line x h = ''After '' @ x @ '', hashtable contains 4000 items.'' @ [LF]"
    using filledD(9) [of h items] items(2) dec_counts by (simp add: items_line_def ht_num_def)
  show "filled h {} \<Longrightarrow> items_line x h = ''After '' @ x @ '', hashtable contains 0 items.'' @ [LF]"
    using filledD(9) [of h "{}"] dec_counts by (simp add: items_line_def ht_num_def)
qed

definition first_report :: string where
  "first_report = ''After insertion, hashtable contains 4000 items.'' @ [LF] @ ''Iterated through 4000 entries.'' @ [LF]
     @ ''After removal, hashtable contains 0 items.'' @ [LF]"

lemma first_round_ok:
  assumes m: "te_lasts env"
  shows "\<exists>j. first_round env = Inr (first_report, Inr (Some j))"
proof -
  obtain h :: tester_table where h: "create_hashtable True True 16 hashfromkey equalkeys = Some h"
    using create_total [of True True 16 hashfromkey equalkeys] by fastforce
  from insertion1_ok [OF m filled_create [OF h] indices(1), of "[]"] obtain h1 where
    h1: "insertion1 env indices [] h = Inr ([], Inr h1)" "filled h1 items" by (auto simp: indices)
  from iterate_all_ok [OF h1(2)] obtain j where j: "iterate_all (hashtable_iterator True h1) h1 = Inr (Some j, 4000)" by blast
  let ?o1 = "items_line ''insertion'' h1"
  let ?o2 = "?o1 @ ''Iterated through '' @ dec 4000 @ '' entries.'' @ [LF]"
  from itr_search_all_ok [OF h1(2), of indices ?o2 j] obtain j1 where
    j1: "itr_search_all indices ?o2 (Some j) h1 = Inr (?o2, Some j1)" by (auto simp: indices)
  from remove_all_ok [OF h1(2) indices(1), of ?o2] obtain h2 where
    h2: "remove_all indices ?o2 h1 = (?o2, h2)" "filled h2 {}" by (auto simp: indices)
  have s: "search_all indices ?o1 h1 = ?o1" by (rule search_all_ok [OF h1(2)]) (simp add: indices)
  have "first_round env = Inr (?o2 @ items_line ''removal'' h2, Inr (Some j1))"
    unfolding first_round_def te_lastsD(1) [OF m] fst_conv snd_conv h option.case proceed_def h1(1) bind_res.simps prod.case sum.case
      append_Nil Let_def s te_lastsD(3) [OF m, THEN eqTrueI] j j1 h2(1)
    using te_lastsD(2) [OF m] by simp
  then show ?thesis using items_lines(2) [OF h2(2)] by (simp add: first_report_def items_lines(1) [OF h1(2)] dec_counts)
qed

section \<open>The size of the second table\<close>

text \<open>The table is the first in the sequence of sizes that is large enough, from the initial one on.\<close>

definition tight :: "tester_table \<Rightarrow> bool" where
  "tight h \<longleftrightarrow> within_load h \<and> 4 \<le> unat (primeindex h)
     \<and> (unat (primeindex h) = 4 \<or> load_limit (primes ! (unat (primeindex h) - 1)) < entrycount h)"

lemma tight_insert:
  assumes inv: "ht_inv h" and room: "length (ht_entries h) < 2 ^ 32 - 1" and t: "tight h"
    and ins: "hashtable_insert all_mem h k v = Inr (h', r)"
  shows "tight h'"
proof -
  let ?h1 = "h\<lparr>entrycount := entrycount h + 1\<rparr>"
  have sh: "ht_shape ?h1" using ht_invD(1) [OF inv] by simp
  have mem: "malloc_table all_mem" "malloc_entry all_mem" by (simp_all add: all_mem_def)
  have up: "entrycount h < entrycount h + 1"
    using ht_invD(2) [OF inv] room by (simp add: word_less_nat_alt unat_word_ariths)
  have keep: "entrycount h3 = entrycount h2 \<and> primeindex h3 = primeindex h2"
    if "insert_entry all_mem h2 k v = (h3, r)" for h2 h3
    using that by (auto simp: insert_entry_def Let_def all_mem_def)
  have "within_load h'" using insert_within_load [OF inv mem _ room ins] t by (simp add: tight_def)
  moreover have "4 \<le> unat (primeindex h')
      \<and> (unat (primeindex h') = 4 \<or> load_limit (primes ! (unat (primeindex h') - 1)) < entrycount h')"
  proof (cases "loadlimit h < entrycount h + 1 \<and> primeindex h \<noteq> 27")
    case False
    then have "insert_entry all_mem ?h1 k v = (h', r)"
      using ins expand_stays [OF sh, of all_mem] by (auto simp: hashtable_insert_def Let_def split: if_splits)
    from keep [OF this] t up show ?thesis by (auto simp: tight_def)
  next
    case True
    with expand_moves [OF sh _ mem(1)] obtain h2 where h2: "hashtable_expand all_mem ?h1 = Inr (h2, -1)" "expands ?h1 h2"
      "unat (primeindex h2) = Suc (unat (primeindex h))" by auto
    with ins True have "insert_entry all_mem h2 k v = (h', r)" by (simp add: hashtable_insert_def Let_def)
    note k = keep [OF this]
    have "loadlimit h = load_limit (primes ! unat (primeindex h))" "entrycount h2 = entrycount h + 1"
      using ht_shapeD(3,4) [OF sh] h2(2) by (simp_all add: expands_def)
    with True k h2(3) t show ?thesis by (simp add: tight_def)
  qed
  ultimately show ?thesis by (simp add: tight_def)
qed

lemma limits_near_4000: "load_limit (primes ! 9) = 3999" "load_limit (primes ! 10) = 7988" "primes ! 10 = 12289"
  by code_simp+

lemma limit_mono: "i \<le> j \<Longrightarrow> j < 28 \<Longrightarrow> load_limit (primes ! i) \<le> load_limit (primes ! j)"
  using sorted_wrt_nth_less [OF load_limits_increasing, of i j] by (cases "i = j") (auto simp: primes_facts)

lemma tight_4000:
  assumes sh: "ht_shape h" and t: "tight h" and n: "entrycount h = 4000"
  shows "tablelength h = 12289"
proof -
  let ?p = "unat (primeindex h)"
  note s = ht_shapeD [OF sh]
  have p: "?p < 28" "4 \<le> ?p" using s(2) t by (simp_all add: primes_facts tight_def)
  have "10 \<le> ?p"
  proof (rule ccontr)
    assume "\<not> 10 \<le> ?p"
    then have l: "?p \<le> 9" by simp
    then have "load_limit (primes ! ?p) \<le> 3999" using limit_mono [of ?p 9] limits_near_4000 by simp
    then have "\<not> entrycount h \<le> loadlimit h" using s(3,4) n by (simp add: word_le_nat_alt)
    moreover have "primeindex h \<noteq> 27" using l by auto
    ultimately show False using t n by (simp add: tight_def within_load_def)
  qed
  moreover have "?p \<le> 10"
  proof (rule ccontr)
    assume "\<not> ?p \<le> 10"
    then have "7988 \<le> load_limit (primes ! (?p - 1))" using limit_mono [of 10 "?p - 1"] limits_near_4000 p by simp
    moreover have "load_limit (primes ! (?p - 1)) < 4000" using t n \<open>\<not> ?p \<le> 10\<close> by (simp add: tight_def)
    ultimately show False by (simp add: word_le_nat_alt word_less_nat_alt)
  qed
  ultimately have "?p = 10" by simp
  with s(3) limits_near_4000(3) show ?thesis by simp
qed

lemma tight_create:
  assumes h: "create_hashtable True True 160 hashfromkey equalkeys = Some h"
  shows "tight h"
proof -
  have "find_prime 160 primes 0 (primes ! 0) = (4, 193)" by code_simp
  then have "primeindex h = 4" using h by (auto simp: create_hashtable_def)
  moreover have "entrycount h = 0" using create_ok [OF h] by (simp add: hashtable_count_def)
  ultimately show ?thesis by (simp add: tight_def within_load_def)
qed

lemma insertion2_ok:
  assumes m: "te_lasts env"
  shows "filled h I \<Longrightarrow> tight h \<Longrightarrow> distinct is \<Longrightarrow> set is \<subseteq> items \<Longrightarrow> set is \<inter> I = {}
    \<Longrightarrow> \<exists>h'. insertion2 env is out h = Inr (out, Inr h') \<and> filled h' (I \<union> set is) \<and> tight h'"
proof (induction "is" arbitrary: h I)
  case (Cons i "is")
  from filled_insert [OF Cons.prems(1), of i] Cons.prems(4,5) obtain h1 where
    h1: "insert_some all_mem h (make_key i) a_value = Inr (h1, -1)" "filled h1 (insert i I)" by auto
  have "card I \<le> card items" by (rule card_mono [OF items(1) filledD(6) [OF Cons.prems(1)]])
  then have "length (ht_entries h) < 2 ^ 32 - 1"
    using filledD(9) [OF Cons.prems(1)] ht_num_entries [OF filledD(2) [OF Cons.prems(1)]] items(2) by simp
  from tight_insert [OF filledD(3) [OF Cons.prems(1)] this Cons.prems(2)] h1(1) have "tight h1"
    by (simp add: insert_some_def)
  from Cons.IH [OF h1(2) this] Cons.prems obtain h2 where
    h2: "insertion2 env is out h1 = Inr (out, Inr h2)" "filled h2 (insert i I \<union> set is)" "tight h2" by auto
  then show ?case using h1(1) by (auto simp: te_lastsD [OF m])
qed simp

section \<open>Removing with the iterator\<close>

text \<open>
  \<open>hashtable_iterator_remove\<close> returns zero when it has removed the last entry. The driver takes this for a failure; but
  the last bucket holds the key of index 3179, which is not removed in the loop, and none of those removed.
\<close>

lemma remove_by_itr_step:
  assumes f: "filled h I" and i: "i \<in> I" and l: "3179 \<in> I" and e: "elsewhere i" and tl: "tablelength h = 12289"
  shows "\<exists>j1 h2 j2 ret. search_itr_some j h (make_key i) = (j1, -1)
    \<and> hashtable_iterator_remove h j1 = Inr (h2, j2, ret, make_key i) \<and> ret \<noteq> 0 \<and> filled h2 (I - {i}) \<and> tablelength h2 = 12289"
proof -
  let ?b = "\<lambda>i. unat (indexFor 12289 (ht_mix (hashfromkey (make_key i))))"
  from found_itr [OF f i, of j] obtain j1 en nxt where
    j1: "search_itr_some j h (make_key i) = (j1, -1)" "itr_ok h j1" "itr_e j1 = en # nxt" "ek en = make_key i" "itr_index j1 = ?b i"
    unfolding tl by blast
  from iterator_remove_ok [OF filledD(3) [OF f] j1(2,3)] obtain h2 j2 ret where
    r: "hashtable_iterator_remove h j1 = Inr (h2, j2, ret, ek en)" "ht_inv h2" "remaining h2 j2 = tl (remaining h j1)"
      "ht_entries h2 = visited h j1 @ tl (remaining h j1)" "ret \<noteq> 0 \<longleftrightarrow> remaining h2 j2 \<noteq> []" "hashfn h2 = hashfn h" "eqfn h2 = eqfn h"
    by blast
  have ents: "ht_entries h = visited h j1 @ en # tl (remaining h j1)"
    using visited_remaining [OF j1(2)] j1(3) by (simp add: remaining_def)
  have len: "length (table h) = 12289" using ht_shapeD(1) [OF ht_invD(1) [OF filledD(3) [OF f]]] tl by simp
  have b: "?b 3179 = 12288" "?b i < 12288"
    using last_bucket bucket_range [of i] e unfolding bucket_nat elsewhere_def by auto
  have "3179 \<in> items" using l filledD(6) [OF f] by blast
  then have "hashtable_search h (make_key 3179) \<noteq> None" using filled_search [OF f] l by simp
  then have ne: "table h ! 12288 \<noteq> []"
    using b(1) by (auto simp: hashtable_search_def Let_def hash_def filledD(7) [OF f] tl)
  define m where "m = Suc (itr_index j1)"
  have m: "m + (12288 - m) = 12288" using b(2) j1(5) by (simp add: m_def)
  have "drop m (table h) ! (12288 - m) \<in> set (drop m (table h))" by (rule nth_mem) (use m len in simp)
  moreover have "drop m (table h) ! (12288 - m) = table h ! 12288" using nth_drop [of m "table h" "12288 - m"] m len by simp
  ultimately have "table h ! 12288 \<in> set (drop (Suc (itr_index j1)) (table h))" by (simp add: m_def)
  with ne have "concat (drop (Suc (itr_index j1)) (table h)) \<noteq> []" by auto
  then have "tl (remaining h j1) \<noteq> []" using j1(3) by (auto simp: remaining_def)
  with r(3,5) have ret: "ret \<noteq> 0" by simp
  have "tablelength h2 = tablelength h"
    using r(1) j1(3) by (auto simp: hashtable_iterator_remove_def Let_def split: prod.splits if_splits)
  moreover have "filled h2 (I - {i})"
  proof (rule filled_minus [OF f i _ r(6,7)])
    have hit: "hashtable_search h (make_key i) = Some a_value" using filled_search [OF f] i filledD(6) [OF f] by auto
    have ms: "mset (ht_entries h) = add_mset en (mset (ht_entries h2))" unfolding ents r(4) by simp
    have eq: "eqfn h (make_key i) (ek en)" using j1(4) by (simp add: filledD(8) [OF f] equalkeys_eq)
    note lr = lookups_removed [OF filledD(4) [OF f] ht_ok_arranged [OF filledD(2) [OF f]]
        ht_shape_arrangedD [OF ht_invD(1) [OF r(2)]] ht_okD(3) [OF filledD(2) [OF f]] hit ms eq r(6,7)]
    show ok: "ht_ok h2" using r(2) lr(1) by (simp add: ht_ok_def)
    show "Suc (ht_num h2) = ht_num h" using ht_num_entries [OF ok] ht_num_entries [OF filledD(2) [OF f]] unfolding ents r(4) by simp
    show "hashtable_search h2 k = (if eqfn h k (make_key i) then None else hashtable_search h k)" for k by (rule lr(3))
  qed
  ultimately show ?thesis using j1(1,4) r(1) ret tl by auto
qed

lemma remove_some_by_itr_ok:
  "filled h I \<Longrightarrow> tablelength h = 12289 \<Longrightarrow> 3179 \<in> I \<Longrightarrow> i < 4000 \<Longrightarrow> i mod 7 = 2 \<Longrightarrow> {x \<in> items. x \<le> i} \<subseteq> I
    \<Longrightarrow> \<exists>j' h' J. remove_some_by_itr i out (Some j) h = Inr (out, Inr (Some j', h')) \<and> filled h' J \<and> 3179 \<in> J"
proof (induction "nat (i + 1)" arbitrary: i h I j rule: less_induct)
  case less
  show ?case
  proof (cases "i < 0")
    case True
    with less.prems show ?thesis by (subst remove_some_by_itr.simps) auto
  next
    case False
    then have iI: "i \<in> I" using less.prems(4,6) by (auto simp: items)
    have "elsewhere i" by (rule removed_elsewhere) (use False less.prems in auto)
    from remove_by_itr_step [OF less.prems(1) iI less.prems(3) this less.prems(2), of j] obtain j1 h2 j2 ret where
      s: "search_itr_some j h (make_key i) = (j1, -1)" "hashtable_iterator_remove h j1 = Inr (h2, j2, ret, make_key i)" "ret \<noteq> 0"
        "filled h2 (I - {i})" "tablelength h2 = 12289" by blast
    have "(i - 7) mod 7 = 2" using less.prems(5) by presburger
    moreover have "3179 \<in> I - {i}" using less.prems(3,5) by auto
    moreover have "{x \<in> items. x \<le> i - 7} \<subseteq> I - {i}" using less.prems(6) by auto
    ultimately obtain j' h' J where
      "remove_some_by_itr (i - 7) out (Some j2) h2 = Inr (out, Inr (Some j', h'))" "filled h' J" "3179 \<in> J"
      using less.hyps [OF _ s(4,5), of "i - 7" j2] less.prems(4) False by auto
    then show ?thesis using False s by (subst remove_some_by_itr.simps) (auto simp: search_itr_at_def)
  qed
qed

lemma drain_ok:
  "ht_inv h \<Longrightarrow> itr_ok h itr \<Longrightarrow> remaining h itr = ht_entries h \<Longrightarrow> ht_entries h \<noteq> [] \<Longrightarrow> length (ht_entries h) \<le> n
    \<Longrightarrow> \<exists>h'. drain n itr h = Inr h' \<and> hashtable_count h' = 0"
proof (induction n arbitrary: h itr)
  case (Suc n)
  obtain e nxt where e: "itr_e itr = e # nxt" using Suc.prems(3,4) remaining_Nil [of h itr] by (cases "itr_e itr") auto
  have v: "visited h itr = []" using visited_remaining [OF Suc.prems(2)] Suc.prems(3) by simp
  from iterator_remove_ok [OF Suc.prems(1,2) e] obtain h1 itr1 r where
    r: "hashtable_iterator_remove h itr = Inr (h1, itr1, r, ek e)" "ht_inv h1" "itr_ok h1 itr1"
      "remaining h1 itr1 = tl (remaining h itr)" "ht_entries h1 = visited h itr @ tl (remaining h itr)"
      "r \<noteq> 0 \<longleftrightarrow> remaining h1 itr1 \<noteq> []"
    by blast
  have all: "remaining h1 itr1 = ht_entries h1" "length (ht_entries h1) = length (ht_entries h) - 1"
    using r(4,5) v Suc.prems(3) by simp_all
  show ?case
  proof (cases "ht_entries h1 = []")
    case True
    then have "hashtable_count h1 = 0" using ht_invD(2) [OF r(2)] by (simp add: hashtable_count_def unat_eq_0)
    then show ?thesis using r(1,6) all(1) True by simp
  next
    case False
    have "length (ht_entries h1) \<le> n" using all(2) Suc.prems(5) by simp
    from Suc.IH [OF r(2,3) all(1) False this] r(1,6) all(1) False show ?thesis by simp
  qed
qed simp

definition second_report :: string where
  "second_report = ''After insertion, hashtable contains 4000 items.'' @ [LF] @ ''After removal, hashtable contains 0 items.'' @ [LF]"

lemma second_round_ok:
  assumes m: "te_lasts env"
  shows "second_round env out (Some j) = Inr (out @ second_report, Inr ())"
proof -
  obtain h :: tester_table where h: "create_hashtable True True 160 hashfromkey equalkeys = Some h"
    using create_total [of True True 160 hashfromkey equalkeys] by fastforce
  from insertion2_ok [OF m filled_create [OF h] tight_create [OF h] indices(1), of out] obtain h1 where
    h1: "insertion2 env indices out h = Inr (out, Inr h1)" "filled h1 items" "tight h1" by (auto simp: indices)
  have "unat (entrycount h1) = 4000" using filledD(9) [OF h1(2)] items(2) by (simp add: ht_num_def hashtable_count_def)
  then have "entrycount h1 = 4000" by (simp add: unsigned_word_eqI)
  from tight_4000 [OF ht_invD(1) [OF filledD(3) [OF h1(2)]] h1(3) this] have tl: "tablelength h1 = 12289" .
  let ?o = "out @ items_line ''insertion'' h1"
  have "3179 \<in> items" by (simp add: items)
  from remove_some_by_itr_ok [OF h1(2) tl this, of 3999 ?o j] obtain j2 h2 J where
    h2: "remove_some_by_itr 3999 ?o (Some j) h1 = Inr (?o, Inr (Some j2, h2))" "filled h2 J" "3179 \<in> J" by auto
  from iterator_start [OF filledD(3) [OF h2(2)]] obtain j3 where
    j3: "hashtable_iterator True h2 = Some j3" "itr_ok h2 j3" "remaining h2 j3 = ht_entries h2" by blast
  have "0 < card J" using h2(3) filledD(5) [OF h2(2)] card_gt_0_iff by blast
  then have ne: "ht_entries h2 \<noteq> []" "length (ht_entries h2) \<le> Suc (unat (hashtable_count h2))"
    using filledD(9) [OF h2(2)] ht_num_entries [OF filledD(2) [OF h2(2)]] by (auto simp: ht_num_def)
  from drain_ok [OF filledD(3) [OF h2(2)] j3(2,3) ne] obtain h3 where
    h3: "drain (Suc (unat (hashtable_count h2))) j3 h2 = Inr h3" "hashtable_count h3 = 0" by blast
  have "second_round env out (Some j) = Inr (?o @ items_line ''removal'' h3, Inr ())"
    unfolding second_round_def te_lastsD(1) [OF m] fst_conv snd_conv h option.case proceed_def h1(1) bind_res.simps prod.case sum.case Let_def
    using te_lastsD(2,3) [OF m] h2(1) j3(1) h3(1) by (simp add: ITEM_COUNT_def proceed_def del: drain.simps)
  then show ?thesis using h3(2) by (simp add: items_lines(1) [OF h1(2)] second_report_def) (simp add: items_line_def dec_counts)
qed

lemma tester_main_ok: "te_lasts env \<Longrightarrow> tester_main env = Inr (first_report @ second_report, 0)"
  using first_round_ok [of env] second_round_ok [of env first_report] by (auto simp: tester_main_def proceed_def)

section \<open>Properties\<close>

text \<open>C34: while memory lasts, the test driver of the hash table passes: every search, iteration and removal of its two
  tables succeeds, the counts are right, it prints no report of a bug, its loops end, and it returns 0.\<close>

theorem tester_passes:
  assumes "te_lasts env"
  shows "tester_main env = Inr
    (''After insertion, hashtable contains 4000 items.'' @ [LF] @ ''Iterated through 4000 entries.'' @ [LF]
     @ ''After removal, hashtable contains 0 items.'' @ [LF]
     @ ''After insertion, hashtable contains 4000 items.'' @ [LF] @ ''After removal, hashtable contains 0 items.'' @ [LF], 0)"
  using tester_main_ok [OF assms] by (simp add: first_report_def second_report_def)

definition demo_tester :: tester_env where
  "demo_tester = \<lparr>te_create = (\<lambda>_. (True, True)), te_key = (\<lambda>_ _. True), te_value = (\<lambda>_ _. True),
     te_insert = (\<lambda>_ _. all_mem), te_probe = (\<lambda>_. True), te_itr = (\<lambda>_. True)\<rparr>"

theorem tester_passes_witness:
  "\<exists>out. tester_main demo_tester = Inr (out, 0) \<and> take 47 out = ''After insertion, hashtable contains 4000 items.''"
proof -
  have "te_lasts demo_tester" by (simp add: te_lasts_def demo_tester_def)
  from tester_passes [OF this] show ?thesis by simp
qed

end
