(* ===== verification/Sds_Test.thy ===== *)
theory Sds_Test
  imports Format
begin

text \<open>
  The self test at the end of \<open>hiredis/sds.c\<close> (behind \<open>SDS_TEST_MAIN\<close>), and the operations only it uses. While memory lasts
  all its tests pass.
\<close>

section \<open>Operations\<close>

text \<open>\<open>sdsfree\<close>: the blocks it passes to \<open>free\<close>; \<open>sdsfreesplitres\<close> also frees the array of tokens.\<close>

definition sdsfree :: "sds option \<Rightarrow> sds list" where
  "sdsfree s = (case s of None \<Rightarrow> [] | Some x \<Rightarrow> [x])"

definition sdsfreesplitres :: "sds list option \<Rightarrow> int \<Rightarrow> (sds list \<times> bool) res" where
  "sdsfreesplitres tokens count =
     (case tokens of
        None \<Rightarrow> Inr ([], False)
      | Some ts \<Rightarrow>
          if 0 \<le> count \<and> count \<le> int (length ts)
          then Inr (concat (map (\<lambda>t. sdsfree (Some t)) (rev (take (nat count) ts))), True)
          else Inl OutOfBounds)"

text \<open>The text the conversions produce is an argument, as for \<open>sdscatvprintf\<close>.\<close>

definition sdscatprintf :: "allocator \<Rightarrow> sds \<Rightarrow> string \<Rightarrow> sds option res" where
  "sdscatprintf al s out = sdscatvprintf al s out"

text \<open>Freeing the result of a split frees every token once, the last one first, and the array.\<close>

lemma freesplitres_frees: "sdsfreesplitres (Some ts) (int (length ts)) = Inr (rev ts, True)"
proof -
  have "concat (map (\<lambda>t. [t]) xs) = xs" for xs :: "sds list" by (induction xs) auto
  then show ?thesis by (simp add: sdsfreesplitres_def sdsfree_def)
qed

section \<open>The self test\<close>

record sds_tests =
  test_num :: nat
  failed_tests :: nat
  test_out :: string

definition no_tests :: sds_tests where
  "no_tests = \<lparr>test_num = 0, failed_tests = 0, test_out = []\<rparr>"

definition test_cond :: "string \<Rightarrow> bool \<Rightarrow> sds_tests \<Rightarrow> sds_tests" where
  "test_cond descr c ts =
     (let n = test_num ts + 1
      in ts\<lparr>test_num := n, failed_tests := failed_tests ts + (if c then 0 else 1),
            test_out := test_out ts @ dec n @ '' - '' @ descr @ '': '' @ (if c then ''PASSED'' else ''FAILED'') @ [LF]\<rparr>)"

definition test_report :: "sds_tests \<Rightarrow> sds_tests" where
  "test_report ts =
     (let line = dec (test_num ts) @ '' tests, '' @ dec (test_num ts - failed_tests ts) @ '' passed, ''
            @ dec (failed_tests ts) @ '' failed'' @ [LF]
      in ts\<lparr>test_out := test_out ts @ line
            @ (if failed_tests ts \<noteq> 0 then ''=== WARNING === We have failed tests here...'' @ [LF] else [])\<rparr>)"

text \<open>\<open>sdslen(s) == len && memcmp(s, text, n) == 0\<close>, and the use of a result, which is not checked for NULL.\<close>

definition sds_is :: "sds \<Rightarrow> nat \<Rightarrow> string \<Rightarrow> nat \<Rightarrow> bool" where
  "sds_is s len text n \<longleftrightarrow> sdslen s = len \<and> memcmp (sds_buf s) text n = 0"

definition use_sds :: "sds option res \<Rightarrow> (sds \<Rightarrow> 'a res) \<Rightarrow> 'a res" where
  "use_sds r f = bind_res r (\<lambda>x. case x of None \<Rightarrow> Inl NullDeref | Some s \<Rightarrow> f s)"

definition test_range :: "allocator \<Rightarrow> sds \<Rightarrow> int \<Rightarrow> int \<Rightarrow> string \<Rightarrow> nat \<Rightarrow> string \<Rightarrow> nat \<Rightarrow> sds_tests \<Rightarrow> sds_tests res" where
  "test_range al x start en descr len text n ts =
     use_sds (sdsdup al x) (\<lambda>y0. bind_res (sdsrange y0 start en) (\<lambda>y. Inr (test_cond descr (sds_is y len text n) ts)))"

definition test_cmp :: "allocator \<Rightarrow> string \<Rightarrow> string \<Rightarrow> string \<Rightarrow> (int \<Rightarrow> bool) \<Rightarrow> sds_tests \<Rightarrow> sds_tests res" where
  "test_cmp al a b descr ok ts =
     use_sds (sdsnew al (Some (a @ [NUL]))) (\<lambda>x. use_sds (sdsnew al (Some (b @ [NUL])))
       (\<lambda>y. Inr (test_cond descr (ok (sdscmp x y)) ts)))"

definition long_text :: string where "long_text = ''xyzxxxxxxxxxxyyyyyyyyyykkkkkkkkkk''"

definition sds_test_main :: "(nat \<Rightarrow> allocator) \<Rightarrow> sds_tests res" where
  "sds_test_main al =
     use_sds (sdsnew (al 0) (Some (''foo'' @ [NUL])))
     (\<lambda>x0. let t1 = test_cond ''Create a string and obtain the length'' (sds_is x0 3 (''foo'' @ [NUL]) 4) no_tests in
     use_sds (sdsnewlen (al 1) (Some (''foo'' @ [NUL])) 2)
     (\<lambda>x1. let t2 = test_cond ''Create a string with specified length'' (sds_is x1 2 (''fo'' @ [NUL]) 3) t1 in
     use_sds (sdscat (al 2) x1 (''bar'' @ [NUL]))
     (\<lambda>x2. let t3 = test_cond ''Strings concatenation'' (sds_is x2 5 (''fobar'' @ [NUL]) 6) t2 in
     use_sds (sdscpy (al 3) x2 (''a'' @ [NUL]))
     (\<lambda>x3. let t4 = test_cond ''sdscpy() against an originally longer string'' (sds_is x3 1 (''a'' @ [NUL]) 2) t3 in
     use_sds (sdscpy (al 4) x3 (long_text @ [NUL]))
     (\<lambda>x4. let t5 = test_cond ''sdscpy() against an originally shorter string'' (sds_is x4 33 (long_text @ [NUL]) 33) t4 in
     use_sds (sdsempty (al 5)) (\<lambda>e. use_sds (sdscatprintf (al 6) e ''123'')
     (\<lambda>x5. let t6 = test_cond ''sdscatprintf() seems working in the base case'' (sds_is x5 3 (''123'' @ [NUL]) 4) t5 in
     use_sds (sdsnew (al 7) (Some (''xxciaoyyy'' @ [NUL])))
     (\<lambda>x6. bind_res (sdstrim x6 (''xy'' @ [NUL]))
     (\<lambda>x. let t7 = test_cond ''sdstrim() correctly trims characters'' (sds_is x 4 (''ciao'' @ [NUL]) 5) t6 in
     bind_res (test_range (al 8) x 1 1 ''sdsrange(...,1,1)'' 1 (''i'' @ [NUL]) 2 t7)
     (\<lambda>t8. bind_res (test_range (al 9) x 1 (-1) ''sdsrange(...,1,-1)'' 3 (''iao'' @ [NUL]) 4 t8)
     (\<lambda>t9. bind_res (test_range (al 10) x (-2) (-1) ''sdsrange(...,-2,-1)'' 2 (''ao'' @ [NUL]) 3 t9)
     (\<lambda>t10. bind_res (test_range (al 11) x 2 1 ''sdsrange(...,2,1)'' 0 [NUL] 1 t10)
     (\<lambda>t11. bind_res (test_range (al 12) x 1 100 ''sdsrange(...,1,100)'' 3 (''iao'' @ [NUL]) 4 t11)
     (\<lambda>t12. bind_res (test_range (al 13) x 100 100 ''sdsrange(...,100,100)'' 0 [NUL] 1 t12)
     (\<lambda>t13. bind_res (test_cmp (al 14) ''foo'' ''foa'' ''sdscmp(foo,foa)'' (\<lambda>r. 0 < r) t13)
     (\<lambda>t14. bind_res (test_cmp (al 15) ''bar'' ''bar'' ''sdscmp(bar,bar)'' (\<lambda>r. r = 0) t14)
     (\<lambda>t15. bind_res (test_cmp (al 16) ''aar'' ''bar'' ''sdscmp(bar,bar)'' (\<lambda>r. r < 0) t15)
     (\<lambda>t16. Inr (test_report t16)))))))))))))))))))"

section \<open>It passes\<close>

lemma use_ok:
  assumes "holds r str" "r \<noteq> Inr None" "\<And>s. sds_inv s \<Longrightarrow> sds_str s = str \<Longrightarrow> f s = y"
  shows "use_sds r f = y"
  using assms by (cases "(r, str)" rule: holds.cases) (auto simp: use_sds_def)

lemma memcmp_prefix: "take n as = take n bs \<Longrightarrow> memcmp as bs n = 0"
  by (induction as bs n rule: memcmp.induct) auto

lemma sds_is_ok: "sds_inv s \<Longrightarrow> sds_str s = text \<Longrightarrow> l = length text \<Longrightarrow> n \<le> l + 1 \<Longrightarrow> sds_is s l (text @ [NUL]) n"
proof -
  assume s: "sds_inv s" "sds_str s = text" and l: "l = length text" "n \<le> l + 1"
  then have n: "n \<le> length text + 1" by simp
  have "sds_buf s = (text @ [NUL]) @ drop (Suc (sds_len s)) (sds_buf s)" using sds_buf_split [OF s(1)] s(2) by simp
  then have "take n (sds_buf s) = take n (text @ [NUL])" using n by (metis append_take_drop_id take_append length_append_singleton Suc_eq_plus1 diff_is_0_eq take_0 append_Nil2)
  then show ?thesis using sds_str_length [OF s(1)] s(2) l(1) by (simp add: sds_is_def sdslen_def memcmp_prefix)
qed

lemma test_range_ok:
  assumes "good_alloc al" "al_total al" "sds_inv x" "range_spec (sds_str x) start en = text" "len = length text" "n = length text + 1"
  shows "test_range al x start en descr len (text @ [NUL]) n ts = Inr (test_cond descr True ts)"
  unfolding test_range_def
proof (rule use_ok [OF dup_holds [OF assms(1,3)]])
  show "sdsdup al x \<noteq> Inr None"
    using newlen_holds [OF assms(1), of "sds_len x" "sds_buf x"] sds_invD(1) [OF assms(3)] assms(2)
    by (simp add: sdsdup_def sdslen_def al_total_def)
  fix s assume s: "sds_inv s" "sds_str s = sds_str x"
  from range_ok [OF s(1), of start en] s(2) assms(4) obtain y where y: "sdsrange s start en = Inr y" "sds_inv y" "sds_str y = text" by auto
  then show "bind_res (sdsrange s start en) (\<lambda>y. Inr (test_cond descr (sds_is y len (text @ [NUL]) n) ts)) = Inr (test_cond descr True ts)"
    using sds_is_ok [OF y(2,3) assms(5), of n] assms(5,6) by simp
qed

lemma new_total: "al_total al \<Longrightarrow> good_alloc al \<Longrightarrow> NUL \<in> set t \<Longrightarrow> sdsnew al (Some t) \<noteq> Inr None"
  using newlen_holds [of al "length (cstr t)" t]
  by (simp add: sdsnew_def strlen_cstr cstr_def length_takeWhile_le al_total_def)

lemma test_cmp_ok:
  assumes "good_alloc al" "al_total al" "NUL \<notin> set a" "NUL \<notin> set b"
    and "\<And>x y. sds_inv x \<Longrightarrow> sds_inv y \<Longrightarrow> sds_str x = a \<Longrightarrow> sds_str y = b \<Longrightarrow> ok (sdscmp x y)"
  shows "test_cmp al a b descr ok ts = Inr (test_cond descr True ts)"
  unfolding test_cmp_def
proof (rule use_ok [OF new_holds new_total], goal_cases)
  case (6 x)
  show ?case
  proof (rule use_ok [OF new_holds new_total], goal_cases)
    case (6 y)
    with assms(3,4) assms(5) [of x y] \<open>sds_inv x\<close> \<open>sds_str x = cstr (a @ [NUL])\<close> show ?case by simp
  qed (use assms in auto)
qed (use assms in auto)

lemma got: "holds r str \<Longrightarrow> r \<noteq> Inr None \<Longrightarrow> \<exists>s. r = Inr (Some s) \<and> sds_inv s \<and> sds_str s = str"
  by (cases "(r, str)" rule: holds.cases) auto

lemma sds_newlen_total: "good_alloc al \<Longrightarrow> al_total al \<Longrightarrow> n \<le> length t \<Longrightarrow> sdsnewlen al (Some t) n \<noteq> Inr None"
  using newlen_holds [of al n t] by (simp add: al_total_def)

lemma cpy_total:
  assumes "good_alloc al" "al_total al" "sds_inv s" "NUL \<in> set t"
  shows "sdscpy al s t \<noteq> Inr None"
proof -
  let ?n = "length (cstr t)"
  have m: "\<exists>s1. sdsMakeRoomFor al s k = Some s1" for k
  proof -
    obtain b where "al ((sdslen s + k) * 2 + 1) = Some b" using assms(2) by (auto simp: al_total_def)
    then show ?thesis by (simp add: sdsMakeRoomFor_def realloc_def Let_def)
  qed
  have "bind_res x (\<lambda>y. bind_res (f y) (\<lambda>z. bind_res (g z) (\<lambda>u. Inr (Some (h u))))) \<noteq> Inr None" for x f g h
    by (cases x; simp; cases "f (projr x)"; simp; cases "g (projr (f (projr x)))"; simp)
  then show ?thesis using m [of "?n - sds_len s"] assms(4)
    by (auto simp: sdscpy_def sdscpylen_def strlen_cstr Let_def)
qed

text \<open>With memory the operations return strings.\<close>

lemma made:
  assumes al: "good_alloc al \<and> al_total al" and a: "NUL \<notin> set a"
  shows "\<exists>s. sdsnew al (Some (a @ [NUL])) = Inr (Some s) \<and> sds_inv s \<and> sds_str s = a"
    "sds_inv x \<Longrightarrow> \<exists>s. sdscat al x (a @ [NUL]) = Inr (Some s) \<and> sds_inv s \<and> sds_str s = sds_str x @ a"
    "sds_inv x \<Longrightarrow> \<exists>s. sdscpy al x (a @ [NUL]) = Inr (Some s) \<and> sds_inv s \<and> sds_str s = a"
    "sds_inv x \<Longrightarrow> \<exists>s. sdscatprintf al x a = Inr (Some s) \<and> sds_inv s \<and> sds_str s = sds_str x @ a"
    "\<exists>s. sdsempty al = Inr (Some s) \<and> sds_inv s \<and> sds_str s = []"
    "n \<le> length a \<Longrightarrow> \<exists>s. sdsnewlen al (Some (a @ [NUL])) n = Inr (Some s) \<and> sds_inv s \<and> sds_str s = take n a"
proof -
  have g: "good_alloc al" "al_total al" using al by simp_all
  have c: "NUL \<in> set (a @ [NUL])" "cstr (a @ [NUL]) = a" using a by simp_all
  show "\<exists>s. sdsnew al (Some (a @ [NUL])) = Inr (Some s) \<and> sds_inv s \<and> sds_str s = a"
    using got [OF new_holds [OF g(1) c(1)] new_total [OF g(2,1) c(1)]] unfolding c(2) .
  show "\<exists>s. sdscat al x (a @ [NUL]) = Inr (Some s) \<and> sds_inv s \<and> sds_str s = sds_str x @ a" if "sds_inv x"
    using got [OF cat_holds [OF g(1) that c(1)] cat_total [OF g(2,1) that]] unfolding c(2) .
  show "\<exists>s. sdscpy al x (a @ [NUL]) = Inr (Some s) \<and> sds_inv s \<and> sds_str s = a" if "sds_inv x"
    using got [OF cpy_holds [OF g(1) that c(1)] cpy_total [OF g that c(1)]] unfolding c(2) .
  show "\<exists>s. sdscatprintf al x a = Inr (Some s) \<and> sds_inv s \<and> sds_str s = sds_str x @ a" if "sds_inv x"
    unfolding sdscatprintf_def by (rule got [OF catvprintf_holds [OF g(1) that a] catvprintf_total [OF g(2,1) that]])
  show "\<exists>s. sdsempty al = Inr (Some s) \<and> sds_inv s \<and> sds_str s = []"
    by (rule got [OF empty_holds [OF g(1)] empty_total [OF g(2,1)]])
  show "\<exists>s. sdsnewlen al (Some (a @ [NUL])) n = Inr (Some s) \<and> sds_inv s \<and> sds_str s = take n a" if "n \<le> length a"
    using got [OF newlen_holds [THEN conjunct1, OF g(1), of n "a @ [NUL]"] sds_newlen_total [OF g, of n "a @ [NUL]"]] that by simp
qed

definition sds_test_names :: "string list" where
  "sds_test_names =
     [''Create a string and obtain the length'', ''Create a string with specified length'', ''Strings concatenation'',
      ''sdscpy() against an originally longer string'', ''sdscpy() against an originally shorter string'',
      ''sdscatprintf() seems working in the base case'', ''sdstrim() correctly trims characters'', ''sdsrange(...,1,1)'',
      ''sdsrange(...,1,-1)'', ''sdsrange(...,-2,-1)'', ''sdsrange(...,2,1)'', ''sdsrange(...,1,100)'', ''sdsrange(...,100,100)'',
      ''sdscmp(foo,foa)'', ''sdscmp(bar,bar)'', ''sdscmp(bar,bar)'']"

lemma ranges: "range_spec ''ciao'' 1 1 = ''i''" "range_spec ''ciao'' 1 (-1) = ''iao''" "range_spec ''ciao'' (-2) (-1) = ''ao''"
  "range_spec ''ciao'' 2 1 = []" "range_spec ''ciao'' 1 100 = ''iao''" "range_spec ''ciao'' 100 100 = []"
  "strip (''xy'' @ [NUL]) ''xxciaoyyy'' = ''ciao''"
  by code_simp+

lemma orders: "(''foo'', ''foa'') \<notin> lexord byte_less" "(''aar'', ''bar'') \<in> lexord byte_less" "''foo'' \<noteq> ''foa''"
  by (simp_all add: byte_less_def)

lemma compared:
  assumes "sds_inv x" "sds_inv y"
  shows "sds_str x = ''foo'' \<Longrightarrow> sds_str y = ''foa'' \<Longrightarrow> 0 < sdscmp x y"
    "sds_str x = ''bar'' \<Longrightarrow> sds_str y = ''bar'' \<Longrightarrow> sdscmp x y = 0"
    "sds_str x = ''aar'' \<Longrightarrow> sds_str y = ''bar'' \<Longrightarrow> sdscmp x y < 0"
proof -
  note s = sdscmp_sign [OF assms]
  show "sdscmp x y = 0" if "sds_str x = ''bar''" "sds_str y = ''bar''" using s unfolding that by blast
  show "sdscmp x y < 0" if "sds_str x = ''aar''" "sds_str y = ''bar''" using s orders(2) unfolding that by blast
  show "0 < sdscmp x y" if "sds_str x = ''foo''" "sds_str y = ''foa''"
  proof -
    have "\<not> sdscmp x y < 0" "sdscmp x y \<noteq> 0" using s orders(1,3) unfolding that by blast+
    then show ?thesis by linarith
  qed
qed

lemma sds_test_ok:
  assumes al: "\<And>k. good_alloc (al k) \<and> al_total (al k)"
  shows "sds_test_main al = Inr (test_report (foldl (\<lambda>ts d. test_cond d True ts) no_tests sds_test_names))"
proof -
  have a: "good_alloc (al k)" "al_total (al k)" for k using al by auto
  obtain x0 where x0: "sdsnew (al 0) (Some (''foo'' @ [NUL])) = Inr (Some x0)" "sds_inv x0" "sds_str x0 = ''foo''"
    using made(1) [OF al, of "''foo''"] by (auto simp del: append.simps)
  obtain x1 where x1: "sdsnewlen (al 1) (Some (''foo'' @ [NUL])) 2 = Inr (Some x1)" "sds_inv x1" "sds_str x1 = ''fo''"
    using made(6) [OF al, of "''foo''" 2] by (auto simp del: append.simps)
  obtain x2 where x2: "sdscat (al 2) x1 (''bar'' @ [NUL]) = Inr (Some x2)" "sds_inv x2" "sds_str x2 = ''fobar''"
    using made(2) [OF al _ x1(2), of "''bar''"] x1(3) by auto
  obtain x3 where x3: "sdscpy (al 3) x2 (''a'' @ [NUL]) = Inr (Some x3)" "sds_inv x3" "sds_str x3 = ''a''"
    using made(3) [OF al _ x2(2), of "''a''"] by auto
  have l: "NUL \<notin> set long_text" "length long_text = 33" by (simp_all add: long_text_def)
  obtain x4 where x4: "sdscpy (al 4) x3 (long_text @ [NUL]) = Inr (Some x4)" "sds_inv x4" "sds_str x4 = long_text"
    using made(3) [OF al l(1) x3(2)] by blast
  obtain e where e: "sdsempty (al 5) = Inr (Some e)" "sds_inv e" "sds_str e = []"
    using made(5) [OF al, of "[]"] by auto
  obtain x5 where x5: "sdscatprintf (al 6) e ''123'' = Inr (Some x5)" "sds_inv x5" "sds_str x5 = ''123''"
    using made(4) [OF al _ e(2), of "''123''"] e(3) by auto
  obtain x6 where x6: "sdsnew (al 7) (Some (''xxciaoyyy'' @ [NUL])) = Inr (Some x6)" "sds_inv x6" "sds_str x6 = ''xxciaoyyy''"
    using made(1) [OF al, of "''xxciaoyyy''"] by auto
  obtain x where x: "sdstrim x6 (''xy'' @ [NUL]) = Inr x" "sds_inv x" "sds_str x = ''ciao''"
    using trim_ok [OF x6(2), of "''xy'' @ [NUL]"] unfolding x6(3) ranges(7) by blast
  have si: "sds_is x0 3 (''foo'' @ [NUL]) 4" "sds_is x1 2 (''fo'' @ [NUL]) 3" "sds_is x2 5 (''fobar'' @ [NUL]) 6"
      "sds_is x3 1 (''a'' @ [NUL]) 2" "sds_is x4 33 (long_text @ [NUL]) 33" "sds_is x5 3 (''123'' @ [NUL]) 4"
      "sds_is x 4 (''ciao'' @ [NUL]) 5"
    by (rule sds_is_ok [OF x0(2,3)], simp, simp) (rule sds_is_ok [OF x1(2,3)], simp, simp, rule sds_is_ok [OF x2(2,3)], simp, simp,
      rule sds_is_ok [OF x3(2,3)], simp, simp, rule sds_is_ok [OF x4(2,3)], simp add: l(2), simp,
      rule sds_is_ok [OF x5(2,3)], simp, simp, rule sds_is_ok [OF x(2,3)], simp, simp)
  note rg = test_range_ok [OF a x(2), unfolded x(3)]
  have r0: "test_range (al k) x start en d 0 [NUL] 1 ts = Inr (test_cond d True ts)" if "range_spec ''ciao'' start en = []" for k start en d ts
    using rg [OF that, of 0 1] by simp
  have rs: "test_range (al k) x 1 1 d 1 (''i'' @ [NUL]) 2 ts = Inr (test_cond d True ts)"
      "test_range (al k) x 1 (-1) d 3 (''iao'' @ [NUL]) 4 ts = Inr (test_cond d True ts)"
      "test_range (al k) x (-2) (-1) d 2 (''ao'' @ [NUL]) 3 ts = Inr (test_cond d True ts)"
      "test_range (al k) x 1 100 d 3 (''iao'' @ [NUL]) 4 ts = Inr (test_cond d True ts)" for k d ts
    by (rule rg [OF ranges(1)], simp, simp) (rule rg [OF ranges(2)], simp, simp, rule rg [OF ranges(3)], simp, simp,
      rule rg [OF ranges(5)], simp, simp)
  have cs: "test_cmp (al k) ''foo'' ''foa'' d (\<lambda>r. 0 < r) ts = Inr (test_cond d True ts)"
      "test_cmp (al k) ''bar'' ''bar'' d (\<lambda>r. r = 0) ts = Inr (test_cond d True ts)"
      "test_cmp (al k) ''aar'' ''bar'' d (\<lambda>r. r < 0) ts = Inr (test_cond d True ts)" for k d ts
    by (rule test_cmp_ok [OF a], simp, simp, rule compared, assumption+)+
  show ?thesis
    unfolding sds_test_main_def x0(1) x1(1) x2(1) x3(1) x4(1) e(1) x5(1) x6(1) x(1) use_sds_def bind_res.simps option.case Let_def
      rs r0 [OF ranges(4)] r0 [OF ranges(6)] cs eqTrueI [OF si(1)] eqTrueI [OF si(2)] eqTrueI [OF si(3)] eqTrueI [OF si(4)] eqTrueI [OF si(5)] eqTrueI [OF si(6)]
      eqTrueI [OF si(7)] sds_test_names_def foldl.simps ..
qed

section \<open>Properties\<close>

lemma test_cond_num: "test_num (foldl (\<lambda>ts d. test_cond d True ts) ts ds) = test_num ts + length ds
    \<and> failed_tests (foldl (\<lambda>ts d. test_cond d True ts) ts ds) = failed_tests ts"
  by (induction ds arbitrary: ts) (simp_all add: test_cond_def Let_def)

text \<open>With memory, the self test runs all its sixteen tests without a fault, and none fails.\<close>

theorem sds_self_test_passes:
  assumes "\<And>k. good_alloc (al k) \<and> al_total (al k)"
  shows "\<exists>ts. sds_test_main al = Inr ts \<and> test_num ts = 16 \<and> failed_tests ts = 0"
proof -
  have "length sds_test_names = 16" by (simp add: sds_test_names_def)
  with sds_test_ok [OF assms] test_cond_num [of no_tests sds_test_names] show ?thesis
    by (simp add: test_report_def no_tests_def Let_def)
qed

theorem sds_self_test_passes_witness:
  "\<exists>ts. sds_test_main (\<lambda>_. zero_alloc) = Inr ts \<and> test_num ts = 16 \<and> failed_tests ts = 0"
  by (rule sds_self_test_passes) (simp add: zero_alloc_total good_alloc_zero)

end
